(* ===== verification/Prelude.thy ===== *)
theory Prelude
  imports Main "HOL-Library.Word" "HOL-Library.AList" "HOL-Library.Multiset"
    "HOL-Library.Code_Target_Nat"
begin

text \<open>
  What the component theories share: the machine integers of the Rust code, the faults a Rust
  function can end in, the standard library's \<open>HashMap\<close> with its unspecified iteration order,
  byte slices, little-endian integers, and runs of a fallible step function.

  \<^item> \<open>u8\<close>, \<open>u16\<close>, \<open>u32\<close>, \<open>u64\<close> keep their width. A \<open>usize\<close> is a \<open>nat\<close>: on the 64-bit targets
    of the crate the sums the code forms (a 32-bit offset plus a datagram length, a length plus a
    configured increment) stay far below \<open>2 ^ 64\<close>; subtraction and division, which can go
    wrong at any size, are fallible operations here.
  \<^item> A panic is \<open>Inl f\<close> for a \<open>fault f\<close>. Arithmetic is the checked arithmetic of a build
    with overflow checks. \<open>No_return\<close> is the outcome of a loop that never ends.
  \<^item> An \<open>Instant\<close> or a \<open>Duration\<close> is a number of nanoseconds;
    \<open>Instant::duration_since\<close> saturates at zero, as subtraction on \<open>nat\<close> does.
  \<^item> A \<open>HashMap\<close> is an association list with distinct keys. Rust iterates over it in an order
    that differs from map to map, so every operation that iterates takes a function
    \<open>ord\<close> that permutes the keys.
\<close>

type_synonym u8 = "8 word"
type_synonym u16 = "16 word"
type_synonym u32 = "32 word"
type_synonym u64 = "64 word"
type_synonym bytes = "u8 list"
type_synonym instant = nat
type_synonym duration = nat

text \<open>Facts about the outcome of fallible code: bind, slices, loops.\<close>

named_theorems res_simps

text \<open>Keys are pairs (address, message id); quantifiers over keys stay whole.\<close>

declare split_paired_All [simp del] split_paired_Ex [simp del]

section \<open>Faults\<close>

datatype fault =
    Div_by_zero     \<comment> \<open>division by zero panics\<close>
  | Slice_range     \<comment> \<open>a slice index out of range panics\<close>
  | Sub_overflow    \<comment> \<open>unsigned subtraction below zero panics\<close>
  | No_return       \<comment> \<open>a loop that never ends\<close>

fun bind_res :: "fault + 'a \<Rightarrow> ('a \<Rightarrow> fault + 'b) \<Rightarrow> fault + 'b" where
  "bind_res (Inl e) f = Inl e"
| "bind_res (Inr x) f = f x"

lemma bind_res_Inr_iff [res_simps]:
  "bind_res r f = Inr y \<longleftrightarrow> (\<exists>x. r = Inr x \<and> f x = Inr y)"
  by (cases r) auto

lemma bind_res_Inl_iff:
  "bind_res r f = Inl e \<longleftrightarrow> r = Inl e \<or> (\<exists>x. r = Inr x \<and> f x = Inl e)"
  by (cases r) auto

lemma bind_res_cong [fundef_cong]:
  "r = r' \<Longrightarrow> (\<And>x. r' = Inr x \<Longrightarrow> f x = f' x) \<Longrightarrow> bind_res r f = bind_res r' f'"
  by (cases r') auto

definition usize_div :: "nat \<Rightarrow> nat \<Rightarrow> fault + nat" where
  "usize_div a b = (if b = 0 then Inl Div_by_zero else Inr (a div b))"

definition usize_sub :: "nat \<Rightarrow> nat \<Rightarrow> fault + nat" where
  "usize_sub a b = (if a < b then Inl Sub_overflow else Inr (a - b))"

definition div_ceil :: "nat \<Rightarrow> nat \<Rightarrow> fault + nat" where
  "div_ceil a b = (if b = 0 then Inl Div_by_zero else Inr (a div b + (if a mod b = 0 then 0 else 1)))"

definition as_u32 :: "nat \<Rightarrow> u32" where
  "as_u32 n = word_of_nat n"

text \<open>\<open>\&xs[s..e]\<close> and \<open>buf[s..s + p.len()].copy_from_slice(p)\<close>.\<close>

definition slice :: "'a list \<Rightarrow> nat \<Rightarrow> nat \<Rightarrow> fault + 'a list" where
  "slice xs s e = (if s \<le> e \<and> e \<le> length xs then Inr (take (e - s) (drop s xs)) else Inl Slice_range)"

definition copy_at :: "'a list \<Rightarrow> nat \<Rightarrow> 'a list \<Rightarrow> fault + 'a list" where
  "copy_at buf s p = (if s + length p \<le> length buf
     then Inr (take s buf @ p @ drop (s + length p) buf) else Inl Slice_range)"

lemma usize_div_Inr [res_simps]: "usize_div a b = Inr q \<longleftrightarrow> 0 < b \<and> q = a div b"
  by (auto simp: usize_div_def)

lemma usize_sub_Inr [res_simps]: "usize_sub a b = Inr d \<longleftrightarrow> b \<le> a \<and> d = a - b"
  by (auto simp: usize_sub_def)

lemma slice_Inr [res_simps]:
  "slice xs s e = Inr ys \<longleftrightarrow> s \<le> e \<and> e \<le> length xs \<and> ys = take (e - s) (drop s xs)"
  by (auto simp: slice_def)

lemma copy_at_Inr [res_simps]:
  "copy_at buf s p = Inr b \<longleftrightarrow>
     s + length p \<le> length buf \<and> b = take s buf @ p @ drop (s + length p) buf"
  by (auto simp: copy_at_def)

lemma copy_at_length: "copy_at buf s p = Inr b \<Longrightarrow> length b = length buf"
  by (auto simp: copy_at_Inr)

lemma copy_at_nth:
  "copy_at buf s p = Inr b \<Longrightarrow> i < length buf \<Longrightarrow>
     b ! i = (if s \<le> i \<and> i < s + length p then p ! (i - s) else buf ! i)"
  by (auto simp: copy_at_Inr nth_append min_def)

lemma unat_as_u32 [simp]: "n < 2 ^ 32 \<Longrightarrow> unat (as_u32 n) = n"
  by (simp add: as_u32_def unat_of_nat)

lemma as_u32_unat [simp]: "as_u32 (unat w) = w"
  by (simp add: as_u32_def)

lemma unat_u32_less: "unat (w :: u32) < 2 ^ 32"
  using unsigned_less [of w] by simp

lemma unat_u64_less: "unat (w :: u64) < 2 ^ 64"
  using unsigned_less [of w] by simp

lemma div_ceil_bounds: "div_ceil a b = Inr n \<Longrightarrow> 0 < b \<and> a \<le> n * b \<and> n * b < a + b"
proof -
  assume h: "div_ceil a b = Inr n"
  then have b: "0 < b" by (auto simp: div_ceil_def split: if_splits)
  have d: "a div b * b + a mod b = a" by simp
  have m: "a mod b < b" using b by simp
  have n: "n = a div b + (if a mod b = 0 then 0 else 1)"
    using h b by (auto simp: div_ceil_def split: if_splits)
  show ?thesis
  proof (cases "a mod b = 0")
    case True
    with d n b show ?thesis by simp
  next
    case False
    then have "n * b = a div b * b + b" using n by simp
    with d m b False show ?thesis by linarith
  qed
qed

section \<open>HashMap\<close>

text \<open>
  The interface of a key-value map that the client code relies on: lookup after \<open>insert\<close>
  and \<open>remove\<close>, and a key list without repetition that lists exactly the bound keys, whose
  length is \<open>len()\<close>.
\<close>

locale hash_map =
  fixes get :: "'m \<Rightarrow> 'k \<Rightarrow> 'v option"
    and put :: "'k \<Rightarrow> 'v \<Rightarrow> 'm \<Rightarrow> 'm"
    and del :: "'k \<Rightarrow> 'm \<Rightarrow> 'm"
    and keys :: "'m \<Rightarrow> 'k list"
    and ok :: "'m \<Rightarrow> bool"
  assumes get_put: "ok m \<Longrightarrow> get (put k v m) = (get m)(k \<mapsto> v)"
    and get_del: "ok m \<Longrightarrow> get (del k m) = (get m)(k := None)"
    and keys_get: "ok m \<Longrightarrow> set (keys m) = dom (get m)"
    and keys_distinct: "ok m \<Longrightarrow> distinct (keys m)"
    and ok_put: "ok m \<Longrightarrow> ok (put k v m)"
    and ok_del: "ok m \<Longrightarrow> ok (del k m)"
begin

lemma len_card: "ok m \<Longrightarrow> length (keys m) = card (dom (get m))"
  by (metis distinct_card keys_get keys_distinct)

lemma finite_dom: "ok m \<Longrightarrow> finite (dom (get m))"
  by (metis List.finite_set keys_get)

lemma len_put:
  "ok m \<Longrightarrow> length (keys (put k v m)) =
     (if get m k = None then Suc (length (keys m)) else length (keys m))"
  by (cases "get m k")
    (auto simp: len_card ok_put get_put finite_dom insert_absorb domI card_insert_if)

lemma len_del:
  "ok m \<Longrightarrow> length (keys (del k m)) = (if get m k = None then length (keys m) else length (keys m) - 1)"
  by (cases "get m k") (auto simp: len_card ok_del get_del finite_dom domI domIff)

lemma len_del_put_new:
  "ok m \<Longrightarrow> get m k = None \<Longrightarrow> length (keys (del k (put k v m))) = length (keys m)"
  by (simp add: len_del len_put ok_put get_put)

end

abbreviation hm_ok :: "('k \<times> 'v) list \<Rightarrow> bool" where
  "hm_ok m \<equiv> distinct (map fst m)"

abbreviation hm_keys :: "('k \<times> 'v) list \<Rightarrow> 'k list" where
  "hm_keys m \<equiv> map fst m"

interpretation hm: hash_map map_of AList.update AList.delete "map fst" "\<lambda>m. distinct (map fst m)"
  by unfold_locales
    (auto simp: update_conv' delete_conv' dom_map_of_conv_image_fst distinct_update distinct_delete)

text \<open>An iteration order lists the same keys as the map does, each once.\<close>

definition iter_order :: "('k list \<Rightarrow> 'k list) \<Rightarrow> bool" where
  "iter_order ord \<longleftrightarrow> (\<forall>ks. mset (ord ks) = mset ks)"

lemma iter_order_set: "iter_order ord \<Longrightarrow> set (ord ks) = set ks"
  by (metis iter_order_def set_mset_mset)

lemma iter_order_distinct: "iter_order ord \<Longrightarrow> distinct (ord ks) = distinct ks"
  by (metis iter_order_def mset_eq_imp_distinct_iff)

lemma iter_order_id [simp]: "iter_order (\<lambda>ks. ks)"
  by (simp add: iter_order_def)

lemma iter_order_rev [simp]: "iter_order rev"
  by (simp add: iter_order_def)

text \<open>A predicate on every entry of a map.\<close>

definition all_entries :: "('k \<Rightarrow> 'v \<Rightarrow> bool) \<Rightarrow> ('k \<times> 'v) list \<Rightarrow> bool" where
  "all_entries P m \<longleftrightarrow> (\<forall>k v. map_of m k = Some v \<longrightarrow> P k v)"

lemma all_entries_Nil [simp]: "all_entries P []"
  by (simp add: all_entries_def)

lemma all_entriesD: "all_entries P m \<Longrightarrow> map_of m k = Some v \<Longrightarrow> P k v"
  by (simp add: all_entries_def)

lemma all_entries_update: "all_entries P m \<Longrightarrow> P k v \<Longrightarrow> all_entries P (AList.update k v m)"
  by (simp add: all_entries_def update_conv')

lemma all_entries_delete: "all_entries P m \<Longrightarrow> all_entries P (AList.delete k m)"
  by (simp add: all_entries_def delete_conv')

lemma map_of_filter_distinct:
  "distinct (map fst m) \<Longrightarrow>
     map_of (filter Q m) k = (case map_of m k of None \<Rightarrow> None | Some v \<Rightarrow> if Q (k, v) then Some v else None)"
  by (induction m) (auto split: option.splits dest: map_of_SomeD simp: image_iff map_of_eq_None_iff)

lemma all_entries_filter:
  "distinct (map fst m) \<Longrightarrow> all_entries P m \<Longrightarrow> all_entries P (filter Q m)"
  by (auto simp: all_entries_def map_of_filter_distinct split: option.splits if_splits)

lemma hm_ok_filter: "hm_ok m \<Longrightarrow> hm_ok (filter Q m)"
  by (simp add: distinct_map_filter)

section \<open>The smallest elements of a list\<close>

lemma sorted_take_drop:
  "sorted (map f xs) \<Longrightarrow> x \<in> set (take k xs) \<Longrightarrow> y \<in> set (drop k xs) \<Longrightarrow> f x \<le> f y"
proof -
  assume h: "sorted (map f xs)" "x \<in> set (take k xs)" "y \<in> set (drop k xs)"
  have "sorted (map f (take k xs) @ map f (drop k xs))"
    using h(1) by (simp flip: map_append)
  with h(2,3) show ?thesis by (auto simp: sorted_append)
qed

lemma sort_key_take_least:
  "x \<in> set (take k (sort_key f xs)) \<Longrightarrow> y \<in> set xs \<Longrightarrow> y \<notin> set (take k (sort_key f xs)) \<Longrightarrow> f x \<le> f y"
proof -
  assume h: "x \<in> set (take k (sort_key f xs))" "y \<in> set xs" "y \<notin> set (take k (sort_key f xs))"
  have "y \<in> set (take k (sort_key f xs) @ drop k (sort_key f xs))" using h(2) by simp
  with h(3) have "y \<in> set (drop k (sort_key f xs))" by (simp only: set_append Un_iff) simp
  with h(1) show ?thesis by (intro sorted_take_drop [of f "sort_key f xs"]) simp_all
qed

section \<open>Little-endian integers\<close>

fun le_bytes :: "nat \<Rightarrow> nat \<Rightarrow> bytes" where
  "le_bytes 0 n = []"
| "le_bytes (Suc k) n = word_of_nat (n mod 256) # le_bytes k (n div 256)"

fun le_value :: "bytes \<Rightarrow> nat" where
  "le_value [] = 0"
| "le_value (b # bs) = unat b + 256 * le_value bs"

definition u64_to_le_bytes :: "u64 \<Rightarrow> bytes" where
  "u64_to_le_bytes w = le_bytes 8 (unat w)"

definition u32_to_le_bytes :: "u32 \<Rightarrow> bytes" where
  "u32_to_le_bytes w = le_bytes 4 (unat w)"

definition u64_from_le_bytes :: "bytes \<Rightarrow> u64" where
  "u64_from_le_bytes bs = word_of_nat (le_value bs)"

definition u32_from_le_bytes :: "bytes \<Rightarrow> u32" where
  "u32_from_le_bytes bs = word_of_nat (le_value bs)"

lemma length_le_bytes [simp]: "length (le_bytes k n) = k"
  by (induction k arbitrary: n) auto

lemma le_value_bytes: "le_value (le_bytes k n) = n mod 256 ^ k"
proof (induction k arbitrary: n)
  case (Suc k)
  have "n mod (256 * 256 ^ k) = 256 * (n div 256 mod 256 ^ k) + n mod 256"
    by (rule mod_mult2_eq)
  then show ?case using Suc by (simp add: unat_of_nat)
qed simp

lemma le_value_less: "le_value bs < 256 ^ length bs"
proof (induction bs)
  case (Cons b bs)
  have "unat b < 256" using unsigned_less [of b] by simp
  with Cons show ?case by simp
qed simp

lemma le_bytes_value: "length bs = k \<Longrightarrow> le_bytes k (le_value bs) = bs"
proof (induction bs arbitrary: k)
  case (Cons b bs)
  have "unat b < 256" using unsigned_less [of b] by simp
  with Cons show ?case by auto
qed auto

lemma u64_from_to_le [simp]: "u64_from_le_bytes (u64_to_le_bytes w) = w"
proof -
  have "unat w < 256 ^ 8" using unat_u64_less [of w] by simp
  then show ?thesis
    by (simp add: u64_from_le_bytes_def u64_to_le_bytes_def le_value_bytes)
qed

lemma u32_from_to_le [simp]: "u32_from_le_bytes (u32_to_le_bytes w) = w"
proof -
  have "unat w < 256 ^ 4" using unat_u32_less [of w] by simp
  then show ?thesis
    by (simp add: u32_from_le_bytes_def u32_to_le_bytes_def le_value_bytes)
qed

lemma u64_to_from_le: "length bs = 8 \<Longrightarrow> u64_to_le_bytes (u64_from_le_bytes bs) = bs"
  using le_value_less [of bs]
  by (simp add: u64_from_le_bytes_def u64_to_le_bytes_def unat_of_nat le_bytes_value)

lemma u32_to_from_le: "length bs = 4 \<Longrightarrow> u32_to_le_bytes (u32_from_le_bytes bs) = bs"
  using le_value_less [of bs]
  by (simp add: u32_from_le_bytes_def u32_to_le_bytes_def unat_of_nat le_bytes_value)

lemma length_to_le_bytes [simp]:
  "length (u64_to_le_bytes w) = 8" "length (u32_to_le_bytes v) = 4"
  by (simp_all add: u64_to_le_bytes_def u32_to_le_bytes_def)

text \<open>Ids that count up from 1 are different as long as the counter does not wrap around.\<close>

lemma id_inj:
  assumes "Suc k < 2 ^ 64" "Suc k' < 2 ^ 64"
  shows "(word_of_nat (Suc k) :: u64) = word_of_nat (Suc k') \<longleftrightarrow> k = k'"
proof -
  have "unat (word_of_nat (Suc j) :: u64) = Suc j" if "Suc j < 2 ^ 64" for j
    using that by (simp only: unat_of_nat len_num1 len_bit0 mod_less) simp
  with assms show ?thesis by (metis Suc_inject)
qed

section \<open>Runs of a fallible step function\<close>

text \<open>
  A component is driven by a list of events; a step gives the next state and the outputs it
  appends, or a fault, which ends the run.
\<close>

fun run_steps :: "('s \<Rightarrow> 'e \<Rightarrow> fault + ('s \<times> 'o list)) \<Rightarrow> 's \<Rightarrow> 'e list \<Rightarrow> fault + ('s \<times> 'o list)" where
  "run_steps step s [] = Inr (s, [])"
| "run_steps step s (e # es) =
     bind_res (step s e) (\<lambda>(s', os).
       bind_res (run_steps step s' es) (\<lambda>(s'', os'). Inr (s'', os @ os')))"

text \<open>
  The contract of a component: an invariant that every admissible event keeps, a property of
  the outputs, and admissible events never fault.
\<close>

locale machine =
  fixes step :: "'s \<Rightarrow> 'e \<Rightarrow> fault + ('s \<times> 'o list)"
    and inv :: "'s \<Rightarrow> bool"
    and adm :: "'e \<Rightarrow> bool"
    and good :: "'o \<Rightarrow> bool"
  assumes step_inv: "inv s \<Longrightarrow> adm e \<Longrightarrow> step s e = Inr (s', os) \<Longrightarrow> inv s'"
    and step_good: "inv s \<Longrightarrow> adm e \<Longrightarrow> step s e = Inr (s', os) \<Longrightarrow> list_all good os"
begin

lemma run_inv_good:
  "inv s \<Longrightarrow> list_all adm es \<Longrightarrow> run_steps step s es = Inr (s', os) \<Longrightarrow> inv s' \<and> list_all good os"
proof (induction es arbitrary: s os)
  case (Cons e es)
  from Cons.prems(3) obtain t os1 os2 where
    st: "step s e = Inr (t, os1)" and run: "run_steps step t es = Inr (s', os2)"
    and os: "os = os1 @ os2"
    by (auto simp: bind_res_Inr_iff)
  from Cons.prems st have "inv t" "list_all good os1"
    by (auto intro: step_inv step_good)
  with Cons.IH [OF _ _ run] Cons.prems(2) show ?case
    by (simp add: os)
qed simp

end

locale total_machine = machine +
  assumes step_total: "inv s \<Longrightarrow> adm e \<Longrightarrow> \<exists>r. step s e = Inr r"
begin

lemma run_total: "inv s \<Longrightarrow> list_all adm es \<Longrightarrow> \<exists>r. run_steps step s es = Inr r"
proof (induction es arbitrary: s)
  case (Cons e es)
  then obtain t os1 where st: "step s e = Inr (t, os1)"
    using step_total [of s e] by auto
  with Cons.prems have "inv t" by (auto intro: step_inv)
  with Cons obtain r where "run_steps step t es = Inr r" by fastforce
  then show ?case using st by (cases r) auto
qed simp

end

lemma run_steps_append:
  "run_steps step s (es @ fs) =
     bind_res (run_steps step s es) (\<lambda>(s', os).
       bind_res (run_steps step s' fs) (\<lambda>(s'', os'). Inr (s'', os @ os')))"
proof (induction es arbitrary: s)
  case Nil
  then show ?case by (cases "run_steps step s fs") auto
next
  case (Cons e es)
  show ?case
  proof (cases "step s e")
    case (Inr r)
    obtain t os where r: "r = (t, os)" by (cases r)
    show ?thesis
      by (cases "run_steps step t es"; simp add: Inr r Cons split: prod.splits)
        (cases "run_steps step (fst (projr (run_steps step t es))) fs"; auto)
  qed simp
qed

text \<open>
  A property of the state together with the events and the outputs so far, kept by every step.
\<close>

locale history =
  fixes step :: "'s \<Rightarrow> 'e \<Rightarrow> fault + ('s \<times> 'o list)"
    and hist :: "'s \<Rightarrow> 'e list \<Rightarrow> 'o list \<Rightarrow> bool"
  assumes step_hist: "hist s es os \<Longrightarrow> step s e = Inr (s', os') \<Longrightarrow> hist s' (es @ [e]) (os @ os')"
begin

lemma run_hist:
  "hist s es0 os0 \<Longrightarrow> run_steps step s es = Inr (s', os) \<Longrightarrow> hist s' (es0 @ es) (os0 @ os)"
proof (induction es arbitrary: s es0 os0 os)
  case (Cons e es)
  from Cons.prems(2) obtain t os1 os2 where st: "step s e = Inr (t, os1)"
    and run: "run_steps step t es = Inr (s', os2)" and os: "os = os1 @ os2"
    by (auto simp: bind_res_Inr_iff)
  from Cons.IH [OF step_hist [OF Cons.prems(1) st] run] show ?case by (simp add: os)
qed simp

end

end
