(* ===== verification/Types.thy ===== *)
theory Types
  imports Prelude
begin

text \<open>
  The data types of \<^verbatim>\<open>src/transport/mod.rs\<close> that the state machines share: socket
  addresses (the standard library's \<open>SocketAddr\<close>), \<open>TransportConfig\<close> with its default,
  \<open>Action\<close>, and the \<open>io::Error\<close> values the crate constructs.
\<close>

datatype sockaddr =
    V4 u32 u16                    \<comment> \<open>address, port\<close>
  | V6 "128 word" u16 u32 u32     \<comment> \<open>address, port, flow info, scope id\<close>

text \<open>127.0.0.1 with a port, the address the crate's tests use.\<close>

definition localhost :: "u16 \<Rightarrow> sockaddr" where
  "localhost port = V4 0x7F000001 port"

lemma localhost_eq [simp]: "localhost p = localhost q \<longleftrightarrow> p = q"
  by (simp add: localhost_def)

type_synonym msg_key = "sockaddr \<times> u64"

text \<open>\<open>OsError\<close> stands for the kinds that only the operating system reports, by their number.\<close>

datatype error_kind = InvalidData | InvalidInput | TimedOut | WouldBlock | OsError nat

datatype io_error = IoError error_kind string

definition from_millis :: "nat \<Rightarrow> duration" where
  "from_millis n = n * 1000000"

definition from_secs :: "nat \<Rightarrow> duration" where
  "from_secs n = n * 1000000000"

record transport_config =
  packet_size :: nat
  unscheduled_bytes :: nat
  grant_increment :: nat
  resend_timeout :: duration
  grant_timeout :: duration
  poke_timeout :: duration
  linger :: duration
  send_timeout :: duration
  max_incoming :: nat
  overcommit :: nat
  starve_threshold :: duration
  socket_buf :: nat

definition default_config :: transport_config where
  "default_config = \<lparr>
     packet_size = 1200,
     unscheduled_bytes = 10240,
     grant_increment = 65536,
     resend_timeout = from_millis 20,
     grant_timeout = from_millis 40,
     poke_timeout = from_millis 50,
     linger = from_secs 5,
     send_timeout = from_secs 30,
     max_incoming = 1024,
     overcommit = 2,
     starve_threshold = from_millis 200,
     socket_buf = 8 * 2 ^ 20\<rparr>"

text \<open>A configuration with small windows, for the examples.\<close>

definition small_config :: transport_config where
  "small_config = default_config\<lparr>packet_size := 4, unscheduled_bytes := 6, grant_increment := 11, max_incoming := 2\<rparr>"

lemma small_config_simps [simp]:
  "packet_size small_config = 4" "unscheduled_bytes small_config = 6" "grant_increment small_config = 11"
  "max_incoming small_config = 2"
  by (simp_all add: small_config_def)

datatype action =
    Send sockaddr bytes                \<comment> \<open>\<open>Send { dest, bytes }\<close>\<close>
  | Deliver sockaddr u64 bytes         \<comment> \<open>\<open>Deliver { src, msg_id, data }\<close>\<close>

fun sends :: "action list \<Rightarrow> (sockaddr \<times> bytes) list" where
  "sends [] = []"
| "sends (Send d b # as) = (d, b) # sends as"
| "sends (Deliver s i x # as) = sends as"

fun delivers :: "action list \<Rightarrow> (msg_key \<times> bytes) list" where
  "delivers [] = []"
| "delivers (Send d b # as) = delivers as"
| "delivers (Deliver s i x # as) = ((s, i), x) # delivers as"

lemma sends_append [simp]: "sends (as @ bs) = sends as @ sends bs"
  by (induction as rule: sends.induct) auto

lemma delivers_append [simp]: "delivers (as @ bs) = delivers as @ delivers bs"
  by (induction as rule: delivers.induct) auto

lemma in_sends_iff: "(d, b) \<in> set (sends as) \<longleftrightarrow> Send d b \<in> set as"
  by (induction as rule: sends.induct) auto

lemma in_delivers_iff: "((s, i), x) \<in> set (delivers as) \<longleftrightarrow> Deliver s i x \<in> set as"
  by (induction as rule: delivers.induct) auto

end
