(* ===== verification/Packet.thy ===== *)
theory Packet
  imports Types
begin

text \<open>
  The wire format of \<^verbatim>\<open>src/transport/packet.rs\<close>: a 22-byte little-endian header and a
  payload. The lemmas show that \<open>decode\<close> accepts exactly the datagrams \<open>encode\<close>
  produces from a well-formed packet, and that each is the inverse of the other.
\<close>

section \<open>Packets\<close>

definition HEADER_LEN :: nat where
  "HEADER_LEN = 22"

datatype packet_type = Data | Grant | Resend | Busy

text \<open>\<open>typ as u8\<close>, by the discriminants of the \<open>repr(u8)\<close> enum.\<close>

fun type_code :: "packet_type \<Rightarrow> u8" where
  "type_code Data = 0"
| "type_code Grant = 1"
| "type_code Resend = 2"
| "type_code Busy = 3"

definition from_u8 :: "u8 \<Rightarrow> packet_type option" where
  "from_u8 v =
     (if v = 0 then Some Data
      else if v = 1 then Some Grant
      else if v = 2 then Some Resend
      else if v = 3 then Some Busy
      else None)"

record packet =
  pkt_typ :: packet_type
  pkt_priority :: u8
  pkt_msg_id :: u64
  pkt_msg_len :: u32
  pkt_offset :: u32
  pkt_length :: u32

definition packet_new :: "packet_type \<Rightarrow> u8 \<Rightarrow> u64 \<Rightarrow> u32 \<Rightarrow> u32 \<Rightarrow> u32 \<Rightarrow> packet" where
  "packet_new t p i ml off len =
     \<lparr>pkt_typ = t, pkt_priority = p, pkt_msg_id = i, pkt_msg_len = ml, pkt_offset = off, pkt_length = len\<rparr>"

definition encode :: "packet \<Rightarrow> bytes \<Rightarrow> bytes" where
  "encode p payload =
     [type_code (pkt_typ p), pkt_priority p]
     @ u64_to_le_bytes (pkt_msg_id p)
     @ u32_to_le_bytes (pkt_msg_len p)
     @ u32_to_le_bytes (pkt_offset p)
     @ u32_to_le_bytes (pkt_length p)
     @ payload"

definition decode :: "bytes \<Rightarrow> io_error + (packet \<times> bytes)" where
  "decode datagram =
     (if length datagram < HEADER_LEN
      then Inl (IoError InvalidData ''datagram too short for header'')
      else case from_u8 (datagram ! 0) of
        None \<Rightarrow> Inl (IoError InvalidData ''unknown packet type'')
      | Some t \<Rightarrow>
          let prio = datagram ! 1;
              mid = u64_from_le_bytes (take 8 (drop 2 datagram));
              mlen = u32_from_le_bytes (take 4 (drop 10 datagram));
              off = u32_from_le_bytes (take 4 (drop 14 datagram));
              len = u32_from_le_bytes (take 4 (drop 18 datagram));
              pkt = \<lparr>pkt_typ = t, pkt_priority = prio, pkt_msg_id = mid, pkt_msg_len = mlen,
                     pkt_offset = off, pkt_length = len\<rparr>;
              payload = drop HEADER_LEN datagram
          in if pkt_typ pkt = Data \<and> length payload \<noteq> unat len
             then Inl (IoError InvalidData ''DATA payload length mismatch'')
             else Inr (pkt, payload))"

text \<open>What a packet and its payload must satisfy on the wire: a DATA header states its payload's length.\<close>

definition wire_ok :: "packet \<Rightarrow> bytes \<Rightarrow> bool" where
  "wire_ok p payload \<longleftrightarrow> (pkt_typ p = Data \<longrightarrow> length payload = unat (pkt_length p))"

section \<open>Round trips\<close>

lemma packet_new_simps [simp]:
  "pkt_typ (packet_new t p i ml off len) = t"
  "pkt_priority (packet_new t p i ml off len) = p"
  "pkt_msg_id (packet_new t p i ml off len) = i"
  "pkt_msg_len (packet_new t p i ml off len) = ml"
  "pkt_offset (packet_new t p i ml off len) = off"
  "pkt_length (packet_new t p i ml off len) = len"
  by (simp_all add: packet_new_def)

lemma from_u8_type_code [simp]: "from_u8 (type_code t) = Some t"
  by (cases t) (simp_all add: from_u8_def)

lemma type_code_0 [simp]: "type_code t = 0 \<longleftrightarrow> t = Data"
  by (cases t) simp_all

lemma type_code_le: "unat (type_code t) \<le> 3"
  by (cases t) simp_all

lemma from_u8_Some: "from_u8 v = Some t \<longleftrightarrow> v = type_code t"
  by (cases t) (auto simp: from_u8_def)

lemma from_u8_None: "from_u8 v = None \<longleftrightarrow> 3 < unat v"
proof -
  have "v = word_of_nat n \<longleftrightarrow> unat v = n" if "n < 256" for n
    using that by (auto simp: unat_of_nat)
  from this [of 0] this [of 1] this [of 2] this [of 3] show ?thesis
    by (auto simp: from_u8_def)
qed

lemma length_encode [simp]: "length (encode p payload) = HEADER_LEN + length payload"
  by (simp add: encode_def HEADER_LEN_def)

lemma encode_nth:
  "encode p payload ! 0 = type_code (pkt_typ p)"
  "encode p payload ! Suc 0 = pkt_priority p"
  by (simp_all add: encode_def)

lemma encode_fields:
  "take 8 (drop 2 (encode p payload)) = u64_to_le_bytes (pkt_msg_id p)"
  "take 4 (drop 10 (encode p payload)) = u32_to_le_bytes (pkt_msg_len p)"
  "take 4 (drop 14 (encode p payload)) = u32_to_le_bytes (pkt_offset p)"
  "take 4 (drop 18 (encode p payload)) = u32_to_le_bytes (pkt_length p)"
  "drop HEADER_LEN (encode p payload) = payload"
  by (simp_all add: encode_def HEADER_LEN_def)

lemma decode_encode_id: "wire_ok p payload \<Longrightarrow> decode (encode p payload) = Inr (p, payload)"
  by (simp add: decode_def encode_fields encode_nth wire_ok_def Let_def)

lemma split_header:
  assumes "HEADER_LEN \<le> length d"
  shows "d = [d ! 0, d ! 1] @ take 8 (drop 2 d) @ take 4 (drop 10 d) @ take 4 (drop 14 d)
             @ take 4 (drop 18 d) @ drop HEADER_LEN d"
proof -
  have cut: "drop n d = take k (drop n d) @ drop (k + n) d" for k n
    by (metis append_take_drop_id drop_drop)
  have "take 2 d = [d ! 0, d ! 1]"
    using assms by (cases d; cases "tl d") (auto simp: HEADER_LEN_def numeral_2_eq_2)
  with cut [of 0 2] cut [of 2 8] cut [of 10 4] cut [of 14 4] cut [of 18 4] show ?thesis
    by (simp add: HEADER_LEN_def)
qed

lemma decode_Inr:
  "decode d = Inr (p, payload) \<longleftrightarrow>
     HEADER_LEN \<le> length d \<and> from_u8 (d ! 0) = Some (pkt_typ p) \<and> pkt_priority p = d ! 1
     \<and> pkt_msg_id p = u64_from_le_bytes (take 8 (drop 2 d))
     \<and> pkt_msg_len p = u32_from_le_bytes (take 4 (drop 10 d))
     \<and> pkt_offset p = u32_from_le_bytes (take 4 (drop 14 d))
     \<and> pkt_length p = u32_from_le_bytes (take 4 (drop 18 d))
     \<and> payload = drop HEADER_LEN d \<and> wire_ok p payload"
  by (cases p) (auto simp: decode_def Let_def wire_ok_def split: option.splits)

lemma encode_decode_id:
  assumes "decode d = Inr (p, payload)"
  shows "encode p payload = d \<and> wire_ok p payload"
proof -
  note h = assms [unfolded decode_Inr]
  from h have len: "22 \<le> length d" by (simp add: HEADER_LEN_def)
  from h have "type_code (pkt_typ p) = d ! 0" by (simp add: from_u8_Some)
  with h len have "encode p payload = [d ! 0, d ! 1] @ take 8 (drop 2 d) @ take 4 (drop 10 d)
      @ take 4 (drop 14 d) @ take 4 (drop 18 d) @ drop HEADER_LEN d"
    by (simp add: encode_def u64_to_from_le u32_to_from_le)
  also have "\<dots> = d" using h by (intro split_header [symmetric]) simp
  finally show ?thesis using h by (auto simp: wire_ok_def)
qed

text \<open>The value of the length field.\<close>

lemma length_field_value:
  assumes "\<not> length d < HEADER_LEN"
  shows "unat (u32_from_le_bytes (take 4 (drop 18 d))) = le_value (take 4 (drop 18 d))"
proof -
  have "length (take 4 (drop 18 d)) = 4" using assms by (simp add: HEADER_LEN_def)
  then show ?thesis using le_value_less [of "take 4 (drop 18 d)"]
    by (simp add: u32_from_le_bytes_def unat_of_nat)
qed

section \<open>Properties\<close>

text \<open>
  C21: \<open>decode\<close> is exactly the inverse of \<open>encode\<close>: a datagram decodes to a header and payload
  if and only if it is their encoding and a DATA header states the payload's length.
\<close>

theorem decode_iff_encode:
  "decode d = Inr (p, payload) \<longleftrightarrow> d = encode p payload \<and> wire_ok p payload"
  using decode_encode_id encode_decode_id by metis

text \<open>
  C32: The complete error behaviour of \<open>decode\<close>: which datagrams are refused, and with which
  message, in the order of the checks; every error is of kind \<open>InvalidData\<close>.
\<close>

theorem decode_errors:
  "decode d = Inl (IoError k msg) \<longleftrightarrow> k = InvalidData \<and>
     (if length d < HEADER_LEN then msg = ''datagram too short for header''
      else if 3 < unat (d ! 0) then msg = ''unknown packet type''
      else d ! 0 = type_code Data \<and> length d - HEADER_LEN \<noteq> le_value (take 4 (drop 18 d))
           \<and> msg = ''DATA payload length mismatch'')"
proof (cases "length d < HEADER_LEN")
  case True
  then show ?thesis by (auto simp: decode_def)
next
  case False
  note len = length_field_value [OF False]
  show ?thesis
  proof (cases "from_u8 (d ! 0)")
    case None
    then have "3 < unat (d ! 0)" by (simp add: from_u8_None)
    moreover have "decode d = Inl (IoError InvalidData ''unknown packet type'')"
      using False None by (simp add: decode_def)
    ultimately show ?thesis using False by auto
  next
    case (Some t)
    then have "d ! 0 = type_code t" by (simp add: from_u8_Some)
    with False Some len type_code_le [of t] show ?thesis by (auto simp: decode_def Let_def)
  qed
qed

end
