(* ===== verification/Priority.thy ===== *)
theory Priority
  imports Packet
begin

text \<open>
  The eight priority levels of \<^verbatim>\<open>src/transport/priority.rs\<close>: a message's level is the
  first threshold that its length does not exceed, so shorter messages get a smaller (more
  urgent) level.
\<close>

definition NUM_PRIORITIES :: u8 where
  "NUM_PRIORITIES = 8"

definition THRESHOLDS :: "nat list" where
  "THRESHOLDS = [100, 1000, 10000, 100000, 1000000, 10000000, 100000000, 2 ^ 64 - 1]"

text \<open>The \<open>for\<close> loop over the enumerated thresholds, from index \<open>i\<close>.\<close>

fun prio_loop :: "nat \<Rightarrow> nat list \<Rightarrow> nat \<Rightarrow> u8" where
  "prio_loop i [] len = NUM_PRIORITIES - 1"
| "prio_loop i (upper # us) len = (if len \<le> upper then word_of_nat i else prio_loop (Suc i) us len)"

definition priority_for_len :: "nat \<Rightarrow> u8" where
  "priority_for_len len = prio_loop 0 THRESHOLDS (len mod 2 ^ 64)"

text \<open>
  The specification: the level is the number of thresholds below the length. The last
  threshold is \<open>u64::MAX\<close>, so the value after the loop is never used.
\<close>

lemma prio_loop_count:
  "sorted us \<Longrightarrow> us \<noteq> [] \<Longrightarrow> len \<le> last us \<Longrightarrow> i + length us \<le> 256 \<Longrightarrow>
     unat (prio_loop i us len) = i + length (filter (\<lambda>u. u < len) us)"
proof (induction us arbitrary: i)
  case (Cons u us)
  show ?case
  proof (cases "len \<le> u")
    case True
    with Cons.prems(1) have "filter (\<lambda>u. u < len) us = []"
      by (auto simp: filter_empty_conv)
    with True Cons.prems(4) show ?thesis by (simp add: unat_of_nat)
  next
    case False
    with Cons.prems have "us \<noteq> []" by auto
    with False Cons show ?thesis by simp
  qed
qed simp

lemma priority_count:
  assumes "len < 2 ^ 64"
  shows "unat (priority_for_len len) = length (filter (\<lambda>u. u < len) THRESHOLDS)"
proof -
  have "len \<le> last THRESHOLDS" using assms by (simp add: THRESHOLDS_def)
  moreover have "sorted THRESHOLDS" "THRESHOLDS \<noteq> []" "0 + length THRESHOLDS \<le> 256"
    by (simp_all add: THRESHOLDS_def)
  ultimately have "unat (prio_loop 0 THRESHOLDS len) = 0 + length (filter (\<lambda>u. u < len) THRESHOLDS)"
    by (intro prio_loop_count)
  then show ?thesis using assms by (simp add: priority_for_len_def)
qed

lemma priority_less: "unat (priority_for_len len) < 8"
proof -
  have "priority_for_len len = priority_for_len (len mod 2 ^ 64)"
    by (simp add: priority_for_len_def)
  moreover have "length (filter (\<lambda>u. u < len mod 2 ^ 64) THRESHOLDS) < 8"
    by (simp add: THRESHOLDS_def)
  ultimately show ?thesis
    using priority_count [of "len mod 2 ^ 64"] by simp
qed

lemma length_filter_mono:
  "(\<And>x. P x \<Longrightarrow> Q x) \<Longrightarrow> length (filter P xs) \<le> length (filter Q xs)"
  by (induction xs) auto

lemma priority_mono:
  assumes "m \<le> n" "n < 2 ^ 64"
  shows "unat (priority_for_len m) \<le> unat (priority_for_len n)"
proof -
  have "length (filter (\<lambda>u. u < m) THRESHOLDS) \<le> length (filter (\<lambda>u. u < n) THRESHOLDS)"
    using assms(1) by (intro length_filter_mono) simp
  then show ?thesis using assms by (simp add: priority_count)
qed

lemma priority_level_iff:
  assumes "len < 2 ^ 64" "i < 8"
  shows "unat (priority_for_len len) \<le> i \<longleftrightarrow> len \<le> THRESHOLDS ! i"
proof -
  have "i = 0 \<or> i = 1 \<or> i = 2 \<or> i = 3 \<or> i = 4 \<or> i = 5 \<or> i = 6 \<or> i = 7"
    using assms(2) by arith
  then show ?thesis
    using assms(1) unfolding priority_count [OF assms(1)]
    by (elim disjE) (simp_all add: THRESHOLDS_def)
qed

section \<open>Properties\<close>

text \<open>
  A message gets level \<open>i\<close> or a more urgent one exactly when its length is within the
  \<open>i\<close>-th threshold.
\<close>

lemma priority_levels:
  assumes "len < 2 ^ 64" "i < 8"
  shows "unat (priority_for_len len) \<le> i \<longleftrightarrow> len \<le> THRESHOLDS ! i"
  by (rule priority_level_iff [OF assms])

lemma priority_levels_witness:
  "unat (priority_for_len 5000) \<le> 2 \<longleftrightarrow> 5000 \<le> THRESHOLDS ! 2"
  by (rule priority_levels) simp_all

text \<open>
  Every length has one of the eight levels, and a shorter message never has a less urgent
  level than a longer one.
\<close>

lemma priority_monotone:
  assumes "m \<le> n" "n < 2 ^ 64"
  shows "unat (priority_for_len m) \<le> unat (priority_for_len n) \<and> unat (priority_for_len n) < unat NUM_PRIORITIES"
  using priority_mono [OF assms] priority_less [of n] by (simp add: NUM_PRIORITIES_def)

end
