(* ===== verification/TxQueue.thy ===== *)
theory TxQueue
  imports Priority
begin

text \<open>
  The send queues of \<^verbatim>\<open>src/transport/txqueue.rs\<close>: eight FIFO queues, one per priority
  level, filled by \<open>classify\<close> and emptied highest level first by \<open>pop_batch\<close>. The
  abstract view is one list, the queues in service order; \<open>pop_batch\<close> takes a prefix
  of it. The locale states what a sender of packets relies on.
\<close>

section \<open>The queues\<close>

type_synonym datagram = "sockaddr \<times> bytes"

definition FLUSH_BUDGET :: nat where
  "FLUSH_BUDGET = 256"

record tx_queues =
  queues :: "datagram list list"

definition txq_new :: tx_queues where
  "txq_new = \<lparr>queues = replicate (unat NUM_PRIORITIES) []\<rparr>"

text \<open>\<open>bytes[1].min(NUM_PRIORITIES - 1) as usize\<close>.\<close>

definition prio_index :: "bytes \<Rightarrow> nat" where
  "prio_index b = unat (min (b ! 1) (NUM_PRIORITIES - 1))"

definition classify :: "tx_queues \<Rightarrow> sockaddr \<Rightarrow> bytes \<Rightarrow> tx_queues \<times> datagram option" where
  "classify t dest b =
     (if 2 \<le> length b \<and> b ! 0 = type_code Data
      then let prio = prio_index b
           in (t\<lparr>queues := (queues t)[prio := queues t ! prio @ [(dest, b)]]\<rparr>, None)
      else (t, Some (dest, b)))"

text \<open>The \<open>while\<close> loop over one queue, then the \<open>for\<close> loop over all of them.\<close>

fun drain_queue :: "nat \<Rightarrow> 'a list \<Rightarrow> 'a list \<Rightarrow> 'a list \<times> 'a list" where
  "drain_queue budget [] out = ([], out)"
| "drain_queue budget (x # q) out =
     (if length out < budget then drain_queue budget q (out @ [x]) else (x # q, out))"

fun drain_queues :: "nat \<Rightarrow> 'a list list \<Rightarrow> 'a list \<Rightarrow> 'a list list \<times> 'a list" where
  "drain_queues budget [] out = ([], out)"
| "drain_queues budget (q # qs) out =
     (let (q', out') = drain_queue budget q out
      in if budget \<le> length out' then (q' # qs, out')
         else let (qs', out'') = drain_queues budget qs out' in (q' # qs', out''))"

definition pop_batch :: "tx_queues \<Rightarrow> nat \<Rightarrow> tx_queues \<times> datagram list" where
  "pop_batch t budget =
     (let (qs, out) = drain_queues budget (queues t) [] in (t\<lparr>queues := qs\<rparr>, out))"

definition txq_is_empty :: "tx_queues \<Rightarrow> bool" where
  "txq_is_empty t = list_all (\<lambda>q. q = []) (queues t)"

definition backlog :: "tx_queues \<Rightarrow> nat" where
  "backlog t = sum_list (map length (queues t))"

section \<open>Well-formed queues and their contents\<close>

text \<open>
  Eight queues, each holding only DATA packets of its own level; the contents in service order.
\<close>

definition txq_ok :: "tx_queues \<Rightarrow> bool" where
  "txq_ok t \<longleftrightarrow> length (queues t) = 8 \<and>
     (\<forall>i < 8. \<forall>(d, b) \<in> set (queues t ! i). 2 \<le> length b \<and> b ! 0 = type_code Data \<and> prio_index b = i)"

definition contents :: "tx_queues \<Rightarrow> datagram list" where
  "contents t = concat (queues t)"

lemma prio_index_less: "prio_index b < 8"
proof -
  have "min (b ! 1) (7 :: u8) \<le> 7" by simp
  then have "unat (min (b ! 1) (7 :: u8)) \<le> unat (7 :: u8)"
    by (rule word_le_nat_alt [THEN iffD1])
  then show ?thesis by (simp add: prio_index_def NUM_PRIORITIES_def)
qed

lemma txq_ok_new [simp]: "txq_ok txq_new"
  by (simp add: txq_ok_def txq_new_def NUM_PRIORITIES_def)

lemma contents_new [simp]: "contents txq_new = []"
  by (simp add: contents_def txq_new_def)

lemma drain_queue_take:
  "drain_queue b q out = (drop (b - length out) q, out @ take (b - length out) q)"
proof (induction b q out rule: drain_queue.induct)
  case (2 b x q out)
  have "b - length out = Suc (b - Suc (length out))" if "length out < b"
    using that by simp
  with 2 show ?case by simp
qed simp

lemma drain_queues_take:
  "drain_queues b qs out = (qs', out') \<Longrightarrow>
     out' = out @ take (b - length out) (concat qs) \<and> concat qs' = drop (b - length out) (concat qs)"
proof (induction b qs out arbitrary: qs' out' rule: drain_queues.induct)
  case (2 b q qs out)
  let ?n = "b - length out"
  show ?case
  proof (cases "?n \<le> length q")
    case True
    then have "b \<le> length (out @ take ?n q)" by simp
    with "2.prems" True show ?thesis by (simp add: drain_queue_take) auto
  next
    case False
    then have o: "drain_queue b q out = ([], out @ q)" by (simp add: drain_queue_take)
    obtain qs1 out1 where r: "drain_queues b qs (out @ q) = (qs1, out1)" by force
    have long: "\<not> b \<le> length out + length q" using False by simp
    then have "out1 = (out @ q) @ take (b - length (out @ q)) (concat qs)
        \<and> concat qs1 = drop (b - length (out @ q)) (concat qs)"
      using "2.IH" [OF o [symmetric] refl _ r] by simp
    with "2.prems" o r long show ?thesis by (auto simp: Let_def)
  qed
qed simp

lemma drain_queues_drops:
  "drain_queues b qs out = (qs', out') \<Longrightarrow>
     list_all2 (\<lambda>q q'. \<exists>n. q' = drop n q) qs qs'"
proof (induction b qs out arbitrary: qs' out' rule: drain_queues.induct)
  case (2 b q qs out)
  have same: "list_all2 (\<lambda>q q'. \<exists>n. q' = drop n q) xs xs" for xs :: "'a list list"
    by (induction xs) (auto intro: exI [of _ 0])
  show ?case
    using 2 by (auto simp: drain_queue_take Let_def same split: if_splits prod.splits)
qed simp

lemma pop_batch_take:
  "snd (pop_batch t b) = take b (contents t) \<and> contents (fst (pop_batch t b)) = drop b (contents t)"
  by (auto simp: pop_batch_def contents_def split: prod.splits dest: drain_queues_take)

lemma pop_batch_ok: "txq_ok t \<Longrightarrow> txq_ok (fst (pop_batch t b))"
proof -
  assume ok: "txq_ok t"
  obtain qs out where d: "drain_queues b (queues t) [] = (qs, out)" by force
  then have all: "list_all2 (\<lambda>q q'. \<exists>n. q' = drop n q) (queues t) qs"
    by (rule drain_queues_drops)
  then have "length qs = 8" using ok by (auto simp: txq_ok_def dest: list_all2_lengthD)
  moreover have "set (qs ! i) \<subseteq> set (queues t ! i)" if "i < 8" for i
    using list_all2_nthD [OF all, of i] ok that by (auto simp: txq_ok_def dest: in_set_dropD)
  ultimately show ?thesis
    using ok d by (fastforce simp: pop_batch_def txq_ok_def)
qed

lemma classify_None:
  "snd (classify t d b) = None \<longleftrightarrow> 2 \<le> length b \<and> b ! 0 = type_code Data"
  by (auto simp: classify_def Let_def)

lemma classify_ok: "txq_ok t \<Longrightarrow> txq_ok (fst (classify t d b))"
  using prio_index_less [of b] by (auto simp: classify_def txq_ok_def Let_def nth_list_update)

lemma mset_concat_update:
  "i < length qs \<Longrightarrow> mset (concat (qs[i := qs ! i @ [x]])) = add_mset x (mset (concat qs))"
  by (induction qs arbitrary: i) (auto split: nat.splits)

lemma classify_mset:
  "txq_ok t \<Longrightarrow> mset (contents (fst (classify t d b))) + mset (case snd (classify t d b) of None \<Rightarrow> [] | Some x \<Rightarrow> [x])
     = add_mset (d, b) (mset (contents t))"
  using prio_index_less [of b]
  by (auto simp: classify_def contents_def txq_ok_def Let_def mset_concat_update)

lemma backlog_contents: "backlog t = length (contents t)"
  by (simp add: backlog_def contents_def length_concat)

lemma is_empty_contents: "txq_is_empty t \<longleftrightarrow> contents t = []"
  by (auto simp: txq_is_empty_def contents_def list_all_iff)

section \<open>Levels\<close>

definition level :: "datagram \<Rightarrow> nat" where
  "level x = prio_index (snd x)"

lemma filter_concat_index:
  "\<forall>j < length qs. \<forall>x \<in> set (qs ! j). f x = j + k \<Longrightarrow> i < length qs \<Longrightarrow>
     filter (\<lambda>x. f x = i + k) (concat qs) = qs ! i"
proof (induction qs arbitrary: i k)
  case (Cons q qs)
  have q: "\<forall>x \<in> set q. f x = k" using Cons.prems(1) by force
  have qs: "\<forall>j < length qs. \<forall>x \<in> set (qs ! j). f x = j + Suc k" using Cons.prems(1) by force
  show ?case
  proof (cases i)
    case 0
    have "\<forall>x \<in> set (concat qs). k < f x" using qs by (force simp: in_set_conv_nth)
    then have "filter (\<lambda>x. f x = k) (concat qs) = []" by (auto simp: filter_empty_conv)
    moreover have "filter (\<lambda>x. f x = k) q = q" using q by (simp add: filter_id_conv)
    ultimately show ?thesis using 0 by simp
  next
    case (Suc i')
    then have "filter (\<lambda>x. f x = i + k) q = []" using q by (auto simp: filter_empty_conv)
    with Cons.IH [OF qs, of i'] Cons.prems(2) Suc show ?thesis by simp
  qed
qed simp

lemma sorted_concat_index:
  "\<forall>j < length qs. \<forall>x \<in> set (qs ! j). f x = j + k \<Longrightarrow> sorted (map f (concat qs)) \<and> (\<forall>x \<in> set (concat qs). k \<le> f x)"
proof (induction qs arbitrary: k)
  case (Cons q qs)
  have q: "\<forall>x \<in> set q. f x = k" using Cons.prems by force
  have "\<forall>j < length qs. \<forall>x \<in> set (qs ! j). f x = j + Suc k" using Cons.prems by force
  from Cons.IH [OF this] have qs: "sorted (map f (concat qs))" "\<forall>x \<in> set (concat qs). Suc k \<le> f x" by blast+
  have "map f q = replicate (length q) k" using q by (simp add: map_replicate_const cong: map_cong)
  then have "sorted (map f q)" by simp
  with q qs show ?case by (auto simp: sorted_append intro: less_imp_le Suc_leD)
qed simp

lemma txq_levels: "txq_ok t \<Longrightarrow> \<forall>j < length (queues t). \<forall>x \<in> set (queues t ! j). level x = j + 0"
  by (fastforce simp: txq_ok_def level_def)

lemma filter_contents: "txq_ok t \<Longrightarrow> i < 8 \<Longrightarrow> filter (\<lambda>x. level x = i) (contents t) = queues t ! i"
  using filter_concat_index [OF txq_levels, of t i] by (simp add: contents_def txq_ok_def)

lemma sorted_contents: "txq_ok t \<Longrightarrow> sorted (map level (contents t))"
  using sorted_concat_index [OF txq_levels] by (simp add: contents_def)

lemma level_less: "level x < 8"
  by (simp add: level_def prio_index_less)

section \<open>The interface of a packet queue\<close>

text \<open>
  What the transport relies on: a datagram given to \<open>push\<close> is queued or handed back, \<open>pop\<close>
  takes at most the budget from the front of the contents, and neither loses nor invents one.
\<close>

locale packet_queue =
  fixes push :: "'q \<Rightarrow> 'a \<Rightarrow> 'q \<times> 'a option"
    and pop :: "'q \<Rightarrow> nat \<Rightarrow> 'q \<times> 'a list"
    and items :: "'q \<Rightarrow> 'a list"
    and ok :: "'q \<Rightarrow> bool"
  assumes push_ok: "ok q \<Longrightarrow> ok (fst (push q x))"
    and push_items: "ok q \<Longrightarrow>
      mset (items (fst (push q x))) + mset (case snd (push q x) of None \<Rightarrow> [] | Some y \<Rightarrow> [y]) = add_mset x (mset (items q))"
    and pop_ok: "ok q \<Longrightarrow> ok (fst (pop q n))"
    and pop_items: "ok q \<Longrightarrow> items q = snd (pop q n) @ items (fst (pop q n))"
    and pop_length: "ok q \<Longrightarrow> length (snd (pop q n)) = min n (length (items q))"
begin

text \<open>Repeated popping empties the queue: \<open>k\<close> batches of \<open>n\<close> leave what exceeds \<open>k * n\<close>.\<close>

lemma pops_items:
  "ok q \<Longrightarrow> ok (((\<lambda>q. fst (pop q n)) ^^ k) q) \<and>
     items (((\<lambda>q. fst (pop q n)) ^^ k) q) = drop (k * n) (items q)"
proof (induction k)
  case (Suc k)
  let ?q = "((\<lambda>q. fst (pop q n)) ^^ k) q"
  have ih: "ok ?q" "items ?q = drop (k * n) (items q)" using Suc by simp_all
  have "items (fst (pop ?q n)) = drop (length (snd (pop ?q n))) (items ?q)"
    by (subst pop_items [OF ih(1), of n]) simp
  also have "\<dots> = drop n (items ?q)"
    by (cases "n \<le> length (items ?q)") (simp_all add: pop_length [OF ih(1)])
  finally show ?case using ih pop_ok [OF ih(1)] by (simp add: add.commute)
qed simp

text \<open>Pushing a list of datagrams: those handed ret and the new contents are all of them.\<close>

lemma push_all_items:
  "ok q \<Longrightarrow> ok (fold (\<lambda>x q. fst (push q x)) xs q) \<and>
     (\<exists>ret. mset (items (fold (\<lambda>x q. fst (push q x)) xs q)) + ret = mset (items q) + mset xs)"
proof (induction xs arbitrary: q)
  case (Cons x xs)
  let ?q = "fst (push q x)" and ?ret = "mset (case snd (push q x) of None \<Rightarrow> [] | Some y \<Rightarrow> [y])"
  note p = push_items [OF Cons.prems, of x]
  obtain ret where b: "ok (fold (\<lambda>x q. fst (push q x)) xs ?q)"
    "mset (items (fold (\<lambda>x q. fst (push q x)) xs ?q)) + ret = mset (items ?q) + mset xs"
    using Cons.IH [OF push_ok [OF Cons.prems, of x]] by blast
  have "mset (items (fold (\<lambda>x q. fst (push q x)) xs ?q)) + (ret + ?ret) = (mset (items ?q) + ?ret) + mset xs"
    unfolding add.assoc [symmetric] b(2) by (simp only: ac_simps)
  then have "mset (items (fold (\<lambda>x q. fst (push q x)) (x # xs) q)) + (ret + ?ret) = mset (items q) + mset (x # xs)"
    using p by simp
  with b(1) show ?case by (simp only: fold_simps) (auto intro: exI [of _ "ret + ?ret"])
qed simp

text \<open>So the contents hold only what was there or was pushed.\<close>

lemma push_all_set:
  assumes "ok q"
  shows "set (items (fold (\<lambda>x q. fst (push q x)) xs q)) \<subseteq> set (items q) \<union> set xs"
proof -
  obtain ret where "mset (items (fold (\<lambda>x q. fst (push q x)) xs q)) + ret = mset (items q) + mset xs"
    using push_all_items [OF assms] by blast
  then have "set_mset (mset (items (fold (\<lambda>x q. fst (push q x)) xs q))) \<subseteq> set_mset (mset (items q) + mset xs)"
    by (metis Un_upper1 set_mset_union)
  then show ?thesis by simp
qed

end

interpretation txq: packet_queue "\<lambda>t (d, b). classify t d b" pop_batch contents txq_ok
proof unfold_locales
  show "txq_ok q \<Longrightarrow> length (snd (pop_batch q n)) = min n (length (contents q))" for q n
    by (simp add: pop_batch_take min.commute)
qed (auto simp: classify_ok classify_mset pop_batch_ok pop_batch_take split: prod.splits)

section \<open>The queues as a machine\<close>

datatype txq_event = TClassify sockaddr bytes | TPop nat

fun txq_step :: "tx_queues \<Rightarrow> txq_event \<Rightarrow> fault + (tx_queues \<times> datagram list)" where
  "txq_step t (TClassify d b) = Inr (fst (classify t d b), [])"
| "txq_step t (TPop n) = Inr (pop_batch t n)"

fun queued :: "txq_event \<Rightarrow> datagram list" where
  "queued (TClassify d b) = (if 2 \<le> length b \<and> b ! 0 = type_code Data then [(d, b)] else [])"
| "queued (TPop n) = []"

lemma txq_step_fifo:
  assumes "txq_ok t" "txq_step t e = Inr (t', out)" "i < 8"
  shows "txq_ok t' \<and> queues t ! i @ filter (\<lambda>x. level x = i) (queued e) = filter (\<lambda>x. level x = i) out @ queues t' ! i"
proof (cases e)
  case (TClassify d b)
  with assms classify_ok [OF assms(1), of d b] show ?thesis
    by (auto simp: classify_def Let_def level_def nth_list_update txq_ok_def)
next
  case (TPop n)
  then have p: "pop_batch t n = (t', out)" using assms(2) by simp
  then have ok: "txq_ok t'" using pop_batch_ok [OF assms(1), of n] by simp
  have "contents t = out @ contents t'" using pop_batch_take [of t n] p by simp
  then have "filter (\<lambda>x. level x = i) (contents t) = filter (\<lambda>x. level x = i) out @ filter (\<lambda>x. level x = i) (contents t')"
    by simp
  then show ?thesis using TPop ok filter_contents assms(1,3) by simp
qed

lemma txq_run_fifo:
  "txq_ok t \<Longrightarrow> run_steps txq_step t es = Inr (t', out) \<Longrightarrow> i < 8 \<Longrightarrow>
     txq_ok t' \<and> queues t ! i @ filter (\<lambda>x. level x = i) (concat (map queued es))
       = filter (\<lambda>x. level x = i) out @ queues t' ! i"
proof (induction es arbitrary: t out)
  case (Cons e es)
  from Cons.prems(2) obtain t1 o1 o2 where s: "txq_step t e = Inr (t1, o1)"
    "run_steps txq_step t1 es = Inr (t', o2)" "out = o1 @ o2"
    by (auto simp: bind_res_Inr_iff)
  note st = txq_step_fifo [OF Cons.prems(1) s(1) Cons.prems(3)]
  have ih: "txq_ok t' \<and> queues t1 ! i @ filter (\<lambda>x. level x = i) (concat (map queued es))
      = filter (\<lambda>x. level x = i) o2 @ queues t' ! i"
    by (rule Cons.IH [OF _ s(2) Cons.prems(3)]) (use st in simp)
  have "queues t ! i @ filter (\<lambda>x. level x = i) (concat (map queued (e # es)))
      = (queues t ! i @ filter (\<lambda>x. level x = i) (queued e)) @ filter (\<lambda>x. level x = i) (concat (map queued es))"
    by simp
  with st ih s(3) show ?case by simp
qed simp

section \<open>Properties\<close>

text \<open>
  A batch is a prefix of the queues' contents in service order, cut at the budget; the rest
  stays queued in its order.
\<close>

lemma pop_batch_prefix:
  "snd (pop_batch t n) = take n (contents t) \<and> contents (fst (pop_batch t n)) = drop n (contents t)
     \<and> backlog (fst (pop_batch t n)) = backlog t - n
     \<and> (txq_is_empty (fst (pop_batch t n)) \<longleftrightarrow> backlog t \<le> n)"
  using pop_batch_take [of t n] by (simp add: backlog_contents is_empty_contents)

text \<open>
  C30: Strict priority: a batch leaves in order of its levels, and no datagram that stays queued
  has a more urgent level than one that leaves.
\<close>

theorem pop_batch_strict_priority:
  assumes "txq_ok t" "pop_batch t n = (t', out)"
  shows "sorted (map level out) \<and> (\<forall>x \<in> set out. \<forall>y \<in> set (contents t'). level x \<le> level y)"
proof -
  have "out = take n (contents t)" "contents t' = drop n (contents t)"
    using assms(2) pop_batch_take [of t n] by simp_all
  with sorted_contents [OF assms(1)] sorted_take_drop [of level "contents t" _ n] show ?thesis
    by (auto simp: take_map [symmetric] sorted_wrt_take)
qed

theorem pop_batch_strict_priority_witness:
  "let t0 = fst (classify txq_new (localhost 1) [0, 6, 1]); t = fst (classify t0 (localhost 2) [0, 1, 2])
   in sorted (map level (snd (pop_batch t 1)))
     \<and> (\<forall>x \<in> set (snd (pop_batch t 1)). \<forall>y \<in> set (contents (fst (pop_batch t 1))). level x \<le> level y)"
  unfolding Let_def by (rule pop_batch_strict_priority) (simp_all add: classify_ok)

text \<open>
  C31: First in, first out per level, and nothing lost: whatever the sequence of \<open>classify\<close> and
  \<open>pop_batch\<close> calls, the DATA datagrams of a level leave in the order they were queued, and
  those that have not left are the level's queue.
\<close>

theorem txq_fifo_per_level:
  assumes "run_steps txq_step txq_new es = Inr (t, out)" "i < 8"
  shows "filter (\<lambda>x. level x = i) (concat (map queued es)) = filter (\<lambda>x. level x = i) out @ queues t ! i"
  using txq_run_fifo [OF txq_ok_new assms] assms(2)
  by (simp add: txq_new_def NUM_PRIORITIES_def)

theorem txq_fifo_per_level_witness:
  "let es = [TClassify (localhost 1) [0, 6, 1], TClassify (localhost 2) [0, 1, 2], TClassify (localhost 3) [0, 6, 3], TPop 2]
   in filter (\<lambda>x. level x = 6) (concat (map queued es))
     = filter (\<lambda>x. level x = 6) [(localhost 2, [0, 1, 2]), (localhost 1, [0, 6, 1])] @ [(localhost 3, [0, 6, 3])]"
proof -
  let ?es = "[TClassify (localhost 1) [0, 6, 1], TClassify (localhost 2) [0, 1, 2], TClassify (localhost 3) [0, 6, 3], TPop 2]"
  let ?t = "\<lparr>queues = [[], [], [], [], [], [], [(localhost 3, [0, 6, 3])], []]\<rparr>"
  have "run_steps txq_step txq_new ?es = Inr (?t, [(localhost 2, [0, 1, 2]), (localhost 1, [0, 6, 1])])"
    by code_simp
  from txq_fifo_per_level [OF this, of 6] show ?thesis by (simp add: Let_def)
qed

text \<open>
  The send queue is drained: \<open>k\<close> flushes of \<open>FLUSH_BUDGET\<close> datagrams leave exactly what
  exceeds \<open>k * FLUSH_BUDGET\<close>.
\<close>

lemma flushes_drain_backlog:
  assumes "txq_ok t"
  shows "contents (((\<lambda>q. fst (pop_batch q FLUSH_BUDGET)) ^^ k) t) = drop (k * FLUSH_BUDGET) (contents t)"
  using txq.pops_items [OF assms] by blast

end
