(* ===== verification/Chunks.thy ===== *)
theory Chunks
  imports Prelude
begin

text \<open>
  The arithmetic of cutting a message of \<open>len\<close> bytes into chunks of \<open>ps\<close> bytes, which the
  sender and the receiver share: chunk \<open>i\<close> is \<open>[i * ps, chunk_end ps len (i * ps))\<close>, the last
  one may be short, and together the chunks tile the message.
\<close>

definition chunk_end :: "nat \<Rightarrow> nat \<Rightarrow> nat \<Rightarrow> nat" where
  "chunk_end ps len s = min (s + ps) len"

text \<open>How many chunks from \<open>ns\<close> on start before \<open>limit\<close>.\<close>

definition chunk_count :: "nat \<Rightarrow> nat \<Rightarrow> nat \<Rightarrow> nat" where
  "chunk_count ps limit ns = (limit - ns + ps - 1) div ps"

lemma chunk_count_0 [simp]: "0 < ps \<Longrightarrow> limit \<le> ns \<Longrightarrow> chunk_count ps limit ns = 0"
  by (simp add: chunk_count_def)

lemma chunk_count_step:
  assumes "0 < ps" "ns < limit"
  shows "chunk_count ps limit ns = Suc (chunk_count ps limit (ns + ps))"
proof (cases "ns + ps \<le> limit")
  case True
  then have "limit - ns + ps - 1 = (limit - (ns + ps) + ps - 1) + ps" using assms by simp
  moreover have "(x + ps) div ps = Suc (x div ps)" for x
    using assms(1) div_add_self2 [of ps x] by simp
  ultimately show ?thesis by (simp only: chunk_count_def)
next
  case False
  then have "limit - ns + ps - 1 = (limit - ns - 1) + ps" "limit - ns - 1 < ps"
    using assms by simp_all
  moreover have "(x + ps) div ps = Suc (x div ps)" for x
    using assms(1) div_add_self2 [of ps x] by simp
  ultimately have "chunk_count ps limit ns = Suc 0" by (simp only: chunk_count_def div_less)
  with False assms show ?thesis by simp
qed

lemma chunk_count_le_iff:
  assumes "0 < ps"
  shows "i < chunk_count ps limit ns \<longleftrightarrow> ns + i * ps < limit"
proof (induction i arbitrary: ns)
  case 0
  then show ?case using assms chunk_count_step [of ps ns limit] by (cases "ns < limit") auto
next
  case (Suc i)
  show ?case
  proof (cases "ns < limit")
    case True
    then show ?thesis using Suc [of "ns + ps"] chunk_count_step [OF assms True] by (simp add: add.assoc)
  qed (use assms in simp)
qed

lemma concat_chunks:
  "concat (map (\<lambda>i. take (chunk_end ps (length xs) (ns + i * ps) - (ns + i * ps)) (drop (ns + i * ps) xs)) [0..<k])
     = take (min (ns + k * ps) (length xs) - ns) (drop ns xs)"
proof (induction k)
  case (Suc k)
  let ?a = "ns + k * ps"
  have "take (min (ns + Suc k * ps) (length xs) - ns) (drop ns xs)
      = take (min ?a (length xs) - ns + (chunk_end ps (length xs) ?a - ?a)) (drop ns xs)"
    by (rule arg_cong [where f = "\<lambda>n. take n (drop ns xs)"])
      (auto simp: chunk_end_def min_def)
  also have "\<dots> = take (min ?a (length xs) - ns) (drop ns xs)
      @ take (chunk_end ps (length xs) ?a - ?a) (drop (min ?a (length xs) - ns) (drop ns xs))"
    by (rule take_add)
  also have "take (chunk_end ps (length xs) ?a - ?a) (drop (min ?a (length xs) - ns) (drop ns xs))
      = take (chunk_end ps (length xs) ?a - ?a) (drop ?a xs)"
    by (cases "?a \<le> length xs") (auto simp: chunk_end_def add.commute)
  finally show ?case using Suc by simp
qed simp

lemma chunk_bounds:
  assumes "0 < ps" "off < len"
  shows "off div ps * ps \<le> off" "off < chunk_end ps len (off div ps * ps)"
    "chunk_end ps len (off div ps * ps) \<le> len"
proof -
  have "off div ps * ps + off mod ps = off" by simp
  moreover have "off mod ps < ps" using assms(1) by simp
  ultimately have "off div ps * ps \<le> off" "off < off div ps * ps + ps" by linarith+
  then show "off div ps * ps \<le> off" "off < chunk_end ps len (off div ps * ps)"
    "chunk_end ps len (off div ps * ps) \<le> len"
    using assms(2) by (simp_all add: chunk_end_def)
qed

text \<open>The length of chunk \<open>i\<close>; the first \<open>k\<close> chunks cover \<open>min (k * ps) len\<close> bytes.\<close>

definition chunk_len :: "nat \<Rightarrow> nat \<Rightarrow> nat \<Rightarrow> nat" where
  "chunk_len ps len i = chunk_end ps len (i * ps) - i * ps"

lemma chunk_len_pos: "0 < ps \<Longrightarrow> i < chunk_count ps len 0 \<Longrightarrow> 0 < chunk_len ps len i"
  by (simp add: chunk_count_le_iff chunk_len_def chunk_end_def)

lemma sum_chunk_len: "(\<Sum>i<k. chunk_len ps len i) = min (k * ps) len"
  by (induction k) (auto simp: chunk_len_def chunk_end_def)

lemma sum_all_chunks:
  assumes "0 < ps"
  shows "(\<Sum>i<chunk_count ps len 0. chunk_len ps len i) = len"
proof -
  have "\<not> chunk_count ps len 0 < chunk_count ps len 0" by simp
  then have "len \<le> chunk_count ps len 0 * ps" by (simp only: chunk_count_le_iff [OF assms])
  then show ?thesis by (simp add: sum_chunk_len)
qed

lemma div_ceil_count: "0 < ps \<Longrightarrow> div_ceil len ps = Inr (chunk_count ps len 0)"
proof -
  assume ps: "0 < ps"
  obtain n where n: "div_ceil len ps = Inr n" using ps by (simp add: div_ceil_def)
  then have b: "len \<le> n * ps" "n * ps < len + ps" using div_ceil_bounds by blast+
  have "i < n \<longleftrightarrow> i * ps < len" for i
  proof
    assume "i < n"
    then have "Suc i * ps \<le> n * ps" by (intro mult_right_mono) simp_all
    with b(2) show "i * ps < len" by simp
  next
    assume "i * ps < len"
    then have "i * ps < n * ps" using b(1) by (rule less_le_trans)
    then show "i < n" using ps by simp
  qed
  then have "i < n \<longleftrightarrow> i < chunk_count ps len 0" for i
    using chunk_count_le_iff [OF ps, of i len 0] by simp
  then have "n = chunk_count ps len 0" by (metis linorder_neqE_nat less_irrefl)
  with n show ?thesis by simp
qed

section \<open>Which chunks have arrived\<close>

text \<open>The bytes of the chunks marked in a bitmap.\<close>

definition acct :: "nat \<Rightarrow> nat \<Rightarrow> bool list \<Rightarrow> nat" where
  "acct ps len bs = (\<Sum>i<length bs. if bs ! i then chunk_len ps len i else 0)"

lemma acct_none: "acct ps len (replicate n False) = 0"
  by (simp add: acct_def)

lemma acct_set:
  assumes "i < length bs" "\<not> bs ! i"
  shows "acct ps len (bs[i := True]) = acct ps len bs + chunk_len ps len i"
proof -
  let ?f = "\<lambda>bs j. if bs ! j then chunk_len ps len j else 0"
  have "(\<Sum>j<length bs. ?f (bs[i := True]) j)
      = ?f (bs[i := True]) i + (\<Sum>j\<in>{..<length bs} - {i}. ?f (bs[i := True]) j)"
    using assms by (intro sum.remove) simp_all
  also have "(\<Sum>j\<in>{..<length bs} - {i}. ?f (bs[i := True]) j) = (\<Sum>j\<in>{..<length bs} - {i}. ?f bs j)"
    by (intro sum.cong) auto
  also have "\<dots> = (\<Sum>j<length bs. ?f bs j)"
    using assms sum.remove [of "{..<length bs}" i "?f bs"] by simp
  finally show ?thesis using assms by (simp add: acct_def)
qed

lemma acct_le: "0 < ps \<Longrightarrow> length bs = chunk_count ps len 0 \<Longrightarrow> acct ps len bs \<le> len"
proof -
  assume h: "0 < ps" "length bs = chunk_count ps len 0"
  have "acct ps len bs \<le> (\<Sum>i<length bs. chunk_len ps len i)"
    unfolding acct_def by (intro sum_mono) simp
  with h show ?thesis by (simp add: sum_all_chunks)
qed

lemma acct_full:
  assumes "0 < ps" "length bs = chunk_count ps len 0"
  shows "acct ps len bs = len \<longleftrightarrow> (\<forall>i<length bs. bs ! i)"
proof
  assume "\<forall>i<length bs. bs ! i"
  then have "acct ps len bs = (\<Sum>i<length bs. chunk_len ps len i)"
    unfolding acct_def by (intro sum.cong) auto
  with assms show "acct ps len bs = len" by (simp add: sum_all_chunks)
next
  assume eq: "acct ps len bs = len"
  show "\<forall>i<length bs. bs ! i"
  proof (rule ccontr)
    assume "\<not> (\<forall>i<length bs. bs ! i)"
    then obtain i where i: "i < length bs" "\<not> bs ! i" by blast
    have "acct ps len (bs[i := True]) \<le> len" using assms by (intro acct_le) simp_all
    with acct_set [OF i, of ps len] chunk_len_pos [of ps i len] assms i eq show False by simp
  qed
qed

end
