(* ===== verification/Sender.thy ===== *)
theory Sender
  imports TxQueue Chunks
begin

text \<open>
  The sending state machine of \<^verbatim>\<open>src/transport/sender.rs\<close>. Each operation takes the core
  and the arguments of the Rust method and gives the next core with the list of actions it
  appends to the caller's \<open>actions\<close>, or a fault. The two \<open>while\<close> loops run on fuel; running
  out of it is \<open>No_return\<close>, and lemmas below show when the fuel given is enough and that
  with a packet size of 0 no amount is.
\<close>

section \<open>State\<close>

record out_msg =
  om_data :: bytes
  om_granted_to :: nat
  om_next_send :: nat
  om_done_at :: "instant option"
  om_last_progress :: instant

record sender_core =
  s_cfg :: transport_config
  s_out :: "(msg_key \<times> out_msg) list"

definition sender_new :: "transport_config \<Rightarrow> sender_core" where
  "sender_new cfg = \<lparr>s_cfg = cfg, s_out = []\<rparr>"

section \<open>Operations\<close>

definition chunk_range :: "out_msg \<Rightarrow> nat \<Rightarrow> nat \<Rightarrow> fault + (nat \<times> nat)" where
  "chunk_range m offset ps =
     bind_res (usize_div offset ps) (\<lambda>q.
       let start = q * ps in Inr (start, min (start + ps) (length (om_data m))))"

definition data_packet :: "bytes \<Rightarrow> u64 \<Rightarrow> nat \<Rightarrow> nat \<Rightarrow> fault + bytes" where
  "data_packet data msg_id start end =
     bind_res (slice data start end) (\<lambda>payload.
       Inr (encode (packet_new Data (priority_for_len (length data)) msg_id
                      (as_u32 (length data)) (as_u32 start) (as_u32 (length payload))) payload))"

text \<open>The loop of \<open>pump\<close>: send chunks from \<open>ns\<close> until \<open>limit\<close> is reached.\<close>

fun pump_loop :: "nat \<Rightarrow> nat \<Rightarrow> sockaddr \<Rightarrow> u64 \<Rightarrow> bytes \<Rightarrow> nat \<Rightarrow> nat \<Rightarrow> fault + (nat \<times> action list)" where
  "pump_loop 0 ps dest msg_id data limit ns = Inl No_return"
| "pump_loop (Suc fuel) ps dest msg_id data limit ns =
     (if ns < limit
      then let e = min (ns + ps) (length data)
           in bind_res (data_packet data msg_id ns e) (\<lambda>b.
              bind_res (pump_loop fuel ps dest msg_id data limit e) (\<lambda>(ns', as).
                Inr (ns', Send dest b # as)))
      else Inr (ns, []))"

definition pump :: "sender_core \<Rightarrow> msg_key \<Rightarrow> nat \<Rightarrow> instant \<Rightarrow> fault + (sender_core \<times> action list)" where
  "pump s key limit now =
     (case map_of (s_out s) key of
        None \<Rightarrow> Inr (s, [])
      | Some m \<Rightarrow>
          if om_done_at m \<noteq> None then Inr (s, [])
          else
            let limit = min limit (length (om_data m))
            in bind_res (pump_loop (Suc limit) (packet_size (s_cfg s)) (fst key) (snd key)
                           (om_data m) limit (om_next_send m)) (\<lambda>(ns, as).
                 let m1 = m\<lparr>om_next_send := ns, om_granted_to := max (om_granted_to m) limit,
                            om_last_progress := now\<rparr>;
                     m2 = (if length (om_data m) \<le> ns then m1\<lparr>om_done_at := Some now\<rparr> else m1)
                 in Inr (s\<lparr>s_out := AList.update key m2 (s_out s)\<rparr>, as)))"

definition start :: "sender_core \<Rightarrow> sockaddr \<Rightarrow> u64 \<Rightarrow> bytes \<Rightarrow> instant \<Rightarrow> fault + (sender_core \<times> action list)" where
  "start s dest msg_id data now =
     (let unscheduled = min (unscheduled_bytes (s_cfg s)) (length data);
          m = \<lparr>om_data = data, om_granted_to = unscheduled, om_next_send = 0,
               om_done_at = None, om_last_progress = now\<rparr>;
          key = (dest, msg_id)
      in pump (s\<lparr>s_out := AList.update key m (s_out s)\<rparr>) key unscheduled now)"

definition handle_grant :: "sender_core \<Rightarrow> sockaddr \<Rightarrow> packet \<Rightarrow> instant \<Rightarrow> fault + (sender_core \<times> action list)" where
  "handle_grant s src pkt now =
     (let key = (src, pkt_msg_id pkt);
          new_limit = min (unat (pkt_offset pkt))
            (case map_of (s_out s) key of None \<Rightarrow> 0 | Some m \<Rightarrow> length (om_data m))
      in case map_of (s_out s) key of
           None \<Rightarrow> Inr (s, [])
         | Some m \<Rightarrow> if new_limit \<le> om_granted_to m then Inr (s, []) else pump s key new_limit now)"

text \<open>The loop of \<open>handle_resend\<close>: send every chunk that meets \<open>[off, end)\<close>.\<close>

fun resend_loop :: "nat \<Rightarrow> nat \<Rightarrow> sockaddr \<Rightarrow> u64 \<Rightarrow> out_msg \<Rightarrow> nat \<Rightarrow> nat \<Rightarrow> fault + action list" where
  "resend_loop 0 ps src msg_id m off end = Inl No_return"
| "resend_loop (Suc fuel) ps src msg_id m off end =
     (if off < end
      then bind_res (chunk_range m off ps) (\<lambda>(s, e).
           bind_res (data_packet (om_data m) msg_id s e) (\<lambda>b.
           bind_res (resend_loop fuel ps src msg_id m (max e (s + 1)) end) (\<lambda>as.
             Inr (Send src b # as))))
      else Inr [])"

definition handle_resend :: "sender_core \<Rightarrow> sockaddr \<Rightarrow> packet \<Rightarrow> instant \<Rightarrow> fault + (sender_core \<times> action list)" where
  "handle_resend s src pkt now =
     (let key = (src, pkt_msg_id pkt); ps = packet_size (s_cfg s)
      in case map_of (s_out s) key of
           None \<Rightarrow> Inr (s, [])
         | Some m \<Rightarrow>
             let st = min (unat (pkt_offset pkt)) (length (om_data m));
                 en = min (st + unat (pkt_length pkt)) (length (om_data m))
             in bind_res (resend_loop (Suc (en - st)) ps src (pkt_msg_id pkt) m st en) (\<lambda>as.
                  let m1 = m\<lparr>om_granted_to := max (om_granted_to m) en\<rparr>;
                      m2 = (if om_next_send m1 < en
                            then let m' = m1\<lparr>om_next_send := en\<rparr>
                                 in if length (om_data m') \<le> om_next_send m' \<and> om_done_at m' = None
                                    then m'\<lparr>om_done_at := Some now\<rparr> else m'
                            else m1);
                      m3 = m2\<lparr>om_last_progress := now\<rparr>
                  in Inr (s\<lparr>s_out := AList.update key m3 (s_out s)\<rparr>, as)))"

definition handle_busy :: "sender_core \<Rightarrow> sockaddr \<Rightarrow> packet \<Rightarrow> instant \<Rightarrow> sender_core" where
  "handle_busy s src pkt now =
     (let key = (src, pkt_msg_id pkt)
      in case map_of (s_out s) key of
           None \<Rightarrow> s
         | Some m \<Rightarrow> s\<lparr>s_out := AList.update key (m\<lparr>om_last_progress := now\<rparr>) (s_out s)\<rparr>)"

text \<open>
  The loop of \<open>tick\<close> over the keys: probe each stalled message with the last chunk sent.
\<close>

fun poke_loop :: "sender_core \<Rightarrow> msg_key list \<Rightarrow> instant \<Rightarrow> fault + (sender_core \<times> action list)" where
  "poke_loop s [] now = Inr (s, [])"
| "poke_loop s (key # keys) now =
     (case map_of (s_out s) key of
        None \<Rightarrow> poke_loop s keys now
      | Some m \<Rightarrow>
          if om_done_at m \<noteq> None \<or> now - om_last_progress m < poke_timeout (s_cfg s)
          then poke_loop s keys now
          else
            bind_res (if om_next_send m = 0 then Inr 0
                      else bind_res (usize_div (om_next_send m - 1) (packet_size (s_cfg s)))
                             (\<lambda>q. Inr (q * packet_size (s_cfg s)))) (\<lambda>last_off.
            bind_res (chunk_range m last_off (packet_size (s_cfg s))) (\<lambda>(st, en).
            bind_res (data_packet (om_data m) (snd key) st en) (\<lambda>b.
            bind_res (poke_loop
                (s\<lparr>s_out := AList.update key (m\<lparr>om_last_progress := now\<rparr>) (s_out s)\<rparr>)
                keys now) (\<lambda>(s', as).
              Inr (s', Send (fst key) b # as))))))"

text \<open>\<open>retain\<close> drops finished messages whose linger time is over; \<open>ord\<close> is the map's order.\<close>

definition expire :: "sender_core \<Rightarrow> instant \<Rightarrow> sender_core" where
  "expire s now =
     s\<lparr>s_out := filter (\<lambda>(k, m). case om_done_at m of None \<Rightarrow> True
                                  | Some t \<Rightarrow> now - t < linger (s_cfg s)) (s_out s)\<rparr>"

definition sender_tick :: "(msg_key list \<Rightarrow> msg_key list) \<Rightarrow> sender_core \<Rightarrow> instant \<Rightarrow> fault + (sender_core \<times> action list)" where
  "sender_tick ord s now =
     (let s' = expire s now in poke_loop s' (ord (hm_keys (s_out s'))) now)"

definition is_done :: "sender_core \<Rightarrow> sockaddr \<Rightarrow> u64 \<Rightarrow> bool" where
  "is_done s dest msg_id =
     (case map_of (s_out s) (dest, msg_id) of None \<Rightarrow> True | Some m \<Rightarrow> om_done_at m \<noteq> None)"

definition finish :: "sender_core \<Rightarrow> sockaddr \<Rightarrow> u64 \<Rightarrow> sender_core" where
  "finish s dest msg_id = s\<lparr>s_out := AList.delete (dest, msg_id) (s_out s)\<rparr>"

section \<open>Fragments\<close>

text \<open>The DATA datagram that carries bytes \<open>[s, e)\<close> of a message.\<close>

definition frag :: "bytes \<Rightarrow> u64 \<Rightarrow> nat \<Rightarrow> nat \<Rightarrow> bytes" where
  "frag data msg_id s e =
     encode (packet_new Data (priority_for_len (length data)) msg_id
       (as_u32 (length data)) (as_u32 s) (as_u32 (e - s))) (take (e - s) (drop s data))"

lemma data_packet_frag:
  "s \<le> e \<Longrightarrow> e \<le> length data \<Longrightarrow> data_packet data mid s e = Inr (frag data mid s e)"
  by (simp add: data_packet_def slice_def frag_def)

lemma data_packet_Inl: "\<not> (s \<le> e \<and> e \<le> length data) \<Longrightarrow> data_packet data mid s e = Inl Slice_range"
  by (auto simp: data_packet_def slice_def)

text \<open>Where the loop of \<open>pump\<close> ends, and what it sends.\<close>

definition pump_end :: "nat \<Rightarrow> nat \<Rightarrow> nat \<Rightarrow> nat \<Rightarrow> nat" where
  "pump_end ps len limit ns =
     (if ns < limit then min (ns + chunk_count ps limit ns * ps) len else ns)"

definition pump_frags :: "nat \<Rightarrow> sockaddr \<Rightarrow> u64 \<Rightarrow> bytes \<Rightarrow> nat \<Rightarrow> nat \<Rightarrow> action list" where
  "pump_frags ps dest mid data limit ns =
     map (\<lambda>i. Send dest (frag data mid (ns + i * ps) (chunk_end ps (length data) (ns + i * ps))))
       [0..<chunk_count ps limit ns]"

lemma pump_frags_step:
  assumes "0 < ps" "ns < limit" "limit \<le> length data"
  shows "pump_frags ps dest mid data limit ns =
     Send dest (frag data mid ns (chunk_end ps (length data) ns))
       # pump_frags ps dest mid data limit (chunk_end ps (length data) ns)"
proof (cases "ns + ps \<le> length data")
  case True
  then show ?thesis using assms
    by (simp add: pump_frags_def chunk_count_step upt_rec [of 0] map_Suc_upt [symmetric] chunk_end_def
        add.assoc del: upt_Suc)
next
  case False
  then show ?thesis using assms
    by (simp add: pump_frags_def chunk_count_step chunk_end_def)
qed

lemma pump_end_step:
  assumes "0 < ps" "ns < limit" "limit \<le> len"
  shows "pump_end ps len limit ns = pump_end ps len limit (min (ns + ps) len)"
proof (cases "ns + ps < limit")
  case True
  then show ?thesis using assms by (simp add: pump_end_def chunk_count_step add.assoc)
next
  case False
  then have "chunk_count ps limit ns = 1" using assms by (simp add: chunk_count_step)
  with False show ?thesis using assms by (auto simp: pump_end_def min_def)
qed

lemma pump_loop_eq:
  assumes "0 < ps" "limit \<le> length data" "limit - ns < fuel"
  shows "pump_loop fuel ps dest mid data limit ns =
     Inr (pump_end ps (length data) limit ns, pump_frags ps dest mid data limit ns)"
  using assms(3)
proof (induction fuel arbitrary: ns)
  case (Suc fuel)
  show ?case
  proof (cases "ns < limit")
    case True
    let ?e = "min (ns + ps) (length data)"
    have "limit - ?e < fuel" using Suc.prems True assms(1,2) by (auto simp: min_def)
    from Suc.IH [OF this] True show ?thesis using assms(1,2)
      by (simp add: Let_def data_packet_frag pump_frags_step [OF assms(1) True assms(2)]
          pump_end_step [OF assms(1) True assms(2)] chunk_end_def)
  qed (use assms in \<open>simp add: pump_end_def pump_frags_def\<close>)
qed simp

text \<open>
  With a packet size of 0 an iteration leaves \<open>next_send\<close> where it is: the loop never ends,
  whatever the fuel.
\<close>

lemma pump_loop_zero:
  "ns < limit \<Longrightarrow> limit \<le> length data \<Longrightarrow> pump_loop fuel 0 dest mid data limit ns = Inl No_return"
  by (induction fuel) (simp_all add: data_packet_frag min_def)

lemma pump_end_bounds:
  assumes "0 < ps" "limit \<le> len" "ns \<le> len"
  shows "ns \<le> pump_end ps len limit ns" "limit \<le> pump_end ps len limit ns"
    "pump_end ps len limit ns \<le> len" "ns < limit \<Longrightarrow> pump_end ps len limit ns < limit + ps"
proof -
  let ?k = "chunk_count ps limit ns"
  have up: "limit \<le> ns + ?k * ps" using chunk_count_le_iff [OF assms(1), of ?k limit ns] by simp
  have down: "ns + ?k * ps < limit + ps" if "ns < limit"
  proof -
    have k: "0 < ?k" using chunk_count_step [OF assms(1) that] by simp
    then have "ns + (?k - 1) * ps < limit"
      using chunk_count_le_iff [OF assms(1), of "?k - 1" limit ns] by simp
    moreover have "?k * ps = (?k - 1) * ps + ps" using k by (cases ?k) simp_all
    ultimately show ?thesis by simp
  qed
  show "ns \<le> pump_end ps len limit ns" "limit \<le> pump_end ps len limit ns"
    "pump_end ps len limit ns \<le> len"
    using up assms by (auto simp: pump_end_def)
  show "ns < limit \<Longrightarrow> pump_end ps len limit ns < limit + ps"
    using down by (auto simp: pump_end_def)
qed

text \<open>The payloads of a list of DATA actions, in order.\<close>

definition payload_of :: "action \<Rightarrow> bytes" where
  "payload_of a = (case a of Send d b \<Rightarrow> drop HEADER_LEN b | Deliver s i x \<Rightarrow> [])"

lemma payload_frag [simp]: "payload_of (Send d (frag data mid s e)) = take (e - s) (drop s data)"
  by (simp add: payload_of_def frag_def encode_fields)

lemma pump_payload:
  assumes "0 < ps" "limit \<le> length data"
  shows "concat (map payload_of (pump_frags ps dest mid data limit ns))
       = take (pump_end ps (length data) limit ns - ns) (drop ns data)"
  using assms concat_chunks [of ps data ns "chunk_count ps limit ns"]
  by (cases "ns < limit") (simp_all add: pump_frags_def comp_def pump_end_def)

section \<open>The invariant\<close>

text \<open>
  For every message: what is granted has been sent, nothing is sent beyond the message nor a
  whole chunk beyond the grant, and the message is done exactly when all of it is sent.
\<close>

definition om_ok :: "nat \<Rightarrow> out_msg \<Rightarrow> bool" where
  "om_ok ps m \<longleftrightarrow>
     om_granted_to m \<le> om_next_send m \<and> om_next_send m \<le> length (om_data m)
     \<and> om_next_send m < om_granted_to m + ps
     \<and> (om_done_at m \<noteq> None \<longleftrightarrow> om_next_send m = length (om_data m))"

definition sender_inv :: "sender_core \<Rightarrow> bool" where
  "sender_inv s \<longleftrightarrow> 0 < packet_size (s_cfg s) \<and> hm_ok (s_out s)
     \<and> all_entries (\<lambda>k m. om_ok (packet_size (s_cfg s)) m) (s_out s)"

lemma sender_inv_new: "0 < packet_size cfg \<Longrightarrow> sender_inv (sender_new cfg)"
  by (simp add: sender_inv_def sender_new_def)

lemma sender_inv_update:
  "sender_inv s \<Longrightarrow> om_ok (packet_size (s_cfg s)) m \<Longrightarrow>
     sender_inv (s\<lparr>s_out := AList.update key m (s_out s)\<rparr>)"
  by (simp add: sender_inv_def all_entries_update distinct_update)

lemma sender_inv_om:
  "sender_inv s \<Longrightarrow> map_of (s_out s) key = Some m \<Longrightarrow> om_ok (packet_size (s_cfg s)) m"
  by (auto simp: sender_inv_def dest: all_entriesD)

lemma sender_inv_ps: "sender_inv s \<Longrightarrow> 0 < packet_size (s_cfg s)"
  by (simp add: sender_inv_def)

text \<open>What the sender puts on the wire: a nonempty piece of one of its messages, at most a packet size long.\<close>

definition piece_of :: "nat \<Rightarrow> (msg_key \<Rightarrow> bytes \<Rightarrow> bool) \<Rightarrow> action \<Rightarrow> bool" where
  "piece_of ps msg a \<longleftrightarrow>
     (\<exists>dest mid data s e. a = Send dest (frag data mid s e) \<and> msg (dest, mid) data
        \<and> s < e \<and> e \<le> length data \<and> e - s \<le> ps)"

lemma piece_of_mono: "piece_of ps P a \<Longrightarrow> (\<And>k d. P k d \<Longrightarrow> Q k d) \<Longrightarrow> piece_of ps Q a"
  unfolding piece_of_def by blast

section \<open>The operations on a message\<close>

text \<open>\<open>pump\<close> on a bound, unfinished message.\<close>

definition om_pumped :: "nat \<Rightarrow> nat \<Rightarrow> instant \<Rightarrow> out_msg \<Rightarrow> out_msg" where
  "om_pumped ps limit now m =
     (let len = length (om_data m); ns = pump_end ps len (min limit len) (om_next_send m)
      in m\<lparr>om_next_send := ns, om_granted_to := max (om_granted_to m) (min limit len),
           om_last_progress := now, om_done_at := (if len \<le> ns then Some now else om_done_at m)\<rparr>)"

lemma om_done_None [simp]: "om_done_at m = None \<Longrightarrow> m\<lparr>om_done_at := None\<rparr> = m"
  by (cases m) simp

lemma pump_eq:
  assumes "0 < packet_size (s_cfg s)" "map_of (s_out s) key = Some m" "om_done_at m = None"
  shows "pump s key limit now =
     Inr (s\<lparr>s_out := AList.update key (om_pumped (packet_size (s_cfg s)) limit now m) (s_out s)\<rparr>,
          pump_frags (packet_size (s_cfg s)) (fst key) (snd key) (om_data m)
            (min limit (length (om_data m))) (om_next_send m))"
proof -
  have "min limit (length (om_data m)) - om_next_send m < Suc (min limit (length (om_data m)))"
    by simp
  note loop = pump_loop_eq [OF assms(1) min.cobounded2 this, of "fst key" "snd key"]
  show ?thesis
    by (simp add: pump_def assms loop Let_def om_pumped_def del: pump_loop.simps)
qed

lemma pump_done:
  "map_of (s_out s) key = Some m \<Longrightarrow> om_done_at m \<noteq> None \<Longrightarrow> pump s key limit now = Inr (s, [])"
  by (simp add: pump_def)

lemma om_pumped_ok:
  assumes "0 < ps" "om_ok ps m" "om_done_at m = None"
  shows "om_ok ps (om_pumped ps limit now m)"
  using assms pump_end_bounds [of ps "min limit (length (om_data m))" "length (om_data m)" "om_next_send m"]
  by (auto simp: om_ok_def om_pumped_def Let_def pump_end_def max_def split: if_splits)

lemma pump_frags_pieces:
  assumes "0 < ps" "limit \<le> length data" "msg (dest, mid) data"
  shows "list_all (piece_of ps msg) (pump_frags ps dest mid data limit ns)"
proof -
  have "piece_of ps msg (Send dest (frag data mid (ns + i * ps) (chunk_end ps (length data) (ns + i * ps))))"
    if "i < chunk_count ps limit ns" for i
  proof -
    from that assms have "ns + i * ps < limit" by (simp add: chunk_count_le_iff)
    with assms show ?thesis
      unfolding piece_of_def
      by (intro exI [of _ dest] exI [of _ mid] exI [of _ data] exI [of _ "ns + i * ps"]
          exI [of _ "chunk_end ps (length data) (ns + i * ps)"]) (simp add: chunk_end_def)
  qed
  then show ?thesis by (simp add: pump_frags_def list_all_iff)
qed

text \<open>\<open>handle_resend\<close> on a bound message sends whole chunks: those that meet \<open>[st, en)\<close>.\<close>

definition resend_frags :: "nat \<Rightarrow> sockaddr \<Rightarrow> u64 \<Rightarrow> bytes \<Rightarrow> nat \<Rightarrow> nat \<Rightarrow> action list" where
  "resend_frags ps src mid data st en =
     (if st < en
      then map (\<lambda>i. Send src (frag data mid (i * ps) (chunk_end ps (length data) (i * ps))))
             [st div ps ..< Suc ((en - 1) div ps)]
      else [])"

lemma chunk_range_eq:
  "0 < ps \<Longrightarrow> chunk_range m off ps =
     Inr (off div ps * ps, chunk_end ps (length (om_data m)) (off div ps * ps))"
  by (simp add: chunk_range_def usize_div_def chunk_end_def Let_def)

lemma resend_frags_step:
  assumes ps: "0 < ps" and le: "en \<le> length data" and lt: "off < en"
  shows "resend_frags ps src mid data off en =
     Send src (frag data mid (off div ps * ps) (chunk_end ps (length data) (off div ps * ps)))
     # resend_frags ps src mid data (chunk_end ps (length data) (off div ps * ps)) en"
proof -
  let ?i = "off div ps" and ?j = "(en - 1) div ps"
  let ?e = "chunk_end ps (length data) (?i * ps)"
  have ij: "?i \<le> ?j" using lt by (intro div_le_mono) simp
  have split: "[?i..<Suc ?j] = ?i # [Suc ?i..<Suc ?j]" using ij by (simp add: upt_rec)
  have "resend_frags ps src mid data ?e en
      = map (\<lambda>i. Send src (frag data mid (i * ps) (chunk_end ps (length data) (i * ps)))) [Suc ?i..<Suc ?j]"
  proof (cases "?e < en")
    case True
    then have "?e = Suc ?i * ps" using le by (simp add: chunk_end_def min_def split: if_splits)
    with True ps show ?thesis by (simp add: resend_frags_def del: mult_Suc)
  next
    case False
    then have "en - 1 < Suc ?i * ps" using lt by (auto simp: chunk_end_def)
    then have "?j < Suc ?i" using ps by (simp add: div_less_iff_less_mult del: mult_Suc)
    with False show ?thesis by (simp add: resend_frags_def)
  qed
  with lt split show ?thesis by (simp add: resend_frags_def del: upt_Suc)
qed

lemma resend_loop_eq:
  assumes ps: "0 < ps" and le: "en \<le> length (om_data m)"
  shows "en - off < fuel \<Longrightarrow>
     resend_loop fuel ps src mid m off en = Inr (resend_frags ps src mid (om_data m) off en)"
proof (induction fuel arbitrary: off)
  case (Suc fuel)
  show ?case
  proof (cases "off < en")
    case True
    let ?s = "off div ps * ps" and ?e = "chunk_end ps (length (om_data m)) (off div ps * ps)"
    from True le have b: "?s \<le> off" "off < ?e" "?e \<le> length (om_data m)"
      using chunk_bounds [OF ps, of off "length (om_data m)"] by auto
    have "?s < ?e" using b(1,2) by (rule le_less_trans)
    then have mx: "max ?e (Suc ?s) = ?e" by simp
    have dp: "data_packet (om_data m) mid ?s ?e = Inr (frag (om_data m) mid ?s ?e)"
      by (rule data_packet_frag [OF less_imp_le [OF \<open>?s < ?e\<close>] b(3)])
    have "en - ?e < fuel" using Suc.prems b(2) True by linarith
    with True Suc.IH [of ?e] mx dp show ?thesis
      by (simp add: chunk_range_eq [OF ps] resend_frags_step [OF ps le True])
  qed (simp add: resend_frags_def)
qed simp

lemma resend_frags_pieces:
  assumes "0 < ps" "en \<le> length data" "msg (src, mid) data"
  shows "list_all (piece_of ps msg) (resend_frags ps src mid data st en)"
proof -
  have "piece_of ps msg (Send src (frag data mid (i * ps) (chunk_end ps (length data) (i * ps))))"
    if "st < en" "i < Suc ((en - 1) div ps)" for i
  proof -
    have "i * ps \<le> (en - 1) div ps * ps" using that(2) by simp
    also have "\<dots> \<le> en - 1" by simp
    finally have "i * ps < length data" using that(1) assms(2) by simp
    with assms show ?thesis unfolding piece_of_def
      by (intro exI [of _ src] exI [of _ mid] exI [of _ data] exI [of _ "i * ps"]
          exI [of _ "chunk_end ps (length data) (i * ps)"]) (simp add: chunk_end_def)
  qed
  then show ?thesis by (auto simp: resend_frags_def list_all_iff simp del: upt_Suc)
qed

text \<open>What \<open>handle_resend\<close> records for a request that ends at \<open>en\<close>.\<close>

definition om_resent :: "nat \<Rightarrow> instant \<Rightarrow> out_msg \<Rightarrow> out_msg" where
  "om_resent en now m =
     m\<lparr>om_granted_to := max (om_granted_to m) en, om_next_send := max (om_next_send m) en,
       om_last_progress := now,
       om_done_at := (if om_next_send m < en \<and> length (om_data m) \<le> en \<and> om_done_at m = None
                      then Some now else om_done_at m)\<rparr>"

lemma handle_resend_eq:
  assumes "0 < packet_size (s_cfg s)" "map_of (s_out s) (src, pkt_msg_id pkt) = Some m"
    "st = min (unat (pkt_offset pkt)) (length (om_data m))"
    "en = min (st + unat (pkt_length pkt)) (length (om_data m))"
  shows "handle_resend s src pkt now =
     Inr (s\<lparr>s_out := AList.update (src, pkt_msg_id pkt) (om_resent en now m) (s_out s)\<rparr>,
          resend_frags (packet_size (s_cfg s)) src (pkt_msg_id pkt) (om_data m) st en)"
proof -
  have "en \<le> length (om_data m)" "en - st < Suc (en - st)" using assms(4) by simp_all
  note loop = resend_loop_eq [OF assms(1) this]
  show ?thesis
    unfolding handle_resend_def Let_def assms(2) option.case assms(3,4) [symmetric] loop bind_res.simps
    by (cases m) (simp add: om_resent_def max_def)
qed

lemma om_resent_ok: "om_ok ps m \<Longrightarrow> en \<le> length (om_data m) \<Longrightarrow> om_ok ps (om_resent en now m)"
  by (auto simp: om_ok_def om_resent_def max_def)

section \<open>The sender as a machine\<close>

datatype sender_event =
    SStart sockaddr u64 bytes instant
  | SGrant sockaddr packet instant
  | SResend sockaddr packet instant
  | SBusy sockaddr packet instant
  | STick "msg_key list \<Rightarrow> msg_key list" instant
  | SFinish sockaddr u64

fun sender_step :: "sender_core \<Rightarrow> sender_event \<Rightarrow> fault + (sender_core \<times> action list)" where
  "sender_step s (SStart dest msg_id data now) = start s dest msg_id data now"
| "sender_step s (SGrant src pkt now) = handle_grant s src pkt now"
| "sender_step s (SResend src pkt now) = handle_resend s src pkt now"
| "sender_step s (SBusy src pkt now) = Inr (handle_busy s src pkt now, [])"
| "sender_step s (STick ord now) = sender_tick ord s now"
| "sender_step s (SFinish dest msg_id) = Inr (finish s dest msg_id, [])"

text \<open>
  The invariant for messages that satisfy \<open>msg\<close>: any property of a key and its data that holds
  when a message is started holds of every message kept and of everything sent.
\<close>

definition sender_ok :: "nat \<Rightarrow> (msg_key \<Rightarrow> bytes \<Rightarrow> bool) \<Rightarrow> sender_core \<Rightarrow> bool" where
  "sender_ok ps msg s \<longleftrightarrow> sender_inv s \<and> packet_size (s_cfg s) = ps
     \<and> all_entries (\<lambda>k m. msg k (om_data m)) (s_out s)"

fun sender_adm :: "(msg_key \<Rightarrow> bytes \<Rightarrow> bool) \<Rightarrow> sender_event \<Rightarrow> bool" where
  "sender_adm msg (SStart dest msg_id data now) = msg (dest, msg_id) data"
| "sender_adm msg (STick ord now) = iter_order ord"
| "sender_adm msg e = True"

text \<open>A step that does not fault, keeps the invariant and sends only pieces of its messages.\<close>

definition sound_result :: "nat \<Rightarrow> (msg_key \<Rightarrow> bytes \<Rightarrow> bool) \<Rightarrow> (fault + (sender_core \<times> action list)) \<Rightarrow> bool" where
  "sound_result ps msg r \<longleftrightarrow>
     (\<exists>s' as. r = Inr (s', as) \<and> sender_ok ps msg s' \<and> list_all (piece_of ps msg) as)"

lemma sound_resultI:
  "sender_ok ps msg s' \<Longrightarrow> list_all (piece_of ps msg) as \<Longrightarrow> sound_result ps msg (Inr (s', as))"
  by (simp add: sound_result_def)

lemma sender_ok_update:
  "sender_ok ps msg s \<Longrightarrow> om_ok ps m \<Longrightarrow> msg key (om_data m) \<Longrightarrow>
     sender_ok ps msg (s\<lparr>s_out := AList.update key m (s_out s)\<rparr>)"
  by (auto simp: sender_ok_def sender_inv_update all_entries_update)

lemma sender_ok_entry:
  assumes "sender_ok ps msg s" "map_of (s_out s) key = Some m"
  shows "0 < ps" "packet_size (s_cfg s) = ps" "om_ok ps m" "msg key (om_data m)"
  using assms sender_inv_om [of s key m] sender_inv_ps [of s]
  by (auto simp: sender_ok_def dest: all_entriesD)

lemma om_pumped_data [simp]: "om_data (om_pumped ps limit now m) = om_data m"
  by (simp add: om_pumped_def Let_def)

lemma om_resent_data [simp]: "om_data (om_resent en now m) = om_data m"
  by (simp add: om_resent_def)

lemma pump_sound:
  assumes "sender_ok ps msg s"
  shows "sound_result ps msg (pump s key limit now)"
proof (cases "map_of (s_out s) key")
  case None
  then show ?thesis using assms by (simp add: pump_def sound_result_def)
next
  case (Some m)
  note e = sender_ok_entry [OF assms Some]
  show ?thesis
  proof (cases "om_done_at m")
    case None
    have "list_all (piece_of ps msg) (pump_frags ps (fst key) (snd key) (om_data m)
            (min limit (length (om_data m))) (om_next_send m))"
      using e by (intro pump_frags_pieces) simp_all
    with None e assms Some show ?thesis
      by (auto simp: pump_eq [where m = m] intro!: sound_resultI sender_ok_update om_pumped_ok)
  next
    case (Some t)
    then show ?thesis using assms pump_done [OF \<open>map_of (s_out s) key = Some m\<close>]
      by (simp add: sound_result_def)
  qed
qed

text \<open>A message just started, and what \<open>start\<close> sends: the unscheduled window.\<close>

definition om_started :: "transport_config \<Rightarrow> bytes \<Rightarrow> instant \<Rightarrow> out_msg" where
  "om_started cfg data now =
     (let u = min (unscheduled_bytes cfg) (length data); ns = pump_end (packet_size cfg) (length data) u 0
      in \<lparr>om_data = data, om_granted_to = u, om_next_send = ns,
          om_done_at = (if length data \<le> ns then Some now else None), om_last_progress = now\<rparr>)"

lemma start_eq:
  assumes "0 < packet_size (s_cfg s)"
  shows "start s dest msg_id data now =
     Inr (s\<lparr>s_out := AList.update (dest, msg_id) (om_started (s_cfg s) data now) (s_out s)\<rparr>,
          pump_frags (packet_size (s_cfg s)) dest msg_id data (min (unscheduled_bytes (s_cfg s)) (length data)) 0)"
  using assms
  by (simp add: start_def Let_def update_conv'
      pump_eq [where m = "\<lparr>om_data = data, om_granted_to = min (unscheduled_bytes (s_cfg s)) (length data),
        om_next_send = 0, om_done_at = None, om_last_progress = now\<rparr>"] om_pumped_def om_started_def)

lemma om_started_data [simp]: "om_data (om_started cfg data now) = data"
  by (simp add: om_started_def Let_def)

lemma om_started_ok: "0 < packet_size cfg \<Longrightarrow> om_ok (packet_size cfg) (om_started cfg data now)"
  using pump_end_bounds [of "packet_size cfg" "min (unscheduled_bytes cfg) (length data)" "length data" 0]
  by (auto simp: om_ok_def om_started_def Let_def pump_end_def split: if_splits)

lemma start_sound:
  assumes "sender_ok ps msg s" "msg (dest, msg_id) data"
  shows "sound_result ps msg (start s dest msg_id data now)"
proof -
  have ps: "packet_size (s_cfg s) = ps" "0 < ps"
    using assms(1) by (auto simp: sender_ok_def dest: sender_inv_ps)
  then have "list_all (piece_of ps msg)
      (pump_frags ps dest msg_id data (min (unscheduled_bytes (s_cfg s)) (length data)) 0)"
    using assms(2) by (intro pump_frags_pieces) simp_all
  with ps assms om_started_ok [of "s_cfg s"] show ?thesis
    by (auto simp: start_eq intro!: sound_resultI sender_ok_update)
qed

lemma handle_grant_sound: "sender_ok ps msg s \<Longrightarrow> sound_result ps msg (handle_grant s src pkt now)"
  by (auto simp: handle_grant_def Let_def sound_resultI pump_sound split: option.splits)

lemma handle_resend_sound:
  assumes "sender_ok ps msg s"
  shows "sound_result ps msg (handle_resend s src pkt now)"
proof (cases "map_of (s_out s) (src, pkt_msg_id pkt)")
  case None
  then show ?thesis using assms by (simp add: handle_resend_def sound_result_def)
next
  case (Some m)
  note e = sender_ok_entry [OF assms Some]
  let ?st = "min (unat (pkt_offset pkt)) (length (om_data m))"
  let ?en = "min (?st + unat (pkt_length pkt)) (length (om_data m))"
  have "list_all (piece_of ps msg) (resend_frags ps src (pkt_msg_id pkt) (om_data m) ?st ?en)"
    using e by (intro resend_frags_pieces) simp_all
  with e assms handle_resend_eq [of s src pkt m ?st ?en now, OF _ Some refl refl] show ?thesis
    by (auto intro!: sound_resultI sender_ok_update om_resent_ok)
qed

lemma handle_busy_sound: "sender_ok ps msg s \<Longrightarrow> sender_ok ps msg (handle_busy s src pkt now)"
  using sender_ok_entry [of ps msg s "(src, pkt_msg_id pkt)"]
  by (auto simp: handle_busy_def Let_def om_ok_def intro!: sender_ok_update split: option.splits)

lemma expire_sound: "sender_ok ps msg s \<Longrightarrow> sender_ok ps msg (expire s now)"
  by (auto simp: sender_ok_def sender_inv_def expire_def all_entries_filter hm_ok_filter)

text \<open>The probe for a stalled message: the last chunk sent, or the first one when none was.\<close>

definition probe_at :: "nat \<Rightarrow> out_msg \<Rightarrow> nat" where
  "probe_at ps m = (om_next_send m - 1) div ps * ps"

definition probe :: "nat \<Rightarrow> msg_key \<Rightarrow> out_msg \<Rightarrow> action" where
  "probe ps key m =
     Send (fst key) (frag (om_data m) (snd key) (probe_at ps m)
       (chunk_end ps (length (om_data m)) (probe_at ps m)))"

definition stalled :: "sender_core \<Rightarrow> instant \<Rightarrow> out_msg \<Rightarrow> bool" where
  "stalled s now m \<longleftrightarrow> om_done_at m = None \<and> poke_timeout (s_cfg s) \<le> now - om_last_progress m"

lemma probe_bounds:
  assumes "0 < ps" "om_ok ps m" "om_done_at m = None"
  shows "probe_at ps m < chunk_end ps (length (om_data m)) (probe_at ps m)"
    "chunk_end ps (length (om_data m)) (probe_at ps m) \<le> length (om_data m)"
proof -
  have "om_next_send m - 1 < length (om_data m)" using assms by (auto simp: om_ok_def)
  from chunk_bounds [OF assms(1) this] show
    "probe_at ps m < chunk_end ps (length (om_data m)) (probe_at ps m)"
    "chunk_end ps (length (om_data m)) (probe_at ps m) \<le> length (om_data m)"
    unfolding probe_at_def by linarith+
qed

lemma probe_piece:
  assumes "0 < ps" "om_ok ps m" "om_done_at m = None" "msg key (om_data m)"
  shows "piece_of ps msg (probe ps key m)"
  using probe_bounds [OF assms(1-3)] assms(4)
  unfolding piece_of_def probe_def
  by (intro exI [of _ "fst key"] exI [of _ "snd key"] exI [of _ "om_data m"] exI [of _ "probe_at ps m"]
      exI [of _ "chunk_end ps (length (om_data m)) (probe_at ps m)"]) (simp add: chunk_end_def)

lemma poke_loop_step:
  assumes "sender_inv s" "map_of (s_out s) key = Some m" "stalled s now m"
  shows "poke_loop s (key # keys) now =
     bind_res (poke_loop (s\<lparr>s_out := AList.update key (m\<lparr>om_last_progress := now\<rparr>) (s_out s)\<rparr>) keys now)
       (\<lambda>(s', as). Inr (s', probe (packet_size (s_cfg s)) key m # as))"
proof -
  let ?ps = "packet_size (s_cfg s)"
  have ps: "0 < ?ps" and ok: "om_ok ?ps m"
    using assms sender_inv_ps sender_inv_om by blast+
  have nd: "om_done_at m = None" "\<not> now - om_last_progress m < poke_timeout (s_cfg s)"
    using assms(3) by (auto simp: stalled_def)
  have off: "(if om_next_send m = 0 then Inr 0
      else bind_res (usize_div (om_next_send m - 1) ?ps) (\<lambda>q. Inr (q * ?ps))) = Inr (probe_at ?ps m)"
    using ps by (simp add: probe_at_def usize_div_def)
  have at: "probe_at ?ps m div ?ps * ?ps = probe_at ?ps m"
    using ps by (simp add: probe_at_def)
  note b = probe_bounds [OF ps ok nd(1)]
  have dp: "data_packet (om_data m) (snd key) (probe_at ?ps m) (chunk_end ?ps (length (om_data m)) (probe_at ?ps m))
    = Inr (frag (om_data m) (snd key) (probe_at ?ps m) (chunk_end ?ps (length (om_data m)) (probe_at ?ps m)))"
    by (rule data_packet_frag [OF less_imp_le [OF b(1)] b(2)])
  show ?thesis
    by (simp only: poke_loop.simps assms(2) option.case nd off chunk_range_eq [OF ps] at dp bind_res.simps
        prod.case probe_def if_False not_True_eq_False simp_thms)
qed

lemma poke_loop_skip:
  "map_of (s_out s) key = None \<or> (\<exists>m. map_of (s_out s) key = Some m \<and> \<not> stalled s now m) \<Longrightarrow>
     poke_loop s (key # keys) now = poke_loop s keys now"
  by (auto simp: stalled_def split: option.splits)

lemma poke_loop_sound:
  "sender_ok ps msg s \<Longrightarrow> sound_result ps msg (poke_loop s keys now)"
proof (induction keys arbitrary: s)
  case Nil
  then show ?case by (simp add: sound_result_def)
next
  case (Cons key keys)
  show ?case
  proof (cases "\<exists>m. map_of (s_out s) key = Some m \<and> stalled s now m")
    case False
    then have "poke_loop s (key # keys) now = poke_loop s keys now"
      by (intro poke_loop_skip) (cases "map_of (s_out s) key", auto)
    with Cons show ?thesis by simp
  next
    case True
    then obtain m where m: "map_of (s_out s) key = Some m" "stalled s now m" by blast
    note e = sender_ok_entry [OF Cons.prems m(1)]
    have inv: "sender_inv s" using Cons.prems by (simp add: sender_ok_def)
    have "sender_ok ps msg (s\<lparr>s_out := AList.update key (m\<lparr>om_last_progress := now\<rparr>) (s_out s)\<rparr>)"
      using e Cons.prems by (intro sender_ok_update) (simp_all add: om_ok_def)
    then obtain s' as where "poke_loop (s\<lparr>s_out := AList.update key (m\<lparr>om_last_progress := now\<rparr>) (s_out s)\<rparr>) keys now = Inr (s', as)"
      "sender_ok ps msg s'" "list_all (piece_of ps msg) as"
      using Cons.IH unfolding sound_result_def by blast
    moreover have "piece_of ps msg (probe ps key m)"
      using e m by (intro probe_piece) (simp_all add: stalled_def)
    ultimately show ?thesis
      by (simp add: poke_loop_step [OF inv m] e(2) sound_result_def del: poke_loop.simps)
  qed
qed

lemma sender_tick_sound: "sender_ok ps msg s \<Longrightarrow> sound_result ps msg (sender_tick ord s now)"
  by (simp add: sender_tick_def Let_def poke_loop_sound expire_sound)

lemma finish_sound: "sender_ok ps msg s \<Longrightarrow> sender_ok ps msg (finish s dest msg_id)"
  by (auto simp: sender_ok_def sender_inv_def finish_def all_entries_delete distinct_delete)

lemma sender_step_sound:
  "sender_ok ps msg s \<Longrightarrow> sender_adm msg e \<Longrightarrow> sound_result ps msg (sender_step s e)"
  by (cases e)
    (auto simp: start_sound handle_grant_sound handle_resend_sound sender_tick_sound
      intro: sound_resultI handle_busy_sound finish_sound)

interpretation snd: total_machine sender_step "sender_ok ps msg" "sender_adm msg" "piece_of ps msg" for ps msg
  using sender_step_sound by unfold_locales (fastforce simp: sound_result_def)+

section \<open>The byte stream of a message\<close>

text \<open>The actions that carry a message, by destination and the id in the header, and their payloads.\<close>

definition belongs :: "msg_key \<Rightarrow> action \<Rightarrow> bool" where
  "belongs key a = (case a of
     Send d b \<Rightarrow> d = fst key \<and> u64_from_le_bytes (take 8 (drop 2 b)) = snd key
   | Deliver s i x \<Rightarrow> False)"

definition stream :: "msg_key \<Rightarrow> action list \<Rightarrow> bytes" where
  "stream key as = concat (map payload_of (filter (belongs key) as))"

lemma stream_append [simp]: "stream key (as @ bs) = stream key as @ stream key bs"
  by (simp add: stream_def)

lemma stream_Nil [simp]: "stream key [] = []"
  by (simp add: stream_def)

lemma belongs_frag [simp]: "belongs key (Send d (frag data mid s e)) \<longleftrightarrow> (d, mid) = key"
  by (cases key) (simp add: belongs_def frag_def encode_fields)

lemma stream_pump:
  assumes "0 < ps" "limit \<le> length data"
  shows "stream key (pump_frags ps d mid data limit ns) =
     (if (d, mid) = key then take (pump_end ps (length data) limit ns - ns) (drop ns data) else [])"
proof -
  have "filter (belongs key) (pump_frags ps d mid data limit ns)
      = (if (d, mid) = key then pump_frags ps d mid data limit ns else [])"
    by (simp add: pump_frags_def filter_map comp_def filter_id_conv)
  then show ?thesis by (simp add: stream_def pump_payload [OF assms])
qed

lemma take_drop_grow:
  "a \<le> b \<Longrightarrow> b \<le> c \<Longrightarrow> take (b - a) (drop a xs) @ take (c - b) (drop b xs) = take (c - a) (drop a xs)"
proof -
  assume "a \<le> b" "b \<le> c"
  then have "c - a = (b - a) + (c - b)" "b = (b - a) + a" by simp_all
  then show ?thesis by (metis take_add drop_drop)
qed

text \<open>\<open>m'\<close> continues \<open>m\<close>, and the actions carry exactly the bytes between their positions.\<close>

definition continues :: "msg_key \<Rightarrow> out_msg \<Rightarrow> out_msg \<Rightarrow> action list \<Rightarrow> bool" where
  "continues key m m' as \<longleftrightarrow> om_data m' = om_data m \<and> om_next_send m \<le> om_next_send m'
     \<and> stream key as = take (om_next_send m' - om_next_send m) (drop (om_next_send m) (om_data m))"

lemma continues_refl: "stream key as = [] \<Longrightarrow> continues key m m as"
  by (simp add: continues_def)

lemma continues_trans: "continues key m m1 as \<Longrightarrow> continues key m1 m2 bs \<Longrightarrow> continues key m m2 (as @ bs)"
  by (auto simp: continues_def take_drop_grow)

text \<open>Events that send only new bytes of a message: anything but retransmission, probes and its removal.\<close>

fun forward :: "msg_key \<Rightarrow> sender_event \<Rightarrow> bool" where
  "forward key (SStart d i x t) = ((d, i) \<noteq> key)"
| "forward key (SGrant src pkt t) = True"
| "forward key (SResend src pkt t) = ((src, pkt_msg_id pkt) \<noteq> key)"
| "forward key (SBusy src pkt t) = True"
| "forward key (STick ord t) = False"
| "forward key (SFinish d i) = ((d, i) \<noteq> key)"

lemma pump_continues:
  assumes inv: "sender_inv s" and m: "map_of (s_out s) key = Some m"
    and p: "pump s key' limit now = Inr (s', as)"
  shows "\<exists>m'. map_of (s_out s') key = Some m' \<and> continues key m m' as"
proof (cases "\<exists>n. map_of (s_out s) key' = Some n \<and> om_done_at n = None")
  case True
  then obtain n where n: "map_of (s_out s) key' = Some n" "om_done_at n = None" by blast
  let ?ps = "packet_size (s_cfg s)" and ?len = "length (om_data n)"
  note ps = sender_inv_ps [OF inv]
  have ok: "om_ok ?ps n" by (rule sender_inv_om [OF inv n(1)])
  then have le: "om_next_send n \<le> ?len" by (simp add: om_ok_def)
  have s': "s' = s\<lparr>s_out := AList.update key' (om_pumped ?ps limit now n) (s_out s)\<rparr>"
    using p pump_eq [OF ps n, of limit now] by simp
  have str: "stream key as = (if (fst key', snd key') = key
      then take (pump_end ?ps ?len (min limit ?len) (om_next_send n) - om_next_send n) (drop (om_next_send n) (om_data n))
      else [])"
    using p by (auto simp: pump_eq [OF ps n] stream_pump [OF ps])
  show ?thesis
  proof (cases "key' = key")
    case True
    with m n have "n = m" by simp
    with True s' str pump_end_bounds(1) [OF ps _ le, of "min limit ?len"] show ?thesis
      by (auto simp: update_conv' continues_def om_pumped_def Let_def)
  next
    case False
    with s' str m show ?thesis by (auto simp: update_conv' intro: continues_refl)
  qed
next
  case False
  then have "s' = s \<and> as = []" using p by (auto simp: pump_def split: option.splits)
  with m show ?thesis by (auto intro: continues_refl)
qed

lemma resend_frags_other:
  "(src, mid) \<noteq> key \<Longrightarrow> stream key (resend_frags ps src mid data st en) = []"
  by (auto simp: stream_def resend_frags_def simp del: upt_Suc)

lemma step_continues:
  assumes inv: "sender_inv s" and m: "map_of (s_out s) key = Some m" and e: "forward key e"
    and st: "sender_step s e = Inr (s', as)"
  shows "\<exists>m'. map_of (s_out s') key = Some m' \<and> continues key m m' as"
proof (cases e)
  case (SStart d i x t)
  note ps = sender_inv_ps [OF inv]
  have "stream key as = []" using st e SStart by (auto simp: start_eq [OF ps] stream_pump [OF ps])
  with SStart st e m show ?thesis
    by (auto simp: start_eq [OF ps] update_conv' intro!: continues_refl)
next
  case (SGrant src pkt t)
  with st pump_continues [OF inv m] m show ?thesis
    by (auto simp: handle_grant_def Let_def continues_refl split: option.splits if_splits)
next
  case (SResend src pkt t)
  then have ne: "(src, pkt_msg_id pkt) \<noteq> key" using e by simp
  show ?thesis
  proof (cases "map_of (s_out s) (src, pkt_msg_id pkt)")
    case None
    with st SResend m show ?thesis by (auto simp: handle_resend_def intro: continues_refl)
  next
    case (Some n)
    from handle_resend_eq [OF sender_inv_ps [OF inv] Some refl refl, of t] st SResend m ne show ?thesis
      by (auto simp: update_conv' resend_frags_other intro!: continues_refl)
  qed
next
  case (SBusy src pkt t)
  with st m show ?thesis
    by (auto simp: handle_busy_def Let_def update_conv' continues_def split: option.splits)
qed (use st e m in \<open>auto simp: finish_def delete_conv' intro!: continues_refl\<close>)

lemma run_continues:
  "sender_ok ps msg s \<Longrightarrow> map_of (s_out s) key = Some m \<Longrightarrow> list_all (forward key) es \<Longrightarrow>
     list_all (sender_adm msg) es \<Longrightarrow> run_steps sender_step s es = Inr (s', as) \<Longrightarrow>
     \<exists>m'. map_of (s_out s') key = Some m' \<and> continues key m m' as"
proof (induction es arbitrary: s m as)
  case Nil
  then show ?case by (auto intro: continues_refl)
next
  case (Cons e es)
  from Cons.prems(5) obtain s1 as1 as2 where s: "sender_step s e = Inr (s1, as1)"
    "run_steps sender_step s1 es = Inr (s', as2)" "as = as1 @ as2"
    by (auto simp: bind_res_Inr_iff)
  have inv: "sender_inv s" using Cons.prems(1) by (simp add: sender_ok_def)
  obtain m1 where m1: "map_of (s_out s1) key = Some m1" "continues key m m1 as1"
    using step_continues [OF inv Cons.prems(2) _ s(1)] Cons.prems(3) by auto
  have "sender_ok ps msg s1"
    using sender_step_sound [OF Cons.prems(1), of e] Cons.prems(4) s(1) by (simp add: sound_result_def)
  from Cons.IH [OF this m1(1) _ _ s(2)] Cons.prems(3,4) m1(2) s(3) show ?case
    by (auto intro: continues_trans)
qed

section \<open>The timer's effect\<close>

lemma poke_loop_eq:
  "sender_inv s \<Longrightarrow> distinct keys \<Longrightarrow> poke_loop s keys now = Inr (s', as) \<Longrightarrow>
     as = map (\<lambda>k. probe (packet_size (s_cfg s)) k (the (map_of (s_out s) k)))
            (filter (\<lambda>k. \<exists>m. map_of (s_out s) k = Some m \<and> stalled s now m) keys)
     \<and> (\<forall>k. map_of (s_out s') k = (case map_of (s_out s) k of None \<Rightarrow> None
           | Some m \<Rightarrow> if k \<in> set keys \<and> stalled s now m then Some (m\<lparr>om_last_progress := now\<rparr>) else Some m))"
proof (induction keys arbitrary: s as)
  case Nil
  then show ?case by (auto split: option.splits)
next
  case (Cons key keys)
  show ?case
  proof (cases "\<exists>m. map_of (s_out s) key = Some m \<and> stalled s now m")
    case False
    then have "poke_loop s (key # keys) now = poke_loop s keys now"
      by (intro poke_loop_skip) (cases "map_of (s_out s) key", auto)
    with Cons.IH [of s as] Cons.prems False show ?thesis by (auto split: option.splits)
  next
    case True
    then obtain m where m: "map_of (s_out s) key = Some m" "stalled s now m" by blast
    let ?s1 = "s\<lparr>s_out := AList.update key (m\<lparr>om_last_progress := now\<rparr>) (s_out s)\<rparr>"
    have "om_ok (packet_size (s_cfg s)) (m\<lparr>om_last_progress := now\<rparr>)"
      using sender_inv_om [OF Cons.prems(1) m(1)] by (simp add: om_ok_def)
    then have inv1: "sender_inv ?s1" by (rule sender_inv_update [OF Cons.prems(1)])
    obtain as1 where p: "poke_loop ?s1 keys now = Inr (s', as1)" "as = probe (packet_size (s_cfg s)) key m # as1"
      using Cons.prems(3) unfolding poke_loop_step [OF Cons.prems(1) m] by (auto simp: bind_res_Inr_iff)
    have st: "stalled ?s1 now = stalled s now" by (simp add: stalled_def fun_eq_iff)
    have "key \<notin> set keys" "distinct keys" using Cons.prems(2) by simp_all
    note ih = Cons.IH [OF inv1 this(2) p(1), unfolded st]
    have same: "k \<in> set keys \<Longrightarrow> map_of (s_out ?s1) k = map_of (s_out s) k" for k
      using \<open>key \<notin> set keys\<close> by (auto simp: update_conv')
    have f: "filter (\<lambda>k. \<exists>m. map_of (s_out ?s1) k = Some m \<and> stalled s now m) keys
        = filter (\<lambda>k. \<exists>m. map_of (s_out s) k = Some m \<and> stalled s now m) keys"
      using same by (intro filter_cong) simp_all
    have "as1 = map (\<lambda>k. probe (packet_size (s_cfg s)) k (the (map_of (s_out s) k)))
        (filter (\<lambda>k. \<exists>m. map_of (s_out s) k = Some m \<and> stalled s now m) keys)"
      using ih same unfolding f by (auto cong: map_cong)
    with p(2) m ih \<open>key \<notin> set keys\<close> show ?thesis
      by (auto simp: update_conv' split: option.splits)
  qed
qed

lemma expire_map_of:
  "hm_ok (s_out s) \<Longrightarrow> map_of (s_out (expire s now)) k = (case map_of (s_out s) k of None \<Rightarrow> None
     | Some m \<Rightarrow> (case om_done_at m of None \<Rightarrow> Some m
         | Some t \<Rightarrow> if now - t < linger (s_cfg s) then Some m else None))"
  by (auto simp: expire_def map_of_filter_distinct split: option.splits)

lemma sender_new_ok: "0 < packet_size cfg \<Longrightarrow> sender_ok (packet_size cfg) msg (sender_new cfg)"
  using sender_inv_new [of cfg] by (simp add: sender_ok_def) (simp add: sender_new_def)

lemma sender_runs:
  "0 < packet_size cfg \<Longrightarrow> list_all (sender_adm msg) es \<Longrightarrow>
     \<exists>s as. run_steps sender_step (sender_new cfg) es = Inr (s, as)"
  using snd.run_total [OF sender_new_ok] by force

section \<open>The span of a retransmission\<close>

lemma resend_frags_shift:
  assumes "st < en" "0 < ps"
  shows "resend_frags ps src mid data st en
    = map (\<lambda>j. Send src (frag data mid (st div ps * ps + j * ps) (chunk_end ps (length data) (st div ps * ps + j * ps))))
        [0..<Suc ((en - 1) div ps) - st div ps]"
proof -
  have "st div ps \<le> (en - 1) div ps" using assms(1) by (intro div_le_mono) simp
  then have "[st div ps ..< Suc ((en - 1) div ps)] = map (\<lambda>j. j + st div ps) [0..<Suc ((en - 1) div ps) - st div ps]"
    using map_add_upt [of "st div ps" "Suc ((en - 1) div ps) - st div ps"] by simp
  with assms(1) show ?thesis
    by (simp add: resend_frags_def comp_def algebra_simps del: upt_Suc)
qed

lemma resend_span:
  assumes "0 < ps" "st < en" "en \<le> len"
  defines "a \<equiv> st div ps * ps"
  defines "b \<equiv> min (a + (Suc ((en - 1) div ps) - st div ps) * ps) len"
  shows "a \<le> st" "st < a + ps" "en \<le> b" "b < en + ps" "b \<le> len" "b mod ps = 0 \<or> b = len"
proof -
  have le: "st div ps \<le> (en - 1) div ps" using assms(2) by (intro div_le_mono) simp
  then have e: "a + (Suc ((en - 1) div ps) - st div ps) * ps = Suc ((en - 1) div ps) * ps"
    by (simp add: a_def add_mult_distrib [symmetric])
  define q where "q = (en - 1) div ps"
  have "q * ps + (en - 1) mod ps = en - 1" "(en - 1) mod ps < ps"
    using assms(1) by (simp_all add: q_def)
  then have d: "q * ps < en" "en \<le> q * ps + ps" using assms(2) by linarith+
  have b: "b = min (q * ps + ps) len" unfolding b_def e by (simp add: q_def)
  show "a \<le> st" by (simp add: a_def)
  have "st div ps * ps + st mod ps = st" "st mod ps < ps" using assms(1) by simp_all
  then show "st < a + ps" unfolding a_def by linarith
  show "en \<le> b" "b < en + ps" "b \<le> len" using d assms(2,3) unfolding b by (auto simp: min_def)
  show "b mod ps = 0 \<or> b = len" unfolding b by (auto simp: min_def)
qed

section \<open>Properties\<close>

text \<open>
  C19: The sender never panics nor hangs, whatever the order and content of the calls and of the
  GRANT, RESEND and BUSY packets; its invariant holds throughout, and everything it sends is a
  nonempty piece, of at most a packet size, of a message that was given to \<open>start\<close>.
\<close>

theorem sender_total_and_sound:
  assumes "0 < packet_size cfg" "list_all (sender_adm msg) es"
  shows "\<exists>s as. run_steps sender_step (sender_new cfg) es = Inr (s, as) \<and> sender_inv s
    \<and> list_all (piece_of (packet_size cfg) msg) as"
proof -
  note ok = sender_new_ok [OF assms(1), of msg]
  obtain s as where r: "run_steps sender_step (sender_new cfg) es = Inr (s, as)"
    using sender_runs [OF assms] by blast
  from snd.run_inv_good [OF ok assms(2) r] r show ?thesis by (auto simp: sender_ok_def)
qed

theorem sender_total_and_sound_witness:
  "\<exists>s as. run_steps sender_step (sender_new small_config)
     [SStart (localhost 9) 1 [1, 2, 3, 4, 5, 6, 7, 8, 9] 0,
      SResend (localhost 9) (packet_new Resend 0 1 0 77 99) 3, STick rev 60000000] = Inr (s, as)
    \<and> sender_inv s \<and> list_all (piece_of (packet_size small_config) (\<lambda>k d. snd k = 1)) as"
  by (rule sender_total_and_sound) simp_all

text \<open>
  \<open>start\<close> sends the unscheduled window at once, rounded up to whole packets, from the first
  byte and without gaps, and the message is done exactly when that is all of it.
\<close>

lemma start_sends_window:
  assumes "0 < packet_size (s_cfg s)"
  shows "\<exists>s' as w. start s dest msg_id data now = Inr (s', as)
    \<and> concat (map payload_of as) = take w data
    \<and> min (unscheduled_bytes (s_cfg s)) (length data) \<le> w \<and> w \<le> length data
    \<and> w < min (unscheduled_bytes (s_cfg s)) (length data) + packet_size (s_cfg s)
    \<and> list_all (belongs (dest, msg_id)) as
    \<and> (is_done s' dest msg_id \<longleftrightarrow> w = length data)"
proof -
  let ?ps = "packet_size (s_cfg s)" and ?u = "min (unscheduled_bytes (s_cfg s)) (length data)"
  note b = pump_end_bounds [OF assms, of ?u "length data" 0]
  have "pump_end ?ps (length data) ?u 0 < ?u + ?ps"
    using b(4) assms by (cases "0 < ?u") (auto simp: pump_end_def)
  with b pump_payload [OF assms, of ?u data dest msg_id 0] start_eq [OF assms, of dest msg_id data now]
  show ?thesis
    by (auto simp: is_done_def update_conv' om_started_def Let_def pump_frags_def list_all_iff)
qed

lemma start_sends_window_witness:
  "\<exists>s' as w. start (sender_new small_config) (localhost 9) 1 [1, 2, 3, 4, 5, 6, 7, 8, 9] 0 = Inr (s', as)
    \<and> concat (map payload_of as) = take w [1, 2, 3, 4, 5, 6, 7, 8, 9]
    \<and> min (unscheduled_bytes (s_cfg (sender_new small_config))) (length [1 :: u8, 2, 3, 4, 5, 6, 7, 8, 9]) \<le> w
    \<and> w \<le> length [1 :: u8, 2, 3, 4, 5, 6, 7, 8, 9]
    \<and> w < min (unscheduled_bytes (s_cfg (sender_new small_config))) (length [1 :: u8, 2, 3, 4, 5, 6, 7, 8, 9])
          + packet_size (s_cfg (sender_new small_config))
    \<and> list_all (belongs (localhost 9, 1)) as
    \<and> (is_done s' (localhost 9) 1 \<longleftrightarrow> w = length [1 :: u8, 2, 3, 4, 5, 6, 7, 8, 9])"
  by (rule start_sends_window) (simp add: sender_new_def)

text \<open>
  C20: Without retransmission requests and probes a message is one gapless stream: over any
  sequence of other events, grants of any value in any order included, the bytes sent for it are
  exactly those between its position before and its position after, each once and in order.
\<close>

theorem grants_stream_in_order:
  assumes "0 < packet_size cfg" "list_all (forward (dest, msg_id)) es"
    "run_steps sender_step (sender_new cfg) (SStart dest msg_id data now # es) = Inr (s, as)"
  shows "\<exists>m. map_of (s_out s) (dest, msg_id) = Some m \<and> om_data m = data
    \<and> stream (dest, msg_id) as = take (om_next_send m) data"
proof -
  let ?key = "(dest, msg_id)" and ?ps = "packet_size cfg"
  have cfg: "s_cfg (sender_new cfg) = cfg" by (simp add: sender_new_def)
  note ok = sender_new_ok [OF assms(1), of "\<lambda>k d. True"]
  from assms(3) obtain s1 as1 as2 where s1: "start (sender_new cfg) dest msg_id data now = Inr (s1, as1)"
    and run: "run_steps sender_step s1 es = Inr (s, as2)" and as: "as = as1 @ as2"
    by (auto simp: bind_res_Inr_iff)
  have ok1: "sender_ok ?ps (\<lambda>k d. True) s1"
    using start_sound [OF ok, of dest msg_id data now] s1 by (simp add: sound_result_def)
  have m1: "map_of (s_out s1) ?key = Some (om_started cfg data now)"
    using s1 start_eq [of "sender_new cfg"] assms(1) by (auto simp: cfg update_conv')
  have "stream ?key as1 = take (om_next_send (om_started cfg data now)) data"
    using s1 start_eq [of "sender_new cfg"] assms(1) by (auto simp: cfg stream_pump om_started_def Let_def)
  moreover have "sender_adm (\<lambda>k d. True) e" if "forward ?key e" for e
    using that by (cases e) simp_all
  then have "list_all (sender_adm (\<lambda>k d. True)) es" using assms(2) by (auto simp: list_all_iff)
  ultimately show ?thesis
    using run_continues [OF ok1 m1 assms(2) _ run] take_drop_grow [of 0] by (fastforce simp: continues_def as)
qed

theorem grants_stream_in_order_witness:
  "let es = [SGrant (localhost 9) (packet_new Grant 0 1 0 9 0) 1, SBusy (localhost 9) (packet_new Busy 0 1 0 0 0) 2,
             SGrant (localhost 9) (packet_new Grant 0 1 0 7 0) 3, SGrant (localhost 9) (packet_new Grant 0 1 0 13 0) 4]
   in case run_steps sender_step (sender_new small_config)
        (SStart (localhost 9) 1 [1, 2, 3, 4, 5, 6, 7, 8, 9, 10, 11, 12, 13, 14] 0 # es) of
        Inl f \<Rightarrow> False
      | Inr (s, as) \<Rightarrow> \<exists>m. map_of (s_out s) (localhost 9, 1) = Some m
          \<and> om_data m = [1, 2, 3, 4, 5, 6, 7, 8, 9, 10, 11, 12, 13, 14]
          \<and> stream (localhost 9, 1) as = take (om_next_send m) [1, 2, 3, 4, 5, 6, 7, 8, 9, 10, 11, 12, 13, 14]"
proof -
  let ?es = "[SGrant (localhost 9) (packet_new Grant 0 1 0 9 0) 1, SBusy (localhost 9) (packet_new Busy 0 1 0 0 0) 2,
             SGrant (localhost 9) (packet_new Grant 0 1 0 7 0) 3, SGrant (localhost 9) (packet_new Grant 0 1 0 13 0) 4]"
  let ?data = "[1, 2, 3, 4, 5, 6, 7, 8, 9, 10, 11, 12, 13, 14]"
  have "0 < packet_size small_config" by simp
  from sender_runs [OF this, of "\<lambda>k d. True" "SStart (localhost 9) 1 ?data 0 # ?es"]
  obtain s as where r: "run_steps sender_step (sender_new small_config) (SStart (localhost 9) 1 ?data 0 # ?es) = Inr (s, as)"
    by auto
  have "\<exists>m. map_of (s_out s) (localhost 9, 1) = Some m \<and> om_data m = ?data
      \<and> stream (localhost 9, 1) as = take (om_next_send m) ?data"
    by (rule grants_stream_in_order [OF _ _ r]) simp_all
  then show ?thesis by (simp only: Let_def r sum.case prod.case)
qed

text \<open>
  The effect of a GRANT on a message in progress: one that does not raise the limit changes
  nothing and sends nothing; one that does makes the sender send the bytes up to the new limit,
  in order from where it stood and at most one packet beyond, never beyond the message, and
  remember the limit.
\<close>

lemma handle_grant_effect:
  assumes "sender_inv s" "map_of (s_out s) (src, pkt_msg_id pkt) = Some m" "om_done_at m = None"
  defines "g \<equiv> min (unat (pkt_offset pkt)) (length (om_data m))"
  shows "if g \<le> om_granted_to m then handle_grant s src pkt now = Inr (s, [])
    else \<exists>s' as m'. handle_grant s src pkt now = Inr (s', as)
      \<and> map_of (s_out s') = (map_of (s_out s))((src, pkt_msg_id pkt) \<mapsto> m')
      \<and> om_data m' = om_data m \<and> om_granted_to m' = g \<and> g \<le> om_next_send m' \<and> om_next_send m' < g + packet_size (s_cfg s)
      \<and> om_next_send m \<le> om_next_send m' \<and> om_next_send m' \<le> length (om_data m)
      \<and> concat (map payload_of as) = take (om_next_send m' - om_next_send m) (drop (om_next_send m) (om_data m))
      \<and> (is_done s' src (pkt_msg_id pkt) \<longleftrightarrow> om_next_send m' = length (om_data m))"
proof (cases "g \<le> om_granted_to m")
  case True
  then show ?thesis using assms(2) by (simp add: handle_grant_def Let_def g_def)
next
  case False
  let ?ps = "packet_size (s_cfg s)" and ?key = "(src, pkt_msg_id pkt)" and ?len = "length (om_data m)"
  note ps = sender_inv_ps [OF assms(1)]
  have ok: "om_ok ?ps m" by (rule sender_inv_om [OF assms(1,2)])
  have g: "g \<le> ?len" "min g ?len = g" by (simp_all add: g_def)
  have ok': "om_ok ?ps (om_pumped ?ps g now m)" by (rule om_pumped_ok [OF ps ok assms(3)])
  have h: "handle_grant s src pkt now =
      Inr (s\<lparr>s_out := AList.update ?key (om_pumped ?ps g now m) (s_out s)\<rparr>,
           pump_frags ?ps src (pkt_msg_id pkt) (om_data m) g (om_next_send m))"
    using False assms(2) pump_eq [OF ps assms(2,3), of g now] g
    by (simp add: handle_grant_def Let_def g_def)
  have p: "om_granted_to (om_pumped ?ps g now m) = g"
    "om_next_send (om_pumped ?ps g now m) = pump_end ?ps ?len g (om_next_send m)"
    using False g by (simp_all add: om_pumped_def Let_def)
  note b = pump_end_bounds [OF ps g(1), of "om_next_send m"]
  have "concat (map payload_of (pump_frags ?ps src (pkt_msg_id pkt) (om_data m) g (om_next_send m)))
      = take (pump_end ?ps ?len g (om_next_send m) - om_next_send m) (drop (om_next_send m) (om_data m))"
    by (rule pump_payload [OF ps g(1)])
  with False h p b ok ok' show ?thesis
    by (auto simp: om_ok_def is_done_def update_conv' intro!: exI [of _ "om_pumped ?ps g now m"])
qed

lemma handle_grant_effect_witness:
  "let m = om_started small_config [1, 2, 3, 4, 5, 6, 7, 8, 9, 10, 11, 12, 13, 14] 0;
       s = \<lparr>s_cfg = small_config, s_out = [((localhost 9, 1), m)]\<rparr>
   in \<exists>s' as m'. handle_grant s (localhost 9) (packet_new Grant 0 1 0 9 0) 5 = Inr (s', as)
      \<and> map_of (s_out s') = (map_of (s_out s))((localhost 9, 1) \<mapsto> m')
      \<and> om_data m' = om_data m \<and> om_granted_to m' = 9 \<and> 9 \<le> om_next_send m' \<and> om_next_send m' < 9 + packet_size (s_cfg s)
      \<and> om_next_send m \<le> om_next_send m' \<and> om_next_send m' \<le> length (om_data m)
      \<and> concat (map payload_of as) = take (om_next_send m' - om_next_send m) (drop (om_next_send m) (om_data m))
      \<and> (is_done s' (localhost 9) 1 \<longleftrightarrow> om_next_send m' = length (om_data m))"
proof -
  let ?m = "om_started small_config [1, 2, 3, 4, 5, 6, 7, 8, 9, 10, 11, 12, 13, 14] 0"
  let ?s = "\<lparr>s_cfg = small_config, s_out = [((localhost 9, 1), ?m)]\<rparr>"
  have m: "om_granted_to ?m = 6" "om_done_at ?m = None" "min (unat (9 :: u32)) (length (om_data ?m)) = 9"
    by code_simp+
  have "om_ok 4 ?m" using om_started_ok [of small_config] by simp
  then have inv: "sender_inv ?s" by (simp add: sender_inv_def all_entries_def)
  have "map_of (s_out ?s) (localhost 9, pkt_msg_id (packet_new Grant 0 1 0 9 0)) = Some ?m" by simp
  from handle_grant_effect [OF inv this m(2), of 5, unfolded packet_new_simps m(1,3)] show ?thesis
    by (simp only: Let_def)
qed

text \<open>
  A RESEND request is answered completely and with whole chunks: what is sent is the bytes
  from the start of the chunk of its first byte to the end of the chunk of its last byte, and no
  more; a request for nothing, or beyond the message, is answered with nothing.
\<close>

lemma handle_resend_covers:
  assumes "sender_inv s" "map_of (s_out s) (src, pkt_msg_id pkt) = Some m"
  defines "ps \<equiv> packet_size (s_cfg s)" and "len \<equiv> length (om_data m)"
  defines "st \<equiv> min (unat (pkt_offset pkt)) len"
  defines "en \<equiv> min (st + unat (pkt_length pkt)) len"
  shows "\<exists>s' as. handle_resend s src pkt now = Inr (s', as) \<and>
    (if st = en then as = []
     else \<exists>a b. concat (map payload_of as) = take (b - a) (drop a (om_data m))
       \<and> a mod ps = 0 \<and> a \<le> st \<and> st < a + ps
       \<and> en \<le> b \<and> b < en + ps \<and> b \<le> len \<and> (b mod ps = 0 \<or> b = len)
       \<and> list_all (belongs (src, pkt_msg_id pkt)) as)"
proof -
  have ps: "0 < ps" using sender_inv_ps [OF assms(1)] by (simp add: ps_def)
  have le: "en \<le> len" "st \<le> en" by (simp_all add: en_def st_def)
  note h = handle_resend_eq [OF sender_inv_ps [OF assms(1)] assms(2) refl refl, of now,
      folded ps_def len_def, folded st_def, folded en_def]
  show ?thesis
  proof (cases "st = en")
    case True
    with h show ?thesis by (simp add: resend_frags_def)
  next
    case False
    then have lt: "st < en" using le by simp
    define i where "i = st div ps"
    define k where "k = Suc ((en - 1) div ps) - i"
    have fr: "resend_frags ps src (pkt_msg_id pkt) (om_data m) st en
        = map (\<lambda>j. Send src (frag (om_data m) (pkt_msg_id pkt) (i * ps + j * ps)
                (chunk_end ps len (i * ps + j * ps)))) [0..<k]"
      using resend_frags_shift [OF lt ps] by (simp add: i_def k_def len_def)
    have "concat (map payload_of (resend_frags ps src (pkt_msg_id pkt) (om_data m) st en))
        = take (min (i * ps + k * ps) len - i * ps) (drop (i * ps) (om_data m))"
      using concat_chunks [of ps "om_data m" "i * ps" k]
      by (simp add: fr comp_def len_def)
    moreover have "list_all (belongs (src, pkt_msg_id pkt)) (resend_frags ps src (pkt_msg_id pkt) (om_data m) st en)"
      by (simp add: fr list_all_iff)
    moreover note resend_span [OF ps lt le(1), folded i_def, folded k_def]
    moreover have "i * ps mod ps = 0" by simp
    ultimately have "\<exists>a b. concat (map payload_of (resend_frags ps src (pkt_msg_id pkt) (om_data m) st en))
          = take (b - a) (drop a (om_data m))
        \<and> a mod ps = 0 \<and> a \<le> st \<and> st < a + ps \<and> en \<le> b \<and> b < en + ps \<and> b \<le> len \<and> (b mod ps = 0 \<or> b = len)
        \<and> list_all (belongs (src, pkt_msg_id pkt)) (resend_frags ps src (pkt_msg_id pkt) (om_data m) st en)"
      by (intro exI [of _ "i * ps"] exI [of _ "min (i * ps + k * ps) len"] conjI)
    with False h show ?thesis by simp
  qed
qed

lemma handle_resend_covers_witness:
  "let m = om_started small_config [1, 2, 3, 4, 5, 6, 7, 8, 9, 10, 11, 12, 13, 14] 0;
       s = \<lparr>s_cfg = small_config, s_out = [((localhost 9, 1), m)]\<rparr>
   in \<exists>s' as. handle_resend s (localhost 9) (packet_new Resend 0 1 0 5 4) 5 = Inr (s', as)
     \<and> (\<exists>a b. concat (map payload_of as) = take (b - a) (drop a (om_data m)) \<and> a \<le> 5 \<and> 9 \<le> b)"
proof -
  let ?m = "om_started small_config [1, 2, 3, 4, 5, 6, 7, 8, 9, 10, 11, 12, 13, 14] 0"
  let ?s = "\<lparr>s_cfg = small_config, s_out = [((localhost 9, 1), ?m)]\<rparr>"
  have "om_ok 4 ?m" using om_started_ok [of small_config] by simp
  then have "sender_inv ?s" by (simp add: sender_inv_def all_entries_def)
  note inv = this
  have n: "min (unat (5 :: u32)) (length (om_data ?m)) = 5" "min (5 + unat (4 :: u32)) (length (om_data ?m)) = 9"
    by code_simp+
  have "map_of (s_out ?s) (localhost 9, pkt_msg_id (packet_new Resend 0 1 0 5 4)) = Some ?m" by simp
  from handle_resend_covers [OF inv this, of 5, unfolded packet_new_simps n] show ?thesis
    unfolding Let_def by force
qed

text \<open>
  A timer tick drops exactly the finished messages whose linger time is over, probes exactly
  the stalled ones, each once, with the last chunk that was sent, and leaves the rest alone.
\<close>

lemma sender_tick_effect:
  assumes "sender_inv s" "iter_order ord"
  shows "\<exists>s' as ks. sender_tick ord s now = Inr (s', as)
    \<and> (\<forall>k. map_of (s_out s') k = (case map_of (s_out s) k of None \<Rightarrow> None | Some m \<Rightarrow>
          if \<exists>t. om_done_at m = Some t \<and> linger (s_cfg s) \<le> now - t then None
          else if stalled s now m then Some (m\<lparr>om_last_progress := now\<rparr>) else Some m))
    \<and> distinct ks \<and> set ks = {k. \<exists>m. map_of (s_out s) k = Some m \<and> stalled s now m}
    \<and> as = map (\<lambda>k. probe (packet_size (s_cfg s)) k (the (map_of (s_out s) k))) ks"
proof -
  let ?e = "expire s now" and ?stale = "\<lambda>m. \<exists>t. om_done_at m = Some t \<and> linger (s_cfg s) \<le> now - t"
  have hm: "hm_ok (s_out s)" using assms(1) by (simp add: sender_inv_def)
  have ok: "sender_ok (packet_size (s_cfg s)) (\<lambda>k d. True) s"
    using assms(1) by (simp add: sender_ok_def all_entries_def)
  have inv: "sender_inv ?e" using expire_sound [OF ok] by (simp add: sender_ok_def)
  let ?keys = "ord (hm_keys (s_out ?e))"
  have d: "distinct ?keys" using inv assms(2) by (simp add: iter_order_distinct sender_inv_def)
  obtain s' as where t: "poke_loop ?e ?keys now = Inr (s', as)"
    using poke_loop_sound [OF expire_sound [OF ok]] by (fastforce simp: sound_result_def)
  have cfg: "s_cfg ?e = s_cfg s" by (simp add: expire_def)
  have st: "stalled ?e now = stalled s now" by (simp add: stalled_def cfg fun_eq_iff)
  have get: "map_of (s_out ?e) k = (case map_of (s_out s) k of None \<Rightarrow> None
      | Some m \<Rightarrow> if ?stale m then None else Some m)" for k
    by (auto simp: expire_map_of [OF hm] split: option.splits)
  have live: "(\<exists>m. map_of (s_out ?e) k = Some m \<and> stalled s now m) = (\<exists>m. map_of (s_out s) k = Some m \<and> stalled s now m)"
    "stalled s now m \<Longrightarrow> map_of (s_out s) k = Some m \<Longrightarrow> map_of (s_out ?e) k = Some m" for k m
    by (auto simp: get stalled_def split: option.splits)
  have mem: "k \<in> set ?keys \<longleftrightarrow> map_of (s_out ?e) k \<noteq> None" for k
    using assms(2) by (simp add: iter_order_set map_of_eq_None_iff)
  note p = poke_loop_eq [OF inv d t, unfolded st cfg]
  let ?ks = "filter (\<lambda>k. \<exists>m. map_of (s_out ?e) k = Some m \<and> stalled s now m) ?keys"
  have "set ?ks = {k. \<exists>m. map_of (s_out s) k = Some m \<and> stalled s now m}"
    using mem by (auto simp: live(1) [symmetric])
  moreover have "as = map (\<lambda>k. probe (packet_size (s_cfg s)) k (the (map_of (s_out s) k))) ?ks"
    using p by (auto simp: get split: option.splits if_splits cong: map_cong)
  moreover have "map_of (s_out s') k = (case map_of (s_out s) k of None \<Rightarrow> None | Some m \<Rightarrow>
      if ?stale m then None else if stalled s now m then Some (m\<lparr>om_last_progress := now\<rparr>) else Some m)" for k
  proof -
    have at: "map_of (s_out s') k = (case map_of (s_out ?e) k of None \<Rightarrow> None | Some m \<Rightarrow>
        if k \<in> set ?keys \<and> stalled s now m then Some (m\<lparr>om_last_progress := now\<rparr>) else Some m)"
      using p by blast
    show ?thesis
    proof (cases "map_of (s_out s) k")
      case None
      then show ?thesis using at by (simp add: get)
    next
      case (Some m)
      show ?thesis
      proof (cases "?stale m")
        case True
        then show ?thesis using at Some by (simp only: get option.case if_True)
      next
        case False
        then have e: "map_of (s_out ?e) k = Some m" using Some by (simp only: get option.case if_False)
        then have "k \<in> set ?keys" using mem by simp
        then show ?thesis using at False by (simp only: Some e option.case if_False simp_thms)
      qed
    qed
  qed
  moreover have "sender_tick ord s now = Inr (s', as)" using t by (simp add: sender_tick_def Let_def)
  ultimately show ?thesis using d distinct_filter by blast
qed

lemma sender_tick_effect_witness:
  "let s = \<lparr>s_cfg = small_config, s_out = [((localhost 9, 1), om_started small_config [1, 2, 3, 4, 5, 6, 7, 8, 9] 0),
             ((localhost 9, 2), om_started small_config [1, 2] 0)]\<rparr>
   in \<exists>s' as ks. sender_tick rev s 6000000000 = Inr (s', as)
    \<and> (\<forall>k. map_of (s_out s') k = (case map_of (s_out s) k of None \<Rightarrow> None | Some m \<Rightarrow>
          if \<exists>t. om_done_at m = Some t \<and> linger (s_cfg s) \<le> 6000000000 - t then None
          else if stalled s 6000000000 m then Some (m\<lparr>om_last_progress := 6000000000\<rparr>) else Some m))
    \<and> distinct ks \<and> set ks = {k. \<exists>m. map_of (s_out s) k = Some m \<and> stalled s 6000000000 m}
    \<and> as = map (\<lambda>k. probe (packet_size (s_cfg s)) k (the (map_of (s_out s) k))) ks"
proof -
  have "om_ok 4 (om_started small_config d 0)" for d using om_started_ok [of small_config] by simp
  then show ?thesis unfolding Let_def
    by (intro sender_tick_effect) (auto simp: sender_inv_def all_entries_def)
qed

text \<open>
  A configuration with a packet size of 0 is accepted, and then \<open>start\<close> hangs: its loop does
  not come to an end for any number of iterations, while the sender's lock is held.
\<close>

lemma zero_packet_size_hangs:
  assumes "packet_size (s_cfg s) = 0" "0 < unscheduled_bytes (s_cfg s)" "data \<noteq> []"
  shows "(\<forall>fuel. pump_loop fuel (packet_size (s_cfg s)) dest msg_id data
              (min (unscheduled_bytes (s_cfg s)) (length data)) 0 = Inl No_return)
    \<and> start s dest msg_id data now = Inl No_return"
proof -
  have "pump_loop fuel 0 dest msg_id data (min (unscheduled_bytes (s_cfg s)) (length data)) 0 = Inl No_return" for fuel
    using assms by (intro pump_loop_zero) simp_all
  then show ?thesis using assms(1)
    by (simp add: start_def pump_def Let_def update_conv' del: pump_loop.simps)
qed

lemma zero_packet_size_hangs_witness:
  "let s = sender_new (default_config\<lparr>packet_size := 0\<rparr>)
   in (\<forall>fuel. pump_loop fuel (packet_size (s_cfg s)) (localhost 9) 1 [7] (min (unscheduled_bytes (s_cfg s)) (length [7 :: u8])) 0 = Inl No_return)
    \<and> start s (localhost 9) 1 [7] 0 = Inl No_return"
  unfolding Let_def by (rule zero_packet_size_hangs) (simp_all add: sender_new_def default_config_def)

end
