(* ===== verification/Receiver.thy ===== *)
theory Receiver
  imports TxQueue Chunks
begin

text \<open>
  The receiving state machine of \<^verbatim>\<open>src/transport/receiver.rs\<close>: reassembly of messages
  from DATA packets, the grant scheduler, and recovery of lost packets on a timer. As in the
  sender, an operation gives the next core and the actions it appends, or a fault. Iterations
  over the map of incoming messages take the iteration order as an argument.
\<close>

section \<open>State\<close>

record in_msg =
  im_total_len :: nat
  im_buf :: bytes
  im_received :: "bool list"
  im_received_bytes :: nat
  im_granted_to :: nat
  im_last_progress :: instant
  im_last_grant :: instant
  im_unanswered_resends :: nat

definition MAX_UNANSWERED_RESENDS :: nat where
  "MAX_UNANSWERED_RESENDS = 40"

definition COMPLETED_CACHE :: nat where
  "COMPLETED_CACHE = 4096"

record receiver_core =
  r_cfg :: transport_config
  r_incoming :: "(msg_key \<times> in_msg) list"
  r_granting :: "msg_key list"
  r_completed :: "msg_key list"

definition receiver_new :: "transport_config \<Rightarrow> receiver_core" where
  "receiver_new cfg = \<lparr>r_cfg = cfg, r_incoming = [], r_granting = [], r_completed = []\<rparr>"

definition remaining :: "in_msg \<Rightarrow> fault + nat" where
  "remaining m = usize_sub (im_total_len m) (im_received_bytes m)"

definition complete :: "in_msg \<Rightarrow> bool" where
  "complete m \<longleftrightarrow> im_received_bytes m = im_total_len m"

text \<open>\<open>iter().position(|r| !r)\<close>.\<close>

fun first_false :: "bool list \<Rightarrow> nat option" where
  "first_false [] = None"
| "first_false (b # bs) = (if b then map_option Suc (first_false bs) else Some 0)"

definition first_missing_offset :: "in_msg \<Rightarrow> nat \<Rightarrow> nat option" where
  "first_missing_offset m ps = map_option (\<lambda>i. i * ps) (first_false (im_received m))"

section \<open>Delivery and grants\<close>

definition deliver :: "receiver_core \<Rightarrow> msg_key \<Rightarrow> sockaddr \<Rightarrow> bytes \<Rightarrow> receiver_core \<times> action list" where
  "deliver r key src data =
     (let r1 = r\<lparr>r_incoming := AList.delete key (r_incoming r),
                 r_granting := filter (\<lambda>k. k \<noteq> key) (r_granting r)\<rparr>;
          kept = (if COMPLETED_CACHE \<le> length (r_completed r1) then tl (r_completed r1) else r_completed r1)
      in (r1\<lparr>r_completed := kept @ [key]\<rparr>, [Deliver src (snd key) data]))"

definition issue_grant :: "receiver_core \<Rightarrow> msg_key \<Rightarrow> instant \<Rightarrow> bool \<Rightarrow> receiver_core \<times> action list" where
  "issue_grant r key now force =
     (let increment = grant_increment (r_cfg r)
      in case map_of (r_incoming r) key of
           None \<Rightarrow> (r, [])
         | Some m \<Rightarrow>
             let outstanding = im_granted_to m - im_received_bytes m
             in if \<not> force \<and> increment div 2 \<le> outstanding then (r, [])
                else
                  let target = max (min (im_received_bytes m + increment) (im_total_len m)) (im_granted_to m)
                  in if target = im_granted_to m \<and> \<not> force then (r, [])
                     else
                       let added = target - im_granted_to m;
                           m' = m\<lparr>im_granted_to := target, im_last_grant := now\<rparr>
                       in (r\<lparr>r_incoming := AList.update key m' (r_incoming r)\<rparr>,
                           [Send (fst key) (encode (packet_new Grant (priority_for_len (im_total_len m))
                              (snd key) 0 (as_u32 target) (as_u32 added)) [])]))"

section \<open>The scheduler\<close>

definition eligible :: "in_msg \<Rightarrow> bool" where
  "eligible m \<longleftrightarrow> \<not> complete m \<and> im_granted_to m < im_total_len m"

text \<open>The \<open>filter\<close> and \<open>map\<close> over the incoming messages, in the order of the keys.\<close>

fun candidates :: "(msg_key \<times> in_msg) list \<Rightarrow> msg_key list \<Rightarrow> fault + (msg_key \<times> nat) list" where
  "candidates inc [] = Inr []"
| "candidates inc (key # keys) =
     (case map_of inc key of
        None \<Rightarrow> candidates inc keys
      | Some m \<Rightarrow>
          if eligible m
          then bind_res (remaining m) (\<lambda>rem.
               bind_res (candidates inc keys) (\<lambda>cs. Inr ((key, rem) # cs)))
          else candidates inc keys)"

text \<open>The anti-starvation loop: append every message that has waited too long for a grant.\<close>

fun add_starving :: "(msg_key \<times> in_msg) list \<Rightarrow> duration \<Rightarrow> instant \<Rightarrow> msg_key list \<Rightarrow> msg_key list \<Rightarrow> msg_key list" where
  "add_starving inc starve now [] selected = selected"
| "add_starving inc starve now (key # keys) selected =
     (case map_of inc key of
        None \<Rightarrow> add_starving inc starve now keys selected
      | Some m \<Rightarrow>
          if \<not> complete m \<and> im_granted_to m < im_total_len m \<and> starve \<le> now - im_last_grant m
             \<and> key \<notin> set selected
          then add_starving inc starve now keys (selected @ [key])
          else add_starving inc starve now keys selected)"

fun grant_all :: "receiver_core \<Rightarrow> msg_key list \<Rightarrow> instant \<Rightarrow> receiver_core \<times> action list" where
  "grant_all r [] now = (r, [])"
| "grant_all r (key # keys) now =
     (let (r1, as1) = issue_grant r key now False; (r2, as2) = grant_all r1 keys now
      in (r2, as1 @ as2))"

definition schedule :: "(msg_key list \<Rightarrow> msg_key list) \<Rightarrow> receiver_core \<Rightarrow> instant \<Rightarrow> fault + (receiver_core \<times> action list)" where
  "schedule ord r now =
     (let k = max (overcommit (r_cfg r)) 1; starve = starve_threshold (r_cfg r);
          keys = ord (hm_keys (r_incoming r))
      in bind_res (candidates (r_incoming r) keys) (\<lambda>cands.
           let selected0 = map fst (take k (sort_key snd cands));
               selected = add_starving (r_incoming r) starve now keys selected0
           in Inr (grant_all (r\<lparr>r_granting := selected\<rparr>) selected now)))"

section \<open>Packets and the timer\<close>

text \<open>The entry that \<open>or_insert_with\<close> creates for a message of \<open>total_len\<close> bytes.\<close>

definition new_in_msg :: "transport_config \<Rightarrow> nat \<Rightarrow> instant \<Rightarrow> fault + in_msg" where
  "new_in_msg cfg total_len now =
     bind_res (div_ceil total_len (packet_size cfg)) (\<lambda>n.
       Inr \<lparr>im_total_len = total_len, im_buf = replicate total_len 0, im_received = replicate (max n 1) False,
            im_received_bytes = 0, im_granted_to = min (unscheduled_bytes cfg) total_len,
            im_last_progress = now, im_last_grant = now, im_unanswered_resends = 0\<rparr>)"

text \<open>The bitmap check and the copy of the payload; \<open>total_len\<close> is the length the packet states.\<close>

definition store_chunk :: "nat \<Rightarrow> in_msg \<Rightarrow> nat \<Rightarrow> nat \<Rightarrow> bytes \<Rightarrow> instant \<Rightarrow> fault + in_msg" where
  "store_chunk total_len m idx off payload now =
     (if idx < length (im_received m) \<and> \<not> im_received m ! idx \<and> off + length payload \<le> total_len
      then bind_res (copy_at (im_buf m) off payload) (\<lambda>buf.
             Inr (m\<lparr>im_buf := buf, im_received := (im_received m)[idx := True],
                    im_received_bytes := im_received_bytes m + length payload,
                    im_last_progress := now, im_unanswered_resends := 0\<rparr>))
      else Inr m)"

text \<open>\<open>incoming.entry(key).or_insert_with(..)\<close>.\<close>

definition entry_of :: "receiver_core \<Rightarrow> msg_key \<Rightarrow> nat \<Rightarrow> instant \<Rightarrow> fault + in_msg" where
  "entry_of r key total_len now =
     (case map_of (r_incoming r) key of Some m \<Rightarrow> Inr m | None \<Rightarrow> new_in_msg (r_cfg r) total_len now)"

text \<open>Write the entry back; when it is complete, take its buffer and deliver it.\<close>

definition settle :: "receiver_core \<Rightarrow> msg_key \<Rightarrow> sockaddr \<Rightarrow> in_msg \<Rightarrow> receiver_core \<times> action list" where
  "settle r key src m =
     (let r1 = r\<lparr>r_incoming := AList.update key m (r_incoming r)\<rparr>
      in if complete m then deliver r1 key src (im_buf m) else (r1, []))"

definition handle_data :: "(msg_key list \<Rightarrow> msg_key list) \<Rightarrow> receiver_core \<Rightarrow> sockaddr \<Rightarrow> packet \<Rightarrow> bytes \<Rightarrow> instant \<Rightarrow> fault + (receiver_core \<times> action list)" where
  "handle_data ord r src pkt payload now =
     (let key = (src, pkt_msg_id pkt)
      in if key \<in> set (r_completed r) then Inr (r, [])
         else
           let total_len = unat (pkt_msg_len pkt); ps = packet_size (r_cfg r)
           in if map_of (r_incoming r) key = None \<and> max_incoming (r_cfg r) \<le> length (r_incoming r)
              then Inr (r, [Send src (encode (packet_new Busy 0 (pkt_msg_id pkt) 0 0 0) [])])
              else
                bind_res (entry_of r key total_len now) (\<lambda>m.
                bind_res (if total_len = 0
                          then Inr (deliver (r\<lparr>r_incoming := AList.update key m (r_incoming r)\<rparr>) key src [])
                          else
                            let off = unat (pkt_offset pkt)
                            in bind_res (usize_div off ps) (\<lambda>idx.
                               bind_res (store_chunk total_len m idx off payload now) (\<lambda>m'.
                                 Inr (settle r key src m')))) (\<lambda>(r1, as1).
                bind_res (schedule ord r1 now) (\<lambda>(r2, as2). Inr (r2, as1 @ as2)))))"

text \<open>One iteration of the timer's loop.\<close>

definition recover :: "receiver_core \<Rightarrow> msg_key \<Rightarrow> instant \<Rightarrow> receiver_core \<times> action list" where
  "recover r key now =
     (case map_of (r_incoming r) key of
        None \<Rightarrow> (r, [])
      | Some m \<Rightarrow>
          if now - im_last_progress m < resend_timeout (r_cfg r) then (r, [])
          else
            let stall =
              (if grant_timeout (r_cfg r) \<le> now - im_last_progress m
               then let r1 = r\<lparr>r_incoming := AList.update key (m\<lparr>im_last_progress := now\<rparr>) (r_incoming r)\<rparr>
                    in if key \<in> set (r_granting r1) then issue_grant r1 key now True else (r1, [])
               else (r, []))
            in case first_missing_offset m (packet_size (r_cfg r)) of
                 None \<Rightarrow> stall
               | Some off \<Rightarrow>
                   if off < im_granted_to m
                   then
                     let span = min (im_granted_to m - off) (grant_increment (r_cfg r));
                         m' = m\<lparr>im_last_progress := now, im_unanswered_resends := im_unanswered_resends m + 1\<rparr>;
                         r1 = r\<lparr>r_incoming := AList.update key m' (r_incoming r)\<rparr>;
                         r2 = (if MAX_UNANSWERED_RESENDS < im_unanswered_resends m'
                               then r1\<lparr>r_incoming := AList.delete key (r_incoming r1),
                                       r_granting := filter (\<lambda>k. k \<noteq> key) (r_granting r1)\<rparr>
                               else r1)
                     in (r2, [Send (fst key) (encode (packet_new Resend (priority_for_len (im_total_len m))
                                (snd key) 0 (as_u32 off) (as_u32 span)) [])])
                   else stall)"

fun recover_all :: "receiver_core \<Rightarrow> msg_key list \<Rightarrow> instant \<Rightarrow> receiver_core \<times> action list" where
  "recover_all r [] now = (r, [])"
| "recover_all r (key # keys) now =
     (let (r1, as1) = recover r key now; (r2, as2) = recover_all r1 keys now
      in (r2, as1 @ as2))"

definition receiver_tick :: "(msg_key list \<Rightarrow> msg_key list) \<Rightarrow> (msg_key list \<Rightarrow> msg_key list) \<Rightarrow> receiver_core \<Rightarrow> instant \<Rightarrow> fault + (receiver_core \<times> action list)" where
  "receiver_tick ord ord' r now =
     (let (r1, as1) = recover_all r (ord (hm_keys (r_incoming r))) now
      in bind_res (schedule ord' r1 now) (\<lambda>(r2, as2). Inr (r2, as1 @ as2)))"

definition in_flight :: "receiver_core \<Rightarrow> nat" where
  "in_flight r = length (r_incoming r)"

section \<open>What the scheduler leaves alone\<close>

text \<open>The limit that \<open>issue_grant\<close> raises a grant to.\<close>

definition grant_target :: "nat \<Rightarrow> in_msg \<Rightarrow> nat" where
  "grant_target inc m = max (min (im_received_bytes m + inc) (im_total_len m)) (im_granted_to m)"

text \<open>
  A property of entries that survives such a grant survives \<open>issue_grant\<close>, and so do the keys
  and the rest of the core.
\<close>

definition grant_stable :: "nat \<Rightarrow> (msg_key \<Rightarrow> in_msg \<Rightarrow> bool) \<Rightarrow> bool" where
  "grant_stable inc P \<longleftrightarrow>
     (\<forall>k m now. P k m \<longrightarrow> P k (m\<lparr>im_granted_to := grant_target inc m, im_last_grant := now\<rparr>))"

lemma grant_stableD:
  "grant_stable inc P \<Longrightarrow> P k m \<Longrightarrow> P k (m\<lparr>im_granted_to := grant_target inc m, im_last_grant := now\<rparr>)"
  unfolding grant_stable_def by blast

text \<open>Control packets: what the receiver sends.\<close>

definition control :: "action \<Rightarrow> bool" where
  "control a \<longleftrightarrow> (\<exists>d p. a = Send d (encode p []) \<and> pkt_typ p \<noteq> Data)"

lemma controlI: "pkt_typ p \<noteq> Data \<Longrightarrow> control (Send d (encode p []))"
  unfolding control_def by blast

lemma hm_keys_update_Some:
  "map_of m k = Some v \<Longrightarrow> hm_keys (AList.update k v' m) = hm_keys m"
  using map_of_SomeD [of m k v] by (force simp: update_keys)

text \<open>\<open>issue_grant\<close> either does nothing or raises one entry's grant and sends the GRANT packet.\<close>

definition grant_packet :: "msg_key \<Rightarrow> in_msg \<Rightarrow> nat \<Rightarrow> action" where
  "grant_packet key m t =
     Send (fst key) (encode (packet_new Grant (priority_for_len (im_total_len m)) (snd key) 0
       (as_u32 t) (as_u32 (t - im_granted_to m))) [])"

lemma issue_grant_None: "map_of (r_incoming r) key = None \<Longrightarrow> issue_grant r key now force = (r, [])"
  by (simp add: issue_grant_def Let_def)

lemma issue_grant_Some:
  assumes "map_of (r_incoming r) key = Some m"
  shows "issue_grant r key now force =
     (if force \<or> im_granted_to m - im_received_bytes m < grant_increment (r_cfg r) div 2
           \<and> im_granted_to m < grant_target (grant_increment (r_cfg r)) m
      then (r\<lparr>r_incoming := AList.update key
               (m\<lparr>im_granted_to := grant_target (grant_increment (r_cfg r)) m, im_last_grant := now\<rparr>) (r_incoming r)\<rparr>,
            [grant_packet key m (grant_target (grant_increment (r_cfg r)) m)])
      else (r, []))"
  unfolding issue_grant_def Let_def assms option.case grant_target_def [symmetric] grant_packet_def [symmetric]
  by (auto simp: grant_target_def)

lemma issue_grant_cases:
  assumes "issue_grant r key now force = (r', as)"
  obtains "r' = r" "as = []"
  | m t where "map_of (r_incoming r) key = Some m" "t = grant_target (grant_increment (r_cfg r)) m"
      "r' = r\<lparr>r_incoming := AList.update key (m\<lparr>im_granted_to := t, im_last_grant := now\<rparr>) (r_incoming r)\<rparr>"
      "as = [grant_packet key m t]"
proof (cases "map_of (r_incoming r) key")
  case None
  with assms that(1) show ?thesis by (simp add: issue_grant_None)
next
  case (Some m)
  have eq: "issue_grant r key now force = (r', as)" by (fact assms)
  show ?thesis
  proof (cases "r' = r \<and> as = []")
    case False
    with eq that(2) [OF Some refl] show ?thesis
      unfolding issue_grant_Some [OF Some] by (simp split: if_splits)
  qed (use that(1) in simp)
qed

lemma control_grant_packet: "control (grant_packet key m t)"
  by (simp add: grant_packet_def controlI)

lemma delivers_grant_packet: "delivers [grant_packet key m t] = []"
  by (simp add: grant_packet_def)

lemma issue_grant_frame:
  assumes "issue_grant r key now force = (r', as)"
  shows "r_cfg r' = r_cfg r \<and> r_granting r' = r_granting r \<and> r_completed r' = r_completed r
    \<and> hm_keys (r_incoming r') = hm_keys (r_incoming r) \<and> delivers as = [] \<and> list_all control as"
  using assms
proof (cases rule: issue_grant_cases)
  case (2 m t)
  then show ?thesis
    by (simp add: hm_keys_update_Some [OF 2(1)] control_grant_packet delivers_grant_packet)
qed simp

lemma issue_grant_entries:
  assumes "issue_grant r key now force = (r', as)" "all_entries P (r_incoming r)"
    "grant_stable (grant_increment (r_cfg r)) P"
  shows "all_entries P (r_incoming r')"
  using assms(1)
proof (cases rule: issue_grant_cases)
  case (2 m t)
  have "P key (m\<lparr>im_granted_to := t, im_last_grant := now\<rparr>)"
    unfolding 2(2) by (rule grant_stableD [OF assms(3) all_entriesD [OF assms(2) 2(1)]])
  with 2 assms(2) show ?thesis by (simp add: all_entries_update)
qed (use assms in simp)

lemma grant_all_frame:
  assumes "grant_all r keys now = (r', as)"
  shows "r_cfg r' = r_cfg r \<and> r_granting r' = r_granting r \<and> r_completed r' = r_completed r
    \<and> hm_keys (r_incoming r') = hm_keys (r_incoming r) \<and> delivers as = [] \<and> list_all control as"
  using assms
proof (induction keys arbitrary: r r' as)
  case (Cons key keys)
  obtain r1 as1 r2 as2 where s: "issue_grant r key now False = (r1, as1)" "grant_all r1 keys now = (r2, as2)"
    by (metis surj_pair)
  from Cons.IH [OF s(2)] issue_grant_frame [OF s(1)] Cons.prems s show ?case by auto
qed simp

lemma grant_all_entries:
  "grant_all r keys now = (r', as) \<Longrightarrow> all_entries P (r_incoming r) \<Longrightarrow>
     grant_stable (grant_increment (r_cfg r)) P \<Longrightarrow> all_entries P (r_incoming r')"
proof (induction keys arbitrary: r r' as)
  case (Cons key keys)
  obtain r1 as1 r2 as2 where s: "issue_grant r key now False = (r1, as1)" "grant_all r1 keys now = (r2, as2)"
    by (metis surj_pair)
  have "all_entries P (r_incoming r1)" by (rule issue_grant_entries [OF s(1)]) (use Cons in auto)
  moreover have "r_cfg r1 = r_cfg r" using issue_grant_frame [OF s(1)] by simp
  ultimately show ?case using Cons s by simp
qed simp

section \<open>Selection\<close>

text \<open>The message is waiting and has waited for a grant for at least \<open>starve\<close>.\<close>

definition starving :: "duration \<Rightarrow> instant \<Rightarrow> in_msg \<Rightarrow> bool" where
  "starving starve now m \<longleftrightarrow> eligible m \<and> starve \<le> now - im_last_grant m"

lemma candidates_Inr:
  "candidates inc keys = Inr cs \<Longrightarrow>
     map fst cs = filter (\<lambda>k. \<exists>m. map_of inc k = Some m \<and> eligible m) keys
     \<and> (\<forall>c \<in> set cs. \<exists>m. map_of inc (fst c) = Some m \<and> remaining m = Inr (snd c))"
proof (induction inc keys arbitrary: cs rule: candidates.induct)
  case (2 inc key keys)
  show ?case
  proof (cases "\<exists>m. map_of inc key = Some m \<and> eligible m")
    case True
    then obtain m where m: "map_of inc key = Some m" "eligible m" by blast
    with "2.prems" obtain rem cs' where
      "remaining m = Inr rem" "candidates inc keys = Inr cs'" "cs = (key, rem) # cs'"
      by (auto simp: bind_res_Inr_iff)
    with "2.IH"(2) [OF m(1,2)] m show ?thesis by auto
  next
    case False
    with "2.prems" have "candidates inc keys = Inr cs" by (auto split: option.splits if_splits)
    with False "2.IH" show ?thesis by (cases "map_of inc key") auto
  qed
qed simp

lemma candidates_total:
  assumes "\<And>k m. map_of inc k = Some m \<Longrightarrow> im_received_bytes m \<le> im_total_len m"
  shows "\<exists>cs. candidates inc keys = Inr cs"
proof (induction keys)
  case (Cons key keys)
  then obtain cs where cs: "candidates inc keys = Inr cs" by blast
  show ?case
  proof (cases "map_of inc key")
    case (Some m)
    with assms [OF Some] cs show ?thesis by (simp add: remaining_def usize_sub_def)
  qed (use cs in simp)
qed simp

lemma add_starving_props:
  "distinct selected \<Longrightarrow>
     distinct (add_starving inc starve now keys selected)
     \<and> set (add_starving inc starve now keys selected)
       = set selected \<union> {k \<in> set keys. \<exists>m. map_of inc k = Some m \<and> starving starve now m}
     \<and> take (length selected) (add_starving inc starve now keys selected) = selected"
proof (induction inc starve now keys selected rule: add_starving.induct)
  case (2 inc starve now key keys selected)
  show ?case
  proof (cases "\<exists>m. map_of inc key = Some m \<and> starving starve now m \<and> key \<notin> set selected")
    case True
    then obtain m where m: "map_of inc key = Some m" "starving starve now m" "key \<notin> set selected" by blast
    then have c: "\<not> complete m \<and> im_granted_to m < im_total_len m \<and> starve \<le> now - im_last_grant m
        \<and> key \<notin> set selected" by (simp add: starving_def eligible_def)
    have step: "add_starving inc starve now (key # keys) selected = add_starving inc starve now keys (selected @ [key])"
      using m(1) c by simp
    have "distinct (selected @ [key])" using "2.prems" m(3) by simp
    note ih = "2.IH"(2) [OF m(1) c this]
    have "take (length selected) (add_starving inc starve now keys (selected @ [key]))
        = take (length selected) (take (length (selected @ [key])) (add_starving inc starve now keys (selected @ [key])))"
      by simp
    also have "\<dots> = selected" using ih by simp
    finally show ?thesis using ih m unfolding step by auto
  next
    case False
    then have step: "add_starving inc starve now (key # keys) selected = add_starving inc starve now keys selected"
      by (auto simp: starving_def eligible_def split: option.splits)
    have "distinct (add_starving inc starve now keys selected)
     \<and> set (add_starving inc starve now keys selected)
       = set selected \<union> {k \<in> set keys. \<exists>m. map_of inc k = Some m \<and> starving starve now m}
     \<and> take (length selected) (add_starving inc starve now keys selected) = selected"
      using "2.IH" "2.prems" False
      by (cases "map_of inc key") (auto simp: starving_def eligible_def)
    with False show ?thesis unfolding step by auto
  qed
qed simp

text \<open>The outcome of \<open>schedule\<close>: the first \<open>k\<close> by remaining bytes, then the starving ones.\<close>

definition top_k :: "(msg_key list \<Rightarrow> msg_key list) \<Rightarrow> receiver_core \<Rightarrow> (msg_key \<times> nat) list \<Rightarrow> msg_key list" where
  "top_k ord r cs = map fst (take (max (overcommit (r_cfg r)) 1) (sort_key snd cs))"

lemma schedule_Inr:
  assumes "schedule ord r now = Inr (r', as)" "hm_ok (r_incoming r)" "iter_order ord"
  obtains cs where
    "candidates (r_incoming r) (ord (hm_keys (r_incoming r))) = Inr cs"
    "distinct (r_granting r')" "distinct (top_k ord r cs)"
    "set (r_granting r') = set (top_k ord r cs)
       \<union> {k. \<exists>m. map_of (r_incoming r) k = Some m \<and> starving (starve_threshold (r_cfg r)) now m}"
    "take (length (top_k ord r cs)) (r_granting r') = top_k ord r cs"
    "grant_all (r\<lparr>r_granting := r_granting r'\<rparr>) (r_granting r') now = (r', as)"
proof -
  let ?keys = "ord (hm_keys (r_incoming r))"
  from assms(1) obtain cs where cs: "candidates (r_incoming r) ?keys = Inr cs"
    and ga: "grant_all (r\<lparr>r_granting := add_starving (r_incoming r) (starve_threshold (r_cfg r)) now ?keys (top_k ord r cs)\<rparr>)
      (add_starving (r_incoming r) (starve_threshold (r_cfg r)) now ?keys (top_k ord r cs)) now = (r', as)"
    by (auto simp: schedule_def Let_def bind_res_Inr_iff top_k_def)
  have "distinct (map fst cs)"
    using candidates_Inr [OF cs] assms(2,3) by (simp add: iter_order_distinct)
  then have dcs: "distinct (map fst (sort_key snd cs))"
    by (metis mset_eq_imp_distinct_iff mset_map mset_sort)
  have d: "distinct (top_k ord r cs)"
    unfolding top_k_def using dcs by (simp only: take_map [symmetric] distinct_take)
  have g: "r_granting r' = add_starving (r_incoming r) (starve_threshold (r_cfg r)) now ?keys (top_k ord r cs)"
    using grant_all_frame [OF ga] by simp
  note p = add_starving_props [OF d, of "r_incoming r" "starve_threshold (r_cfg r)" now ?keys]
  have keys: "{k \<in> set ?keys. \<exists>m. map_of (r_incoming r) k = Some m \<and> starving (starve_threshold (r_cfg r)) now m}
     = {k. \<exists>m. map_of (r_incoming r) k = Some m \<and> starving (starve_threshold (r_cfg r)) now m}"
    using assms(3) by (auto simp: iter_order_set dest: map_of_SomeD intro: rev_image_eqI)
  show ?thesis
    by (rule that [OF cs]) (use d g p ga keys in auto)
qed

lemma schedule_total:
  assumes "\<And>k m. map_of (r_incoming r) k = Some m \<Longrightarrow> im_received_bytes m \<le> im_total_len m"
  shows "\<exists>r' as. schedule ord r now = Inr (r', as)"
proof -
  obtain cs where "candidates (r_incoming r) (ord (hm_keys (r_incoming r))) = Inr cs"
    using candidates_total assms by metis
  then show ?thesis by (simp add: schedule_def Let_def)
qed

section \<open>The invariant, for any packets\<close>

text \<open>
  The shape of an entry: buffer and bitmap fit the message, the grant stays within the message
  and within one window of what has arrived, and the resend counter below its limit.
\<close>

definition in_msg_ok :: "transport_config \<Rightarrow> in_msg \<Rightarrow> bool" where
  "in_msg_ok cfg m \<longleftrightarrow>
     length (im_buf m) = im_total_len m \<and> im_total_len m < 2 ^ 32
     \<and> length (im_received m) = max (chunk_count (packet_size cfg) (im_total_len m) 0) 1
     \<and> im_granted_to m \<le> im_total_len m
     \<and> im_granted_to m \<le> max (unscheduled_bytes cfg) (im_received_bytes m + grant_increment cfg)
     \<and> im_unanswered_resends m \<le> MAX_UNANSWERED_RESENDS"

definition recv_inv :: "receiver_core \<Rightarrow> bool" where
  "recv_inv r \<longleftrightarrow> 0 < packet_size (r_cfg r) \<and> hm_ok (r_incoming r)
     \<and> length (r_incoming r) \<le> max_incoming (r_cfg r)
     \<and> all_entries (\<lambda>k m. in_msg_ok (r_cfg r) m \<and> k \<notin> set (r_completed r)) (r_incoming r)
     \<and> distinct (r_completed r) \<and> length (r_completed r) \<le> COMPLETED_CACHE
     \<and> distinct (r_granting r) \<and> set (r_granting r) \<subseteq> set (hm_keys (r_incoming r))"

lemma recv_inv_new: "0 < packet_size cfg \<Longrightarrow> recv_inv (receiver_new cfg)"
  by (simp add: recv_inv_def receiver_new_def)

lemma recv_inv_entry:
  "recv_inv r \<Longrightarrow> map_of (r_incoming r) key = Some m \<Longrightarrow> in_msg_ok (r_cfg r) m \<and> key \<notin> set (r_completed r)"
  by (auto simp: recv_inv_def dest: all_entriesD)

lemma recv_inv_ps: "recv_inv r \<Longrightarrow> 0 < packet_size (r_cfg r)"
  by (simp add: recv_inv_def)

lemma in_msg_ok_stable: "grant_stable (grant_increment cfg) (\<lambda>k m. in_msg_ok cfg m \<and> Q k)"
  by (auto simp: grant_stable_def in_msg_ok_def grant_target_def)

lemma recv_inv_put:
  assumes "recv_inv r" "in_msg_ok (r_cfg r) m" "key \<notin> set (r_completed r)"
    "map_of (r_incoming r) key \<noteq> None \<or> length (r_incoming r) < max_incoming (r_cfg r)"
  shows "recv_inv (r\<lparr>r_incoming := AList.update key m (r_incoming r)\<rparr>)"
proof -
  have ok: "hm_ok (r_incoming r)" using assms(1) by (simp add: recv_inv_def)
  have "length (AList.update key m (r_incoming r)) \<le> max_incoming (r_cfg r)"
    using assms(1,4) hm.len_put [OF ok, of key m] by (auto simp: recv_inv_def split: if_splits)
  then show ?thesis
    using assms by (auto simp: recv_inv_def distinct_update dom_update intro!: all_entries_update)
qed

lemma recv_inv_remove:
  assumes "recv_inv r"
  shows "recv_inv (r\<lparr>r_incoming := AList.delete key (r_incoming r),
                     r_granting := filter (\<lambda>k. k \<noteq> key) (r_granting r)\<rparr>)"
  using assms length_delete_le [of key "r_incoming r"]
  by (auto simp: recv_inv_def delete_keys distinct_removeAll simp flip: set_map
      intro!: all_entries_delete)

lemma deliver_inv:
  assumes inv: "recv_inv r" and bound: "map_of (r_incoming r) key = Some m"
    and d: "deliver r key src data = (r', as)"
  shows "recv_inv r' \<and> r_cfg r' = r_cfg r \<and> as = [Deliver src (snd key) data]
    \<and> r_incoming r' = AList.delete key (r_incoming r)"
proof -
  let ?r1 = "r\<lparr>r_incoming := AList.delete key (r_incoming r), r_granting := filter (\<lambda>k. k \<noteq> key) (r_granting r)\<rparr>"
  let ?kept = "if COMPLETED_CACHE \<le> length (r_completed r) then tl (r_completed r) else r_completed r"
  have r1: "recv_inv ?r1" by (rule recv_inv_remove [OF inv])
  have new: "key \<notin> set (r_completed r)" using recv_inv_entry [OF inv bound] by simp
  have sub: "set ?kept \<subseteq> set (r_completed r)" by (cases "r_completed r") auto
  have "distinct (?kept @ [key])" "length (?kept @ [key]) \<le> COMPLETED_CACHE"
    using inv new sub by (auto simp: recv_inv_def distinct_tl COMPLETED_CACHE_def)
  moreover have "all_entries (\<lambda>k m. in_msg_ok (r_cfg r) m \<and> k \<notin> set (?kept @ [key])) (AList.delete key (r_incoming r))"
    using inv sub by (auto simp: recv_inv_def all_entries_def delete_conv')
  ultimately show ?thesis using r1 d
    by (auto simp: recv_inv_def deliver_def Let_def)
qed

lemma schedule_inv:
  assumes inv: "recv_inv r" and s: "schedule ord r now = Inr (r', as)" and "iter_order ord"
  shows "recv_inv r' \<and> r_cfg r' = r_cfg r \<and> r_completed r' = r_completed r
    \<and> hm_keys (r_incoming r') = hm_keys (r_incoming r) \<and> delivers as = [] \<and> list_all control as"
proof -
  have ok: "hm_ok (r_incoming r)" using inv by (simp add: recv_inv_def)
  show ?thesis
  proof (rule schedule_Inr [OF s ok assms(3)])
    fix cs
    assume cs: "candidates (r_incoming r) (ord (hm_keys (r_incoming r))) = Inr cs"
      and d: "distinct (r_granting r')"
      and g: "set (r_granting r') = set (top_k ord r cs)
        \<union> {k. \<exists>m. map_of (r_incoming r) k = Some m \<and> starving (starve_threshold (r_cfg r)) now m}"
      and ga: "grant_all (r\<lparr>r_granting := r_granting r'\<rparr>) (r_granting r') now = (r', as)"
    have f: "r_cfg r' = r_cfg r" "r_completed r' = r_completed r"
      "hm_keys (r_incoming r') = hm_keys (r_incoming r)" "delivers as = []" "list_all control as"
      using grant_all_frame [OF ga] by simp_all
    have "set (top_k ord r cs) \<subseteq> set (map fst cs)"
      by (auto simp: top_k_def dest!: in_set_takeD)
    also have "\<dots> \<subseteq> set (hm_keys (r_incoming r))"
      using candidates_Inr [OF cs] iter_order_set [OF assms(3)] by auto
    finally have sub: "set (r_granting r') \<subseteq> set (hm_keys (r_incoming r))"
      unfolding g by (auto dest: map_of_SomeD intro: rev_image_eqI)
    have "all_entries (\<lambda>k m. in_msg_ok (r_cfg r) m \<and> k \<notin> set (r_completed r)) (r_incoming r')"
      by (rule grant_all_entries [OF ga]) (use inv in \<open>simp_all add: recv_inv_def in_msg_ok_stable\<close>)
    moreover have "length (r_incoming r') = length (r_incoming r)"
      using f(3) by (metis length_map)
    ultimately show ?thesis using inv d sub f by (simp add: recv_inv_def)
  qed
qed

lemma new_in_msg_ok:
  assumes "0 < packet_size cfg" "n < 2 ^ 32" "new_in_msg cfg n now = Inr m"
  shows "in_msg_ok cfg m \<and> im_total_len m = n \<and> im_received_bytes m = 0
    \<and> im_received m = replicate (max (chunk_count (packet_size cfg) n 0) 1) False"
  using assms by (auto simp: new_in_msg_def in_msg_ok_def div_ceil_count)

lemma new_in_msg_total: "0 < packet_size cfg \<Longrightarrow> \<exists>m. new_in_msg cfg n now = Inr m"
  by (simp add: new_in_msg_def div_ceil_count)

lemma store_chunk_ok:
  "in_msg_ok cfg m \<Longrightarrow> store_chunk n m idx off payload now = Inr m' \<Longrightarrow> in_msg_ok cfg m'"
  by (auto simp: store_chunk_def in_msg_ok_def bind_res_Inr_iff copy_at_length split: if_splits)

lemma handle_data_Inr:
  assumes "handle_data ord r src pkt payload now = Inr (r', as)"
  obtains
    (late) "(src, pkt_msg_id pkt) \<in> set (r_completed r)" "r' = r" "as = []"
  | (busy) "map_of (r_incoming r) (src, pkt_msg_id pkt) = None"
      "max_incoming (r_cfg r) \<le> length (r_incoming r)" "r' = r"
      "as = [Send src (encode (packet_new Busy 0 (pkt_msg_id pkt) 0 0 0) [])]"
  | (empty) m r1 as1 as2 where "(src, pkt_msg_id pkt) \<notin> set (r_completed r)" "unat (pkt_msg_len pkt) = 0"
      "map_of (r_incoming r) (src, pkt_msg_id pkt) \<noteq> None \<or> length (r_incoming r) < max_incoming (r_cfg r)"
      "entry_of r (src, pkt_msg_id pkt) 0 now = Inr m"
      "deliver (r\<lparr>r_incoming := AList.update (src, pkt_msg_id pkt) m (r_incoming r)\<rparr>) (src, pkt_msg_id pkt) src [] = (r1, as1)"
      "schedule ord r1 now = Inr (r', as2)" "as = as1 @ as2"
  | (stored) m m' r1 as1 as2 where "(src, pkt_msg_id pkt) \<notin> set (r_completed r)" "0 < unat (pkt_msg_len pkt)"
      "map_of (r_incoming r) (src, pkt_msg_id pkt) \<noteq> None \<or> length (r_incoming r) < max_incoming (r_cfg r)"
      "entry_of r (src, pkt_msg_id pkt) (unat (pkt_msg_len pkt)) now = Inr m"
      "store_chunk (unat (pkt_msg_len pkt)) m (unat (pkt_offset pkt) div packet_size (r_cfg r))
         (unat (pkt_offset pkt)) payload now = Inr m'"
      "settle r (src, pkt_msg_id pkt) src m' = (r1, as1)"
      "schedule ord r1 now = Inr (r', as2)" "as = as1 @ as2"
proof -
  let ?key = "(src, pkt_msg_id pkt)" and ?n = "unat (pkt_msg_len pkt)"
  note h = assms [unfolded handle_data_def Let_def]
  show thesis
  proof (cases "?key \<in> set (r_completed r)")
    case True
    with h have "r' = r" "as = []" by (simp_all add: if_P [OF True])
    with True show thesis by (rule late)
  next
    case nc: False
    show thesis
    proof (cases "map_of (r_incoming r) ?key = None \<and> max_incoming (r_cfg r) \<le> length (r_incoming r)")
      case True
      have "r' = r" "as = [Send src (encode (packet_new Busy 0 (pkt_msg_id pkt) 0 0 0) [])]"
        using h by (simp_all only: if_not_P [OF nc] if_P [OF True] sum.inject prod.inject)
      with True show thesis by (intro busy) simp_all
    next
      case nb: False
      then have room: "map_of (r_incoming r) ?key \<noteq> None \<or> length (r_incoming r) < max_incoming (r_cfg r)"
        by (auto simp: not_le)
      let ?body = "\<lambda>m. if ?n = 0 then Inr (deliver (r\<lparr>r_incoming := AList.update ?key m (r_incoming r)\<rparr>) ?key src [])
           else bind_res (usize_div (unat (pkt_offset pkt)) (packet_size (r_cfg r))) (\<lambda>idx.
                bind_res (store_chunk ?n m idx (unat (pkt_offset pkt)) payload now) (\<lambda>m'.
                  Inr (settle r ?key src m')))"
      let ?tail = "\<lambda>(r1, as1). bind_res (schedule ord r1 now) (\<lambda>(r2, as2). Inr (r2, as1 @ as2))"
      have "bind_res (entry_of r ?key ?n now) (\<lambda>m. bind_res (?body m) ?tail) = Inr (r', as)"
        using h by (simp only: if_not_P [OF nc] if_not_P [OF nb])
      then obtain m where e: "entry_of r ?key ?n now = Inr m" and b: "bind_res (?body m) ?tail = Inr (r', as)"
        unfolding bind_res_Inr_iff [of "entry_of r ?key ?n now"] by blast
      obtain x where x: "?body m = Inr x" "?tail x = Inr (r', as)"
        using b unfolding bind_res_Inr_iff [of "?body m"] by blast
      obtain r1 as1 where o: "?body m = Inr (r1, as1)" and t: "?tail (r1, as1) = Inr (r', as)"
        using x by (cases x) simp
      obtain as2 where s: "schedule ord r1 now = Inr (r', as2)" "as = as1 @ as2"
        using t by (auto simp: bind_res_Inr_iff)
      show thesis
      proof (cases "?n = 0")
        case True
        with o e show thesis by (intro empty [OF nc True room _ _ s]) simp_all
      next
        case False
        with o obtain m' where st: "store_chunk ?n m (unat (pkt_offset pkt) div packet_size (r_cfg r))
            (unat (pkt_offset pkt)) payload now = Inr m'" "settle r ?key src m' = (r1, as1)"
          by (auto simp: bind_res_Inr_iff usize_div_Inr)
        from False show thesis by (intro stored [OF nc _ room e st s]) simp
      qed
    qed
  qed
qed

lemma entry_of_ok:
  assumes "recv_inv r" "entry_of r key n now = Inr m" "n < 2 ^ 32"
  shows "in_msg_ok (r_cfg r) m"
proof (cases "map_of (r_incoming r) key")
  case None
  with assms show ?thesis
    using new_in_msg_ok [OF recv_inv_ps [OF assms(1)] assms(3)] by (simp add: entry_of_def)
next
  case (Some m0)
  with assms show ?thesis using recv_inv_entry [OF assms(1) Some] by (simp add: entry_of_def)
qed

text \<open>What a step leaves behind, whatever the packet: the invariant, the configuration, only
  control packets sent, and every delivered key appended to the cache of completed keys.\<close>

definition cache_push :: "msg_key list \<Rightarrow> msg_key list \<Rightarrow> msg_key list" where
  "cache_push done new = drop (length (done @ new) - COMPLETED_CACHE) (done @ new)"

definition sound_step :: "receiver_core \<Rightarrow> receiver_core \<Rightarrow> action list \<Rightarrow> bool" where
  "sound_step r r' as \<longleftrightarrow> recv_inv r' \<and> r_cfg r' = r_cfg r
     \<and> r_completed r' = cache_push (r_completed r) (map fst (delivers as))
     \<and> (\<forall>k \<in> set (map fst (delivers as)). k \<notin> set (r_completed r))
     \<and> list_all (\<lambda>a. case a of Send d b \<Rightarrow> control a | Deliver s i x \<Rightarrow> True) as"

lemma cache_push_Nil: "length done \<le> COMPLETED_CACHE \<Longrightarrow> cache_push done [] = done"
  by (simp add: cache_push_def)

lemma cache_push_one:
  "length done \<le> COMPLETED_CACHE \<Longrightarrow>
     cache_push done [k] = (if COMPLETED_CACHE \<le> length done then tl done else done) @ [k]"
  by (auto simp: cache_push_def COMPLETED_CACHE_def drop_Suc)

lemma control_all: "list_all control as \<Longrightarrow>
   list_all (\<lambda>a. case a of Send d b \<Rightarrow> control a | Deliver s i x \<Rightarrow> True) as"
  by (auto simp: list_all_iff split: action.splits)

lemma sound_step_schedule:
  assumes "recv_inv r1" "r_cfg r1 = r_cfg r"
    "r_completed r1 = cache_push (r_completed r) (map fst (delivers as1))"
    "\<forall>k \<in> set (map fst (delivers as1)). k \<notin> set (r_completed r)"
    "list_all (\<lambda>a. case a of Send d b \<Rightarrow> control a | Deliver s i x \<Rightarrow> True) as1"
    "schedule ord r1 now = Inr (r', as2)" "iter_order ord"
  shows "sound_step r r' (as1 @ as2)"
  using assms schedule_inv [OF assms(1,6,7)]
  by (simp add: sound_step_def control_all)

lemma deliver_step:
  assumes inv: "recv_inv r" and ok: "in_msg_ok (r_cfg r) m" and new: "key \<notin> set (r_completed r)"
    and room: "map_of (r_incoming r) key \<noteq> None \<or> length (r_incoming r) < max_incoming (r_cfg r)"
    and d: "deliver (r\<lparr>r_incoming := AList.update key m (r_incoming r)\<rparr>) key (fst key) data = (r1, as1)"
  shows "recv_inv r1 \<and> r_cfg r1 = r_cfg r \<and> as1 = [Deliver (fst key) (snd key) data]
    \<and> r_completed r1 = cache_push (r_completed r) [key]
    \<and> r_incoming r1 = AList.delete key (r_incoming r)"
proof -
  let ?r0 = "r\<lparr>r_incoming := AList.update key m (r_incoming r)\<rparr>"
  have inv0: "recv_inv ?r0" by (rule recv_inv_put [OF inv ok new room])
  have "map_of (r_incoming ?r0) key = Some m" by (simp add: update_conv')
  from deliver_inv [OF inv0 this d] have "recv_inv r1 \<and> r_cfg r1 = r_cfg r
    \<and> as1 = [Deliver (fst key) (snd key) data] \<and> r_incoming r1 = AList.delete key (r_incoming r)"
    by (simp add: delete_update_same)
  moreover have "r_completed r1 = cache_push (r_completed r) [key]"
    using d inv by (auto simp: deliver_def Let_def cache_push_one recv_inv_def)
  ultimately show ?thesis by simp
qed

lemma settle_step:
  assumes "recv_inv r" "in_msg_ok (r_cfg r) m" "key \<notin> set (r_completed r)"
    "map_of (r_incoming r) key \<noteq> None \<or> length (r_incoming r) < max_incoming (r_cfg r)"
    "settle r key (fst key) m = (r1, as1)"
  shows "recv_inv r1 \<and> r_cfg r1 = r_cfg r
    \<and> as1 = (if complete m then [Deliver (fst key) (snd key) (im_buf m)] else [])
    \<and> r_completed r1 = cache_push (r_completed r) (map fst (delivers as1))
    \<and> r_incoming r1 = (if complete m then AList.delete key (r_incoming r) else AList.update key m (r_incoming r))"
proof (cases "complete m")
  case True
  then have d: "deliver (r\<lparr>r_incoming := AList.update key m (r_incoming r)\<rparr>) key (fst key) (im_buf m) = (r1, as1)"
    using assms(5) by (simp add: settle_def)
  have "as1 = [Deliver (fst key) (snd key) (im_buf m)]" using deliver_step [OF assms(1-4) d] by simp
  with True deliver_step [OF assms(1-4) d] show ?thesis by simp
next
  case False
  have "length (r_completed r) \<le> COMPLETED_CACHE" using assms(1) by (simp add: recv_inv_def)
  with False recv_inv_put [OF assms(1-4)] assms(5) show ?thesis
    by (auto simp: settle_def cache_push_Nil)
qed

lemma handle_data_sound:
  assumes inv: "recv_inv r" and ord: "iter_order ord"
    and h: "handle_data ord r src pkt payload now = Inr (r', as)"
  shows "sound_step r r' as"
  using h
proof (cases rule: handle_data_Inr)
  case late
  with inv show ?thesis by (simp add: sound_step_def recv_inv_def cache_push_Nil)
next
  case busy
  with inv show ?thesis by (simp add: sound_step_def recv_inv_def cache_push_Nil controlI)
next
  case (empty m r1 as1 as2)
  have ok: "in_msg_ok (r_cfg r) m" by (rule entry_of_ok [OF inv empty(4)]) simp
  have "deliver (r\<lparr>r_incoming := AList.update (src, pkt_msg_id pkt) m (r_incoming r)\<rparr>)
      (src, pkt_msg_id pkt) (fst (src, pkt_msg_id pkt)) [] = (r1, as1)"
    using empty(5) by simp
  from deliver_step [OF inv ok empty(1,3) this] show ?thesis
    unfolding empty(7)
    using empty(1) by (intro sound_step_schedule [OF _ _ _ _ _ empty(6) ord]) simp_all
next
  case (stored m m' r1 as1 as2)
  have "in_msg_ok (r_cfg r) m" by (rule entry_of_ok [OF inv stored(4) unat_u32_less])
  then have ok: "in_msg_ok (r_cfg r) m'" by (rule store_chunk_ok [OF _ stored(5)])
  have "settle r (src, pkt_msg_id pkt) (fst (src, pkt_msg_id pkt)) m' = (r1, as1)"
    using stored(6) by simp
  from settle_step [OF inv ok stored(1,3) this] show ?thesis
    unfolding stored(8)
    using stored(1) by (intro sound_step_schedule [OF _ _ _ _ _ stored(7) ord]) auto
qed

section \<open>The timer\<close>

text \<open>The RESEND that \<open>recover\<close> sends for a gap at \<open>off\<close>.\<close>

definition resend_packet :: "transport_config \<Rightarrow> msg_key \<Rightarrow> in_msg \<Rightarrow> nat \<Rightarrow> action" where
  "resend_packet cfg key m off =
     Send (fst key) (encode (packet_new Resend (priority_for_len (im_total_len m)) (snd key) 0
       (as_u32 off) (as_u32 (min (im_granted_to m - off) (grant_increment cfg)))) [])"

lemma recover_cases:
  assumes "recover r key now = (r', as)"
  obtains
    (idle) "r' = r" "as = []"
  | (resend) m off where "map_of (r_incoming r) key = Some m" "resend_timeout (r_cfg r) \<le> now - im_last_progress m"
      "first_missing_offset m (packet_size (r_cfg r)) = Some off" "off < im_granted_to m"
      "im_unanswered_resends m < MAX_UNANSWERED_RESENDS"
      "r' = r\<lparr>r_incoming := AList.update key (m\<lparr>im_last_progress := now,
               im_unanswered_resends := im_unanswered_resends m + 1\<rparr>) (r_incoming r)\<rparr>"
      "as = [resend_packet (r_cfg r) key m off]"
  | (give_up) m off where "map_of (r_incoming r) key = Some m" "resend_timeout (r_cfg r) \<le> now - im_last_progress m"
      "first_missing_offset m (packet_size (r_cfg r)) = Some off" "off < im_granted_to m"
      "MAX_UNANSWERED_RESENDS \<le> im_unanswered_resends m"
      "r' = r\<lparr>r_incoming := AList.delete key (r_incoming r), r_granting := filter (\<lambda>k. k \<noteq> key) (r_granting r)\<rparr>"
      "as = [resend_packet (r_cfg r) key m off]"
  | (regrant) m where "map_of (r_incoming r) key = Some m" "resend_timeout (r_cfg r) \<le> now - im_last_progress m"
      "grant_timeout (r_cfg r) \<le> now - im_last_progress m"
      "\<forall>off. first_missing_offset m (packet_size (r_cfg r)) = Some off \<longrightarrow> im_granted_to m \<le> off"
      "(if key \<in> set (r_granting r)
        then issue_grant (r\<lparr>r_incoming := AList.update key (m\<lparr>im_last_progress := now\<rparr>) (r_incoming r)\<rparr>) key now True
        else (r\<lparr>r_incoming := AList.update key (m\<lparr>im_last_progress := now\<rparr>) (r_incoming r)\<rparr>, [])) = (r', as)"
proof (cases "map_of (r_incoming r) key")
  case None
  with assms idle show thesis by (simp add: recover_def)
next
  case (Some m)
  note h = assms [unfolded recover_def Some option.case Let_def]
  show thesis
  proof (cases "now - im_last_progress m < resend_timeout (r_cfg r)")
    case True
    with h idle show thesis by simp
  next
    case late: False
    then have due: "resend_timeout (r_cfg r) \<le> now - im_last_progress m" by simp
    show thesis
    proof (cases "\<exists>off. first_missing_offset m (packet_size (r_cfg r)) = Some off \<and> off < im_granted_to m")
      case True
      then obtain off where off: "first_missing_offset m (packet_size (r_cfg r)) = Some off" "off < im_granted_to m"
        by blast
      note h2 = h [unfolded if_not_P [OF late] off(1) option.case if_P [OF off(2)]]
      show thesis
      proof (cases "im_unanswered_resends m < MAX_UNANSWERED_RESENDS")
        case True
        with h2 show thesis
          by (intro resend [OF Some due off]) (auto simp: resend_packet_def)
      next
        case False
        with h2 show thesis
          by (intro give_up [OF Some due off]) (auto simp: resend_packet_def delete_update_same)
      qed
    next
      case False
      then have nm: "\<forall>off. first_missing_offset m (packet_size (r_cfg r)) = Some off \<longrightarrow> im_granted_to m \<le> off"
        by (auto simp: not_less)
      show thesis
      proof (cases "grant_timeout (r_cfg r) \<le> now - im_last_progress m")
        case True
        with h late nm show thesis
          by (intro regrant [OF Some due True nm])
            (cases "first_missing_offset m (packet_size (r_cfg r))"; simp)
      next
        case False
        with h late nm idle show thesis
          by (cases "first_missing_offset m (packet_size (r_cfg r))") auto
      qed
    qed
  qed
qed

text \<open>What the timer keeps, for one message and for all: no delivery, control packets only.\<close>

definition quiet_step :: "receiver_core \<Rightarrow> receiver_core \<Rightarrow> action list \<Rightarrow> bool" where
  "quiet_step r r' as \<longleftrightarrow> recv_inv r' \<and> r_cfg r' = r_cfg r \<and> r_completed r' = r_completed r
     \<and> delivers as = [] \<and> list_all control as"

lemma resend_packet_control: "control (resend_packet cfg key m off)" "delivers [resend_packet cfg key m off] = []"
  by (simp_all add: resend_packet_def controlI)

lemma recv_inv_touch:
  assumes inv: "recv_inv r" and m: "map_of (r_incoming r) key = Some m"
    and ok: "in_msg_ok (r_cfg r) m'"
  shows "recv_inv (r\<lparr>r_incoming := AList.update key m' (r_incoming r)\<rparr>)"
  using recv_inv_entry [OF inv m] m by (intro recv_inv_put [OF inv ok]) simp_all

lemma recover_quiet:
  assumes inv: "recv_inv r" and h: "recover r key now = (r', as)"
  shows "quiet_step r r' as"
  using h
proof (cases rule: recover_cases)
  case idle
  with inv show ?thesis by (simp add: quiet_step_def)
next
  case (resend m off)
  have "in_msg_ok (r_cfg r) (m\<lparr>im_last_progress := now, im_unanswered_resends := im_unanswered_resends m + 1\<rparr>)"
    using recv_inv_entry [OF inv resend(1)] resend(5) by (simp add: in_msg_ok_def)
  from recv_inv_touch [OF inv resend(1) this] resend show ?thesis
    by (simp add: quiet_step_def resend_packet_control)
next
  case (give_up m off)
  with recv_inv_remove [OF inv] show ?thesis by (simp add: quiet_step_def resend_packet_control)
next
  case (regrant m)
  let ?m = "m\<lparr>im_last_progress := now\<rparr>"
  let ?r1 = "r\<lparr>r_incoming := AList.update key ?m (r_incoming r)\<rparr>"
  have "in_msg_ok (r_cfg r) ?m" using recv_inv_entry [OF inv regrant(1)] by (simp add: in_msg_ok_def)
  then have inv1: "recv_inv ?r1" by (rule recv_inv_touch [OF inv regrant(1)])
  show ?thesis
  proof (cases "key \<in> set (r_granting r)")
    case True
    with regrant have g: "issue_grant ?r1 key now True = (r', as)" by simp
    have e: "all_entries (\<lambda>k m. in_msg_ok (r_cfg r) m \<and> k \<notin> set (r_completed r)) (r_incoming r')"
      by (rule issue_grant_entries [OF g]) (use inv1 in \<open>simp_all add: recv_inv_def in_msg_ok_stable\<close>)
    note f = issue_grant_frame [OF g]
    have "length (r_incoming r') = length (r_incoming ?r1)" using f by (metis length_map)
    with e f inv1 show ?thesis by (simp add: quiet_step_def recv_inv_def)
  next
    case False
    with regrant inv1 show ?thesis by (auto simp: quiet_step_def)
  qed
qed

lemma recover_all_quiet:
  "recv_inv r \<Longrightarrow> recover_all r keys now = (r', as) \<Longrightarrow> quiet_step r r' as"
proof (induction keys arbitrary: r as)
  case Nil
  then show ?case by (simp add: quiet_step_def)
next
  case (Cons key keys)
  obtain r1 as1 r2 as2 where s: "recover r key now = (r1, as1)" "recover_all r1 keys now = (r2, as2)"
    by (metis surj_pair)
  have q: "quiet_step r r1 as1" by (rule recover_quiet [OF Cons.prems(1) s(1)])
  with Cons.IH [OF _ ] s Cons.prems show ?case by (fastforce simp: quiet_step_def)
qed

lemma receiver_tick_sound:
  assumes "recv_inv r" "iter_order ord'" "receiver_tick ord ord' r now = Inr (r', as)"
  shows "sound_step r r' as"
proof -
  obtain r1 as1 where r1: "recover_all r (ord (hm_keys (r_incoming r))) now = (r1, as1)" by force
  have q: "quiet_step r r1 as1" by (rule recover_all_quiet [OF assms(1) r1])
  from assms(3) r1 obtain as2 where s: "schedule ord' r1 now = Inr (r', as2)" "as = as1 @ as2"
    by (auto simp: receiver_tick_def bind_res_Inr_iff)
  have "length (r_completed r) \<le> COMPLETED_CACHE" using assms(1) by (simp add: recv_inv_def)
  with q show ?thesis unfolding s(2)
    by (intro sound_step_schedule [OF _ _ _ _ _ s(1) assms(2)])
      (simp_all add: quiet_step_def cache_push_Nil control_all)
qed

section \<open>The receiver as a machine\<close>

datatype receiver_event =
    RData "msg_key list \<Rightarrow> msg_key list" sockaddr packet bytes instant
  | RTick "msg_key list \<Rightarrow> msg_key list" "msg_key list \<Rightarrow> msg_key list" instant

fun receiver_step :: "receiver_core \<Rightarrow> receiver_event \<Rightarrow> fault + (receiver_core \<times> action list)" where
  "receiver_step r (RData ord src pkt payload now) = handle_data ord r src pkt payload now"
| "receiver_step r (RTick ord ord' now) = receiver_tick ord ord' r now"

fun orders_ok :: "receiver_event \<Rightarrow> bool" where
  "orders_ok (RData ord src pkt payload now) = iter_order ord"
| "orders_ok (RTick ord ord' now) = (iter_order ord \<and> iter_order ord')"

lemma receiver_step_sound:
  "recv_inv r \<Longrightarrow> orders_ok e \<Longrightarrow> receiver_step r e = Inr (r', as) \<Longrightarrow> sound_step r r' as"
  by (cases e) (auto intro: handle_data_sound receiver_tick_sound)

interpretation rcv: machine receiver_step recv_inv orders_ok
    "\<lambda>a. case a of Send d b \<Rightarrow> control a | Deliver s i x \<Rightarrow> True"
  by unfold_locales (auto dest: receiver_step_sound simp: sound_step_def)

lemma receiver_run_cfg:
  "recv_inv r \<Longrightarrow> list_all orders_ok es \<Longrightarrow> run_steps receiver_step r es = Inr (r', as) \<Longrightarrow> r_cfg r' = r_cfg r"
proof (induction es arbitrary: r as)
  case (Cons e es)
  from Cons.prems(3) obtain r1 as1 as2 where s: "receiver_step r e = Inr (r1, as1)"
    "run_steps receiver_step r1 es = Inr (r', as2)"
    by (auto simp: bind_res_Inr_iff)
  with receiver_step_sound [OF Cons.prems(1) _ s(1)] Cons.IH [OF _ _ s(2)] Cons.prems(2) show ?case
    by (simp add: sound_step_def)
qed simp

end
