(* ===== verification/Reassembly.thy ===== *)
theory Reassembly
  imports Receiver
begin

text \<open>
  Reassembly is exact: as long as every DATA packet of a message carries a whole chunk of it at
  a chunk boundary, the receiver's byte count and bitmap agree, no operation faults, and what it
  delivers is the message, for any order, loss, duplication and interleaving of packets and
  timer ticks.
\<close>

section \<open>Chunk packets and the accounting of an entry\<close>

text \<open>The packet carries the chunk of \<open>D\<close> that starts at its offset.\<close>

definition carries :: "nat \<Rightarrow> bytes \<Rightarrow> packet \<Rightarrow> bytes \<Rightarrow> bool" where
  "carries ps D pkt payload \<longleftrightarrow>
     unat (pkt_msg_len pkt) = length D
     \<and> (D \<noteq> [] \<longrightarrow>
          unat (pkt_offset pkt) mod ps = 0 \<and> unat (pkt_offset pkt) < length D
          \<and> payload = take (chunk_end ps (length D) (unat (pkt_offset pkt)) - unat (pkt_offset pkt))
                        (drop (unat (pkt_offset pkt)) D))"

text \<open>
  The entry holds part of \<open>D\<close>: the bytes received are those of the marked chunks, and the
  marked chunks of the buffer are those of \<open>D\<close>.
\<close>

definition holds :: "nat \<Rightarrow> bytes \<Rightarrow> in_msg \<Rightarrow> bool" where
  "holds ps D m \<longleftrightarrow>
     im_total_len m = length D
     \<and> im_received_bytes m = acct ps (length D) (im_received m)
     \<and> (\<forall>j < length D. im_received m ! (j div ps) \<longrightarrow> im_buf m ! j = D ! j)"

lemma holds_update [simp]:
  "holds ps D (m\<lparr>im_granted_to := t, im_last_grant := g\<rparr>) = holds ps D m"
  "holds ps D (m\<lparr>im_last_progress := p\<rparr>) = holds ps D m"
  "holds ps D (m\<lparr>im_last_progress := p, im_unanswered_resends := u\<rparr>) = holds ps D m"
  by (simp_all add: holds_def)

lemma chunk_count_pos: "0 < ps \<Longrightarrow> 0 < len \<Longrightarrow> 0 < chunk_count ps len 0"
  by (simp add: chunk_count_le_iff)

lemma chunk_index:
  "0 < ps \<Longrightarrow> j < len \<Longrightarrow> j div ps < chunk_count ps len 0"
  using chunk_bounds(1) [of ps j len] le_less_trans [of "j div ps * ps" j len]
  by (simp add: chunk_count_le_iff)

lemma bitmap_length:
  "0 < packet_size cfg \<Longrightarrow> in_msg_ok cfg m \<Longrightarrow> 0 < im_total_len m \<Longrightarrow>
     length (im_received m) = chunk_count (packet_size cfg) (im_total_len m) 0"
  using chunk_count_pos [of "packet_size cfg" "im_total_len m"] by (simp add: in_msg_ok_def)

lemma holds_le:
  assumes "0 < packet_size cfg" "in_msg_ok cfg m" "holds (packet_size cfg) D m"
  shows "im_received_bytes m \<le> im_total_len m"
proof (cases "im_total_len m = 0")
  case True
  with assms show ?thesis by (simp add: holds_def acct_def chunk_len_def chunk_end_def)
next
  case False
  with assms bitmap_length [OF assms(1,2)] show ?thesis
    by (simp add: holds_def acct_le)
qed

lemma holds_complete:
  assumes "0 < packet_size cfg" "in_msg_ok cfg m" "holds (packet_size cfg) D m" "complete m" "D \<noteq> []"
  shows "im_buf m = D"
proof (rule nth_equalityI)
  show "length (im_buf m) = length D" using assms(2,3) by (simp add: in_msg_ok_def holds_def)
next
  fix j assume "j < length (im_buf m)"
  then have j: "j < length D" using assms(2,3) by (simp add: in_msg_ok_def holds_def)
  have len: "length (im_received m) = chunk_count (packet_size cfg) (length D) 0"
    using bitmap_length [OF assms(1,2)] assms(3,5) by (simp add: holds_def)
  have "acct (packet_size cfg) (length D) (im_received m) = length D"
    using assms(3,4) by (simp add: holds_def complete_def)
  then have "\<forall>i<length (im_received m). im_received m ! i"
    using acct_full [OF assms(1) len] by simp
  moreover have "j div packet_size cfg < length (im_received m)"
    using chunk_index [OF assms(1) j] len by simp
  ultimately show "im_buf m ! j = D ! j" using assms(3) j by (simp add: holds_def)
qed

lemma holds_new:
  assumes "0 < packet_size cfg" "new_in_msg cfg (length D) now = Inr m" "length D < 2 ^ 32"
  shows "holds (packet_size cfg) D m"
proof -
  from new_in_msg_ok [OF assms(1,3,2)] have m: "im_total_len m = length D" "im_received_bytes m = 0"
    "im_received m = replicate (max (chunk_count (packet_size cfg) (length D) 0) 1) False" by simp_all
  have "\<not> im_received m ! (j div packet_size cfg)" if "j < length D" for j
    using chunk_index [OF assms(1) that] by (simp add: m(3))
  with m show ?thesis by (simp add: holds_def acct_none)
qed

section \<open>Storing a chunk\<close>

text \<open>The chunk that a packet carries, by its index.\<close>

lemma carries_index:
  assumes "carries ps D pkt payload" "D \<noteq> []" "0 < ps"
  defines "i \<equiv> unat (pkt_offset pkt) div ps"
  shows "unat (pkt_offset pkt) = i * ps" "i < chunk_count ps (length D) 0"
    "length payload = chunk_len ps (length D) i" "i * ps + length payload = chunk_end ps (length D) (i * ps)"
    "\<And>j. j div ps = i \<Longrightarrow> j < length D \<Longrightarrow> i * ps \<le> j \<and> j < chunk_end ps (length D) (i * ps)"
    "\<And>j. i * ps \<le> j \<Longrightarrow> j < chunk_end ps (length D) (i * ps) \<Longrightarrow> j div ps = i \<and> payload ! (j - i * ps) = D ! j"
proof -
  show off: "unat (pkt_offset pkt) = i * ps"
    using assms(1,2) by (simp add: carries_def i_def) (metis div_mult_mod_eq add.right_neutral)
  have lt: "i * ps < length D" using assms(1,2) off by (simp add: carries_def)
  then show "i < chunk_count ps (length D) 0" using assms(3) by (simp add: chunk_count_le_iff)
  have pay: "payload = take (chunk_end ps (length D) (i * ps) - i * ps) (drop (i * ps) D)"
    using assms(1,2) off by (simp add: carries_def)
  show "length payload = chunk_len ps (length D) i"
    using lt by (auto simp: pay chunk_len_def chunk_end_def)
  then show "i * ps + length payload = chunk_end ps (length D) (i * ps)"
    using lt by (simp add: chunk_len_def chunk_end_def)
  show "j div ps = i \<Longrightarrow> j < length D \<Longrightarrow> i * ps \<le> j \<and> j < chunk_end ps (length D) (i * ps)" for j
    using chunk_bounds [OF assms(3), of j "length D"] by auto
  show "j div ps = i \<and> payload ! (j - i * ps) = D ! j"
    if "i * ps \<le> j" "j < chunk_end ps (length D) (i * ps)" for j
  proof
    have "j < i * ps + ps" using that(2) by (simp add: chunk_end_def)
    with that(1) show "j div ps = i" using assms(3)
      by (intro div_nat_eqI) (simp_all add: mult.commute add.commute)
    have "j - i * ps < chunk_end ps (length D) (i * ps) - i * ps" "i * ps + (j - i * ps) = j"
      using that by simp_all
    then show "payload ! (j - i * ps) = D ! j" using lt by (simp add: pay)
  qed
qed

lemma store_chunk_holds:
  assumes ps: "0 < packet_size cfg" and ok: "in_msg_ok cfg m" and h: "holds (packet_size cfg) D m"
    and c: "carries (packet_size cfg) D pkt payload" and ne: "D \<noteq> []"
  defines "i \<equiv> unat (pkt_offset pkt) div packet_size cfg"
  obtains m' where
    "store_chunk (unat (pkt_msg_len pkt)) m i (unat (pkt_offset pkt)) payload now = Inr m'"
    "holds (packet_size cfg) D m'" "im_received m' = (im_received m)[i := True]"
proof (cases "im_received m ! i")
  let ?ps = "packet_size cfg"
  note ix = carries_index [OF c ne ps, folded i_def]
  have len: "length (im_received m) = chunk_count ?ps (length D) 0"
    using bitmap_length [OF ps ok] h ne by (simp add: holds_def)
  have n: "unat (pkt_msg_len pkt) = length D" using c by (simp add: carries_def)
  {
    case True
    then have "(im_received m)[i := True] = im_received m"
      by (metis list_update_id)
    with True h show thesis
      by (intro that [of m]) (simp_all add: store_chunk_def)
  next
    case False
    have il: "i < length (im_received m)" using ix(2) len by simp
    have fits: "i * ?ps + length payload \<le> length (im_buf m)"
      using ok h ix(4) by (simp add: in_msg_ok_def holds_def chunk_end_def)
    then obtain buf where buf: "copy_at (im_buf m) (i * ?ps) payload = Inr buf"
      by (simp add: copy_at_def)
    let ?m' = "m\<lparr>im_buf := buf, im_received := (im_received m)[i := True],
      im_received_bytes := im_received_bytes m + length payload, im_last_progress := now, im_unanswered_resends := 0\<rparr>"
    have "store_chunk (unat (pkt_msg_len pkt)) m i (unat (pkt_offset pkt)) payload now = Inr ?m'"
      using False il fits buf ix(1) n ok h by (simp add: store_chunk_def in_msg_ok_def holds_def)
    moreover have "holds ?ps D ?m'"
      unfolding holds_def
    proof (intro conjI allI impI)
      show "im_received_bytes ?m' = acct ?ps (length D) (im_received ?m')"
        using h ix(3) acct_set [OF il False] by (simp add: holds_def)
      fix j assume j: "j < length D" and b: "im_received ?m' ! (j div ?ps)"
      have lb: "j < length (im_buf m)" using j ok h by (simp add: in_msg_ok_def holds_def)
      have at: "buf ! j = (if i * ?ps \<le> j \<and> j < chunk_end ?ps (length D) (i * ?ps)
          then payload ! (j - i * ?ps) else im_buf m ! j)"
        using copy_at_nth [OF buf lb] ix(4) by simp
      show "im_buf ?m' ! j = D ! j"
      proof (cases "i * ?ps \<le> j \<and> j < chunk_end ?ps (length D) (i * ?ps)")
        case True
        with at ix(6) [of j] show ?thesis by simp
      next
        case False
        then have "j div ?ps \<noteq> i" using ix(5) [of j] j by blast
        with b h j at False show ?thesis by (simp add: holds_def)
      qed
    qed (use h in \<open>simp add: holds_def\<close>)
    ultimately show thesis by (rule that) simp
  }
qed

section \<open>The invariant and its preservation\<close>

text \<open>
  \<open>log\<close> gives the message that belongs to a key. Every entry holds part of its message.
\<close>

definition reasm_ok :: "nat \<Rightarrow> (msg_key \<Rightarrow> bytes option) \<Rightarrow> receiver_core \<Rightarrow> bool" where
  "reasm_ok ps log r \<longleftrightarrow> recv_inv r \<and> packet_size (r_cfg r) = ps
     \<and> all_entries (\<lambda>k m. \<exists>D. log k = Some D \<and> holds ps D m) (r_incoming r)"

fun reasm_adm :: "nat \<Rightarrow> (msg_key \<Rightarrow> bytes option) \<Rightarrow> receiver_event \<Rightarrow> bool" where
  "reasm_adm ps log (RData ord src pkt payload now) =
     (iter_order ord \<and> (\<exists>D. log (src, pkt_msg_id pkt) = Some D \<and> carries ps D pkt payload))"
| "reasm_adm ps log (RTick ord ord' now) = (iter_order ord \<and> iter_order ord')"

text \<open>Only whole messages are delivered, each under its own key.\<close>

definition exact :: "(msg_key \<Rightarrow> bytes option) \<Rightarrow> action \<Rightarrow> bool" where
  "exact log a = (case a of Send d b \<Rightarrow> control a | Deliver s i x \<Rightarrow> log (s, i) = Some x)"

definition exact_result :: "nat \<Rightarrow> (msg_key \<Rightarrow> bytes option) \<Rightarrow> (fault + (receiver_core \<times> action list)) \<Rightarrow> bool" where
  "exact_result ps log res \<longleftrightarrow>
     (\<exists>r' as. res = Inr (r', as) \<and> reasm_ok ps log r' \<and> list_all (exact log) as)"

lemma control_exact1: "control a \<Longrightarrow> exact log a"
  by (auto simp: exact_def control_def)

lemma control_exact: "list_all control as \<Longrightarrow> list_all (exact log) as"
  by (induction as) (auto intro: control_exact1)

lemma holding_update:
  "all_entries (\<lambda>k m. \<exists>D. log k = Some D \<and> holds ps D m) inc \<Longrightarrow> log key = Some D \<Longrightarrow> holds ps D m \<Longrightarrow>
     all_entries (\<lambda>k m. \<exists>D. log k = Some D \<and> holds ps D m) (AList.update key m inc)"
  by (rule all_entries_update) auto

lemma holds_stable: "grant_stable inc (\<lambda>k m. \<exists>D. log k = Some D \<and> holds ps D m)"
  by (auto simp: grant_stable_def)

lemma schedule_entries:
  assumes "schedule ord r now = Inr (r', as)" "all_entries P (r_incoming r)"
    "grant_stable (grant_increment (r_cfg r)) P"
  shows "all_entries P (r_incoming r')"
proof -
  from assms(1) obtain sel where "grant_all (r\<lparr>r_granting := sel\<rparr>) sel now = (r', as)"
    by (auto simp: schedule_def Let_def bind_res_Inr_iff)
  then show ?thesis by (rule grant_all_entries) (use assms in simp_all)
qed

lemma reasm_le:
  "reasm_ok ps log r \<Longrightarrow> map_of (r_incoming r) k = Some m \<Longrightarrow> im_received_bytes m \<le> im_total_len m"
  using recv_inv_entry [of r k m] recv_inv_ps [of r] holds_le [of "r_cfg r" m]
  by (auto simp: reasm_ok_def dest!: all_entriesD)

lemma schedule_exact:
  assumes ok: "reasm_ok ps log r" and ord: "iter_order ord"
  obtains r' as where "schedule ord r now = Inr (r', as)" "reasm_ok ps log r'" "list_all (exact log) as"
    "delivers as = []"
proof -
  obtain r' as where s: "schedule ord r now = Inr (r', as)"
    using schedule_total [of r ord now] reasm_le [OF ok] by blast
  have inv: "recv_inv r" using ok by (simp add: reasm_ok_def)
  note f = schedule_inv [OF inv s ord]
  have "all_entries (\<lambda>k m. \<exists>D. log k = Some D \<and> holds ps D m) (r_incoming r')"
    by (rule schedule_entries [OF s]) (use ok in \<open>simp_all add: reasm_ok_def holds_stable\<close>)
  with f ok s show thesis
    by (intro that [OF s]) (simp_all add: reasm_ok_def control_exact)
qed

text \<open>The middle of \<open>handle_data\<close>: the entry found or made holds part of the message.\<close>

lemma entry_holds:
  assumes ok: "reasm_ok ps log r" and l: "log key = Some D" and n: "length D < 2 ^ 32"
  obtains m where "entry_of r key (length D) now = Inr m" "in_msg_ok (r_cfg r) m" "holds ps D m"
proof -
  have inv: "recv_inv r" and ps: "packet_size (r_cfg r) = ps" using ok by (simp_all add: reasm_ok_def)
  show thesis
  proof (cases "map_of (r_incoming r) key")
    case None
    obtain m where m: "new_in_msg (r_cfg r) (length D) now = Inr m"
      using new_in_msg_total [OF recv_inv_ps [OF inv]] by blast
    with None have e: "entry_of r key (length D) now = Inr m" by (simp add: entry_of_def)
    show thesis
      by (rule that [OF e entry_of_ok [OF inv e n]]) (use holds_new [OF recv_inv_ps [OF inv] m n] ps in simp)
  next
    case (Some m)
    moreover have "\<exists>D. log key = Some D \<and> holds ps D m"
      using ok Some by (auto simp: reasm_ok_def dest: all_entriesD)
    ultimately show thesis using recv_inv_entry [OF inv Some] l
      by (intro that [of m]) (auto simp: entry_of_def)
  qed
qed

lemma reasm_after_delivery:
  assumes ok: "reasm_ok ps log r" and "recv_inv r1" "r_cfg r1 = r_cfg r"
    and "r_incoming r1 = AList.delete key (r_incoming r) \<or> (\<exists>m D. r_incoming r1 = AList.update key m (r_incoming r)
          \<and> log key = Some D \<and> holds ps D m)"
  shows "reasm_ok ps log r1"
  using assms by (auto simp: reasm_ok_def intro: all_entries_delete holding_update)

lemma handle_data_exact:
  assumes ok: "reasm_ok ps log r" and ord: "iter_order ord"
    and l: "log (src, pkt_msg_id pkt) = Some D" and c: "carries ps D pkt payload"
  shows "exact_result ps log (handle_data ord r src pkt payload now)"
proof -
  let ?key = "(src, pkt_msg_id pkt)"
  have inv: "recv_inv r" and psr: "packet_size (r_cfg r) = ps" using ok by (simp_all add: reasm_ok_def)
  have ps: "0 < packet_size (r_cfg r)" by (rule recv_inv_ps [OF inv])
  have n: "unat (pkt_msg_len pkt) = length D" using c by (simp add: carries_def)
  then have small: "length D < 2 ^ 32" using unat_u32_less [of "pkt_msg_len pkt"] by simp
  show ?thesis
  proof (cases "?key \<in> set (r_completed r)
      \<or> map_of (r_incoming r) ?key = None \<and> max_incoming (r_cfg r) \<le> length (r_incoming r)")
    case True
    with ok show ?thesis
      by (auto simp: handle_data_def Let_def exact_result_def exact_def controlI)
  next
    case False
    then have new: "?key \<notin> set (r_completed r)"
      and room: "map_of (r_incoming r) ?key \<noteq> None \<or> length (r_incoming r) < max_incoming (r_cfg r)"
      by (auto simp: not_le)
    obtain m where e: "entry_of r ?key (length D) now = Inr m" and im: "in_msg_ok (r_cfg r) m" and hm: "holds ps D m"
      by (rule entry_holds [OF ok l small])
    obtain r1 as1 where mid: "(if length D = 0
        then Inr (deliver (r\<lparr>r_incoming := AList.update ?key m (r_incoming r)\<rparr>) ?key src [])
        else bind_res (usize_div (unat (pkt_offset pkt)) (packet_size (r_cfg r))) (\<lambda>idx.
             bind_res (store_chunk (length D) m idx (unat (pkt_offset pkt)) payload now) (\<lambda>m'.
               Inr (settle r ?key src m')))) = Inr (r1, as1)"
      and r1: "reasm_ok ps log r1" "list_all (exact log) as1"
    proof (cases "D = []")
      case True
      obtain r1 as1 where d: "deliver (r\<lparr>r_incoming := AList.update ?key m (r_incoming r)\<rparr>) ?key src [] = (r1, as1)"
        by force
      then have d': "deliver (r\<lparr>r_incoming := AList.update ?key m (r_incoming r)\<rparr>) ?key (fst ?key) [] = (r1, as1)"
        by simp
      from deliver_step [OF inv im new room d'] True l ok d show thesis
        by (intro that [of r1 as1]) (auto simp: exact_def intro: reasm_after_delivery [OF ok])
    next
      case False
      obtain m' where st: "store_chunk (length D) m (unat (pkt_offset pkt) div packet_size (r_cfg r))
          (unat (pkt_offset pkt)) payload now = Inr m'" and hm': "holds ps D m'"
        using store_chunk_holds [OF ps im, of D pkt payload now] hm c False psr n by metis
      have im': "in_msg_ok (r_cfg r) m'" by (rule store_chunk_ok [OF im st])
      obtain r1 as1 where se: "settle r ?key src m' = (r1, as1)" by force
      then have se': "settle r ?key (fst ?key) m' = (r1, as1)" by simp
      have buf: "complete m' \<Longrightarrow> im_buf m' = D"
        using holds_complete [OF ps im'] hm' False psr by simp
      from settle_step [OF inv im' new room se'] se st ps False l hm' buf show thesis
        by (intro that [of r1 as1])
          (auto simp: exact_def usize_div_def split: if_splits intro!: reasm_after_delivery [OF ok, of r1 ?key])
    qed
    obtain r' as2 where s: "schedule ord r1 now = Inr (r', as2)" "reasm_ok ps log r'" "list_all (exact log) as2"
      by (rule schedule_exact [OF r1(1) ord])
    have "handle_data ord r src pkt payload now = Inr (r', as1 @ as2)"
      unfolding handle_data_def Let_def if_not_P [OF new] n
      using room e mid s(1) by (auto simp: not_le)
    with r1 s show ?thesis by (simp add: exact_result_def)
  qed
qed

text \<open>A property of entries that does not look at the timer's fields survives the timer.\<close>

definition touch_stable :: "(msg_key \<Rightarrow> in_msg \<Rightarrow> bool) \<Rightarrow> bool" where
  "touch_stable P \<longleftrightarrow> (\<forall>k m p u. P k m \<longrightarrow> P k (m\<lparr>im_last_progress := p\<rparr>)
     \<and> P k (m\<lparr>im_last_progress := p, im_unanswered_resends := u\<rparr>))"

lemma recover_entries:
  assumes h: "recover r key now = (r', as)" and ok: "all_entries P (r_incoming r)"
    and g: "grant_stable (grant_increment (r_cfg r)) P" and t: "touch_stable P"
  shows "all_entries P (r_incoming r')"
  using h
proof (cases rule: recover_cases)
  case (regrant m)
  let ?r1 = "r\<lparr>r_incoming := AList.update key (m\<lparr>im_last_progress := now\<rparr>) (r_incoming r)\<rparr>"
  have "P key (m\<lparr>im_last_progress := now\<rparr>)" using t all_entriesD [OF ok regrant(1)] by (simp add: touch_stable_def)
  then have ok1: "all_entries P (r_incoming ?r1)" using ok by (simp add: all_entries_update)
  show ?thesis
  proof (cases "key \<in> set (r_granting r)")
    case True
    with regrant(5) have "issue_grant ?r1 key now True = (r', as)" by simp
    then show ?thesis by (rule issue_grant_entries [OF _ ok1]) (use g in simp)
  next
    case False
    with regrant(5) ok1 show ?thesis by auto
  qed
next
  case (resend m off)
  with t all_entriesD [OF ok resend(1)] ok show ?thesis by (simp add: touch_stable_def all_entries_update)
qed (use ok in \<open>simp_all add: all_entries_delete\<close>)

lemma recover_cfg: "recover r key now = (r', as) \<Longrightarrow> r_cfg r' = r_cfg r"
proof (erule recover_cases)
  fix m
  assume "(if key \<in> set (r_granting r)
        then issue_grant (r\<lparr>r_incoming := AList.update key (m\<lparr>im_last_progress := now\<rparr>) (r_incoming r)\<rparr>) key now True
        else (r\<lparr>r_incoming := AList.update key (m\<lparr>im_last_progress := now\<rparr>) (r_incoming r)\<rparr>, [])) = (r', as)"
  then show "r_cfg r' = r_cfg r" by (auto split: if_splits dest: issue_grant_frame)
qed simp_all

lemma recover_all_entries:
  "recover_all r keys now = (r', as) \<Longrightarrow> all_entries P (r_incoming r) \<Longrightarrow>
     grant_stable (grant_increment (r_cfg r)) P \<Longrightarrow> touch_stable P \<Longrightarrow> all_entries P (r_incoming r')"
proof (induction keys arbitrary: r as)
  case (Cons key keys)
  obtain r1 as1 r2 as2 where s: "recover r key now = (r1, as1)" "recover_all r1 keys now = (r2, as2)"
    by (metis surj_pair)
  have "all_entries P (r_incoming r1)" by (rule recover_entries [OF s(1)]) (use Cons.prems in simp_all)
  with Cons.IH [of r1] s Cons.prems recover_cfg [OF s(1)] show ?case by auto
qed simp

lemma holds_touch: "touch_stable (\<lambda>k m. \<exists>D. log k = Some D \<and> holds ps D m)"
  by (auto simp: touch_stable_def)

lemma receiver_tick_exact:
  assumes ok: "reasm_ok ps log r" and ord: "iter_order ord'"
  shows "exact_result ps log (receiver_tick ord ord' r now)"
proof -
  obtain r1 as1 where r1: "recover_all r (ord (hm_keys (r_incoming r))) now = (r1, as1)" by force
  have q: "quiet_step r r1 as1" using ok r1 by (auto simp: reasm_ok_def intro: recover_all_quiet)
  have "reasm_ok ps log r1"
    using q ok recover_all_entries [OF r1 _ holds_stable holds_touch] by (simp add: reasm_ok_def quiet_step_def)
  then obtain r' as2 where s: "schedule ord' r1 now = Inr (r', as2)" "reasm_ok ps log r'" "list_all (exact log) as2"
    using ord by (rule schedule_exact)
  with r1 q show ?thesis by (simp add: receiver_tick_def exact_result_def quiet_step_def control_exact)
qed

lemma receiver_step_exact:
  "reasm_ok ps log r \<Longrightarrow> reasm_adm ps log e \<Longrightarrow> exact_result ps log (receiver_step r e)"
  by (cases e) (auto intro: handle_data_exact receiver_tick_exact)

interpretation reasm: total_machine receiver_step "reasm_ok ps log" "reasm_adm ps log" "exact log" for ps log
  using receiver_step_exact by unfold_locales (fastforce simp: exact_result_def)+

lemma reasm_ok_new: "0 < packet_size cfg \<Longrightarrow> reasm_ok (packet_size cfg) log (receiver_new cfg)"
  by (simp add: reasm_ok_def recv_inv_new) (simp add: receiver_new_def)

end
