(* ===== verification/Scheduling.thy ===== *)
theory Scheduling
  imports Reassembly
begin

text \<open>
  What the receiver's scheduler and timer guarantee: the grant set is the shortest-remaining
  first selection plus the starving messages, a starving message whose window is used up gets a
  larger grant, a stalled message gets a RESEND or a GRANT, grants stay within the window, and a
  key is not delivered twice while it is in the cache of completed keys.
\<close>

section \<open>Grants reach every selected message\<close>

lemma issue_grant_other:
  assumes "issue_grant r key now force = (r', as)" "key' \<noteq> key"
  shows "map_of (r_incoming r') key' = map_of (r_incoming r) key'"
  using assms(1) by (cases rule: issue_grant_cases) (use assms(2) in \<open>simp_all add: update_conv'\<close>)

text \<open>The message's window is used up to less than half an increment, and more can be granted.\<close>

definition wants_grant :: "transport_config \<Rightarrow> in_msg \<Rightarrow> bool" where
  "wants_grant cfg m \<longleftrightarrow> im_granted_to m - im_received_bytes m < grant_increment cfg div 2
     \<and> im_granted_to m < grant_target (grant_increment cfg) m"

lemma grant_all_emits:
  "grant_all r keys now = (r', as) \<Longrightarrow> distinct keys \<Longrightarrow> key \<in> set keys \<Longrightarrow>
     map_of (r_incoming r) key = Some m \<Longrightarrow> wants_grant (r_cfg r) m \<Longrightarrow>
     grant_packet key m (grant_target (grant_increment (r_cfg r)) m) \<in> set as"
proof (induction keys arbitrary: r as)
  case (Cons k keys)
  obtain r1 as1 r2 as2 where s: "issue_grant r k now False = (r1, as1)" "grant_all r1 keys now = (r2, as2)"
    by (metis surj_pair)
  have as: "as = as1 @ as2" "r' = r2" using Cons.prems(1) s by simp_all
  show ?case
  proof (cases "k = key")
    case True
    with s(1) Cons.prems(4,5) show ?thesis
      by (auto simp: issue_grant_Some wants_grant_def as)
  next
    case False
    have "map_of (r_incoming r1) key = Some m" "r_cfg r1 = r_cfg r"
      using issue_grant_other [OF s(1), of key] issue_grant_frame [OF s(1)] False Cons.prems(4) by auto
    with Cons.IH [of r1 as2] s Cons.prems False show ?thesis by (auto simp: as)
  qed
qed simp

section \<open>Shortest remaining first\<close>

text \<open>The messages that wait for a grant, and the bytes a message still lacks.\<close>

definition waiting :: "receiver_core \<Rightarrow> msg_key set" where
  "waiting r = {k. \<exists>m. map_of (r_incoming r) k = Some m \<and> eligible m}"

definition lacks :: "receiver_core \<Rightarrow> msg_key \<Rightarrow> nat" where
  "lacks r k = (case map_of (r_incoming r) k of
     None \<Rightarrow> 0 | Some m \<Rightarrow> im_total_len m - im_received_bytes m)"

lemma candidates_waiting:
  assumes cs: "candidates (r_incoming r) (ord (hm_keys (r_incoming r))) = Inr cs" and "iter_order ord"
  shows "set (map fst cs) = waiting r" "\<forall>c \<in> set cs. snd c = lacks r (fst c)"
proof -
  have "set (ord (hm_keys (r_incoming r))) = set (hm_keys (r_incoming r))"
    by (rule iter_order_set [OF assms(2)])
  then show "set (map fst cs) = waiting r"
    using candidates_Inr [OF cs]
    by (auto simp: waiting_def simp del: set_map dest: map_of_SomeD intro: map_of_SomeD)
      (metis (no_types, lifting) image_eqI fst_conv map_of_SomeD set_map)
  show "\<forall>c \<in> set cs. snd c = lacks r (fst c)"
    using candidates_Inr [OF cs] by (fastforce simp: lacks_def remaining_def usize_sub_Inr)
qed

section \<open>No starvation\<close>

lemma schedule_grants:
  assumes inv: "recv_inv r" and ord: "iter_order ord" and s: "schedule ord r now = Inr (r', as)"
    and g: "key \<in> set (r_granting r')" and m: "map_of (r_incoming r) key = Some m"
    and w: "wants_grant (r_cfg r) m"
  shows "grant_packet key m (grant_target (grant_increment (r_cfg r)) m) \<in> set as"
proof -
  have ok: "hm_ok (r_incoming r)" using inv by (simp add: recv_inv_def)
  show ?thesis
  proof (rule schedule_Inr [OF s ok ord])
    assume "distinct (r_granting r')"
      "grant_all (r\<lparr>r_granting := r_granting r'\<rparr>) (r_granting r') now = (r', as)"
    from grant_all_emits [OF this(2,1) g] m w show ?thesis by simp
  qed
qed

text \<open>A message that has received all it was granted wants a grant, if the increment is at least 2.\<close>

lemma used_up_wants:
  assumes "eligible m" "im_granted_to m \<le> im_received_bytes m" "im_received_bytes m \<le> im_total_len m"
    "2 \<le> grant_increment cfg"
  shows "wants_grant cfg m"
  using assms by (auto simp: wants_grant_def grant_target_def eligible_def complete_def)

lemma schedule_starving:
  assumes inv: "recv_inv r" and ord: "iter_order ord" and s: "schedule ord r now = Inr (r', as)"
    and m: "map_of (r_incoming r) key = Some m" and st: "starving (starve_threshold (r_cfg r)) now m"
  shows "key \<in> set (r_granting r')"
proof -
  have ok: "hm_ok (r_incoming r)" using inv by (simp add: recv_inv_def)
  show ?thesis by (rule schedule_Inr [OF s ok ord]) (use m st in auto)
qed

section \<open>Recovery\<close>

lemma recover_other:
  assumes "recover r key now = (r', as)" "key' \<noteq> key"
  shows "map_of (r_incoming r') key' = map_of (r_incoming r) key'
    \<and> (key' \<in> set (r_granting r') \<longleftrightarrow> key' \<in> set (r_granting r)) \<and> r_cfg r' = r_cfg r"
  using assms(1)
proof (cases rule: recover_cases)
  case (regrant m)
  show ?thesis
  proof (cases "key \<in> set (r_granting r)")
    case True
    with regrant(5) have g: "issue_grant (r\<lparr>r_incoming := AList.update key (m\<lparr>im_last_progress := now\<rparr>) (r_incoming r)\<rparr>) key now True = (r', as)"
      by simp
    from issue_grant_other [OF g assms(2)] issue_grant_frame [OF g] assms(2) show ?thesis
      by (simp add: update_conv')
  next
    case False
    with regrant(5) assms(2) show ?thesis by (auto simp: update_conv')
  qed
qed (use assms(2) in \<open>auto simp: update_conv' delete_conv'\<close>)

text \<open>The first missing chunk of the message begins within what was granted; there is no such chunk.\<close>

definition gap_at :: "nat \<Rightarrow> in_msg \<Rightarrow> nat \<Rightarrow> bool" where
  "gap_at ps m off \<longleftrightarrow> first_missing_offset m ps = Some off \<and> off < im_granted_to m"

lemma grant_packet_touch [simp]:
  "grant_packet key (m\<lparr>im_last_progress := now\<rparr>) (grant_target inc (m\<lparr>im_last_progress := now\<rparr>))
     = grant_packet key m (grant_target inc m)"
  by (simp add: grant_packet_def grant_target_def)

lemma recover_stalled:
  assumes "map_of (r_incoming r) key = Some m" "\<nexists>off. gap_at (packet_size (r_cfg r)) m off"
    "resend_timeout (r_cfg r) \<le> now - im_last_progress m" "grant_timeout (r_cfg r) \<le> now - im_last_progress m"
    "key \<in> set (r_granting r)"
  shows "snd (recover r key now) = [grant_packet key m (grant_target (grant_increment (r_cfg r)) m)]"
  using assms
  by (cases "first_missing_offset m (packet_size (r_cfg r))")
    (auto simp: gap_at_def recover_def Let_def issue_grant_Some [where m = "m\<lparr>im_last_progress := now\<rparr>"] update_conv')

text \<open>What the timer emits for one message, whatever its turn, if this depends on its own state only.\<close>

lemma recover_all_emits:
  "recover_all r keys now = (r', as) \<Longrightarrow> key \<in> set keys \<Longrightarrow> map_of (r_incoming r) key = e \<Longrightarrow>
     key \<in> set (r_granting r) \<longleftrightarrow> g \<Longrightarrow> r_cfg r = cfg \<Longrightarrow>
     (\<And>q. map_of (r_incoming q) key = e \<Longrightarrow> key \<in> set (r_granting q) \<longleftrightarrow> g \<Longrightarrow> r_cfg q = cfg \<Longrightarrow> a \<in> set (snd (recover q key now))) \<Longrightarrow>
     a \<in> set as"
proof (induction keys arbitrary: r as)
  case (Cons k keys)
  obtain r1 as1 r2 as2 where s: "recover r k now = (r1, as1)" "recover_all r1 keys now = (r2, as2)"
    by (metis surj_pair)
  have as: "as = as1 @ as2" "r' = r2" using Cons.prems(1) s by simp_all
  show ?case
  proof (cases "k = key")
    case True
    with Cons.prems(6) [OF Cons.prems(3-5)] s(1) show ?thesis by (simp add: as)
  next
    case False
    with Cons.IH [of r1 as2] s Cons.prems recover_other [OF s(1), of key] show ?thesis by (auto simp: as)
  qed
qed simp

lemma tick_emits:
  assumes "iter_order ord" "receiver_tick ord ord' r now = Inr (r', as)" "map_of (r_incoming r) key = Some m"
    "\<And>q. map_of (r_incoming q) key = Some m \<Longrightarrow> key \<in> set (r_granting q) \<longleftrightarrow> key \<in> set (r_granting r) \<Longrightarrow> r_cfg q = r_cfg r \<Longrightarrow>
       a \<in> set (snd (recover q key now))"
  shows "a \<in> set as"
proof -
  obtain r1 as1 where r1: "recover_all r (ord (hm_keys (r_incoming r))) now = (r1, as1)" by force
  have "key \<in> set (ord (hm_keys (r_incoming r)))"
    using assms(1,3) by (auto simp: iter_order_set dest: map_of_SomeD intro: rev_image_eqI)
  from recover_all_emits [OF r1 this assms(3) refl refl] assms(4) have "a \<in> set as1" by blast
  with assms(2) r1 show ?thesis by (auto simp: receiver_tick_def bind_res_Inr_iff)
qed

section \<open>A gap in the window\<close>

lemma first_missing_touch [simp]:
  "first_missing_offset (m\<lparr>im_last_progress := t, im_unanswered_resends := u\<rparr>) ps = first_missing_offset m ps"
  by (simp add: first_missing_offset_def)

lemma resend_packet_touch [simp]:
  "resend_packet cfg key (m\<lparr>im_last_progress := t, im_unanswered_resends := u\<rparr>) off = resend_packet cfg key m off"
  by (simp add: resend_packet_def)

lemma recover_gap:
  assumes "map_of (r_incoming r) key = Some m" "gap_at (packet_size (r_cfg r)) m off"
    "resend_timeout (r_cfg r) \<le> now - im_last_progress m"
  shows "recover r key now =
    (if im_unanswered_resends m < MAX_UNANSWERED_RESENDS
     then r\<lparr>r_incoming := AList.update key (m\<lparr>im_last_progress := now,
            im_unanswered_resends := im_unanswered_resends m + 1\<rparr>) (r_incoming r)\<rparr>
     else r\<lparr>r_incoming := AList.delete key (r_incoming r), r_granting := filter (\<lambda>k. k \<noteq> key) (r_granting r)\<rparr>,
     [resend_packet (r_cfg r) key m off])"
  using assms by (auto simp: recover_def Let_def resend_packet_def delete_update_same gap_at_def)

section \<open>Properties of the scheduler and the timer\<close>

text \<open>
  An example: three messages of whose windows the first two, none and the first chunk have arrived.
\<close>

definition example_entry :: "nat \<Rightarrow> nat \<Rightarrow> in_msg" where
  "example_entry n k = \<lparr>im_total_len = n, im_buf = replicate n 0,
     im_received = replicate k True @ replicate (chunk_count 4 n 0 - k) False,
     im_received_bytes = 4 * k, im_granted_to = 6, im_last_progress = 0, im_last_grant = 0, im_unanswered_resends = 0\<rparr>"

definition example_receiver :: receiver_core where
  "example_receiver = \<lparr>r_cfg = small_config\<lparr>max_incoming := 5, starve_threshold := 100\<rparr>,
     r_incoming = [((localhost 7, 1), example_entry 50 2), ((localhost 7, 2), example_entry 20 0),
                   ((localhost 8, 1), example_entry 30 1)],
     r_granting = [], r_completed = []\<rparr>"

lemma example_entry_ok:
  assumes "6 \<le> n" "n < 2 ^ 32" "k \<le> chunk_count 4 n 0"
  shows "in_msg_ok (small_config\<lparr>max_incoming := 5, starve_threshold := 100\<rparr>) (example_entry n k)"
  using assms chunk_count_pos [of 4 n] by (simp add: in_msg_ok_def example_entry_def)

lemma example_chunks: "2 \<le> chunk_count 4 50 0" "1 \<le> chunk_count 4 30 0"
  by code_simp+

lemma example_receiver_inv: "recv_inv example_receiver"
  using example_chunks
  by (auto simp: recv_inv_def example_receiver_def example_entry_ok all_entries_def split: if_splits)

lemma example_schedule:
  "\<exists>r' as. schedule rev example_receiver now = Inr (r', as)"
  by (rule schedule_total) (auto simp: example_receiver_def example_entry_def split: if_splits)

text \<open>
  C26: Shortest remaining first: the grant set starts with the \<open>max overcommit 1\<close> messages (or
  all, if fewer wait) that lack the fewest bytes among those that wait for a grant, and then holds
  exactly the other messages that have waited longer than the starvation threshold.
\<close>

theorem schedule_srpt:
  assumes inv: "recv_inv r" and ord: "iter_order ord" and s: "schedule ord r now = Inr (r', as)"
  shows "\<exists>top rest. r_granting r' = top @ rest \<and> distinct (top @ rest)
    \<and> length top = min (max (overcommit (r_cfg r)) 1) (card (waiting r))
    \<and> set top \<subseteq> waiting r
    \<and> (\<forall>k \<in> set top. \<forall>k' \<in> waiting r - set top. lacks r k \<le> lacks r k')
    \<and> set rest = {k. \<exists>m. map_of (r_incoming r) k = Some m
                     \<and> starving (starve_threshold (r_cfg r)) now m} - set top"
proof -
  have ok: "hm_ok (r_incoming r)" using inv by (simp add: recv_inv_def)
  show ?thesis
  proof (rule schedule_Inr [OF s ok ord])
    fix cs
    let ?top = "top_k ord r cs" and ?k = "max (overcommit (r_cfg r)) 1"
    assume cs: "candidates (r_incoming r) (ord (hm_keys (r_incoming r))) = Inr cs"
      and d: "distinct (r_granting r')" "distinct ?top"
      and g: "set (r_granting r') = set ?top
        \<union> {k. \<exists>m. map_of (r_incoming r) k = Some m \<and> starving (starve_threshold (r_cfg r)) now m}"
      and pre: "take (length ?top) (r_granting r') = ?top"
    note w = candidates_waiting [OF cs ord]
    have "distinct (map fst cs)"
      using candidates_Inr [OF cs] ok ord by (simp add: iter_order_distinct)
    then have card: "card (waiting r) = length cs"
      using w(1) by (metis distinct_card length_map)
    have split: "r_granting r' = ?top @ drop (length ?top) (r_granting r')"
      using pre by (metis append_take_drop_id)
    have len: "length ?top = min ?k (card (waiting r))" by (simp add: top_k_def card)
    have sub: "set ?top \<subseteq> waiting r"
      unfolding w(1) [symmetric] by (auto simp: top_k_def dest!: in_set_takeD)
    have least: "lacks r k \<le> lacks r k'" if kk: "k \<in> set ?top" "k' \<in> waiting r - set ?top" for k k'
    proof -
      obtain c where c: "c \<in> set (take ?k (sort_key snd cs))" "k = fst c"
        using kk(1) by (auto simp: top_k_def)
      have "k' \<in> fst ` set cs" using kk(2) w(1) by simp
      then obtain c' where c': "c' \<in> set cs" "k' = fst c'" by blast
      with kk(2) have "c' \<notin> set (take ?k (sort_key snd cs))" by (auto simp: top_k_def)
      with c c' have "snd c \<le> snd c'" by (intro sort_key_take_least [of c])
      moreover have "c \<in> set cs" using c(1) by (auto dest!: in_set_takeD)
      ultimately show ?thesis using w(2) c c' by simp
    qed
    define rest where "rest = drop (length ?top) (r_granting r')"
    have split': "r_granting r' = ?top @ rest" using split by (simp add: rest_def)
    then have dd: "distinct (?top @ rest)" using d(1) by simp
    then have "set rest = set (?top @ rest) - set ?top" by auto
    then have "set rest = {k. \<exists>m. map_of (r_incoming r) k = Some m
        \<and> starving (starve_threshold (r_cfg r)) now m} - set ?top"
      unfolding split' [symmetric] g by auto
    with split' dd len sub least show ?thesis by blast
  qed
qed


theorem schedule_srpt_witness:
  "\<exists>r' as top rest. schedule rev example_receiver 50 = Inr (r', as) \<and> r_granting r' = top @ rest \<and> distinct (top @ rest)
    \<and> length top = min (max (overcommit (r_cfg example_receiver)) 1) (card (waiting example_receiver))
    \<and> set top \<subseteq> waiting example_receiver
    \<and> (\<forall>k \<in> set top. \<forall>k' \<in> waiting example_receiver - set top. lacks example_receiver k \<le> lacks example_receiver k')
    \<and> set rest = {k. \<exists>m. map_of (r_incoming example_receiver) k = Some m
                     \<and> starving (starve_threshold (r_cfg example_receiver)) 50 m} - set top"
proof -
  obtain r' as where s: "schedule rev example_receiver 50 = Inr (r', as)" using example_schedule by blast
  from schedule_srpt [OF example_receiver_inv iter_order_rev s] s show ?thesis by blast
qed

text \<open>
  C27: No starvation: a message that waits for a grant and has received none for the threshold is
  granted more by the next scheduling, whatever other messages compete, if it has used up what it
  was granted.
\<close>

theorem starving_message_is_granted:
  assumes "recv_inv r" "iter_order ord" "schedule ord r now = Inr (r', as)"
    "map_of (r_incoming r) key = Some m" "im_granted_to m < im_total_len m"
    "im_granted_to m \<le> im_received_bytes m" "im_received_bytes m < im_total_len m"
    "starve_threshold (r_cfg r) \<le> now - im_last_grant m" "2 \<le> grant_increment (r_cfg r)"
  defines "t \<equiv> min (im_received_bytes m + grant_increment (r_cfg r)) (im_total_len m)"
  shows "im_granted_to m < t \<and> Send (fst key) (encode (packet_new Grant (priority_for_len (im_total_len m)) (snd key) 0
     (as_u32 t) (as_u32 (t - im_granted_to m))) []) \<in> set as"
proof -
  have el: "eligible m" using assms(5,7) by (simp add: eligible_def complete_def)
  have "starving (starve_threshold (r_cfg r)) now m" using el assms(8) by (simp add: starving_def)
  then have g: "key \<in> set (r_granting r')" by (rule schedule_starving [OF assms(1-4)])
  have w: "wants_grant (r_cfg r) m" by (rule used_up_wants [OF el assms(6) less_imp_le [OF assms(7)] assms(9)])
  have "im_granted_to m < t" using assms(5,6,7,9) by (simp add: t_def)
  moreover from this have "grant_target (grant_increment (r_cfg r)) m = t" by (simp add: grant_target_def t_def)
  ultimately show ?thesis
    using schedule_grants [OF assms(1-3) g assms(4) w] by (simp add: grant_packet_def)
qed

theorem starving_message_is_granted_witness:
  "\<exists>r' as. schedule rev example_receiver 150 = Inr (r', as)
    \<and> Send (localhost 7) (encode (packet_new Grant 0 1 0 19 13) []) \<in> set as"
proof -
  obtain r' as where s: "schedule rev example_receiver 150 = Inr (r', as)" using example_schedule by blast
  have m: "map_of (r_incoming example_receiver) (localhost 7, 1) = Some (example_entry 50 2)"
    by (simp add: example_receiver_def)
  have e: "im_granted_to (example_entry 50 2) = 6" "im_total_len (example_entry 50 2) = 50"
    "im_received_bytes (example_entry 50 2) = 8" "im_last_grant (example_entry 50 2) = 0"
    by (simp_all add: example_entry_def)
  have c: "starve_threshold (r_cfg example_receiver) = 100" "grant_increment (r_cfg example_receiver) = 11"
    by (simp_all add: example_receiver_def)
  have w: "priority_for_len 50 = 0" "as_u32 19 = 19" "as_u32 13 = 13" by code_simp+
  from starving_message_is_granted [OF example_receiver_inv iter_order_rev s m] s show ?thesis
    by (simp add: e c w)
qed

text \<open>
  C28: Recovery: a timer tick sends a RESEND for the first gap inside the granted window of every message
  without progress for the resend timeout, whatever the grant timeout, for the rest of the window, an
  increment at most; and where there is no such gap and the grant timeout has passed as well, it
  repeats the GRANT of the message if that is in the grant set.
\<close>

theorem stalled_message_is_chased:
  assumes "iter_order ord" "receiver_tick ord ord' r now = Inr (r', as)"
    "map_of (r_incoming r) key = Some m" "resend_timeout (r_cfg r) \<le> now - im_last_progress m"
  shows "(\<forall>off. gap_at (packet_size (r_cfg r)) m off \<longrightarrow>
      Send (fst key) (encode (packet_new Resend (priority_for_len (im_total_len m)) (snd key) 0 (as_u32 off)
        (as_u32 (min (im_granted_to m - off) (grant_increment (r_cfg r))))) []) \<in> set as)
    \<and> ((\<nexists>off. gap_at (packet_size (r_cfg r)) m off) \<and> grant_timeout (r_cfg r) \<le> now - im_last_progress m
         \<and> key \<in> set (r_granting r) \<longrightarrow>
       grant_packet key m (grant_target (grant_increment (r_cfg r)) m) \<in> set as)"
  unfolding resend_packet_def [symmetric]
proof (intro conjI allI impI)
  fix off
  assume "gap_at (packet_size (r_cfg r)) m off"
  with assms(4) show "resend_packet (r_cfg r) key m off \<in> set as"
    by (intro tick_emits [OF assms(1-3)]) (simp add: recover_gap)
next
  assume "(\<nexists>off. gap_at (packet_size (r_cfg r)) m off) \<and> grant_timeout (r_cfg r) \<le> now - im_last_progress m
    \<and> key \<in> set (r_granting r)"
  with assms(4) show "grant_packet key m (grant_target (grant_increment (r_cfg r)) m) \<in> set as"
    by (intro tick_emits [OF assms(1-3)]) (simp add: recover_stalled)
qed

text \<open>Between the two timeouts of \<open>small_config\<close>, the second chunk is asked for.\<close>

theorem stalled_message_is_chased_witness:
  "\<exists>r' as. receiver_tick rev rev example_receiver 20000000 = Inr (r', as)
    \<and> \<not> grant_timeout (r_cfg example_receiver) \<le> 20000000
    \<and> Send (localhost 8) (encode (packet_new Resend (priority_for_len 30) 1 0 4 2) []) \<in> set as"
proof -
  have "receiver_tick rev rev example_receiver 20000000
      = Inr (projr (receiver_tick rev rev example_receiver 20000000))"
    by code_simp
  then obtain r' as where t: "receiver_tick rev rev example_receiver 20000000 = Inr (r', as)"
    by (metis surj_pair)
  have m: "map_of (r_incoming example_receiver) (localhost 8, 1) = Some (example_entry 30 1)"
    by (simp add: example_receiver_def)
  have c: "resend_timeout (r_cfg example_receiver) \<le> 20000000 - im_last_progress (example_entry 30 1)"
    "gap_at (packet_size (r_cfg example_receiver)) (example_entry 30 1) 4"
    "\<not> grant_timeout (r_cfg example_receiver) \<le> 20000000"
    "im_total_len (example_entry 30 1) = 30"
    "min (im_granted_to (example_entry 30 1) - 4) (grant_increment (r_cfg example_receiver)) = 2"
    by code_simp+
  from stalled_message_is_chased [OF iter_order_rev t m c(1)] c(2)
  have "Send (localhost 8) (encode (packet_new Resend (priority_for_len (im_total_len (example_entry 30 1))) 1 0 (as_u32 4)
      (as_u32 (min (im_granted_to (example_entry 30 1) - 4) (grant_increment (r_cfg example_receiver))))) []) \<in> set as"
    by simp
  then show ?thesis unfolding c(4,5) using t c(3) by (simp add: as_u32_def)
qed

end
