(* ===== verification/Delivery.thy ===== *)
theory Delivery
  imports Scheduling
begin

text \<open>
  Delivery: once every chunk of a message has arrived, in any order and with duplicates, the
  message is delivered, once; and over any run, a key is not delivered again while it is among
  the last \<open>COMPLETED_CACHE\<close> keys delivered.
\<close>

section \<open>At most one delivery per step, and the cache\<close>

lemma drop_last_append:
  assumes "length b \<le> c"
  shows "drop (length (drop (length xs - c) xs @ b) - c) (drop (length xs - c) xs @ b) = drop (length (xs @ b) - c) (xs @ b)"
proof -
  let ?k = "length xs - c"
  have "drop ?k xs @ b = drop ?k (xs @ b)" by simp
  moreover have "length (drop ?k (xs @ b)) - c + ?k = length (xs @ b) - c"
    using assms by (cases "length xs \<le> c") simp_all
  ultimately show ?thesis by (simp only: drop_drop)
qed

lemma cache_push_append:
  "length b \<le> COMPLETED_CACHE \<Longrightarrow> cache_push (cache_push d a) b = cache_push d (a @ b)"
  using drop_last_append [of b COMPLETED_CACHE "d @ a"] by (simp only: cache_push_def append_assoc)

lemma cache_push_empty [simp]: "cache_push [] ks = drop (length ks - COMPLETED_CACHE) ks"
  by (simp add: cache_push_def)

lemma deliver_one: "length (delivers (snd (deliver r key src data))) = 1"
  by (simp add: deliver_def Let_def)

lemma handle_data_one:
  assumes inv: "recv_inv r" and ord: "iter_order ord"
    and h: "handle_data ord r src pkt payload now = Inr (r', as)"
  shows "length (delivers as) \<le> 1"
  using h
proof (cases rule: handle_data_Inr)
  case (empty m r1 as1 as2)
  have ok: "in_msg_ok (r_cfg r) m" by (rule entry_of_ok [OF inv empty(4)]) simp
  have d: "deliver (r\<lparr>r_incoming := AList.update (src, pkt_msg_id pkt) m (r_incoming r)\<rparr>)
      (src, pkt_msg_id pkt) (fst (src, pkt_msg_id pkt)) [] = (r1, as1)" using empty(5) by simp
  from deliver_step [OF inv ok empty(1,3) d] schedule_inv [OF _ empty(6) ord] empty(7) show ?thesis by simp
next
  case (stored m m' r1 as1 as2)
  have "in_msg_ok (r_cfg r) m" by (rule entry_of_ok [OF inv stored(4) unat_u32_less])
  then have ok: "in_msg_ok (r_cfg r) m'" by (rule store_chunk_ok [OF _ stored(5)])
  have d: "settle r (src, pkt_msg_id pkt) (fst (src, pkt_msg_id pkt)) m' = (r1, as1)" using stored(6) by simp
  from settle_step [OF inv ok stored(1,3) d] schedule_inv [OF _ stored(7) ord] stored(8) show ?thesis
    by (auto split: if_splits)
qed simp_all

lemma receiver_tick_none:
  assumes "recv_inv r" "iter_order ord'" "receiver_tick ord ord' r now = Inr (r', as)"
  shows "delivers as = []"
proof -
  obtain r1 as1 where r1: "recover_all r (ord (hm_keys (r_incoming r))) now = (r1, as1)" by force
  have q: "quiet_step r r1 as1" by (rule recover_all_quiet [OF assms(1) r1])
  from assms(3) r1 obtain as2 where s: "schedule ord' r1 now = Inr (r', as2)" "as = as1 @ as2"
    by (auto simp: receiver_tick_def bind_res_Inr_iff)
  from q schedule_inv [OF _ s(1) assms(2)] s(2) show ?thesis by (simp add: quiet_step_def)
qed

lemma receiver_step_one:
  "recv_inv r \<Longrightarrow> orders_ok e \<Longrightarrow> receiver_step r e = Inr (r', as) \<Longrightarrow> length (delivers as) \<le> 1"
  by (cases e) (auto dest: handle_data_one receiver_tick_none)

text \<open>No two equal keys at distance at most \<open>c\<close>.\<close>

definition apart :: "nat \<Rightarrow> 'k list \<Rightarrow> bool" where
  "apart c ks \<longleftrightarrow> (\<forall>j < length ks. \<forall>i < j. j \<le> i + c \<longrightarrow> ks ! i \<noteq> ks ! j)"

lemma apart_snoc:
  assumes "apart c ks" "k \<notin> set (drop (length ks - c) ks)"
  shows "apart c (ks @ [k])"
proof -
  have new: "ks ! i \<noteq> k" if "i < length ks" "length ks \<le> i + c" for i
  proof
    assume "ks ! i = k"
    moreover have "drop (length ks - c) ks ! (i - (length ks - c)) = ks ! i"
      "i - (length ks - c) < length (drop (length ks - c) ks)"
      using that by simp_all
    ultimately have "k \<in> set (drop (length ks - c) ks)" by (metis nth_mem)
    with assms(2) show False ..
  qed
  with assms(1) show ?thesis by (auto simp: apart_def nth_append less_Suc_eq)
qed

text \<open>The keys delivered so far are \<open>ks\<close>: the cache holds the last of them, and equal ones are far apart.\<close>

definition tracks :: "receiver_core \<Rightarrow> msg_key list \<Rightarrow> bool" where
  "tracks r ks \<longleftrightarrow> r_completed r = cache_push [] ks \<and> apart COMPLETED_CACHE ks"

lemma tracks_new: "tracks (receiver_new cfg) []"
  by (simp add: tracks_def receiver_new_def apart_def)

lemma tracks_step:
  assumes inv: "recv_inv r" and e: "orders_ok e" and st: "receiver_step r e = Inr (r', as)" and t: "tracks r ks"
  shows "tracks r' (ks @ map fst (delivers as))"
proof -
  let ?new = "map fst (delivers as)"
  have step: "sound_step r r' as" by (rule receiver_step_sound [OF inv e st])
  have one: "length ?new \<le> 1" using receiver_step_one [OF inv e st] by simp
  have "r_completed r' = cache_push [] (ks @ ?new)"
    using step t one cache_push_append [of ?new "[]" ks]
    by (simp add: sound_step_def tracks_def COMPLETED_CACHE_def)
  moreover have "apart COMPLETED_CACHE (ks @ ?new)"
  proof (cases ?new)
    case (Cons k rest)
    then have "?new = [k]" using one by simp
    moreover have "k \<notin> set (drop (length ks - COMPLETED_CACHE) ks)"
      using step t Cons by (auto simp: sound_step_def tracks_def)
    ultimately show ?thesis using t apart_snoc [of COMPLETED_CACHE ks k] by (simp add: tracks_def)
  qed (use t in \<open>simp add: tracks_def\<close>)
  ultimately show ?thesis by (simp add: tracks_def)
qed

lemma run_tracks:
  "recv_inv r \<Longrightarrow> tracks r ks \<Longrightarrow> list_all orders_ok es \<Longrightarrow> run_steps receiver_step r es = Inr (r', as) \<Longrightarrow>
     tracks r' (ks @ map fst (delivers as))"
proof (induction es arbitrary: r ks as)
  case (Cons e es)
  from Cons.prems(4) obtain r1 as1 as2 where s: "receiver_step r e = Inr (r1, as1)"
    "run_steps receiver_step r1 es = Inr (r', as2)" "as = as1 @ as2"
    by (auto simp: bind_res_Inr_iff)
  have e: "orders_ok e" "list_all orders_ok es" using Cons.prems(3) by simp_all
  have "recv_inv r1" using receiver_step_sound [OF Cons.prems(1) e(1) s(1)] by (simp add: sound_step_def)
  from Cons.IH [OF this tracks_step [OF Cons.prems(1) e(1) s(1) Cons.prems(2)] e(2) s(2)] s(3) show ?case by simp
qed simp

section \<open>What a step does to the entries of other messages\<close>

text \<open>
  The key is no more completed than before, and its entry, if it has one, keeps its bitmap; the
  resend counter grows by at most \<open>u\<close>.
\<close>

definition kept :: "msg_key \<Rightarrow> nat \<Rightarrow> receiver_core \<Rightarrow> receiver_core \<Rightarrow> bool" where
  "kept key u r r' \<longleftrightarrow> (key \<in> set (r_completed r') \<longrightarrow> key \<in> set (r_completed r))
     \<and> (\<forall>m. map_of (r_incoming r) key = Some m \<longrightarrow>
          (\<exists>m'. map_of (r_incoming r') key = Some m' \<and> im_received m' = im_received m
             \<and> im_unanswered_resends m' \<le> im_unanswered_resends m + u))"

lemma kept_trans: "kept key 0 r1 r2 \<Longrightarrow> kept key u r r1 \<Longrightarrow> kept key u r r2"
  by (fastforce simp: kept_def)

lemma kept_trans2: "kept key u r1 r2 \<Longrightarrow> kept key 0 r r1 \<Longrightarrow> kept key u r r2"
  by (fastforce simp: kept_def)

lemma kept_refl: "kept key u r r"
  by (simp add: kept_def)

lemma bitmap_stable: "grant_stable inc (\<lambda>k m. k = key \<longrightarrow> im_received m = bm \<and> im_unanswered_resends m = u)"
  by (simp add: grant_stable_def)

text \<open>An entry keeps through a scheduling what a grant cannot change.\<close>

lemma schedule_keeps_entry:
  assumes inv: "recv_inv r" and s: "schedule ord r now = Inr (r', as)" and ord: "iter_order ord"
    and m: "map_of (r_incoming r) key = Some m" "P m" and st: "grant_stable (grant_increment (r_cfg r)) (\<lambda>k x. k = key \<longrightarrow> P x)"
  obtains m' where "map_of (r_incoming r') key = Some m'" "P m'"
proof -
  have "all_entries (\<lambda>k x. k = key \<longrightarrow> P x) (r_incoming r')"
    by (rule schedule_entries [OF s _ st]) (use m in \<open>simp add: all_entries_def\<close>)
  moreover have "key \<in> set (hm_keys (r_incoming r'))"
    using schedule_inv [OF inv s ord] m(1) by (metis map_of_eq_None_iff option.discI set_map)
  then obtain m' where "map_of (r_incoming r') key = Some m'"
    by (metis map_of_eq_None_iff not_None_eq set_map)
  ultimately show thesis using that by (auto dest: all_entriesD)
qed

lemma schedule_kept:
  assumes inv: "recv_inv r" and s: "schedule ord r now = Inr (r', as)" and ord: "iter_order ord"
  shows "kept key 0 r r'"
  unfolding kept_def
proof (intro conjI allI impI)
  show "key \<in> set (r_completed r') \<Longrightarrow> key \<in> set (r_completed r)" using schedule_inv [OF inv s ord] by simp
  fix m assume m: "map_of (r_incoming r) key = Some m"
  show "\<exists>m'. map_of (r_incoming r') key = Some m' \<and> im_received m' = im_received m
      \<and> im_unanswered_resends m' \<le> im_unanswered_resends m + 0"
    by (rule schedule_keeps_entry [OF inv s ord m _ bitmap_stable]) auto
qed

lemma cache_push_mem: "k \<in> set (cache_push d ks) \<Longrightarrow> k \<in> set d \<union> set ks"
  by (auto simp: cache_push_def dest: in_set_dropD)

text \<open>A packet of another message leaves the entry to the scheduler, if that runs at all.\<close>

lemma handle_data_other:
  assumes inv: "recv_inv r" and ord: "iter_order ord"
    and h: "handle_data ord r src pkt payload now = Inr (r', as)" and k: "key \<noteq> (src, pkt_msg_id pkt)"
  obtains "r' = r"
  | r1 as2 where "recv_inv r1" "r_cfg r1 = r_cfg r" "map_of (r_incoming r1) key = map_of (r_incoming r) key"
      "key \<in> set (r_completed r1) \<Longrightarrow> key \<in> set (r_completed r)" "schedule ord r1 now = Inr (r', as2)"
  using h
proof (cases rule: handle_data_Inr)
  case (empty m r1 as1 as2)
  have ok: "in_msg_ok (r_cfg r) m" by (rule entry_of_ok [OF inv empty(4)]) simp
  have d: "deliver (r\<lparr>r_incoming := AList.update (src, pkt_msg_id pkt) m (r_incoming r)\<rparr>)
      (src, pkt_msg_id pkt) (fst (src, pkt_msg_id pkt)) [] = (r1, as1)" using empty(5) by simp
  from deliver_step [OF inv ok empty(1,3) d] k show thesis
    by (intro that(2) [OF _ _ _ _ empty(6)]) (auto simp: delete_conv' dest!: cache_push_mem)
next
  case (stored m m' r1 as1 as2)
  have "in_msg_ok (r_cfg r) m" by (rule entry_of_ok [OF inv stored(4) unat_u32_less])
  then have ok: "in_msg_ok (r_cfg r) m'" by (rule store_chunk_ok [OF _ stored(5)])
  have d: "settle r (src, pkt_msg_id pkt) (fst (src, pkt_msg_id pkt)) m' = (r1, as1)" using stored(6) by simp
  from settle_step [OF inv ok stored(1,3) d] k show thesis
    by (intro that(2) [OF _ _ _ _ stored(7)]) (auto simp: delete_conv' update_conv' dest!: cache_push_mem split: if_splits)
qed (simp_all add: that(1))

lemma handle_data_kept:
  assumes inv: "recv_inv r" and ord: "iter_order ord"
    and h: "handle_data ord r src pkt payload now = Inr (r', as)" and k: "key \<noteq> (src, pkt_msg_id pkt)"
  shows "kept key 0 r r'"
  using inv ord h k
proof (cases rule: handle_data_other)
  case (2 r1 as2)
  then have "kept key 0 r r1" by (simp add: kept_def)
  with schedule_kept [OF 2(1,5) ord] show ?thesis by (rule kept_trans)
qed (simp add: kept_refl)

lemma recover_kept:
  assumes "recover r key' now = (r', as)" "recv_inv r"
    "\<forall>m. map_of (r_incoming r) key = Some m \<longrightarrow> im_unanswered_resends m < MAX_UNANSWERED_RESENDS"
  shows "kept key (if key = key' then 1 else 0) r r'"
proof -
  have c: "r_completed r' = r_completed r"
    using recover_quiet [OF assms(2,1)] by (simp add: quiet_step_def)
  show ?thesis
  proof (cases "key = key'")
    case False
    then show ?thesis using recover_other [OF assms(1), of key] c by (simp add: kept_def)
  next
    case True
    from assms(1) show ?thesis
    proof (cases rule: recover_cases)
      case (regrant m)
      let ?r1 = "r\<lparr>r_incoming := AList.update key' (m\<lparr>im_last_progress := now\<rparr>) (r_incoming r)\<rparr>"
      have r1: "kept key 0 r ?r1" using regrant(1) True by (simp add: kept_def update_conv')
      have "kept key 0 ?r1 r'"
      proof (cases "key' \<in> set (r_granting r)")
        case g: True
        with regrant(5) have "issue_grant ?r1 key' now True = (r', as)" by simp
        then show ?thesis
          by (cases rule: issue_grant_cases) (auto simp: kept_def update_conv' True)
      qed (use regrant(5) in \<open>simp add: kept_refl\<close>)
      from kept_trans [OF this r1] show ?thesis by (auto simp: kept_def True)
    qed (use assms(3) True c in \<open>auto simp: kept_def update_conv'\<close>)
  qed
qed

lemma recover_all_other:
  "recover_all r keys now = (r', as) \<Longrightarrow> key \<notin> set keys \<Longrightarrow>
     map_of (r_incoming r') key = map_of (r_incoming r) key"
proof (induction keys arbitrary: r r' as)
  case (Cons k keys)
  obtain r1 as1 r2 as2 where t: "recover r k now = (r1, as1)" "recover_all r1 keys now = (r2, as2)"
    by (metis surj_pair)
  with Cons.IH [OF t(2)] Cons.prems recover_other [OF t(1), of key] show ?case by auto
qed simp

lemma recover_all_kept:
  "recover_all r keys now = (r', as) \<Longrightarrow> recv_inv r \<Longrightarrow> distinct keys \<Longrightarrow>
     \<forall>m. map_of (r_incoming r) key = Some m \<longrightarrow> im_unanswered_resends m < MAX_UNANSWERED_RESENDS \<Longrightarrow>
     kept key (if key \<in> set keys then 1 else 0) r r'"
proof (induction keys arbitrary: r r' as)
  case (Cons k keys)
  obtain r1 as1 r2 as2 where s: "recover r k now = (r1, as1)" "recover_all r1 keys now = (r2, as2)"
    by (metis surj_pair)
  have r2: "r' = r2" using Cons.prems(1) s by simp
  have inv1: "recv_inv r1" using recover_quiet [OF Cons.prems(2) s(1)] by (simp add: quiet_step_def)
  have k1: "kept key (if key = k then 1 else 0) r r1"
    by (rule recover_kept [OF s(1) Cons.prems(2,4)])
  show ?case
  proof (cases "key = k")
    case True
    have same: "map_of (r_incoming r2) key = map_of (r_incoming r1) key"
      using recover_all_other [OF s(2)] Cons.prems(3) True by simp
    have "r_completed r2 = r_completed r1"
      using recover_all_quiet [OF inv1 s(2)] by (simp add: quiet_step_def)
    with k1 True same show ?thesis by (simp add: kept_def r2)
  next
    case False
    have "map_of (r_incoming r1) key = map_of (r_incoming r) key" using recover_other [OF s(1), of key] False by simp
    with Cons.IH [OF s(2) inv1] Cons.prems False have "kept key (if key \<in> set keys then 1 else 0) r1 r2" by simp
    with k1 False show ?thesis by (auto simp: r2 intro: kept_trans2)
  qed
qed (simp add: kept_refl)

lemma tick_kept:
  assumes inv: "recv_inv r" and ord: "iter_order ord" "iter_order ord'"
    and t: "receiver_tick ord ord' r now = Inr (r', as)"
    and u: "\<forall>m. map_of (r_incoming r) key = Some m \<longrightarrow> im_unanswered_resends m < MAX_UNANSWERED_RESENDS"
  shows "kept key 1 r r'"
proof -
  obtain r1 as1 where r1: "recover_all r (ord (hm_keys (r_incoming r))) now = (r1, as1)" by force
  from t r1 obtain as2 where s: "schedule ord' r1 now = Inr (r', as2)"
    by (auto simp: receiver_tick_def bind_res_Inr_iff)
  have inv1: "recv_inv r1" using recover_all_quiet [OF inv r1] by (simp add: quiet_step_def)
  have "distinct (ord (hm_keys (r_incoming r)))"
    using inv ord(1) by (simp add: iter_order_distinct recv_inv_def)
  from recover_all_kept [OF r1 inv this u] have "kept key 1 r r1" by (auto simp: kept_def split: if_splits)
  with schedule_kept [OF inv1 s ord(2)] show ?thesis by (rule kept_trans)
qed

section \<open>Arrival of every chunk\<close>

text \<open>
  The index of the chunk that an event brings for \<open>key\<close>, and the number of timer ticks.
\<close>

fun chunk_event :: "nat \<Rightarrow> msg_key \<Rightarrow> receiver_event \<Rightarrow> nat option" where
  "chunk_event ps key (RData ord src pkt payload now) =
     (if (src, pkt_msg_id pkt) = key then Some (unat (pkt_offset pkt) div ps) else None)"
| "chunk_event ps key (RTick ord ord' now) = None"

definition chunks_in :: "nat \<Rightarrow> msg_key \<Rightarrow> receiver_event list \<Rightarrow> nat set" where
  "chunks_in ps key es = (\<Union>e \<in> set es. set_option (chunk_event ps key e))"

fun is_tick :: "receiver_event \<Rightarrow> bool" where
  "is_tick (RData ord src pkt payload now) = False"
| "is_tick (RTick ord ord' now) = True"

text \<open>Some, not all, chunks of the message have arrived, those in \<open>S\<close>; at most \<open>t\<close> RESENDs are unanswered.\<close>

definition arrived :: "nat \<Rightarrow> nat \<Rightarrow> msg_key \<Rightarrow> nat set \<Rightarrow> nat \<Rightarrow> receiver_core \<Rightarrow> bool" where
  "arrived ps n key S t r \<longleftrightarrow>
     key \<notin> set (r_completed r) \<and> S \<subset> {..<chunk_count ps n 0}
     \<and> (\<exists>m. map_of (r_incoming r) key = Some m \<and> im_unanswered_resends m \<le> t
          \<and> (\<forall>i < chunk_count ps n 0. im_received m ! i \<longleftrightarrow> i \<in> S))"

lemma arrived_kept:
  "arrived ps n key S t r \<Longrightarrow> kept key u r r' \<Longrightarrow> arrived ps n key S (t + u) r'"
  by (fastforce simp: arrived_def kept_def)

lemma carries_small: "carries ps D pkt payload \<Longrightarrow> length D < 2 ^ 32"
  using unat_u32_less [of "pkt_msg_len pkt"] by (simp add: carries_def)


text \<open>A chunk of the message arrives: the last one delivers it.\<close>

lemma chunk_arrives:
  assumes ok: "reasm_ok ps log r" and l: "log key = Some D" and ne: "D \<noteq> []"
    and key: "key = (src, pkt_msg_id pkt)" and c: "carries ps D pkt payload"
    and S: "arrived ps (length D) key S t r
      \<or> S = {} \<and> key \<notin> set (r_completed r) \<and> map_of (r_incoming r) key = None
        \<and> length (r_incoming r) < max_incoming (r_cfg r)"
    and ord: "iter_order ord" and h: "handle_data ord r src pkt payload now = Inr (r', as)"
  defines "T \<equiv> insert (unat (pkt_offset pkt) div ps) S"
  shows "if T = {..<chunk_count ps (length D) 0} then (key, D) \<in> set (delivers as)
    else arrived ps (length D) key T t r'"
  using h
proof (cases rule: handle_data_Inr)
  case (stored m m' r1 as1 as2)
  let ?n = "chunk_count ps (length D) 0" and ?i = "unat (pkt_offset pkt) div ps"
  have inv: "recv_inv r" and psr: "packet_size (r_cfg r) = ps" using ok by (simp_all add: reasm_ok_def)
  have ps: "0 < packet_size (r_cfg r)" by (rule recv_inv_ps [OF inv])
  have n: "unat (pkt_msg_len pkt) = length D" using c by (simp add: carries_def)
  have im: "in_msg_ok (r_cfg r) m" by (rule entry_of_ok [OF inv stored(4) unat_u32_less])
  have im': "in_msg_ok (r_cfg r) m'" by (rule store_chunk_ok [OF im stored(5)])
  have hm: "holds ps D m"
    using entry_holds [OF ok l carries_small [OF c], of now] stored(4) n key by force
  have sub: "S \<subseteq> {..<?n}" using S by (auto simp: arrived_def)
  have em: "map_of (r_incoming r) key = Some m \<or> map_of (r_incoming r) key = None
      \<and> new_in_msg (r_cfg r) (length D) now = Inr m"
    using stored(4) n key by (cases "map_of (r_incoming r) key") (auto simp: entry_of_def)
  have m: "im_unanswered_resends m \<le> t \<and> (\<forall>j < ?n. im_received m ! j \<longleftrightarrow> j \<in> S)"
    using em S psr by (auto simp: arrived_def new_in_msg_def bind_res_Inr_iff div_ceil_count [OF ps])
  have hm': "holds ps D m'" and bm: "im_received m' = (im_received m)[?i := True]"
    using store_chunk_holds [OF ps im, of D pkt payload now] hm c ne psr stored(5) by (metis Inr_inject)+
  have u: "im_unanswered_resends m' \<le> t"
    using stored(5) m by (auto simp: store_chunk_def bind_res_Inr_iff split: if_splits)
  have len: "length (im_received m') = ?n"
    using bitmap_length [OF ps im'] hm' ne psr by (simp add: holds_def)
  have il: "?i < ?n" using carries_index(2) [OF c ne] ps psr by simp
  have bits: "\<forall>j < ?n. im_received m' ! j \<longleftrightarrow> j \<in> T"
    using m bm il len by (auto simp: nth_list_update T_def)
  have fin: "complete m' \<longleftrightarrow> T = {..<?n}"
    using acct_full [of ps "im_received m'" "length D"] hm' len bits ps psr il sub
    by (auto simp: holds_def complete_def T_def)
  have d: "settle r key (fst key) m' = (r1, as1)" using stored(6) key by simp
  note f = settle_step [OF inv im' stored(1,3) [folded key] d]
  show ?thesis
  proof (cases "T = {..<?n}")
    case True
    with fin f holds_complete [OF ps im'] hm' ne psr stored(8) show ?thesis by simp
  next
    case False
    with fin f u bits stored(1) il sub have "arrived ps (length D) key T t r1"
      by (auto simp: arrived_def key T_def update_conv' dest!: cache_push_mem)
    from arrived_kept [OF this schedule_kept [OF _ stored(7) ord]] f False show ?thesis by simp
  qed
qed (use S ne c in \<open>auto simp: arrived_def carries_def key\<close>)

lemma chunks_in_Cons:
  "chunks_in ps key (e # es) = set_option (chunk_event ps key e) \<union> chunks_in ps key es"
  by (simp add: chunks_in_def)

text \<open>Any one step: the chunk of the event is added to those that have arrived.\<close>

lemma step_arrives:
  assumes ok: "reasm_ok ps log r" and l: "log key = Some D" and ne: "D \<noteq> []"
    and S: "arrived ps (length D) key S t r" and adm: "reasm_adm ps log e"
    and h: "receiver_step r e = Inr (r', as)" and t: "is_tick e \<Longrightarrow> t < MAX_UNANSWERED_RESENDS"
  defines "T \<equiv> set_option (chunk_event ps key e) \<union> S"
  shows "if T = {..<chunk_count ps (length D) 0} then (key, D) \<in> set (delivers as)
    else arrived ps (length D) key T (if is_tick e then t + 1 else t) r'"
proof (cases e)
  case (RData ord src pkt payload now)
  show ?thesis
  proof (cases "key = (src, pkt_msg_id pkt)")
    case True
    have "carries ps D pkt payload" using adm l RData True by auto
    moreover have "iter_order ord" "handle_data ord r src pkt payload now = Inr (r', as)"
      using adm h RData by simp_all
    ultimately have "if insert (unat (pkt_offset pkt) div ps) S = {..<chunk_count ps (length D) 0}
      then (key, D) \<in> set (delivers as)
      else arrived ps (length D) key (insert (unat (pkt_offset pkt) div ps) S) t r'"
      by (rule chunk_arrives [OF ok l ne True _ disjI1 [OF S]])
    then show ?thesis using RData True by (simp add: T_def split: if_splits)
  next
    case False
    have "kept key 0 r r'"
      using handle_data_kept [OF _ _ _ False] ok adm h RData by (auto simp: reasm_ok_def)
    then have "arrived ps (length D) key S t r'" using arrived_kept [OF S, of 0] by simp
    moreover have "S \<noteq> {..<chunk_count ps (length D) 0}" using S by (auto simp: arrived_def)
    ultimately show ?thesis using False RData by (auto simp: T_def)
  qed
next
  case (RTick ord ord' now)
  have "kept key 1 r r'"
    by (rule tick_kept) (use ok adm h RTick S t in \<open>auto simp: reasm_ok_def arrived_def\<close>)
  then have "arrived ps (length D) key S (t + 1) r'" by (rule arrived_kept [OF S])
  moreover have "S \<noteq> {..<chunk_count ps (length D) 0}" using S by (auto simp: arrived_def)
  ultimately show ?thesis using RTick by (simp add: T_def)
qed

lemma run_arrives:
  "reasm_ok ps log r \<Longrightarrow> log key = Some D \<Longrightarrow> D \<noteq> [] \<Longrightarrow> arrived ps (length D) key S t r \<Longrightarrow>
     list_all (reasm_adm ps log) es \<Longrightarrow> run_steps receiver_step r es = Inr (r', as) \<Longrightarrow>
     t + length (filter is_tick es) \<le> MAX_UNANSWERED_RESENDS \<Longrightarrow>
     S \<union> chunks_in ps key es = {..<chunk_count ps (length D) 0} \<Longrightarrow> (key, D) \<in> set (delivers as)"
proof (induction es arbitrary: r S t as)
  case Nil
  then show ?case by (auto simp: arrived_def chunks_in_def)
next
  case (Cons e es)
  let ?T = "set_option (chunk_event ps key e) \<union> S" and ?t = "if is_tick e then t + 1 else t"
  obtain r1 as1 as2 where st: "receiver_step r e = Inr (r1, as1)"
    and run: "run_steps receiver_step r1 es = Inr (r', as2)" and as: "as = as1 @ as2"
    using Cons.prems(6) by (auto simp: bind_res_Inr_iff)
  have ok1: "reasm_ok ps log r1"
    using receiver_step_exact [OF Cons.prems(1)] Cons.prems(5) st by (fastforce simp: exact_result_def)
  have step: "if ?T = {..<chunk_count ps (length D) 0} then (key, D) \<in> set (delivers as1)
      else arrived ps (length D) key ?T ?t r1"
    using Cons.prems by (intro step_arrives [OF Cons.prems(1-4) _ st]) auto
  show ?case
  proof (cases "?T = {..<chunk_count ps (length D) 0}")
    case False
    then have a1: "arrived ps (length D) key ?T ?t r1" using step by (simp only: if_False)
    have "?t + length (filter is_tick es) \<le> MAX_UNANSWERED_RESENDS" using Cons.prems(7)
      by (simp split: if_splits)
    moreover have "?T \<union> chunks_in ps key es = {..<chunk_count ps (length D) 0}"
      using Cons.prems(8) by (auto simp: chunks_in_Cons)
    moreover have "list_all (reasm_adm ps log) es" using Cons.prems(5) by simp
    ultimately have "(key, D) \<in> set (delivers as2)"
      using Cons.IH [OF ok1 Cons.prems(2,3) a1 _ run] by blast
    then show ?thesis by (simp add: as)
  qed (use step in \<open>simp add: as\<close>)
qed

text \<open>From the message's first chunk on, to a fresh key with room for it.\<close>

lemma run_from_first:
  assumes ok: "reasm_ok ps log r" and l: "log (src, pkt_msg_id pkt) = Some D" and ne: "D \<noteq> []"
    and fresh: "(src, pkt_msg_id pkt) \<notin> set (r_completed r)" "map_of (r_incoming r) (src, pkt_msg_id pkt) = None"
      "length (r_incoming r) < max_incoming (r_cfg r)"
    and adm: "list_all (reasm_adm ps log) (RData ord src pkt payload now # es)"
    and ticks: "length (filter is_tick es) \<le> MAX_UNANSWERED_RESENDS"
    and all: "chunks_in ps (src, pkt_msg_id pkt) (RData ord src pkt payload now # es)
      = {..<chunk_count ps (length D) 0}"
    and run: "run_steps receiver_step r (RData ord src pkt payload now # es) = Inr (r', as)"
  shows "((src, pkt_msg_id pkt), D) \<in> set (delivers as)"
proof -
  let ?key = "(src, pkt_msg_id pkt)" and ?T = "{unat (pkt_offset pkt) div ps}"
  obtain r1 as1 as2 where st: "handle_data ord r src pkt payload now = Inr (r1, as1)"
    and run1: "run_steps receiver_step r1 es = Inr (r', as2)" and as: "as = as1 @ as2"
    using run by (auto simp: bind_res_Inr_iff)
  have c: "carries ps D pkt payload" and ord: "iter_order ord" using adm l by auto
  have ok1: "reasm_ok ps log r1"
    using handle_data_exact [OF ok ord l c, of now] st by (auto simp: exact_result_def)
  have step: "if ?T = {..<chunk_count ps (length D) 0} then (?key, D) \<in> set (delivers as1)
      else arrived ps (length D) ?key ?T 0 r1"
    using chunk_arrives [OF ok l ne refl c _ ord st, of "{}" 0] fresh by simp
  show ?thesis
  proof (cases "?T = {..<chunk_count ps (length D) 0}")
    case False
    with step have a: "arrived ps (length D) ?key ?T 0 r1" by (simp only: if_False)
    have "(?key, D) \<in> set (delivers as2)"
      by (rule run_arrives [OF ok1 l ne a _ run1]) (use adm ticks all in \<open>simp_all add: chunks_in_Cons\<close>)
    then show ?thesis by (simp add: as)
  qed (use step in \<open>simp add: as split: if_splits\<close>)
qed

text \<open>A packet that is neither late nor refused is either the last of its message or recorded.\<close>

lemma schedule_keeps_absent:
  assumes "recv_inv r" "schedule ord r now = Inr (r', as)" "iter_order ord" "map_of (r_incoming r) key = None"
  shows "map_of (r_incoming r') key = None"
  using schedule_inv [OF assms(1-3)] assms(4) by (metis map_of_eq_None_iff set_map)

lemma cache_push_last: "recv_inv r \<Longrightarrow> key \<in> set (cache_push (r_completed r) [key])"
  by (simp add: cache_push_one recv_inv_def)

lemma accepted_chunk:
  assumes ok: "reasm_ok ps log r" and ord: "iter_order ord" and l: "log (src, pkt_msg_id pkt) = Some D"
    and c: "carries ps D pkt payload" and new: "(src, pkt_msg_id pkt) \<notin> set (r_completed r)"
    and room: "\<not> (map_of (r_incoming r) (src, pkt_msg_id pkt) = None \<and> max_incoming (r_cfg r) \<le> length (r_incoming r))"
    and h: "handle_data ord r src pkt payload now = Inr (r', as)"
  defines "key \<equiv> (src, pkt_msg_id pkt)"
  shows "if (key, D) \<in> set (delivers as) then key \<in> set (r_completed r') \<and> map_of (r_incoming r') key = None
    else delivers as = [] \<and> (\<exists>m. map_of (r_incoming r') key = Some m \<and> im_received m ! (unat (pkt_offset pkt) div ps))"
  using h
proof (cases rule: handle_data_Inr)
  case (empty m r1 as1 as2)
  have inv: "recv_inv r" using ok by (simp add: reasm_ok_def)
  have im: "in_msg_ok (r_cfg r) m" by (rule entry_of_ok [OF inv empty(4)]) simp
  have "deliver (r\<lparr>r_incoming := AList.update key m (r_incoming r)\<rparr>) key (fst key) [] = (r1, as1)"
    using empty(5) by (simp add: key_def)
  note f = deliver_step [OF inv im empty(1,3) [folded key_def] this]
  have d: "D = []" using c empty(2) by (simp add: carries_def)
  note s = schedule_inv [OF _ empty(6) ord]
  have "map_of (r_incoming r1) key = None" using f by (simp add: delete_conv')
  with f s schedule_keeps_absent [OF _ empty(6) ord] cache_push_last [OF inv, of key] d empty(7)
  show ?thesis by simp
next
  case (stored m m' r1 as1 as2)
  let ?i = "unat (pkt_offset pkt) div ps"
  have inv: "recv_inv r" and psr: "packet_size (r_cfg r) = ps" using ok by (simp_all add: reasm_ok_def)
  have ps: "0 < packet_size (r_cfg r)" by (rule recv_inv_ps [OF inv])
  have ne: "D \<noteq> []" using c stored(2) by (auto simp: carries_def)
  have n: "unat (pkt_msg_len pkt) = length D" using c by (simp add: carries_def)
  have im: "in_msg_ok (r_cfg r) m" by (rule entry_of_ok [OF inv stored(4) unat_u32_less])
  have im': "in_msg_ok (r_cfg r) m'" by (rule store_chunk_ok [OF im stored(5)])
  have hm: "holds ps D m" using entry_holds [OF ok l carries_small [OF c], of now] stored(4) n by force
  have hm': "holds ps D m'" and bm: "im_received m' = (im_received m)[?i := True]"
    using store_chunk_holds [OF ps im, of D pkt payload now] hm c ne psr stored(5) by (metis Inr_inject)+
  have bit: "im_received m' ! ?i"
    using carries_index(2) [OF c ne] bitmap_length [OF ps im] hm ne ps psr by (simp add: bm holds_def)
  have "settle r key (fst key) m' = (r1, as1)" using stored(6) by (simp add: key_def)
  note f = settle_step [OF inv im' stored(1,3) [folded key_def] this]
  have inv1: "recv_inv r1" using f by simp
  note s = schedule_inv [OF inv1 stored(7) ord]
  show ?thesis
  proof (cases "complete m'")
    case True
    then have "im_buf m' = D" using holds_complete [OF ps im'] hm' ne psr by simp
    moreover have "map_of (r_incoming r1) key = None" using f True by (simp add: delete_conv')
    ultimately show ?thesis
      using f s True schedule_keeps_absent [OF inv1 stored(7) ord] stored(8)
        cache_push_last [OF inv, of key] by simp
  next
    case False
    then have "map_of (r_incoming r1) key = Some m'" using f by (simp add: update_conv')
    with schedule_kept [OF inv1 stored(7) ord, of key] bit
    have "\<exists>m. map_of (r_incoming r') key = Some m \<and> im_received m ! ?i" by (auto simp: kept_def)
    with False f s stored(8) show ?thesis by simp
  qed
qed (use new room in auto)

section \<open>Properties of the receiver\<close>

lemma receiver_runs:
  assumes "0 < packet_size cfg" "list_all (reasm_adm (packet_size cfg) log) es"
  shows "\<exists>r as. run_steps receiver_step (receiver_new cfg) es = Inr (r, as)"
proof -
  obtain x where "run_steps receiver_step (receiver_new cfg) es = Inr x"
    using reasm.run_total [OF reasm_ok_new [OF assms(1)] assms(2)] by blast
  then show ?thesis by (cases x) blast
qed

text \<open>An example: the four chunks of a message of 14 bytes, out of order and with a duplicate.\<close>

definition example_data :: bytes where
  "example_data = [1, 2, 3, 4, 5, 6, 7, 8, 9, 10, 11, 12, 13, 14]"

definition example_packet :: "nat \<Rightarrow> packet" where
  "example_packet i = packet_new Data 0 1 14 (as_u32 (4 * i)) (as_u32 (chunk_len 4 14 i))"

definition example_payload :: "nat \<Rightarrow> bytes" where
  "example_payload i = take 4 (drop (4 * i) example_data)"

definition example_chunk :: "nat \<Rightarrow> receiver_event" where
  "example_chunk i = RData rev (localhost 7) (example_packet i) (example_payload i) i"

definition example_log :: "msg_key \<Rightarrow> bytes option" where
  "example_log k = (if k = (localhost 7, 1) then Some example_data else None)"

definition example_rest :: "receiver_event list" where
  "example_rest = [example_chunk 0, example_chunk 2, RTick rev rev 25000000, example_chunk 3, example_chunk 1]"

definition example_run :: "receiver_event list" where
  "example_run = example_chunk 2 # example_rest"

lemma example_carries: "\<forall>i \<in> {0, 1, 2, 3}. carries 4 example_data (example_packet i) (example_payload i)"
  by code_simp

lemma example_id: "pkt_msg_id (example_packet i) = 1"
  by (simp add: example_packet_def)

lemma example_adm: "list_all (reasm_adm 4 example_log) example_run"
  using example_carries by (simp add: example_run_def example_rest_def example_chunk_def example_log_def example_id)

text \<open>
  C18: Whatever packets arrive, from whomever and in whatever order, as long as the receiver does
  not panic its state stays within its bounds: at most \<open>max_incoming\<close> messages, at most
  \<open>COMPLETED_CACHE\<close> remembered keys, every buffer of the size its first packet stated, no grant
  beyond the message or beyond one window past what arrived; and it sends control packets only.
\<close>

theorem receiver_bounds:
  assumes "0 < packet_size cfg" "list_all orders_ok es"
    "run_steps receiver_step (receiver_new cfg) es = Inr (r, as)"
  shows "in_flight r \<le> max_incoming cfg \<and> length (r_completed r) \<le> COMPLETED_CACHE
    \<and> (\<forall>k m. map_of (r_incoming r) k = Some m \<longrightarrow>
          k \<notin> set (r_completed r) \<and> length (im_buf m) = im_total_len m \<and> im_granted_to m \<le> im_total_len m
          \<and> im_granted_to m \<le> max (unscheduled_bytes cfg) (im_received_bytes m + grant_increment cfg))
    \<and> (\<forall>d b. Send d b \<in> set as \<longrightarrow> (\<exists>p. b = encode p [] \<and> pkt_typ p \<noteq> Data))"
proof -
  note inv = rcv.run_inv_good [OF recv_inv_new [OF assms(1)] assms(2,3)]
  have cfg: "r_cfg r = cfg"
    using receiver_run_cfg [OF recv_inv_new [OF assms(1)] assms(2,3)] by (simp add: receiver_new_def)
  have "\<exists>p. b = encode p [] \<and> pkt_typ p \<noteq> Data" if "Send d b \<in> set as" for d b
    using inv that by (auto simp: list_all_iff control_def dest!: bspec)
  moreover have "in_msg_ok cfg m \<and> k \<notin> set (r_completed r)" if "map_of (r_incoming r) k = Some m" for k m
    using recv_inv_entry [of r k m] inv that cfg by simp
  ultimately show ?thesis using inv cfg by (auto simp: recv_inv_def in_flight_def in_msg_ok_def)
qed

theorem receiver_bounds_witness:
  "\<exists>r as. run_steps receiver_step (receiver_new small_config) example_run = Inr (r, as)
    \<and> in_flight r \<le> max_incoming small_config \<and> length (r_completed r) \<le> COMPLETED_CACHE"
proof -
  obtain r as where r: "run_steps receiver_step (receiver_new small_config) example_run = Inr (r, as)"
    using receiver_runs [of small_config example_log example_run] example_adm by auto
  have "list_all orders_ok example_run" by (simp add: example_run_def example_rest_def example_chunk_def)
  from receiver_bounds [OF _ this r] r show ?thesis by simp
qed

text \<open>
  C13: Exact reassembly: if every DATA packet carries a whole chunk of the message its key
  belongs to, then for any number of messages, any order, loss and duplication of packets and any
  timer ticks the receiver never panics, and everything it delivers is the message of its key.
\<close>

theorem reassembly_exact:
  assumes "0 < packet_size cfg" "list_all (reasm_adm (packet_size cfg) log) es"
  shows "\<exists>r as. run_steps receiver_step (receiver_new cfg) es = Inr (r, as)
    \<and> (\<forall>key D. (key, D) \<in> set (delivers as) \<longrightarrow> log key = Some D)"
proof -
  obtain r as where r: "run_steps receiver_step (receiver_new cfg) es = Inr (r, as)"
    using receiver_runs [OF assms] by blast
  have "list_all (exact log) as"
    using reasm.run_inv_good [OF reasm_ok_new [OF assms(1)] assms(2) r] by simp
  then have "\<forall>key D. (key, D) \<in> set (delivers as) \<longrightarrow> log key = Some D"
    by (auto simp: list_all_iff exact_def in_delivers_iff dest!: bspec)
  with r show ?thesis by blast
qed

theorem reassembly_exact_witness:
  "\<exists>r as. run_steps receiver_step (receiver_new small_config) example_run = Inr (r, as)
    \<and> (\<forall>key D. (key, D) \<in> set (delivers as) \<longrightarrow> example_log key = Some D)"
  by (rule reassembly_exact) (simp_all add: example_adm)

text \<open>
  C14: Delivery: let the first packet of a nonempty message find the receiver with room for another entry
  and its key fresh, neither under way nor among the recently completed ones (a full receiver answers BUSY and drops the packet).
  When from then on all chunks of the message arrive, in any order and with duplicates, interleaved with packets of other
  messages, all of them whole chunks of the message of their key, and with at most 40 timer ticks, no step
  fails and the message is delivered.
\<close>

theorem all_chunks_deliver:
  assumes "reasm_ok ps log r" "log (src, pkt_msg_id pkt) = Some D" "D \<noteq> []"
    "(src, pkt_msg_id pkt) \<notin> set (r_completed r)" "map_of (r_incoming r) (src, pkt_msg_id pkt) = None"
    "length (r_incoming r) < max_incoming (r_cfg r)"
    "list_all (reasm_adm ps log) (RData ord src pkt payload now # es)"
    "length (filter is_tick es) \<le> MAX_UNANSWERED_RESENDS"
    "chunks_in ps (src, pkt_msg_id pkt) (RData ord src pkt payload now # es) = {..<chunk_count ps (length D) 0}"
  shows "\<exists>r' as. run_steps receiver_step r (RData ord src pkt payload now # es) = Inr (r', as)
    \<and> ((src, pkt_msg_id pkt), D) \<in> set (delivers as)"
proof -
  obtain r' as where "run_steps receiver_step r (RData ord src pkt payload now # es) = Inr (r', as)"
    using reasm.run_total [OF assms(1,7)] by force
  with run_from_first [OF assms this] show ?thesis by blast
qed

theorem all_chunks_deliver_witness:
  "\<exists>r' as. run_steps receiver_step (receiver_new small_config) example_run = Inr (r', as)
    \<and> ((localhost 7, 1), example_data) \<in> set (delivers as)"
proof -
  let ?r = "receiver_new small_config"
  have r: "r_completed ?r = []" "r_incoming ?r = []" "r_cfg ?r = small_config"
    by (simp_all add: receiver_new_def)
  have c: "chunks_in 4 (localhost 7, 1) example_run = {..<chunk_count 4 (length example_data) 0}"
    by code_simp
  have ok: "reasm_ok 4 example_log ?r" using reasm_ok_new [of small_config] by simp
  have t: "length (filter is_tick example_rest) \<le> MAX_UNANSWERED_RESENDS" by code_simp
  have ne: "example_data \<noteq> []" by (simp add: example_data_def)
  have run: "RData rev (localhost 7) (example_packet 2) (example_payload 2) 2 # example_rest = example_run"
    by (simp add: example_run_def example_chunk_def)
  show ?thesis
    using all_chunks_deliver [OF ok, of "localhost 7" "example_packet 2" example_data rev "example_payload 2" 2 example_rest]
    by (simp add: run r c t ne example_id example_log_def example_adm)
qed

text \<open>
  C15: At most once within the cache: over any run, from any packets, two deliveries of the same
  key are more than \<open>COMPLETED_CACHE\<close> deliveries apart.
\<close>

theorem no_duplicate_within_cache:
  assumes "0 < packet_size cfg" "list_all orders_ok es"
    "run_steps receiver_step (receiver_new cfg) es = Inr (r, as)"
  shows "\<forall>i j. i < j \<and> j < length (delivers as) \<and> fst (delivers as ! i) = fst (delivers as ! j)
    \<longrightarrow> i + COMPLETED_CACHE < j"
proof (intro allI impI, rule ccontr)
  fix i j
  assume ij: "i < j \<and> j < length (delivers as) \<and> fst (delivers as ! i) = fst (delivers as ! j)"
    and "\<not> i + COMPLETED_CACHE < j"
  moreover have "apart COMPLETED_CACHE (map fst (delivers as))"
    using run_tracks [OF recv_inv_new [OF assms(1)] tracks_new assms(2,3)] by (simp add: tracks_def)
  ultimately show False by (auto simp: apart_def not_less)
qed

theorem no_duplicate_within_cache_witness:
  "\<exists>r as. run_steps receiver_step (receiver_new small_config) (example_run @ example_run) = Inr (r, as)
    \<and> ((localhost 7, 1), example_data) \<in> set (delivers as)
    \<and> (\<forall>i j. i < j \<and> j < length (delivers as) \<and> fst (delivers as ! i) = fst (delivers as ! j)
          \<longrightarrow> i + COMPLETED_CACHE < j)"
proof -
  obtain r as where r: "run_steps receiver_step (receiver_new small_config) (example_run @ example_run) = Inr (r, as)"
    using receiver_runs [of small_config example_log "example_run @ example_run"] example_adm by auto
  have "((localhost 7, 1), example_data) \<in> set (delivers (snd (projr
      (run_steps receiver_step (receiver_new small_config) (example_run @ example_run)))))"
    by code_simp
  moreover have "list_all orders_ok (example_run @ example_run)"
    by (simp add: example_run_def example_rest_def example_chunk_def)
  from no_duplicate_within_cache [OF _ this r] have "\<forall>i j. i < j \<and> j < length (delivers as)
      \<and> fst (delivers as ! i) = fst (delivers as ! j) \<longrightarrow> i + COMPLETED_CACHE < j" by simp
  ultimately show ?thesis using r by simp
qed

text \<open>
  What becomes of a chunk: a packet of a message already delivered is ignored; one of a new
  message, when the receiver is full, is answered with BUSY and leaves no trace; any other either
  completes its message, which is delivered and forgotten but for its key, or is recorded.
\<close>

lemma chunk_packet_outcome:
  assumes "reasm_ok ps log r" "iter_order ord" "log (src, pkt_msg_id pkt) = Some D" "carries ps D pkt payload"
  defines "key \<equiv> (src, pkt_msg_id pkt)"
  shows "if key \<in> set (r_completed r) then handle_data ord r src pkt payload now = Inr (r, [])
    else if map_of (r_incoming r) key = None \<and> max_incoming (r_cfg r) \<le> in_flight r
    then handle_data ord r src pkt payload now = Inr (r, [Send src (encode (packet_new Busy 0 (pkt_msg_id pkt) 0 0 0) [])])
    else \<exists>r' as. handle_data ord r src pkt payload now = Inr (r', as) \<and>
      (if (key, D) \<in> set (delivers as) then key \<in> set (r_completed r') \<and> map_of (r_incoming r') key = None
       else delivers as = [] \<and> (\<exists>m. map_of (r_incoming r') key = Some m \<and> im_received m ! (unat (pkt_offset pkt) div ps)))"
proof -
  obtain r' as where h: "handle_data ord r src pkt payload now = Inr (r', as)"
    using handle_data_exact [OF assms(1-4), of now] by (auto simp: exact_result_def)
  note acc = accepted_chunk [OF assms(1-4) _ _ h, folded key_def]
  show ?thesis
  proof (cases "key \<in> set (r_completed r)
      \<or> map_of (r_incoming r) key = None \<and> max_incoming (r_cfg r) \<le> in_flight r")
    case True
    then show ?thesis by (auto simp: handle_data_def Let_def key_def in_flight_def)
  next
    case False
    then have "if (key, D) \<in> set (delivers as) then key \<in> set (r_completed r') \<and> map_of (r_incoming r') key = None
       else delivers as = [] \<and> (\<exists>m. map_of (r_incoming r') key = Some m \<and> im_received m ! (unat (pkt_offset pkt) div ps))"
      by (intro acc) (auto simp: in_flight_def)
    with False h show ?thesis by auto
  qed
qed

lemma chunk_packet_outcome_witness:
  "\<exists>r' as. handle_data rev (receiver_new small_config) (localhost 7) (example_packet 2) (example_payload 2) 0 = Inr (r', as)
    \<and> (if ((localhost 7, 1), example_data) \<in> set (delivers as)
       then (localhost 7, 1) \<in> set (r_completed r') \<and> map_of (r_incoming r') (localhost 7, 1) = None
       else delivers as = [] \<and> (\<exists>m. map_of (r_incoming r') (localhost 7, 1) = Some m \<and> im_received m ! 2))"
proof -
  let ?r = "receiver_new small_config"
  have ok: "reasm_ok 4 example_log ?r" using reasm_ok_new [of small_config] by simp
  have l: "example_log (localhost 7, pkt_msg_id (example_packet 2)) = Some example_data"
    by (simp add: example_log_def example_id)
  have c: "carries 4 example_data (example_packet 2) (example_payload 2)" using example_carries by simp
  have i: "unat (pkt_offset (example_packet 2)) div 4 = 2" by code_simp
  have opn: "(localhost 7, 1) \<notin> set (r_completed ?r)"
    "\<not> (map_of (r_incoming ?r) (localhost 7, 1) = None \<and> max_incoming (r_cfg ?r) \<le> in_flight ?r)"
    by (simp_all add: receiver_new_def in_flight_def)
  from chunk_packet_outcome [OF ok iter_order_rev l c, of 0] show ?thesis
    unfolding example_id i if_not_P [OF opn(1)] if_not_P [OF opn(2)] .
qed

text \<open>
  C33: The receiver trusts the length that each packet states: once a message is known with one
  length, a packet of the same message that states a larger one, with a payload that ends beyond
  the buffer, makes the receiver panic.
\<close>

theorem inconsistent_length_panics:
  assumes "recv_inv r" "map_of (r_incoming r) (src, pkt_msg_id pkt) = Some m"
    "unat (pkt_offset pkt) div packet_size (r_cfg r) < length (im_received m)"
    "\<not> im_received m ! (unat (pkt_offset pkt) div packet_size (r_cfg r))"
    "unat (pkt_offset pkt) + length payload \<le> unat (pkt_msg_len pkt)"
    "im_total_len m < unat (pkt_offset pkt) + length payload"
  shows "handle_data ord r src pkt payload now = Inl Slice_range"
proof -
  let ?off = "unat (pkt_offset pkt)" and ?ps = "packet_size (r_cfg r)"
  have ps: "0 < ?ps" by (rule recv_inv_ps [OF assms(1)])
  have buf: "length (im_buf m) = im_total_len m" and new: "(src, pkt_msg_id pkt) \<notin> set (r_completed r)"
    using recv_inv_entry [OF assms(1,2)] by (simp_all add: in_msg_ok_def)
  have "copy_at (im_buf m) ?off payload = Inl Slice_range" using assms(6) buf by (simp add: copy_at_def)
  then have "store_chunk (unat (pkt_msg_len pkt)) m (?off div ?ps) ?off payload now = Inl Slice_range"
    using assms(3-5) by (simp add: store_chunk_def)
  moreover have "unat (pkt_msg_len pkt) \<noteq> 0" using assms(5,6) by simp
  ultimately show ?thesis using new ps assms(2)
    by (simp add: handle_data_def Let_def entry_of_def usize_div_def)
qed

theorem inconsistent_length_panics_witness:
  "handle_data rev (fst (projr (handle_data rev (receiver_new small_config) (localhost 7) (packet_new Data 0 9 5 0 1) [1] 0)))
     (localhost 7) (packet_new Data 0 9 100 4 4) [1, 2, 3, 4] 1 = Inl Slice_range"
proof -
  let ?h = "handle_data rev (receiver_new small_config) (localhost 7) (packet_new Data 0 9 5 0 1) [1] 0"
  let ?r = "fst (projr ?h)"
  have "?h = Inr (projr ?h)" by code_simp
  then have h: "?h = Inr (?r, snd (projr ?h))" by simp
  have new: "recv_inv (receiver_new small_config)" by (rule recv_inv_new) simp
  have inv: "recv_inv ?r"
    using handle_data_sound [OF new iter_order_rev h] by (simp add: sound_step_def)
  let ?m = "the (map_of (r_incoming ?r) (localhost 7, 9))"
  have m: "map_of (r_incoming ?r) (localhost 7, 9) = Some ?m" by code_simp
  show ?thesis
    by (rule inconsistent_length_panics [OF inv, where m = ?m]) (unfold packet_new_simps, code_simp+)
qed

end
