(* ===== verification/Transport.thy ===== *)
theory Transport
  imports Sender Delivery
begin

text \<open>
  The transport of \<^verbatim>\<open>src/transport/mod.rs\<close>: the state shared by the IO thread and the
  calling threads, \<open>drain\<close>, one iteration of \<open>io_loop\<close>, and the calls \<open>send_to\<close> and
  \<open>recv\<close> as the critical sections they consist of. Every critical section (from taking the
  mutex to releasing it) is one step; a run is any interleaving of them. The socket is a
  parameter: what \<open>recv_from\<close> returns is part of the event, what \<open>send_to\<close> is given is an
  output. \<open>Wake\<close> is a \<open>notify_all\<close> on the condition variable.
\<close>

section \<open>Shared state and outputs\<close>

record state =
  st_sender :: sender_core
  st_receiver :: receiver_core
  st_completed :: "(sockaddr \<times> bytes) list"
  st_tx :: tx_queues

definition state_new :: "transport_config \<Rightarrow> state" where
  "state_new cfg = \<lparr>st_sender = sender_new cfg, st_receiver = receiver_new cfg, st_completed = [], st_tx = txq_new\<rparr>"

datatype effect =
    Put sockaddr bytes
  | Wake
  | SendReturned u64 "io_error + u64"
  | RecvReturned "io_error + (sockaddr \<times> bytes)"

section \<open>Turning actions into datagrams\<close>

text \<open>The \<open>for\<close> loop of \<open>drain\<close>: \<open>outs\<close> (its \<open>sends\<close>) and
  \<open>delivered\<close> are its local variables.\<close>

fun drain_loop :: "state \<Rightarrow> action list \<Rightarrow> datagram list \<Rightarrow> bool \<Rightarrow> state \<times> datagram list \<times> bool" where
  "drain_loop st [] outs delivered = (st, outs, delivered)"
| "drain_loop st (Deliver src i data # as) outs delivered =
     drain_loop (st\<lparr>st_completed := st_completed st @ [(src, data)]\<rparr>) as outs True"
| "drain_loop st (Send dest b # as) outs delivered =
     (case classify (st_tx st) dest b of
        (tx, None) \<Rightarrow> drain_loop (st\<lparr>st_tx := tx\<rparr>) as outs delivered
      | (tx, Some d) \<Rightarrow> drain_loop (st\<lparr>st_tx := tx\<rparr>) as (outs @ [d]) delivered)"

definition drain :: "state \<Rightarrow> action list \<Rightarrow> state \<times> effect list" where
  "drain st actions =
     (let (st1, outs, delivered) = drain_loop st actions [] False;
          (tx, batch) = pop_batch (st_tx st1) FLUSH_BUDGET
      in (st1\<lparr>st_tx := tx\<rparr>,
          (if delivered then [Wake] else []) @ map (\<lambda>(dest, b). Put dest b) (outs @ batch)))"

section \<open>The IO thread\<close>

text \<open>What the loop does with a datagram: nothing when it does not decode.\<close>

definition io_packet :: "(msg_key list \<Rightarrow> msg_key list) \<Rightarrow> state \<Rightarrow> sockaddr \<Rightarrow> packet \<Rightarrow> bytes \<Rightarrow> instant \<Rightarrow> fault + (state \<times> effect list)" where
  "io_packet ord st src pkt payload now =
     (case pkt_typ pkt of
        Data \<Rightarrow> bind_res (handle_data ord (st_receiver st) src pkt payload now) (\<lambda>(r, as).
                  Inr (drain (st\<lparr>st_receiver := r\<rparr>) as))
      | Grant \<Rightarrow> bind_res (handle_grant (st_sender st) src pkt now) (\<lambda>(s, as).
                  let (st', out) = drain (st\<lparr>st_sender := s\<rparr>) as
                  in Inr (st', (if is_done s src (pkt_msg_id pkt) then [Wake] else []) @ out))
      | Resend \<Rightarrow> bind_res (handle_resend (st_sender st) src pkt now) (\<lambda>(s, as).
                  Inr (drain (st\<lparr>st_sender := s\<rparr>) as))
      | Busy \<Rightarrow> Inr (drain (st\<lparr>st_sender := handle_busy (st_sender st) src pkt now\<rparr>) []))"

text \<open>The iteration orders of the three maps that a tick walks through.\<close>

type_synonym orders = "(msg_key list \<Rightarrow> msg_key list) \<times> (msg_key list \<Rightarrow> msg_key list) \<times> (msg_key list \<Rightarrow> msg_key list)"

definition io_tick :: "orders \<Rightarrow> state \<Rightarrow> instant \<Rightarrow> fault + (state \<times> effect list)" where
  "io_tick ords st now =
     (case ords of (o1, o2, o3) \<Rightarrow>
        bind_res (sender_tick o1 (st_sender st) now) (\<lambda>(s, as1).
        bind_res (receiver_tick o2 o3 (st_receiver st) now) (\<lambda>(r, as2).
          Inr (drain (st\<lparr>st_sender := s, st_receiver := r\<rparr>) (as1 @ as2)))))"

definition TICK_INTERVAL :: duration where
  "TICK_INTERVAL = from_millis 5"

datatype recv_result = Received bytes sockaddr | RecvTimeout | RecvError

text \<open>The loop's own variable \<open>last_tick\<close> beside the shared state.\<close>

definition tick_if_due :: "orders \<Rightarrow> state \<times> instant \<Rightarrow> instant \<Rightarrow> fault + ((state \<times> instant) \<times> effect list)" where
  "tick_if_due ords sl now =
     (case sl of (st, last_tick) \<Rightarrow>
        if TICK_INTERVAL \<le> now - last_tick
        then bind_res (io_tick ords st now) (\<lambda>(st', out). Inr ((st', now), out))
        else Inr ((st, last_tick), []))"

text \<open>
  One iteration of \<open>io_loop\<close>. A datagram that does not decode ends the iteration at once
  (\<open>continue\<close>); \<open>now1\<close> and \<open>now2\<close> are the two readings of the clock.
\<close>

definition io_iter :: "(msg_key list \<Rightarrow> msg_key list) \<Rightarrow> orders \<Rightarrow> state \<times> instant \<Rightarrow> recv_result \<Rightarrow> instant \<Rightarrow> instant \<Rightarrow> fault + ((state \<times> instant) \<times> effect list)" where
  "io_iter ord ords sl res now1 now2 =
     (case res of
        Received buf src \<Rightarrow>
          (case decode buf of
             Inl e \<Rightarrow> Inr (sl, [])
           | Inr (pkt, payload) \<Rightarrow>
               bind_res (io_packet ord (fst sl) src pkt payload now1) (\<lambda>(st', out1).
               bind_res (tick_if_due ords (st', snd sl) now2) (\<lambda>(sl', out2). Inr (sl', out1 @ out2))))
      | RecvTimeout \<Rightarrow> tick_if_due ords sl now2
      | RecvError \<Rightarrow> tick_if_due ords sl now2)"

section \<open>The calls\<close>

text \<open>
  Where a call of \<open>send_to\<close> stands between its critical sections: the id is taken, the actions of
  \<open>start\<close> are still to be dispatched, the caller waits, the call has returned.
\<close>

datatype send_call =
    Called u64 sockaddr bytes instant
  | Dispatching u64 sockaddr instant "action list"
  | Waiting u64 sockaddr instant
  | Returned u64

definition send_call_step :: "duration \<Rightarrow> state \<Rightarrow> send_call \<Rightarrow> instant \<Rightarrow> fault + ((state \<times> send_call) \<times> effect list)" where
  "send_call_step timeout st c now =
     (case c of
        Called i dest data t0 \<Rightarrow>
          bind_res (start (st_sender st) dest i data t0) (\<lambda>(s, as).
            Inr ((st\<lparr>st_sender := s\<rparr>, Dispatching i dest (t0 + timeout) as), []))
      | Dispatching i dest deadline as \<Rightarrow>
          let (st', out) = drain st as in Inr ((st', Waiting i dest deadline), out)
      | Waiting i dest deadline \<Rightarrow>
          if is_done (st_sender st) dest i then Inr ((st, Returned i), [SendReturned i (Inr i)])
          else if deadline - now = 0
          then Inr ((st\<lparr>st_sender := finish (st_sender st) dest i\<rparr>, Returned i),
                    [SendReturned i (Inl (IoError TimedOut ''homa send_to timeout''))])
          else Inr ((st, c), [])
      | Returned i \<Rightarrow> Inr ((st, c), []))"

definition recv_poll :: "state \<Rightarrow> instant \<Rightarrow> instant \<Rightarrow> state \<times> effect list" where
  "recv_poll st deadline now =
     (case st_completed st of
        x # xs \<Rightarrow> (st\<lparr>st_completed := xs\<rparr>, [RecvReturned (Inr x)])
      | [] \<Rightarrow> if deadline - now = 0 then (st, [RecvReturned (Inl (IoError WouldBlock ''homa recv timeout''))])
              else (st, []))"

section \<open>The transport as a machine\<close>

text \<open>\<open>Inner\<close> with the IO loop's variable and the calls of \<open>send_to\<close> made so far.\<close>

record transport =
  t_state :: state
  t_last_tick :: instant
  t_counter :: u64
  t_timeout :: duration
  t_calls :: "send_call list"

definition transport_new :: "transport_config \<Rightarrow> instant \<Rightarrow> transport" where
  "transport_new cfg now =
     \<lparr>t_state = state_new cfg, t_last_tick = now, t_counter = 1, t_timeout = send_timeout cfg, t_calls = []\<rparr>"

datatype transport_event =
    TIo "msg_key list \<Rightarrow> msg_key list" orders recv_result instant instant
  | TSend sockaddr bytes instant
  | TCall nat instant
  | TRecv instant instant

fun transport_step :: "transport \<Rightarrow> transport_event \<Rightarrow> fault + (transport \<times> effect list)" where
  "transport_step t (TIo ord ords res now1 now2) =
     bind_res (io_iter ord ords (t_state t, t_last_tick t) res now1 now2) (\<lambda>((st, last_tick), out).
       Inr (t\<lparr>t_state := st, t_last_tick := last_tick\<rparr>, out))"
| "transport_step t (TSend dest data now) =
     Inr (t\<lparr>t_counter := t_counter t + 1, t_calls := t_calls t @ [Called (t_counter t) dest data now]\<rparr>, [])"
| "transport_step t (TCall n now) =
     (if n < length (t_calls t)
      then bind_res (send_call_step (t_timeout t) (t_state t) (t_calls t ! n) now) (\<lambda>((st, c), out).
             Inr (t\<lparr>t_state := st, t_calls := (t_calls t)[n := c]\<rparr>, out))
      else Inr (t, []))"
| "transport_step t (TRecv deadline now) =
     (let (st, out) = recv_poll (t_state t) deadline now in Inr (t\<lparr>t_state := st\<rparr>, out))"

section \<open>The closed form of \<open>drain\<close>\<close>

definition is_data :: "bytes \<Rightarrow> bool" where
  "is_data b \<longleftrightarrow> 2 \<le> length b \<and> b ! 0 = type_code Data"

definition enqueue :: "datagram list \<Rightarrow> tx_queues \<Rightarrow> tx_queues" where
  "enqueue xs t = fold (\<lambda>x t. fst ((\<lambda>t (d, b). classify t d b) t x)) xs t"

definition drop_id :: "msg_key \<times> bytes \<Rightarrow> sockaddr \<times> bytes" where
  "drop_id x = (fst (fst x), snd x)"

lemma drop_id_simp [simp]: "drop_id ((s, i), x) = (s, x)"
  by (simp add: drop_id_def)

lemma enqueue_simps [simp]: "enqueue [] t = t" "enqueue ((d, b) # xs) t = enqueue xs (fst (classify t d b))"
  by (simp_all add: enqueue_def)

lemma classify_back: "snd (classify t d b) = (if is_data b then None else Some (d, b))"
  by (simp add: classify_def is_data_def Let_def)

lemma drain_loop_eq:
  "drain_loop st as outs dl =
     (st\<lparr>st_completed := st_completed st @ map drop_id (delivers as), st_tx := enqueue (sends as) (st_tx st)\<rparr>,
      outs @ filter (\<lambda>x. \<not> is_data (snd x)) (sends as), dl \<or> delivers as \<noteq> [])"
proof (induction st as outs dl rule: drain_loop.induct)
  case (3 st dest b as outs dl)
  show ?case
  proof (cases "classify (st_tx st) dest b")
    case (Pair tx ret)
    with 3 classify_back [of "st_tx st" dest b] show ?thesis by (auto split: if_splits)
  qed
qed simp_all

lemma drain_eq:
  "drain st as =
     (st\<lparr>st_completed := st_completed st @ map drop_id (delivers as),
         st_tx := fst (pop_batch (enqueue (sends as) (st_tx st)) FLUSH_BUDGET)\<rparr>,
      (if delivers as = [] then [] else [Wake])
        @ map (\<lambda>(d, b). Put d b) (filter (\<lambda>x. \<not> is_data (snd x)) (sends as)
            @ take FLUSH_BUDGET (contents (enqueue (sends as) (st_tx st)))))"
  using pop_batch_take [of "enqueue (sends as) (st_tx st)" FLUSH_BUDGET]
  by (cases "pop_batch (enqueue (sends as) (st_tx st)) FLUSH_BUDGET") (simp add: drain_def drain_loop_eq)

lemma enqueue_ok: "txq_ok t \<Longrightarrow> txq_ok (enqueue xs t)"
  unfolding enqueue_def using txq.push_all_items by blast

lemma enqueue_set: "txq_ok t \<Longrightarrow> set (contents (enqueue xs t)) \<subseteq> set (contents t) \<union> set xs"
  unfolding enqueue_def by (rule txq.push_all_set)

lemma enqueue_mset:
  "txq_ok t \<Longrightarrow> mset (contents (enqueue xs t)) + mset (filter (\<lambda>x. \<not> is_data (snd x)) xs) = mset (contents t) + mset xs"
proof (induction xs arbitrary: t)
  case (Cons x xs)
  obtain d b where x: "x = (d, b)" by (cases x)
  from Cons.IH [OF classify_ok [OF Cons.prems, of d b]] classify_mset [OF Cons.prems, of d b]
  show ?case by (auto simp: x classify_back)
qed simp

section \<open>The invariant\<close>

text \<open>
  \<open>sent\<close> says which data callers hand to \<open>send_to\<close>, by destination; \<open>log\<close> which message belongs
  to a key of the receiving side. A good datagram is a control packet or a piece of such data.
\<close>

definition good_datagram :: "nat \<Rightarrow> (sockaddr \<Rightarrow> bytes \<Rightarrow> bool) \<Rightarrow> datagram \<Rightarrow> bool" where
  "good_datagram ps sent x \<longleftrightarrow>
     (\<exists>p. snd x = encode p [] \<and> pkt_typ p \<noteq> Data) \<or> piece_of ps (\<lambda>k. sent (fst k)) (Send (fst x) (snd x))"

definition state_ok :: "nat \<Rightarrow> (sockaddr \<Rightarrow> bytes \<Rightarrow> bool) \<Rightarrow> (msg_key \<Rightarrow> bytes option) \<Rightarrow> state \<Rightarrow> bool" where
  "state_ok ps sent log st \<longleftrightarrow> sender_ok ps (\<lambda>k. sent (fst k)) (st_sender st) \<and> reasm_ok ps log (st_receiver st)
     \<and> txq_ok (st_tx st) \<and> (\<forall>x \<in> set (contents (st_tx st)). good_datagram ps sent x)
     \<and> (\<forall>x \<in> set (st_completed st). \<exists>i. log (fst x, i) = Some (snd x))"

fun good_effect :: "nat \<Rightarrow> (sockaddr \<Rightarrow> bytes \<Rightarrow> bool) \<Rightarrow> (msg_key \<Rightarrow> bytes option) \<Rightarrow> effect \<Rightarrow> bool" where
  "good_effect ps sent log (Put d b) = good_datagram ps sent (d, b)"
| "good_effect ps sent log Wake = True"
| "good_effect ps sent log (SendReturned i r) = True"
| "good_effect ps sent log (RecvReturned r) = (case r of Inl e \<Rightarrow> True | Inr x \<Rightarrow> \<exists>i. log (fst x, i) = Some (snd x))"

text \<open>Actions that \<open>drain\<close> may be given.\<close>

definition actions_ok :: "nat \<Rightarrow> (sockaddr \<Rightarrow> bytes \<Rightarrow> bool) \<Rightarrow> (msg_key \<Rightarrow> bytes option) \<Rightarrow> action list \<Rightarrow> bool" where
  "actions_ok ps sent log as \<longleftrightarrow> (\<forall>x \<in> set (sends as). good_datagram ps sent x)
     \<and> (\<forall>(k, x) \<in> set (delivers as). log k = Some x)"

lemma actions_ok_append: "actions_ok ps sent log as \<Longrightarrow> actions_ok ps sent log bs \<Longrightarrow> actions_ok ps sent log (as @ bs)"
  by (auto simp: actions_ok_def)

lemma pieces_ok:
  assumes "list_all (piece_of ps (\<lambda>k. sent (fst k))) as"
  shows "actions_ok ps sent log as" "delivers as = []"
proof -
  have p: "piece_of ps (\<lambda>k. sent (fst k)) a" if "a \<in> set as" for a using assms that by (simp add: list_all_iff)
  have none: "Deliver s i x \<notin> set as" for s i x
  proof
    assume "Deliver s i x \<in> set as"
    then show False using p by (auto simp: piece_of_def)
  qed
  then have "(k, x) \<notin> set (delivers as)" for k x by (cases k) (simp add: in_delivers_iff)
  then show d: "delivers as = []" by (metis last_in_set surj_pair)
  show "actions_ok ps sent log as"
    using p by (auto simp: actions_ok_def d good_datagram_def in_sends_iff)
qed

lemma exact_ok:
  assumes "list_all (exact log) as"
  shows "actions_ok ps sent log as"
proof -
  have "exact log a" if "a \<in> set as" for a using assms that by (simp add: list_all_iff)
  then show ?thesis
    by (force simp: actions_ok_def good_datagram_def in_sends_iff in_delivers_iff exact_def control_def)
qed

lemma drain_ok:
  assumes "state_ok ps sent log st" "actions_ok ps sent log as" "drain st as = (st', out)"
  shows "state_ok ps sent log st' \<and> list_all (good_effect ps sent log) out
    \<and> st_receiver st' = st_receiver st \<and> st_sender st' = st_sender st
    \<and> st_completed st' = st_completed st @ map drop_id (delivers as)"
proof -
  let ?t = "enqueue (sends as) (st_tx st)"
  have ok: "txq_ok ?t" using assms(1) by (simp add: state_ok_def enqueue_ok)
  have good: "good_datagram ps sent x" if "x \<in> set (contents ?t) \<union> set (sends as)" for x
    using that enqueue_set [of "st_tx st" "sends as"] assms(1,2) by (auto simp: state_ok_def actions_ok_def)
  have st': "st' = st\<lparr>st_completed := st_completed st @ map drop_id (delivers as),
      st_tx := fst (pop_batch ?t FLUSH_BUDGET)\<rparr>"
    and out: "out = (if delivers as = [] then [] else [Wake])
        @ map (\<lambda>(d, b). Put d b) (filter (\<lambda>x. \<not> is_data (snd x)) (sends as) @ take FLUSH_BUDGET (contents ?t))"
    using assms(3) by (simp_all add: drain_eq)
  have "good_datagram ps sent x" if "x \<in> set (contents (st_tx st'))" for x
    using that pop_batch_take [of ?t FLUSH_BUDGET] by (auto simp: st' intro!: good dest: in_set_dropD)
  moreover have "list_all (good_effect ps sent log) out"
    by (auto simp: out list_all_iff intro!: good dest: in_set_takeD)
  moreover have "txq_ok (st_tx st')" using pop_batch_ok [OF ok] by (simp add: st')
  moreover have "\<exists>i. log (fst x, i) = Some (snd x)" if "x \<in> set (st_completed st')" for x
  proof -
    have "log k = Some d" if "(k, d) \<in> set (delivers as)" for k d
      using assms(2) that by (auto simp: actions_ok_def)
    then have "\<exists>i. log (fst x, i) = Some (snd x)" if "x \<in> set (map drop_id (delivers as))"
      using that by (force simp: drop_id_def)
    with that assms(1) show ?thesis by (auto simp: st' state_ok_def)
  qed
  ultimately show ?thesis using assms(1) by (simp add: state_ok_def st')
qed

section \<open>What reaches the application\<close>

fun received :: "effect list \<Rightarrow> (sockaddr \<times> bytes) list" where
  "received [] = []"
| "received (RecvReturned (Inr x) # out) = x # received out"
| "received (_ # out) = received out"

lemma received_append [simp]: "received (xs @ ys) = received xs @ received ys"
  by (induction xs rule: received.induct) auto

text \<open>
  The state moves from \<open>st\<close> to \<open>st'\<close> with the effects \<open>out\<close> while the events \<open>fs\<close> reach the receiver:
  what was queued for \<open>recv\<close>, and then what the receiver delivers, is what was returned and then what is queued.
\<close>

definition moves :: "state \<Rightarrow> state \<Rightarrow> effect list \<Rightarrow> receiver_event list \<Rightarrow> bool" where
  "moves st st' out fs \<longleftrightarrow> (\<exists>as. run_steps receiver_step (st_receiver st) fs = Inr (st_receiver st', as)
     \<and> received out @ st_completed st' = st_completed st @ map drop_id (delivers as))"

lemma moves_trans: "moves st st1 o1 f1 \<Longrightarrow> moves st1 st2 o2 f2 \<Longrightarrow> moves st st2 (o1 @ o2) (f1 @ f2)"
  unfolding moves_def by (auto simp: run_steps_append)

lemma moves_quiet:
  "st_receiver st' = st_receiver st \<Longrightarrow> st_completed st' = st_completed st \<Longrightarrow> received out = [] \<Longrightarrow>
     moves st st' out []"
  by (simp add: moves_def)

definition sound_state :: "nat \<Rightarrow> (sockaddr \<Rightarrow> bytes \<Rightarrow> bool) \<Rightarrow> (msg_key \<Rightarrow> bytes option) \<Rightarrow> state \<Rightarrow> state \<Rightarrow> effect list \<Rightarrow> receiver_event list \<Rightarrow> bool" where
  "sound_state ps sent log st st' out fs \<longleftrightarrow> state_ok ps sent log st' \<and> list_all (good_effect ps sent log) out \<and> moves st st' out fs"

lemma sound_state_trans:
  "sound_state ps sent log st st1 o1 f1 \<Longrightarrow> sound_state ps sent log st1 st2 o2 f2 \<Longrightarrow>
     sound_state ps sent log st st2 (o1 @ o2) (f1 @ f2)"
  unfolding sound_state_def by (auto intro: moves_trans)

lemma received_drain: "drain st as = (st', out) \<Longrightarrow> received out = []"
proof -
  have "received (map (\<lambda>(d, b). Put d b) xs) = []" for xs by (induction xs) auto
  then show "drain st as = (st', out) \<Longrightarrow> received out = []" by (auto simp: drain_eq)
qed

lemma sender_drain_sound:
  assumes st: "state_ok ps sent log st" and s: "sender_ok ps (\<lambda>k. sent (fst k)) s"
    and p: "list_all (piece_of ps (\<lambda>k. sent (fst k))) as" and d: "drain (st\<lparr>st_sender := s\<rparr>) as = (st', out)"
  shows "sound_state ps sent log st st' out []"
proof -
  have "state_ok ps sent log (st\<lparr>st_sender := s\<rparr>)" using st s by (simp add: state_ok_def)
  from drain_ok [OF this pieces_ok(1) [OF p] d] pieces_ok(2) [OF p] received_drain [OF d] show ?thesis
    unfolding sound_state_def by (auto intro!: moves_quiet)
qed

lemma receiver_drain_sound:
  assumes st: "state_ok ps sent log st" and e: "reasm_adm ps log e" and h: "receiver_step (st_receiver st) e = Inr (r, as)"
    and s: "sender_ok ps (\<lambda>k. sent (fst k)) s" and p: "list_all (piece_of ps (\<lambda>k. sent (fst k))) as0"
    and d: "drain (st\<lparr>st_sender := s, st_receiver := r\<rparr>) (as0 @ as) = (st', out)"
  shows "sound_state ps sent log st st' out [e]"
proof -
  have r: "reasm_ok ps log r" "list_all (exact log) as"
    using receiver_step_exact [of ps log "st_receiver st" e] st e h by (auto simp: state_ok_def exact_result_def)
  have "state_ok ps sent log (st\<lparr>st_sender := s, st_receiver := r\<rparr>)" using st r s by (simp add: state_ok_def)
  moreover have "actions_ok ps sent log (as0 @ as)"
    using pieces_ok [OF p] exact_ok [OF r(2)] by (simp add: actions_ok_append)
  ultimately have ok: "state_ok ps sent log st' \<and> list_all (good_effect ps sent log) out
    \<and> st_receiver st' = r \<and> st_completed st' = st_completed st @ map drop_id (delivers as)"
    using drain_ok [OF _ _ d] pieces_ok [OF p] by simp
  moreover have "moves st st' out [e]" using ok received_drain [OF d] h by (simp add: moves_def)
  ultimately show ?thesis unfolding sound_state_def by blast
qed

section \<open>Every step is sound\<close>

text \<open>A datagram is admissible unless it is a DATA packet that is not a chunk of its message.\<close>

definition packet_adm :: "nat \<Rightarrow> (msg_key \<Rightarrow> bytes option) \<Rightarrow> sockaddr \<Rightarrow> packet \<Rightarrow> bytes \<Rightarrow> bool" where
  "packet_adm ps log src pkt payload \<longleftrightarrow> (pkt_typ pkt = Data \<longrightarrow>
     (\<exists>D. log (src, pkt_msg_id pkt) = Some D \<and> carries ps D pkt payload))"

definition recv_adm :: "nat \<Rightarrow> (msg_key \<Rightarrow> bytes option) \<Rightarrow> recv_result \<Rightarrow> bool" where
  "recv_adm ps log res = (case res of
     Received buf src \<Rightarrow> (case decode buf of Inl e \<Rightarrow> True | Inr (pkt, payload) \<Rightarrow> packet_adm ps log src pkt payload)
   | RecvTimeout \<Rightarrow> True | RecvError \<Rightarrow> True)"

definition iter_orders :: "orders \<Rightarrow> bool" where
  "iter_orders ords = (case ords of (o1, o2, o3) \<Rightarrow> iter_order o1 \<and> iter_order o2 \<and> iter_order o3)"

lemma sound_resultE:
  assumes "sound_result ps msg res"
  obtains s as where "res = Inr (s, as)" "sender_ok ps msg s" "list_all (piece_of ps msg) as"
  using assms by (auto simp: sound_result_def)

lemma wake_sound: "sound_state ps sent log st st' out fs \<Longrightarrow> sound_state ps sent log st st' (Wake # out) fs"
  by (auto simp: sound_state_def moves_def)

text \<open>What the receiver gets to see of an event, and the time of the last tick after it: these depend on nothing else.\<close>

definition packet_view :: "(msg_key list \<Rightarrow> msg_key list) \<Rightarrow> sockaddr \<Rightarrow> packet \<Rightarrow> bytes \<Rightarrow> instant \<Rightarrow> receiver_event list" where
  "packet_view ord src pkt payload now = (if pkt_typ pkt = Data then [RData ord src pkt payload now] else [])"

definition tick_view :: "orders \<Rightarrow> instant \<Rightarrow> instant \<Rightarrow> receiver_event list \<times> instant" where
  "tick_view ords prev now =
     (if TICK_INTERVAL \<le> now - prev then ([RTick (fst (snd ords)) (snd (snd ords)) now], now) else ([], prev))"

definition iter_view :: "(msg_key list \<Rightarrow> msg_key list) \<Rightarrow> orders \<Rightarrow> instant \<Rightarrow> recv_result \<Rightarrow> instant \<Rightarrow> instant \<Rightarrow> receiver_event list \<times> instant" where
  "iter_view ord ords prev res now1 now2 =
     (case res of
        Received buf src \<Rightarrow>
          (case decode buf of
             Inl e \<Rightarrow> ([], prev)
           | Inr (pkt, payload) \<Rightarrow>
               (packet_view ord src pkt payload now1 @ fst (tick_view ords prev now2), snd (tick_view ords prev now2)))
      | _ \<Rightarrow> tick_view ords prev now2)"

fun receiver_view :: "instant \<Rightarrow> transport_event list \<Rightarrow> receiver_event list" where
  "receiver_view prev [] = []"
| "receiver_view prev (TIo ord ords res now1 now2 # es) =
     fst (iter_view ord ords prev res now1 now2) @ receiver_view (snd (iter_view ord ords prev res now1 now2)) es"
| "receiver_view prev (_ # es) = receiver_view prev es"

lemma io_packet_sound:
  assumes st: "state_ok ps sent log st" and ord: "iter_order ord" and adm: "packet_adm ps log src pkt payload"
  shows "\<exists>st' out. io_packet ord st src pkt payload now = Inr (st', out)
    \<and> sound_state ps sent log st st' out (packet_view ord src pkt payload now)"
proof (cases "pkt_typ pkt")
  case Data
  let ?e = "RData ord src pkt payload now"
  have e: "reasm_adm ps log ?e" using adm ord Data by (simp add: packet_adm_def)
  obtain r as where h: "receiver_step (st_receiver st) ?e = Inr (r, as)"
    using receiver_step_exact [OF _ e] st by (fastforce simp: state_ok_def exact_result_def)
  obtain st' out where d: "drain (st\<lparr>st_receiver := r\<rparr>) as = (st', out)" by force
  have "sound_state ps sent log st st' out [?e]"
    using receiver_drain_sound [OF st e h, of "st_sender st" "[]"] st d by (simp add: state_ok_def)
  with h d Data show ?thesis by (simp add: io_packet_def packet_view_def)
next
  case Grant
  have "sound_result ps (\<lambda>k. sent (fst k)) (handle_grant (st_sender st) src pkt now)"
    using st by (intro handle_grant_sound) (simp add: state_ok_def)
  then obtain s as where h: "handle_grant (st_sender st) src pkt now = Inr (s, as)"
    "sender_ok ps (\<lambda>k. sent (fst k)) s" "list_all (piece_of ps (\<lambda>k. sent (fst k))) as"
    by (rule sound_resultE)
  obtain st' out where d: "drain (st\<lparr>st_sender := s\<rparr>) as = (st', out)" by force
  from sender_drain_sound [OF st h(2,3) d] show ?thesis
    using h(1) d Grant by (auto simp: io_packet_def packet_view_def intro: wake_sound)
next
  case Resend
  have "sound_result ps (\<lambda>k. sent (fst k)) (handle_resend (st_sender st) src pkt now)"
    using st by (intro handle_resend_sound) (simp add: state_ok_def)
  then obtain s as where h: "handle_resend (st_sender st) src pkt now = Inr (s, as)"
    "sender_ok ps (\<lambda>k. sent (fst k)) s" "list_all (piece_of ps (\<lambda>k. sent (fst k))) as"
    by (rule sound_resultE)
  obtain st' out where d: "drain (st\<lparr>st_sender := s\<rparr>) as = (st', out)" by force
  from sender_drain_sound [OF st h(2,3) d] show ?thesis
    using h(1) d Resend by (simp add: io_packet_def packet_view_def)
next
  case Busy
  obtain st' out where d: "drain (st\<lparr>st_sender := handle_busy (st_sender st) src pkt now\<rparr>) [] = (st', out)" by force
  have "sound_state ps sent log st st' out []"
    by (rule sender_drain_sound [OF st _ _ d]) (use st in \<open>simp_all add: state_ok_def handle_busy_sound\<close>)
  with d Busy show ?thesis by (simp add: io_packet_def packet_view_def)
qed

lemma io_tick_sound:
  assumes st: "state_ok ps sent log st" and ords: "iter_orders ords"
  shows "\<exists>st' out. io_tick ords st now = Inr (st', out)
    \<and> sound_state ps sent log st st' out [RTick (fst (snd ords)) (snd (snd ords)) now]"
proof -
  obtain o1 o2 o3 where o: "ords = (o1, o2, o3)" by (cases ords)
  have "sound_result ps (\<lambda>k. sent (fst k)) (sender_tick o1 (st_sender st) now)"
    using st by (intro sender_tick_sound) (simp add: state_ok_def)
  then obtain s as1 where s: "sender_tick o1 (st_sender st) now = Inr (s, as1)"
    "sender_ok ps (\<lambda>k. sent (fst k)) s" "list_all (piece_of ps (\<lambda>k. sent (fst k))) as1"
    by (rule sound_resultE)
  let ?e = "RTick o2 o3 now"
  have e: "reasm_adm ps log ?e" using ords o by (simp add: iter_orders_def)
  obtain r as2 where h: "receiver_step (st_receiver st) ?e = Inr (r, as2)"
    using receiver_step_exact [OF _ e] st by (fastforce simp: state_ok_def exact_result_def)
  obtain st' out where d: "drain (st\<lparr>st_sender := s, st_receiver := r\<rparr>) (as1 @ as2) = (st', out)" by force
  from receiver_drain_sound [OF st e h s(2,3) d] h d s(1) show ?thesis by (simp add: io_tick_def o)
qed

lemma tick_if_due_sound:
  assumes "state_ok ps sent log st" "iter_orders ords"
  shows "\<exists>st' out. tick_if_due ords (st, last_tick) now = Inr ((st', snd (tick_view ords last_tick now)), out)
    \<and> sound_state ps sent log st st' out (fst (tick_view ords last_tick now))"
proof (cases "TICK_INTERVAL \<le> now - last_tick")
  case True
  with io_tick_sound [OF assms, of now] show ?thesis by (auto simp: tick_if_due_def tick_view_def)
next
  case False
  with assms(1) show ?thesis
    by (auto simp: tick_if_due_def tick_view_def sound_state_def intro!: moves_quiet)
qed

lemma io_iter_sound:
  assumes st: "state_ok ps sent log st" and o: "iter_order ord" "iter_orders ords" and adm: "recv_adm ps log res"
  shows "\<exists>st' out. io_iter ord ords (st, last_tick) res now1 now2 = Inr ((st', snd (iter_view ord ords last_tick res now1 now2)), out)
    \<and> sound_state ps sent log st st' out (fst (iter_view ord ords last_tick res now1 now2))"
proof (cases "\<exists>buf src pkt payload. res = Received buf src \<and> decode buf = Inr (pkt, payload)")
  case True
  then obtain buf src pkt payload where r: "res = Received buf src" "decode buf = Inr (pkt, payload)" by blast
  then have "packet_adm ps log src pkt payload" using adm by (simp add: recv_adm_def)
  then obtain st1 out1 where p: "io_packet ord st src pkt payload now1 = Inr (st1, out1)"
    "sound_state ps sent log st st1 out1 (packet_view ord src pkt payload now1)"
    using io_packet_sound [OF st o(1)] by blast
  have "state_ok ps sent log st1" using p(2) by (simp add: sound_state_def)
  from tick_if_due_sound [OF this o(2)] obtain st2 out2 where
    t: "tick_if_due ords (st1, last_tick) now2 = Inr ((st2, snd (tick_view ords last_tick now2)), out2)"
      "sound_state ps sent log st1 st2 out2 (fst (tick_view ords last_tick now2))" by blast
  with p r sound_state_trans [OF p(2) t(2)] show ?thesis by (simp add: io_iter_def iter_view_def)
next
  case False
  show ?thesis
  proof (cases "\<exists>buf src. res = Received buf src")
    case True
    then obtain buf src e where "res = Received buf src" "decode buf = Inl e"
      using False by (cases "decode (case res of Received b s \<Rightarrow> b)") auto
    then show ?thesis using st
      by (auto simp: io_iter_def iter_view_def sound_state_def intro!: moves_quiet)
  next
    case False
    then have "io_iter ord ords (st, last_tick) res now1 now2 = tick_if_due ords (st, last_tick) now2"
      by (cases res) (auto simp: io_iter_def)
    moreover have "iter_view ord ords last_tick res now1 now2 = tick_view ords last_tick now2"
      using False by (cases res) (auto simp: iter_view_def)
    ultimately show ?thesis using tick_if_due_sound [OF st o(2)] by simp
  qed
qed

fun call_ok :: "nat \<Rightarrow> (sockaddr \<Rightarrow> bytes \<Rightarrow> bool) \<Rightarrow> send_call \<Rightarrow> bool" where
  "call_ok ps sent (Called i dest data t0) = sent dest data"
| "call_ok ps sent (Dispatching i dest deadline as) = list_all (piece_of ps (\<lambda>k. sent (fst k))) as"
| "call_ok ps sent (Waiting i dest deadline) = True"
| "call_ok ps sent (Returned i) = True"

lemma send_call_sound:
  assumes st: "state_ok ps sent log st" and c: "call_ok ps sent c"
  shows "\<exists>st' c' out. send_call_step timeout st c now = Inr ((st', c'), out)
    \<and> sound_state ps sent log st st' out [] \<and> call_ok ps sent c'"
proof (cases c)
  case (Called i dest data t0)
  have sok: "sender_ok ps (\<lambda>k. sent (fst k)) (st_sender st)" using st by (simp add: state_ok_def)
  have "sound_result ps (\<lambda>k. sent (fst k)) (start (st_sender st) dest i data t0)"
    by (rule start_sound [OF sok]) (use c Called in simp)
  then obtain s as where h: "start (st_sender st) dest i data t0 = Inr (s, as)"
    "sender_ok ps (\<lambda>k. sent (fst k)) s" "list_all (piece_of ps (\<lambda>k. sent (fst k))) as"
    by (rule sound_resultE)
  have "sound_state ps sent log st (st\<lparr>st_sender := s\<rparr>) [] []"
    using st h by (auto simp: sound_state_def state_ok_def intro!: moves_quiet)
  with h show ?thesis by (simp add: send_call_step_def Called)
next
  case (Dispatching i dest deadline as)
  obtain st' out where d: "drain st as = (st', out)" by force
  have "drain (st\<lparr>st_sender := st_sender st\<rparr>) as = (st', out)" using d by simp
  from sender_drain_sound [OF st _ _ this] st c Dispatching have "sound_state ps sent log st st' out []"
    by (simp add: state_ok_def)
  with d show ?thesis by (simp add: send_call_step_def Dispatching)
next
  case (Waiting i dest deadline)
  have fin: "state_ok ps sent log (st\<lparr>st_sender := finish (st_sender st) dest i\<rparr>)"
    using st by (simp add: state_ok_def finish_sound)
  have "sound_state ps sent log st st [SendReturned i (Inr i)] []" "sound_state ps sent log st st [] []"
    "sound_state ps sent log st (st\<lparr>st_sender := finish (st_sender st) dest i\<rparr>)
       [SendReturned i (Inl (IoError TimedOut ''homa send_to timeout''))] []"
    using st fin by (auto simp: sound_state_def intro!: moves_quiet)
  then show ?thesis by (simp add: send_call_step_def Waiting)
next
  case (Returned i)
  then show ?thesis using st
    by (auto simp: send_call_step_def sound_state_def intro!: moves_quiet)
qed

lemma recv_poll_sound:
  assumes st: "state_ok ps sent log st" and p: "recv_poll st deadline now = (st', out)"
  shows "sound_state ps sent log st st' out []"
proof (cases "st_completed st")
  case Nil
  with st p show ?thesis
    by (auto simp: recv_poll_def sound_state_def split: if_splits intro!: moves_quiet)
next
  case (Cons x xs)
  with p have r: "st' = st\<lparr>st_completed := xs\<rparr>" "out = [RecvReturned (Inr x)]" by (auto simp: recv_poll_def)
  have "\<exists>i. log (fst x, i) = Some (snd x)" using st Cons by (auto simp: state_ok_def)
  moreover have "moves st st' out []" using Cons by (simp add: r moves_def)
  moreover have "state_ok ps sent log st'" using st Cons by (simp add: r state_ok_def)
  ultimately show ?thesis by (auto simp: sound_state_def r)
qed

section \<open>Runs\<close>

definition transport_ok :: "nat \<Rightarrow> (sockaddr \<Rightarrow> bytes \<Rightarrow> bool) \<Rightarrow> (msg_key \<Rightarrow> bytes option) \<Rightarrow> transport \<Rightarrow> bool" where
  "transport_ok ps sent log t \<longleftrightarrow> state_ok ps sent log (t_state t) \<and> list_all (call_ok ps sent) (t_calls t)"

fun transport_adm :: "nat \<Rightarrow> (sockaddr \<Rightarrow> bytes \<Rightarrow> bool) \<Rightarrow> (msg_key \<Rightarrow> bytes option) \<Rightarrow> transport_event \<Rightarrow> bool" where
  "transport_adm ps sent log (TIo ord ords res now1 now2) = (iter_order ord \<and> iter_orders ords \<and> recv_adm ps log res)"
| "transport_adm ps sent log (TSend dest data now) = sent dest data"
| "transport_adm ps sent log (TCall n now) = True"
| "transport_adm ps sent log (TRecv deadline now) = True"

lemma transport_step_sound:
  assumes t: "transport_ok ps sent log t" and e: "transport_adm ps sent log e"
  shows "\<exists>t' out. transport_step t e = Inr (t', out) \<and> transport_ok ps sent log t'
    \<and> sound_state ps sent log (t_state t) (t_state t') out (receiver_view (t_last_tick t) [e])
    \<and> receiver_view (t_last_tick t) (e # es) = receiver_view (t_last_tick t) [e] @ receiver_view (t_last_tick t') es"
proof -
  have st: "state_ok ps sent log (t_state t)" and calls: "list_all (call_ok ps sent) (t_calls t)"
    using t by (simp_all add: transport_ok_def)
  have idle: "sound_state ps sent log (t_state t) (t_state t) [] []"
    using st by (auto simp: sound_state_def intro!: moves_quiet)
  show ?thesis
  proof (cases e)
    case (TIo ord ords res now1 now2)
    let ?view = "iter_view ord ords (t_last_tick t) res now1 now2"
    obtain st' out where io: "io_iter ord ords (t_state t, t_last_tick t) res now1 now2 = Inr ((st', snd ?view), out)"
      and snd: "sound_state ps sent log (t_state t) st' out (fst ?view)"
      using io_iter_sound [OF st, of ord ords res "t_last_tick t" now1 now2] e TIo by auto
    have "state_ok ps sent log st'" using snd by (simp add: sound_state_def)
    with io snd calls show ?thesis by (simp add: TIo transport_ok_def)
  next
    case (TSend dest data now)
    with st calls e idle show ?thesis by (simp add: transport_ok_def)
  next
    case (TCall n now)
    show ?thesis
    proof (cases "n < length (t_calls t)")
      case True
      then have "call_ok ps sent (t_calls t ! n)" using calls by (simp add: list_all_length)
      from send_call_sound [OF st this] obtain st' c' out where
        c: "send_call_step (t_timeout t) (t_state t) (t_calls t ! n) now = Inr ((st', c'), out)"
          "sound_state ps sent log (t_state t) st' out []" "call_ok ps sent c'" by blast
      have "state_ok ps sent log st'" using c(2) by (simp add: sound_state_def)
      with c calls True show ?thesis
        by (simp add: TCall transport_ok_def list_all_length nth_list_update)
    qed (use TCall t idle in simp)
  next
    case (TRecv deadline now)
    obtain st' out where p: "recv_poll (t_state t) deadline now = (st', out)" by force
    have r: "sound_state ps sent log (t_state t) st' out []" by (rule recv_poll_sound [OF st p])
    then have "state_ok ps sent log st'" by (simp add: sound_state_def)
    with p r calls show ?thesis by (simp add: TRecv transport_ok_def)
  qed
qed

interpretation tr: total_machine transport_step "transport_ok ps sent log" "transport_adm ps sent log"
    "good_effect ps sent log" for ps sent log
proof unfold_locales
  fix t e t' out
  assume "transport_ok ps sent log t" "transport_adm ps sent log e" "transport_step t e = Inr (t', out)"
  with transport_step_sound [of ps sent log t e]
  show "transport_ok ps sent log t'" "list_all (good_effect ps sent log) out" by (auto simp: sound_state_def)
next
  fix t e
  assume "transport_ok ps sent log t" "transport_adm ps sent log e"
  with transport_step_sound [of ps sent log t e] show "\<exists>r. transport_step t e = Inr r" by blast
qed

lemma transport_ok_new: "0 < packet_size cfg \<Longrightarrow> transport_ok (packet_size cfg) sent log (transport_new cfg now)"
  using sender_new_ok [of cfg] reasm_ok_new [of cfg] txq_ok_new
  by (simp add: transport_ok_def transport_new_def state_ok_def state_new_def)

lemma run_moves:
  "transport_ok ps sent log t \<Longrightarrow> list_all (transport_adm ps sent log) es \<Longrightarrow>
     run_steps transport_step t es = Inr (t', out) \<Longrightarrow> moves (t_state t) (t_state t') out (receiver_view (t_last_tick t) es)"
proof (induction es arbitrary: t out)
  case Nil
  then show ?case by (auto intro!: moves_quiet)
next
  case (Cons e es)
  from Cons.prems(3) obtain t1 o1 o2 where s: "transport_step t e = Inr (t1, o1)"
    "run_steps transport_step t1 es = Inr (t', o2)" "out = o1 @ o2"
    by (auto simp: bind_res_Inr_iff)
  have t1: "transport_ok ps sent log t1" "sound_state ps sent log (t_state t) (t_state t1) o1 (receiver_view (t_last_tick t) [e])"
    "receiver_view (t_last_tick t) (e # es) = receiver_view (t_last_tick t) [e] @ receiver_view (t_last_tick t1) es"
    using transport_step_sound [OF Cons.prems(1), of e es] Cons.prems(2) s(1) by auto
  with Cons.IH [OF t1(1) _ s(2)] Cons.prems(2) show ?case
    unfolding t1(3) s(3) by (intro moves_trans) (auto simp: sound_state_def)
qed

lemma receiver_view_adm:
  "list_all (transport_adm ps sent log) es \<Longrightarrow> list_all (reasm_adm ps log) (receiver_view prev es)"
proof (induction prev es rule: receiver_view.induct)
  case (2 prev ord ords res now1 now2 es)
  then have "list_all (reasm_adm ps log) (fst (iter_view ord ords prev res now1 now2))"
    by (auto simp: iter_view_def packet_view_def tick_view_def recv_adm_def packet_adm_def iter_orders_def
        split: recv_result.splits sum.splits)
  with 2 show ?case by simp
qed simp_all

lemma mset_cancel: "A + C = B + (X + C) \<Longrightarrow> A = B + (X :: 'a multiset)"
  by (simp add: add.assoc [symmetric])

section \<open>Properties\<close>

text \<open>An example: a short message is sent while the chunks of another one arrive and are received.\<close>

definition example_io :: "nat \<Rightarrow> transport_event" where
  "example_io i = TIo rev (rev, rev, rev) (Received (encode (example_packet i) (example_payload i)) (localhost 7)) i (6000000 * i)"

definition example_events :: "transport_event list" where
  "example_events = [TSend (localhost 9) [1, 2, 3] 0, TCall 0 0, TCall 0 0, example_io 2, example_io 0, TCall 0 1,
     TIo rev (rev, rev, rev) (Received [9, 9, 9] (localhost 3)) 0 0, example_io 1, example_io 3, TRecv 5 0]"

lemma example_decode: "i \<in> {0, 1, 2, 3} \<Longrightarrow> decode (encode (example_packet i) (example_payload i)) = Inr (example_packet i, example_payload i)"
proof (rule decode_encode_id)
  have "\<forall>i \<in> {0, 1, 2, 3}. wire_ok (example_packet i) (example_payload i)" by code_simp
  then show "i \<in> {0, 1, 2, 3} \<Longrightarrow> wire_ok (example_packet i) (example_payload i)" by blast
qed

lemma example_events_adm: "list_all (transport_adm 4 (\<lambda>d x. x = [1, 2, 3]) example_log) example_events"
proof -
  have "recv_adm 4 example_log (Received (encode (example_packet i) (example_payload i)) (localhost 7))"
    if "i \<in> {0, 1, 2, 3}" for i
    using example_decode [OF that] example_carries that
    by (auto simp: recv_adm_def packet_adm_def example_id example_log_def)
  moreover have "recv_adm 4 example_log (Received [9, 9, 9] (localhost 3))"
    by (simp add: recv_adm_def decode_def HEADER_LEN_def)
  ultimately show ?thesis
    by (simp add: example_events_def example_io_def iter_orders_def)
qed

text \<open>
  C34: What the application receives: for any interleaving of the IO thread, of concurrent calls
  of \<open>send_to\<close> and \<open>recv\<close>, and of arriving datagrams, malformed and control ones of any content
  included, when every DATA packet is a whole chunk of the message that belongs to its key, no step panics; the receiver
  has gone through exactly the DATA packets that arrived, in order, and the ticks that were due; and what \<open>recv\<close> has returned, followed by what is
  queued for it, is the sequence of what this run of the receiver delivers: each exactly the message of its key,
  and no key twice within \<open>COMPLETED_CACHE\<close> deliveries.
\<close>

theorem transport_receives_exactly:
  assumes "0 < packet_size cfg" "list_all (transport_adm (packet_size cfg) sent log) es"
  shows "\<exists>t out as. run_steps transport_step (transport_new cfg now) es = Inr (t, out)
    \<and> run_steps receiver_step (receiver_new cfg) (receiver_view now es) = Inr (st_receiver (t_state t), as)
    \<and> received out @ st_completed (t_state t) = map (\<lambda>((src, i), data). (src, data)) (delivers as)
    \<and> (\<forall>(key, data) \<in> set (delivers as). log key = Some data)
    \<and> (\<forall>i j. i < j \<and> j < length (delivers as) \<and> fst (delivers as ! i) = fst (delivers as ! j) \<longrightarrow> i + COMPLETED_CACHE < j)"
proof -
  note ok = transport_ok_new [OF assms(1), of sent log now]
  obtain t out where r: "run_steps transport_step (transport_new cfg now) es = Inr (t, out)"
    using tr.run_total [OF ok assms(2)] by (metis surj_pair)
  let ?fs = "receiver_view now es"
  have new: "st_receiver (t_state (transport_new cfg now)) = receiver_new cfg" "st_completed (t_state (transport_new cfg now)) = []"
    "t_last_tick (transport_new cfg now) = now" by (simp_all add: transport_new_def state_new_def)
  from run_moves [OF ok assms(2) r] obtain as where as: "run_steps receiver_step (receiver_new cfg) ?fs = Inr (st_receiver (t_state t), as)"
    "received out @ st_completed (t_state t) = map drop_id (delivers as)"
    by (auto simp: moves_def new)
  have adm: "list_all (reasm_adm (packet_size cfg) log) ?fs" by (rule receiver_view_adm [OF assms(2)])
  have "list_all (exact log) as" using reasm.run_inv_good [OF reasm_ok_new [OF assms(1)] adm as(1)] by simp
  then have "\<forall>(key, data) \<in> set (delivers as). log key = Some data"
    using exact_ok [of log as "packet_size cfg" sent] by (simp add: actions_ok_def)
  moreover have "list_all orders_ok ?fs"
    by (rule list.pred_mono_strong [OF adm]) (case_tac z; simp)
  from run_tracks [OF recv_inv_new [OF assms(1)] tracks_new this as(1)] have "apart COMPLETED_CACHE (map fst (delivers as))"
    by (simp add: tracks_def)
  then have "\<forall>i j. i < j \<and> j < length (delivers as) \<and> fst (delivers as ! i) = fst (delivers as ! j) \<longrightarrow> i + COMPLETED_CACHE < j"
    by (auto simp: apart_def not_less[symmetric])
  moreover have "drop_id = (\<lambda>((src, i), data). (src, data))" by (auto simp: drop_id_def)
  ultimately show ?thesis using r as by auto
qed

theorem transport_receives_exactly_witness:
  "\<exists>t out as. run_steps transport_step (transport_new small_config 0) example_events = Inr (t, out)
    \<and> run_steps receiver_step (receiver_new small_config) (receiver_view 0 example_events) = Inr (st_receiver (t_state t), as)
    \<and> received out @ st_completed (t_state t) = map (\<lambda>((src, i), data). (src, data)) (delivers as)
    \<and> (\<forall>(key, data) \<in> set (delivers as). example_log key = Some data)
    \<and> (\<forall>i j. i < j \<and> j < length (delivers as) \<and> fst (delivers as ! i) = fst (delivers as ! j) \<longrightarrow> i + COMPLETED_CACHE < j)"
  by (rule transport_receives_exactly) (use example_events_adm in simp_all)

text \<open>
  What is put on the wire: only control packets, and nonempty pieces of at most a packet size
  of data that some caller handed to \<open>send_to\<close> for that very destination.
\<close>

lemma transport_sends_only_messages:
  assumes "0 < packet_size cfg" "list_all (transport_adm (packet_size cfg) sent log) es"
    "run_steps transport_step (transport_new cfg now) es = Inr (t, out)" "Put dest b \<in> set out"
  shows "(\<exists>p. b = encode p [] \<and> pkt_typ p \<noteq> Data)
    \<or> (\<exists>data i s e. sent dest data \<and> s < e \<and> e \<le> length data \<and> e - s \<le> packet_size cfg \<and> b = frag data i s e)"
proof -
  have "list_all (good_effect (packet_size cfg) sent log) out"
    using tr.run_inv_good [OF transport_ok_new [OF assms(1)] assms(2,3)] by simp
  with assms(4) have "good_datagram (packet_size cfg) sent (dest, b)" by (force simp: list_all_iff)
  then consider p where "b = encode p []" "pkt_typ p \<noteq> Data"
    | i data s e where "sent dest data" "s < e" "e \<le> length data" "e - s \<le> packet_size cfg" "b = frag data i s e"
    by (auto simp: good_datagram_def piece_of_def)
  then show ?thesis by cases blast+
qed

lemma transport_sends_only_messages_witness:
  "\<exists>t out. run_steps transport_step (transport_new small_config 0) example_events = Inr (t, out)
    \<and> Put (localhost 9) (frag [1, 2, 3] 1 0 3) \<in> set out
    \<and> ((\<exists>p. frag [1, 2, 3] 1 0 3 = encode p [] \<and> pkt_typ p \<noteq> Data)
      \<or> (\<exists>data i s e. data = [1, 2, 3] \<and> s < e \<and> e \<le> length data \<and> e - s \<le> packet_size small_config
            \<and> frag [1, 2, 3] 1 0 3 = frag data i s e))"
proof -
  let ?run = "run_steps transport_step (transport_new small_config 0) example_events"
  have adm: "list_all (transport_adm (packet_size small_config) (\<lambda>d x. x = [1, 2, 3]) example_log) example_events"
    using example_events_adm by simp
  have "?run = Inr (projr ?run)" by code_simp
  then obtain t out where r: "?run = Inr (t, out)" by (metis surj_pair)
  have "Put (localhost 9) (frag [1, 2, 3] 1 0 3) \<in> set (snd (projr ?run))" by code_simp
  then have p: "Put (localhost 9) (frag [1, 2, 3] 1 0 3) \<in> set out" using r by simp
  have "0 < packet_size small_config" by simp
  from transport_sends_only_messages [OF this adm r p] r p show ?thesis by blast
qed

text \<open>
  C35: \<open>drain\<close> loses nothing and sends first what must go first: control packets go out at once
  and in order, then at most \<open>FLUSH_BUDGET\<close> queued DATA packets in order of their levels, none
  less urgent than one that stays; what goes out and what stays queued is what was queued and what
  the actions send; deliveries are queued for \<open>recv\<close> in order and wake the waiting callers.
\<close>

theorem drain_effect:
  assumes "txq_ok (st_tx st)" "drain st as = (st', out)"
  shows "\<exists>batch. out = (if delivers as = [] then [] else [Wake])
      @ map (\<lambda>(d, b). Put d b) (filter (\<lambda>x. \<not> is_data (snd x)) (sends as) @ batch)
    \<and> length batch \<le> FLUSH_BUDGET \<and> sorted (map level batch)
    \<and> (\<forall>x \<in> set batch. \<forall>y \<in> set (contents (st_tx st')). level x \<le> level y)
    \<and> mset batch + mset (contents (st_tx st')) = mset (contents (st_tx st)) + mset (filter (\<lambda>x. is_data (snd x)) (sends as))
    \<and> st_completed st' = st_completed st @ map (\<lambda>((src, i), data). (src, data)) (delivers as)
    \<and> st_sender st' = st_sender st \<and> st_receiver st' = st_receiver st"
proof -
  let ?t = "enqueue (sends as) (st_tx st)"
  let ?batch = "take FLUSH_BUDGET (contents ?t)"
  have ok: "txq_ok ?t" by (rule enqueue_ok [OF assms(1)])
  have rest: "contents (fst (pop_batch ?t FLUSH_BUDGET)) = drop FLUSH_BUDGET (contents ?t)"
    using pop_batch_take by blast
  have split: "mset (sends as) = mset (filter (\<lambda>x. is_data (snd x)) (sends as)) + mset (filter (\<lambda>x. \<not> is_data (snd x)) (sends as))"
    by (metis mset_filter multiset_partition)
  have all: "mset (contents ?t) = mset (contents (st_tx st)) + mset (filter (\<lambda>x. is_data (snd x)) (sends as))"
    by (rule mset_cancel [OF enqueue_mset [OF assms(1), of "sends as", unfolded split]])
  have "mset ?batch + mset (drop FLUSH_BUDGET (contents ?t)) = mset (contents ?t)"
    by (metis append_take_drop_id mset_append)
  then have parts: "mset ?batch + mset (drop FLUSH_BUDGET (contents ?t))
      = mset (contents (st_tx st)) + mset (filter (\<lambda>x. is_data (snd x)) (sends as))"
    unfolding all .
  have srt: "sorted (map level ?batch)"
    using sorted_contents [OF ok] by (simp add: take_map [symmetric] sorted_wrt_take)
  have least: "\<forall>x \<in> set ?batch. \<forall>y \<in> set (drop FLUSH_BUDGET (contents ?t)). level x \<le> level y"
    using sorted_take_drop [OF sorted_contents [OF ok]] by blast
  have di: "(\<lambda>((src, i), data). (src, data)) = drop_id" by (auto simp: drop_id_def)
  have st': "st' = st\<lparr>st_completed := st_completed st @ map drop_id (delivers as), st_tx := fst (pop_batch ?t FLUSH_BUDGET)\<rparr>"
    and out: "out = (if delivers as = [] then [] else [Wake])
      @ map (\<lambda>(d, b). Put d b) (filter (\<lambda>x. \<not> is_data (snd x)) (sends as) @ ?batch)"
    using assms(2) by (simp_all add: drain_eq)
  have tx: "contents (st_tx st') = drop FLUSH_BUDGET (contents ?t)" using rest by (simp add: st')
  show ?thesis
  proof (intro exI [of _ ?batch] conjI)
    show "length ?batch \<le> FLUSH_BUDGET" by simp
    show "st_completed st' = st_completed st @ map (\<lambda>((src, i), data). (src, data)) (delivers as)"
      unfolding di by (simp add: st')
  qed (use out srt least parts in \<open>simp_all only: tx\<close>, simp_all add: st')
qed

theorem drain_effect_witness:
  "let st = state_new small_config;
       as = [Send (localhost 9) [0, 6, 1], Send (localhost 9) [1, 0], Deliver (localhost 7) 1 [5], Send (localhost 8) [0, 2, 2]];
       (st', out) = drain st as
   in \<exists>batch. out = [Wake] @ map (\<lambda>(d, b). Put d b) (filter (\<lambda>x. \<not> is_data (snd x)) (sends as) @ batch)
    \<and> length batch \<le> FLUSH_BUDGET \<and> sorted (map level batch)
    \<and> mset batch + mset (contents (st_tx st')) = mset (filter (\<lambda>x. is_data (snd x)) (sends as))
    \<and> st_completed st' = [(localhost 7, [5])]"
proof -
  let ?st = "state_new small_config"
  let ?as = "[Send (localhost 9) [0, 6, 1], Send (localhost 9) [1, 0], Deliver (localhost 7) 1 [5], Send (localhost 8) [0, 2, 2]]"
  obtain st' out where d: "drain ?st ?as = (st', out)" by force
  have st: "txq_ok (st_tx ?st)" "contents (st_tx ?st) = []" "st_completed ?st = []" by (simp_all add: state_new_def)
  have dl: "delivers ?as = [((localhost 7, 1), [5])]" by simp
  from drain_effect [OF st(1) d, unfolded st dl] show ?thesis
    unfolding Let_def d prod.case by auto
qed

text \<open>
  Lost wake-up: when the packet that completes a message is a RESEND, the message is done but
  no caller is woken, so the caller that waits in \<open>send_to\<close> for it stays asleep until something
  else wakes it or its deadline passes.
\<close>

lemma resend_completes_without_wake:
  assumes "sender_inv (st_sender st)" "map_of (s_out (st_sender st)) (src, pkt_msg_id pkt) = Some m"
    "om_done_at m = None" "pkt_typ pkt = Resend"
    "length (om_data m) \<le> unat (pkt_offset pkt) + unat (pkt_length pkt)" "unat (pkt_offset pkt) < length (om_data m)"
  shows "\<exists>st' out. io_packet ord st src pkt payload now = Inr (st', out)
    \<and> \<not> is_done (st_sender st) src (pkt_msg_id pkt) \<and> is_done (st_sender st') src (pkt_msg_id pkt) \<and> Wake \<notin> set out"
proof -
  let ?s = "st_sender st" and ?len = "length (om_data m)"
  have ps: "0 < packet_size (s_cfg ?s)" by (rule sender_inv_ps [OF assms(1)])
  have ok: "om_ok (packet_size (s_cfg ?s)) m" by (rule sender_inv_om [OF assms(1,2)])
  have ns: "om_next_send m < ?len" using ok assms(3) by (auto simp: om_ok_def)
  let ?st = "min (unat (pkt_offset pkt)) ?len" and ?en = "min (min (unat (pkt_offset pkt)) ?len + unat (pkt_length pkt)) ?len"
  have en: "?en = ?len" using assms(5,6) by simp
  note h = handle_resend_eq [OF ps assms(2) refl refl, of now, unfolded en]
  let ?fr = "resend_frags (packet_size (s_cfg ?s)) src (pkt_msg_id pkt) (om_data m) ?st ?len"
  let ?s' = "?s\<lparr>s_out := AList.update (src, pkt_msg_id pkt) (om_resent ?len now m) (s_out ?s)\<rparr>"
  obtain st' out where d: "drain (st\<lparr>st_sender := ?s'\<rparr>) ?fr = (st', out)" by force
  have "list_all (piece_of (packet_size (s_cfg ?s)) (\<lambda>k x. True)) ?fr"
    by (rule resend_frags_pieces [OF ps]) simp_all
  then have "delivers ?fr = []" using pieces_ok(2) [of _ "\<lambda>d x. True"] by blast
  with d have "Wake \<notin> set out" "st_sender st' = ?s'" by (auto simp: drain_eq)
  moreover have "is_done ?s' src (pkt_msg_id pkt)" using ns assms(3) by (simp add: is_done_def update_conv' om_resent_def)
  moreover have "\<not> is_done ?s src (pkt_msg_id pkt)" using assms(2,3) by (simp add: is_done_def)
  ultimately show ?thesis using h d assms(4) by (simp add: io_packet_def)
qed

lemma resend_completes_without_wake_witness:
  "let st = (state_new small_config)\<lparr>st_sender := \<lparr>s_cfg = small_config,
         s_out = [((localhost 9, 1), om_started small_config example_data 0)]\<rparr>\<rparr>;
       pkt = packet_new Resend 0 1 0 8 6
   in \<exists>st' out. io_packet rev st (localhost 9) pkt [] 9 = Inr (st', out)
    \<and> \<not> is_done (st_sender st) (localhost 9) 1 \<and> is_done (st_sender st') (localhost 9) 1 \<and> Wake \<notin> set out"
proof -
  let ?m = "om_started small_config example_data 0"
  let ?s = "\<lparr>s_cfg = small_config, s_out = [((localhost 9, 1), ?m)]\<rparr>"
  let ?st = "(state_new small_config)\<lparr>st_sender := ?s\<rparr>" and ?p = "packet_new Resend 0 1 0 8 6"
  have "om_ok 4 ?m" using om_started_ok [of small_config] by simp
  then have inv: "sender_inv (st_sender ?st)" by (simp add: sender_inv_def all_entries_def)
  have m: "map_of (s_out (st_sender ?st)) (localhost 9, pkt_msg_id ?p) = Some ?m" by simp
  have c: "om_done_at ?m = None" "length (om_data ?m) \<le> unat (pkt_offset ?p) + unat (pkt_length ?p)"
    "unat (pkt_offset ?p) < length (om_data ?m)"
    by code_simp+
  from resend_completes_without_wake [OF inv m c(1) _ c(2,3), of rev "[]" 9] show ?thesis
    unfolding Let_def by simp
qed

text \<open>
  A datagram that does not decode ends the iteration of the IO loop before the timer is
  looked at: while such datagrams keep coming no tick happens, however long ago the last one was.
\<close>

lemma malformed_datagrams_suppress_ticks:
  assumes "\<forall>(buf, src) \<in> set ds. \<exists>e. decode buf = Inl e"
  shows "run_steps transport_step t (map (\<lambda>(buf, src). TIo ord ords (Received buf src) now1 now2) ds) = Inr (t, [])"
  using assms
proof (induction ds)
  case (Cons d ds)
  obtain buf src where d: "d = (buf, src)" by (cases d)
  with Cons.prems obtain e where "decode buf = Inl e" by auto
  with Cons d show ?case by (simp add: io_iter_def)
qed simp

text \<open>
  \<open>send_to\<close> of a message within the unscheduled window returns its id without waiting for the
  network: after the three critical sections of the call, whatever other message states are held.
\<close>

lemma short_send_returns:
  assumes "0 < packet_size (s_cfg (st_sender (t_state t)))" "length data \<le> unscheduled_bytes (s_cfg (st_sender (t_state t)))"
    "n = length (t_calls t)" "i = t_counter t"
  shows "\<exists>t' out. run_steps transport_step t [TSend dest data now, TCall n now1, TCall n now2, TCall n now3] = Inr (t', out)
    \<and> SendReturned i (Inr i) \<in> set out \<and> t_calls t' = t_calls t @ [Returned i]"
proof -
  let ?st = "t_state t" and ?s = "st_sender (t_state t)"
  let ?u = "min (unscheduled_bytes (s_cfg ?s)) (length data)"
  note s = start_eq [OF assms(1), of dest i data now]
  let ?s' = "?s\<lparr>s_out := AList.update (dest, i) (om_started (s_cfg ?s) data now) (s_out ?s)\<rparr>"
  let ?fr = "pump_frags (packet_size (s_cfg ?s)) dest i data ?u 0"
  have "length data \<le> pump_end (packet_size (s_cfg ?s)) (length data) ?u 0"
    using pump_end_bounds(2) [OF assms(1), of ?u "length data" 0] assms(2) by simp
  then have d: "is_done ?s' dest i" by (simp add: is_done_def update_conv' om_started_def Let_def)
  obtain st2 out2 where dr: "drain (?st\<lparr>st_sender := ?s'\<rparr>) ?fr = (st2, out2)" by force
  have "st_sender st2 = ?s'" using dr by (auto simp: drain_eq)
  with s d dr assms(3,4) show ?thesis by (auto simp: send_call_step_def list_update_append nth_append)
qed

lemma short_send_returns_witness:
  "\<exists>t' out. run_steps transport_step (transport_new default_config 0)
       [TSend (localhost 9) [1, 2, 3] 0, TCall 0 0, TCall 0 1, TCall 0 2] = Inr (t', out)
    \<and> SendReturned 1 (Inr 1) \<in> set out \<and> t_calls t' = t_calls (transport_new default_config 0) @ [Returned 1]"
  by (rule short_send_returns) (simp_all add: transport_new_def state_new_def sender_new_def default_config_def)

end
