(* ===== verification/Rpc.thy ===== *)
theory Rpc
  imports Types
begin

text \<open>
  The RPC layer of \<^verbatim>\<open>src/rpc/mod.rs\<close>: frames, the server loop with its deduplication map
  and worker threads, and the client with its dispatcher and the retry loop of
  \<open>call_with_timeout\<close>. Calls of the transport are effects, what it returns and what the user's
  handler computes are part of the events. A step is what a thread does between two points where
  another thread may run; the locks of the maps make each such step atomic.
\<close>

section \<open>Frames\<close>

definition RPC_HDR :: nat where
  "RPC_HDR = 8"

definition encode_frame :: "u64 \<Rightarrow> bytes \<Rightarrow> bytes" where
  "encode_frame rpc_id body = u64_to_le_bytes rpc_id @ body"

definition decode_frame :: "bytes \<Rightarrow> (u64 \<times> bytes) option" where
  "decode_frame frame =
     (if length frame < RPC_HDR then None
      else Some (u64_from_le_bytes (take 8 frame), drop RPC_HDR frame))"

lemma decode_encode_frame [simp]: "decode_frame (encode_frame i body) = Some (i, body)"
  by (simp add: decode_frame_def encode_frame_def RPC_HDR_def)

lemma decode_frame_Some: "decode_frame f = Some (i, body) \<longleftrightarrow> f = encode_frame i body"
proof
  assume "decode_frame f = Some (i, body)"
  then have h: "8 \<le> length f" "i = u64_from_le_bytes (take 8 f)" "body = drop 8 f"
    by (auto simp: decode_frame_def RPC_HDR_def split: if_splits)
  then have "u64_to_le_bytes i = take 8 f" by (simp add: u64_to_from_le)
  with h(3) show "f = encode_frame i body" by (simp add: encode_frame_def)
qed simp

section \<open>The server\<close>

text \<open>
  A thread started by the server loop: it replays a cached response; or it has a request whose
  handler is still to run, a response still to be sent, or to be stored.
\<close>

datatype worker =
    Replaying sockaddr bytes
  | Working sockaddr u64 bytes
  | Responding sockaddr u64 bytes
  | Storing sockaddr u64 bytes
  | Ended

record server =
  sv_dedup :: "(msg_key \<times> bytes option) list"
  sv_workers :: "worker list"

definition server_new :: server where
  "server_new = \<lparr>sv_dedup = [], sv_workers = []\<rparr>"

datatype server_effect =
    Invoked sockaddr u64 bytes bytes     \<comment> \<open>the handler ran for a request and returned a body\<close>
  | SendTo sockaddr bytes                \<comment> \<open>the transport's \<open>send_to\<close> was called\<close>

text \<open>The body of the server loop for a frame that \<open>recv\<close> returned.\<close>

definition serve :: "server \<Rightarrow> sockaddr \<Rightarrow> bytes \<Rightarrow> server" where
  "serve sv src frame =
     (case decode_frame frame of
        None \<Rightarrow> sv
      | Some (rpc_id, body) \<Rightarrow>
          (case map_of (sv_dedup sv) (src, rpc_id) of
             Some (Some cached) \<Rightarrow> sv\<lparr>sv_workers := sv_workers sv @ [Replaying src cached]\<rparr>
           | Some None \<Rightarrow> sv
           | None \<Rightarrow> sv\<lparr>sv_dedup := AList.update (src, rpc_id) None (sv_dedup sv),
                        sv_workers := sv_workers sv @ [Working src rpc_id body]\<rparr>))"

text \<open>
  The next step of a thread. \<open>resp_body\<close> is what the handler returns; \<open>None\<close> is a call that panics,
  of the handler or, before the response would be stored, of \<open>send_to\<close>; it ends the thread.
\<close>

definition work :: "server \<Rightarrow> nat \<Rightarrow> bytes option \<Rightarrow> server \<times> server_effect list" where
  "work sv n resp_body =
     (case sv_workers sv ! n of
        Replaying src resp \<Rightarrow> (sv\<lparr>sv_workers := (sv_workers sv)[n := Ended]\<rparr>, [SendTo src resp])
      | Working src rpc_id body \<Rightarrow>
          (case resp_body of
             None \<Rightarrow> (sv\<lparr>sv_workers := (sv_workers sv)[n := Ended]\<rparr>, [])
           | Some rb \<Rightarrow> (sv\<lparr>sv_workers := (sv_workers sv)[n := Responding src rpc_id (encode_frame rpc_id rb)]\<rparr>,
                         [Invoked src rpc_id body rb]))
      | Responding src rpc_id resp \<Rightarrow>
          (sv\<lparr>sv_workers := (sv_workers sv)[n := Storing src rpc_id resp]\<rparr>, [SendTo src resp])
      | Storing src rpc_id resp \<Rightarrow>
          (case resp_body of
             None \<Rightarrow> (sv\<lparr>sv_workers := (sv_workers sv)[n := Ended]\<rparr>, [])
           | Some _ \<Rightarrow> (sv\<lparr>sv_workers := (sv_workers sv)[n := Ended],
                              sv_dedup := AList.update (src, rpc_id) (Some resp) (sv_dedup sv)\<rparr>, []))
      | Ended \<Rightarrow> (sv, []))"

datatype server_event = SRequest sockaddr bytes | SWorker nat "bytes option"

fun server_step :: "server \<Rightarrow> server_event \<Rightarrow> fault + (server \<times> server_effect list)" where
  "server_step sv (SRequest src frame) = Inr (serve sv src frame, [])"
| "server_step sv (SWorker n resp_body) =
     (if n < length (sv_workers sv) then Inr (work sv n resp_body) else Inr (sv, []))"

text \<open>The keys of the requests that arrived, and of the invocations of the handler.\<close>

definition requested :: "server_event list \<Rightarrow> msg_key set" where
  "requested es = {(src, i). \<exists>body. SRequest src (encode_frame i body) \<in> set es}"

fun invoked :: "server_effect list \<Rightarrow> msg_key list" where
  "invoked [] = []"
| "invoked (Invoked src i body rb # os) = (src, i) # invoked os"
| "invoked (SendTo d b # os) = invoked os"

lemma invoked_append [simp]: "invoked (xs @ ys) = invoked xs @ invoked ys"
  by (induction xs rule: invoked.induct) auto

text \<open>The response was computed by the handler for that key.\<close>

definition answers :: "server_effect list \<Rightarrow> msg_key \<Rightarrow> bytes \<Rightarrow> bool" where
  "answers os k resp \<longleftrightarrow> (\<exists>body rb. resp = encode_frame (snd k) rb \<and> Invoked (fst k) (snd k) body rb \<in> set os)"

lemma answers_mono: "answers os k resp \<Longrightarrow> answers (os @ os') k resp"
  by (auto simp: answers_def)

text \<open>The history invariant, one worker at a time.\<close>

definition worker_ok :: "msg_key set \<Rightarrow> server_effect list \<Rightarrow> server_event list \<Rightarrow> worker \<Rightarrow> bool" where
  "worker_ok keys os es w = (case w of
     Replaying src resp \<Rightarrow> \<exists>i. answers os (src, i) resp
   | Working src i body \<Rightarrow> (src, i) \<in> keys \<and> (src, i) \<notin> set (invoked os) \<and> SRequest src (encode_frame i body) \<in> set es
   | Responding src i resp \<Rightarrow> (src, i) \<in> keys \<and> answers os (src, i) resp
   | Storing src i resp \<Rightarrow> (src, i) \<in> keys \<and> answers os (src, i) resp
   | Ended \<Rightarrow> True)"

fun working_key :: "worker \<Rightarrow> msg_key option" where
  "working_key (Working src i body) = Some (src, i)"
| "working_key _ = None"

definition server_hist :: "server \<Rightarrow> server_event list \<Rightarrow> server_effect list \<Rightarrow> bool" where
  "server_hist sv es os \<longleftrightarrow>
     hm_ok (sv_dedup sv) \<and> set (hm_keys (sv_dedup sv)) = requested es
     \<and> (\<forall>n < length (sv_workers sv). worker_ok (requested es) os es (sv_workers sv ! n))
     \<and> (\<forall>n < length (sv_workers sv). \<forall>m < n. \<forall>k. working_key (sv_workers sv ! n) = Some k \<longrightarrow> working_key (sv_workers sv ! m) \<noteq> Some k)
     \<and> all_entries (\<lambda>k v. \<forall>resp. v = Some resp \<longrightarrow> answers os k resp) (sv_dedup sv)
     \<and> distinct (invoked os) \<and> set (invoked os) \<subseteq> requested es
     \<and> (\<forall>src resp. SendTo src resp \<in> set os \<longrightarrow> (\<exists>i. answers os (src, i) resp))
     \<and> (\<forall>src i body rb. Invoked src i body rb \<in> set os \<longrightarrow> SRequest src (encode_frame i body) \<in> set es)"

lemma requested_request:
  "requested (es @ [SRequest src frame]) =
     requested es \<union> (case decode_frame frame of None \<Rightarrow> {} | Some (i, body) \<Rightarrow> {(src, i)})"
proof (cases "decode_frame frame")
  case None
  then have "frame \<noteq> encode_frame i body" for i body by auto
  then show ?thesis using None by (auto simp: requested_def)
next
  case (Some x)
  obtain i body where x: "x = (i, body)" by (cases x)
  with Some have "frame = encode_frame i body" by (simp add: decode_frame_Some)
  moreover from this have "frame = encode_frame j body' \<longleftrightarrow> j = i \<and> body' = body" for j body'
    by (metis decode_encode_frame option.inject prod.inject)
  moreover have "SRequest src frame = SRequest src' (encode_frame j body') \<longleftrightarrow> src' = src \<and> j = i \<and> body' = body" for src' j body'
    using calculation by auto
  ultimately show ?thesis using Some x by (fastforce simp: requested_def)
qed

lemma requested_worker: "requested (es @ [SWorker n r]) = requested es"
  by (auto simp: requested_def)

lemma worker_ok_mono:
  "worker_ok keys os es w \<Longrightarrow> keys \<subseteq> keys' \<Longrightarrow> worker_ok keys' os (es @ es') w"
  by (auto simp: worker_ok_def split: worker.splits)

lemma serve_hist:
  assumes h: "server_hist sv es os"
  shows "server_hist (serve sv src frame) (es @ [SRequest src frame]) os"
proof (cases "decode_frame frame")
  case None
  with h show ?thesis
    by (auto simp: server_hist_def serve_def requested_request intro: worker_ok_mono)
next
  case (Some x)
  obtain i body where x: "x = (i, body)" by (cases x)
  with Some have f: "frame = encode_frame i body" by (simp add: decode_frame_Some)
  have req: "requested (es @ [SRequest src frame]) = insert (src, i) (requested es)"
    using Some x by (simp add: requested_request)
  have keys: "set (hm_keys (sv_dedup sv)) = requested es" using h by (simp add: server_hist_def)
  have bound: "map_of (sv_dedup sv) (src, i) = None \<longleftrightarrow> (src, i) \<notin> requested es"
    using keys by (simp add: map_of_eq_None_iff)
  show ?thesis
  proof (cases "map_of (sv_dedup sv) (src, i)")
    case None
    let ?sv = "serve sv src frame"
    have sv: "sv_dedup ?sv = AList.update (src, i) None (sv_dedup sv)" "sv_workers ?sv = sv_workers sv @ [Working src i body]"
      using Some x None by (simp_all add: serve_def)
    have fresh: "(src, i) \<notin> requested es" using None bound by simp
    then have new: "(src, i) \<notin> set (invoked os)" using h by (auto simp: server_hist_def)
    have "working_key (sv_workers sv ! m) \<noteq> Some (src, i)" if "m < length (sv_workers sv)" for m
      using h that fresh by (cases "sv_workers sv ! m") (fastforce simp: server_hist_def worker_ok_def)+
    moreover have "worker_ok (insert (src, i) (requested es)) os (es @ [SRequest src frame]) (Working src i body)"
      using new f by (simp add: worker_ok_def)
    moreover have "hm_ok (sv_dedup ?sv)" "set (hm_keys (sv_dedup ?sv)) = insert (src, i) (requested es)"
      using h keys by (simp_all add: sv server_hist_def distinct_update dom_update)
    moreover have "all_entries (\<lambda>k v. \<forall>resp. v = Some resp \<longrightarrow> answers os k resp) (sv_dedup ?sv)"
      using h by (auto simp: sv server_hist_def intro!: all_entries_update)
    ultimately show ?thesis using h
      unfolding server_hist_def req
      by (auto simp: sv nth_append less_Suc_eq intro: worker_ok_mono)
  next
    case (Some v)
    then have same: "insert (src, i) (requested es) = requested es" using bound by auto
    show ?thesis
    proof (cases v)
      case None
      then have sv: "serve sv src frame = sv" using Some x \<open>decode_frame frame = Some x\<close> by (simp add: serve_def)
      show ?thesis unfolding sv using h unfolding server_hist_def req same by (auto intro: worker_ok_mono)
    next
      case (Some cached)
      then have sv: "serve sv src frame = sv\<lparr>sv_workers := sv_workers sv @ [Replaying src cached]\<rparr>"
        using \<open>map_of (sv_dedup sv) (src, i) = Some v\<close> x \<open>decode_frame frame = Some x\<close> by (simp add: serve_def)
      have "answers os (src, i) cached"
        using h Some \<open>map_of (sv_dedup sv) (src, i) = Some v\<close> by (auto simp: server_hist_def dest!: all_entriesD)
      then have "worker_ok (requested es) os (es @ [SRequest src frame]) (Replaying src cached)"
        by (auto simp: worker_ok_def)
      then show ?thesis unfolding sv using h unfolding server_hist_def req same
        by (auto simp: nth_append less_Suc_eq intro: worker_ok_mono)
    qed
  qed
qed

text \<open>Replacing one worker by a worker that does not run the handler any more.\<close>

lemma server_hist_replace:
  assumes h: "server_hist sv es os" and n: "n < length (sv_workers sv)" and w: "worker_ok (requested es) os es w"
    and k: "working_key w = None"
  shows "server_hist (sv\<lparr>sv_workers := (sv_workers sv)[n := w]\<rparr>) (es @ [SWorker n r]) os"
  using h n w k unfolding server_hist_def requested_worker
  by (auto simp: nth_list_update intro: worker_ok_mono)

lemma server_hist_sendto:
  assumes h: "server_hist sv es os" and a: "answers os (src, i) resp"
  shows "server_hist sv es (os @ [SendTo src resp])"
proof -
  have "worker_ok (requested es) (os @ [SendTo src resp]) es w" if "worker_ok (requested es) os es w" for w
    using that by (auto simp: worker_ok_def split: worker.splits intro: answers_mono)
  moreover have "all_entries (\<lambda>k v. \<forall>resp. v = Some resp \<longrightarrow> answers (os @ [SendTo src resp']) k resp) m"
    if "all_entries (\<lambda>k v. \<forall>resp. v = Some resp \<longrightarrow> answers os k resp) m" for m resp'
    using that by (auto simp: all_entries_def intro: answers_mono)
  moreover have "\<exists>i. answers (os @ [SendTo src resp]) (s', i) r'" if "SendTo s' r' \<in> set (os @ [SendTo src resp])" for s' r'
  proof -
    have "\<exists>i. answers os (s', i) r'" using that h a by (auto simp: server_hist_def)
    then show ?thesis using answers_mono by blast
  qed
  ultimately show ?thesis using h unfolding server_hist_def by simp
qed

lemma server_hist_store:
  assumes h: "server_hist sv es os" and k: "(src, i) \<in> requested es" and a: "answers os (src, i) resp"
  shows "server_hist (sv\<lparr>sv_dedup := AList.update (src, i) (Some resp) (sv_dedup sv)\<rparr>) es os"
  using h k a unfolding server_hist_def
  by (auto simp: distinct_update dom_update insert_absorb intro!: all_entries_update)

text \<open>The handler runs for a request: its key joins those invoked.\<close>

lemma work_invoke_hist:
  assumes h: "server_hist sv es os" and n: "n < length (sv_workers sv)" and w: "sv_workers sv ! n = Working src i body"
  shows "server_hist (sv\<lparr>sv_workers := (sv_workers sv)[n := Responding src i (encode_frame i rb)]\<rparr>)
    (es @ [SWorker n (Some rb)]) (os @ [Invoked src i body rb])"
proof -
  let ?os = "os @ [Invoked src i body rb]"
  have wn: "worker_ok (requested es) os es (Working src i body)" using h n w by (auto simp: server_hist_def)
  then have k: "(src, i) \<in> requested es" "(src, i) \<notin> set (invoked os)" "SRequest src (encode_frame i body) \<in> set es"
    by (auto simp: worker_ok_def)
  have others: "working_key (sv_workers sv ! m) \<noteq> Some (src, i)" if "m < length (sv_workers sv)" "m \<noteq> n" for m
  proof -
    have "working_key (sv_workers sv ! n) = Some (src, i)" by (simp add: w)
    with h n that show ?thesis unfolding server_hist_def by (metis linorder_neqE_nat)
  qed
  have "worker_ok (requested es) ?os (es @ [SWorker n (Some rb)]) ((sv_workers sv)[n := Responding src i (encode_frame i rb)] ! m)"
    if m: "m < length (sv_workers sv)" for m
  proof (cases "m = n")
    case True
    with n k show ?thesis by (auto simp: worker_ok_def answers_def)
  next
    case False
    have ok: "worker_ok (requested es) os es (sv_workers sv ! m)" using h m by (simp add: server_hist_def)
    with others [OF m False] False show ?thesis
      by (auto simp: worker_ok_def split: worker.splits intro: answers_mono)
  qed
  moreover have "all_entries (\<lambda>k v. \<forall>resp. v = Some resp \<longrightarrow> answers ?os k resp) (sv_dedup sv)"
    using h by (auto simp: server_hist_def all_entries_def intro: answers_mono)
  moreover have "\<exists>i. answers ?os (s', i) r'" if "SendTo s' r' \<in> set ?os" for s' r'
  proof -
    have "\<exists>i. answers os (s', i) r'" using that h by (auto simp: server_hist_def)
    then show ?thesis using answers_mono by blast
  qed
  moreover have "working_key (sv_workers sv ! m) = Some k'" if "m < length (sv_workers sv)"
      "working_key ((sv_workers sv)[n := Responding src i (encode_frame i rb)] ! m) = Some k'" for m k'
    using that n by (auto simp: nth_list_update split: if_splits)
  then have "\<forall>m < length (sv_workers sv). \<forall>m' < m. \<forall>k'.
      working_key ((sv_workers sv)[n := Responding src i (encode_frame i rb)] ! m) = Some k' \<longrightarrow>
      working_key ((sv_workers sv)[n := Responding src i (encode_frame i rb)] ! m') \<noteq> Some k'"
    using h unfolding server_hist_def by (meson less_trans)
  ultimately show ?thesis using h k unfolding server_hist_def requested_worker
    by auto
qed

lemma work_hist:
  assumes h: "server_hist sv es os" and n: "n < length (sv_workers sv)" and wk: "work sv n rb = (sv', os')"
  shows "server_hist sv' (es @ [SWorker n rb]) (os @ os')"
proof (cases "sv_workers sv ! n")
  case (Replaying src resp)
  then have "worker_ok (requested es) os es (Replaying src resp)" using h n by (auto simp: server_hist_def)
  then obtain i where a: "answers os (src, i) resp" by (auto simp: worker_ok_def)
  from server_hist_sendto [OF server_hist_replace [OF h n, of Ended rb] a] Replaying wk show ?thesis
    by (simp add: work_def worker_ok_def)
next
  case (Working src i body)
  show ?thesis
  proof (cases rb)
    case None
    with server_hist_replace [OF h n, of Ended rb] Working wk show ?thesis by (simp add: work_def worker_ok_def)
  next
    case (Some x)
    with work_invoke_hist [OF h n Working, of x] Working wk show ?thesis by (simp add: work_def)
  qed
next
  case (Responding src i resp)
  then have w: "worker_ok (requested es) os es (Responding src i resp)" using h n by (auto simp: server_hist_def)
  then have "worker_ok (requested es) os es (Storing src i resp)" "answers os (src, i) resp" by (simp_all add: worker_ok_def)
  from server_hist_sendto [OF server_hist_replace [OF h n this(1), of rb] this(2)] Responding wk show ?thesis
    by (simp add: work_def)
next
  case (Storing src i resp)
  then have w: "worker_ok (requested es) os es (Storing src i resp)" using h n by (auto simp: server_hist_def)
  then have k: "(src, i) \<in> requested (es @ [SWorker n rb])" "answers os (src, i) resp"
    by (simp_all add: worker_ok_def requested_worker)
  have "server_hist (sv\<lparr>sv_workers := (sv_workers sv)[n := Ended]\<rparr>) (es @ [SWorker n rb]) os"
    by (rule server_hist_replace [OF h n]) (simp_all add: worker_ok_def)
  with server_hist_store [OF this k] Storing wk show ?thesis by (auto simp: work_def split: option.splits)
next
  case Ended
  have "server_hist (sv\<lparr>sv_workers := (sv_workers sv)[n := Ended]\<rparr>) (es @ [SWorker n rb]) os"
    by (rule server_hist_replace [OF h n]) (simp_all add: worker_ok_def)
  moreover have "(sv_workers sv)[n := Ended] = sv_workers sv" using Ended by (metis list_update_id)
  ultimately show ?thesis using Ended wk by (simp add: work_def)
qed

lemma server_hist_idle: "server_hist sv es os \<Longrightarrow> server_hist sv (es @ [SWorker n r]) os"
  unfolding server_hist_def requested_worker by (auto intro: worker_ok_mono)

lemma server_step_hist:
  "server_hist sv es os \<Longrightarrow> server_step sv e = Inr (sv', os') \<Longrightarrow> server_hist sv' (es @ [e]) (os @ os')"
  by (cases e) (auto simp: serve_hist work_hist server_hist_idle split: if_splits)

interpretation srv: history server_step server_hist
  by unfold_locales (rule server_step_hist)

lemma server_hist_new: "server_hist server_new [] []"
  by (simp add: server_hist_def server_new_def requested_def)

lemma server_runs: "\<exists>sv' os. run_steps server_step sv es = Inr (sv', os)"
proof (induction es arbitrary: sv)
  case (Cons e es)
  obtain sv1 os1 where s: "server_step sv e = Inr (sv1, os1)"
    by (cases e; simp; cases "work sv (case e of SWorker n r \<Rightarrow> n | _ \<Rightarrow> 0) (case e of SWorker n r \<Rightarrow> r | _ \<Rightarrow> None)"; force)
  from Cons [of sv1] obtain sv2 os2 where "run_steps server_step sv1 es = Inr (sv2, os2)" by blast
  with s show ?case by simp
qed simp

section \<open>The client\<close>

text \<open>
  Where a call stands in the loop of \<open>call_with_timeout\<close>: before it registers a waiter, before it
  sends the frame, and while it waits on its channel. \<open>rc_left\<close> counts the attempts that are left,
  the current one included.
\<close>

datatype stage = Attempting | Registered nat | Awaiting nat | Done

record rpc_call =
  rc_id :: u64
  rc_server :: sockaddr
  rc_frame :: bytes
  rc_max :: nat
  rc_left :: nat
  rc_stage :: stage

text \<open>
  Channels are numbered in the order of their creation. \<open>cl_hand\<close> is what the dispatcher holds
  between removing a waiter and sending into its channel.
\<close>

record client =
  cl_next :: u64
  cl_waiters :: "(u64 \<times> nat) list"
  cl_chans :: "bytes list list"
  cl_hand :: "(nat \<times> bytes) option"
  cl_calls :: "rpc_call list"

definition client_new :: client where
  "client_new = \<lparr>cl_next = 1, cl_waiters = [], cl_chans = [], cl_hand = None, cl_calls = []\<rparr>"

datatype client_effect =
    CallSend nat sockaddr bytes                \<comment> \<open>call \<open>n\<close> calls the transport's \<open>send_to\<close>\<close>
  | CallReturned nat u64 "io_error + bytes"
  | CallPanicked nat                         \<comment> \<open>the panic of \<open>send_to\<close> unwinds call \<open>n\<close>\<close>

text \<open>
  How \<open>send_to\<close> ends: with an id, with an error, or with a panic, when the mutex of the transport
  is poisoned.
\<close>

datatype send_answer = Sent | SendFailed io_error | SendPanicked

text \<open>Decimal digits, for the \<open>format!\<close> of the error.\<close>

fun decimal :: "nat \<Rightarrow> string" where
  "decimal n = (if n < 10 then [char_of (48 + n)] else decimal (n div 10) @ [char_of (48 + n mod 10)])"

definition rpc_timeout :: "u64 \<Rightarrow> nat \<Rightarrow> io_error" where
  "rpc_timeout rpc_id max_attempts =
     IoError TimedOut (''rpc '' @ decimal (unat rpc_id) @ '' timeout after '' @ decimal max_attempts @ '' attempts'')"

definition call_begin :: "client \<Rightarrow> sockaddr \<Rightarrow> bytes \<Rightarrow> nat \<Rightarrow> client" where
  "call_begin cl server payload max_attempts =
     (let rpc_id = cl_next cl
      in cl\<lparr>cl_next := rpc_id + 1,
            cl_calls := cl_calls cl @ [\<lparr>rc_id = rpc_id, rc_server = server, rc_frame = encode_frame rpc_id payload,
              rc_max = max_attempts, rc_left = max max_attempts 1, rc_stage = Attempting\<rparr>]\<rparr>)"

text \<open>
  The next step of call \<open>n\<close>. \<open>sent\<close> is how its \<open>send_to\<close> ends. A waiting call takes
  what its channel holds; a step of it while the channel is empty is the end of its timeout.
\<close>

definition call_step :: "client \<Rightarrow> nat \<Rightarrow> send_answer \<Rightarrow> client \<times> client_effect list" where
  "call_step cl n sent =
     (let c = cl_calls cl ! n
      in case rc_stage c of
           Attempting \<Rightarrow>
             let ch = length (cl_chans cl)
             in (cl\<lparr>cl_chans := cl_chans cl @ [[]], cl_waiters := AList.update (rc_id c) ch (cl_waiters cl),
                    cl_calls := (cl_calls cl)[n := c\<lparr>rc_stage := Registered ch\<rparr>]\<rparr>, [])
         | Registered ch \<Rightarrow>
             (case sent of
                Sent \<Rightarrow> (cl\<lparr>cl_calls := (cl_calls cl)[n := c\<lparr>rc_stage := Awaiting ch\<rparr>]\<rparr>,
                         [CallSend n (rc_server c) (rc_frame c)])
              | SendFailed e \<Rightarrow> (cl\<lparr>cl_calls := (cl_calls cl)[n := c\<lparr>rc_stage := Done\<rparr>]\<rparr>,
                           [CallSend n (rc_server c) (rc_frame c), CallReturned n (rc_id c) (Inl e)])
              | SendPanicked \<Rightarrow> (cl\<lparr>cl_calls := (cl_calls cl)[n := c\<lparr>rc_stage := Done\<rparr>]\<rparr>,
                           [CallSend n (rc_server c) (rc_frame c), CallPanicked n]))
         | Awaiting ch \<Rightarrow>
             (case cl_chans cl ! ch of
                body # rest \<Rightarrow> (cl\<lparr>cl_chans := (cl_chans cl)[ch := rest],
                                   cl_calls := (cl_calls cl)[n := c\<lparr>rc_stage := Done\<rparr>]\<rparr>,
                                [CallReturned n (rc_id c) (Inr body)])
              | [] \<Rightarrow>
                  let cl1 = cl\<lparr>cl_waiters := AList.delete (rc_id c) (cl_waiters cl)\<rparr>; left = rc_left c - 1
                  in if left = 0
                     then (cl1\<lparr>cl_calls := (cl_calls cl)[n := c\<lparr>rc_left := left, rc_stage := Done\<rparr>]\<rparr>,
                           [CallReturned n (rc_id c) (Inl (rpc_timeout (rc_id c) (rc_max c)))])
                     else (cl1\<lparr>cl_calls := (cl_calls cl)[n := c\<lparr>rc_left := left, rc_stage := Attempting\<rparr>]\<rparr>, []))
         | Done \<Rightarrow> (cl, []))"

text \<open>
  The dispatcher: take the waiter of a frame's id, whatever its source, then send to its channel.
\<close>

definition dispatch_take :: "client \<Rightarrow> sockaddr \<Rightarrow> bytes \<Rightarrow> client" where
  "dispatch_take cl src frame =
     (case decode_frame frame of
        None \<Rightarrow> cl
      | Some (rpc_id, body) \<Rightarrow>
          (case map_of (cl_waiters cl) rpc_id of
             None \<Rightarrow> cl
           | Some ch \<Rightarrow> cl\<lparr>cl_waiters := AList.delete rpc_id (cl_waiters cl), cl_hand := Some (ch, body)\<rparr>))"

definition dispatch_put :: "client \<Rightarrow> client" where
  "dispatch_put cl =
     (case cl_hand cl of
        None \<Rightarrow> cl
      | Some (ch, body) \<Rightarrow> cl\<lparr>cl_chans := (cl_chans cl)[ch := cl_chans cl ! ch @ [body]], cl_hand := None\<rparr>)"

datatype client_event =
    CCall sockaddr bytes nat
  | CProceed nat send_answer
  | CFrame sockaddr bytes
  | CPut

fun client_step :: "client \<Rightarrow> client_event \<Rightarrow> fault + (client \<times> client_effect list)" where
  "client_step cl (CCall server payload max_attempts) = Inr (call_begin cl server payload max_attempts, [])"
| "client_step cl (CProceed n sent) = (if n < length (cl_calls cl) then Inr (call_step cl n sent) else Inr (cl, []))"
| "client_step cl (CFrame src frame) = Inr (if cl_hand cl = None then dispatch_take cl src frame else cl, [])"
| "client_step cl CPut = Inr (dispatch_put cl, [])"

section \<open>The history of a client\<close>

text \<open>How often call \<open>n\<close> sent its frame, how often it returned, and how often a panic unwound it.\<close>

fun sends_of :: "nat \<Rightarrow> client_effect list \<Rightarrow> nat" where
  "sends_of n [] = 0"
| "sends_of n (CallSend m d f # os) = (if m = n then 1 else 0) + sends_of n os"
| "sends_of n (CallReturned m i r # os) = sends_of n os"
| "sends_of n (CallPanicked m # os) = sends_of n os"

fun returns_of :: "nat \<Rightarrow> client_effect list \<Rightarrow> nat" where
  "returns_of n [] = 0"
| "returns_of n (CallSend m d f # os) = returns_of n os"
| "returns_of n (CallReturned m i r # os) = (if m = n then 1 else 0) + returns_of n os"
| "returns_of n (CallPanicked m # os) = returns_of n os"

definition panics_of :: "nat \<Rightarrow> client_effect list \<Rightarrow> nat" where
  "panics_of n os = count_list os (CallPanicked n)"

lemma sends_of_append [simp]: "sends_of n (xs @ ys) = sends_of n xs + sends_of n ys"
  by (induction n xs rule: sends_of.induct) auto

lemma returns_of_append [simp]: "returns_of n (xs @ ys) = returns_of n xs + returns_of n ys"
  by (induction n xs rule: returns_of.induct) auto

lemma panics_of_simps [simp]:
  "panics_of n [] = 0" "panics_of n (xs @ ys) = panics_of n xs + panics_of n ys"
  "panics_of n (CallSend m d f # os) = panics_of n os" "panics_of n (CallReturned m i r # os) = panics_of n os"
  "panics_of n (CallPanicked m # os) = (if m = n then 1 else 0) + panics_of n os"
  by (simp_all add: panics_of_def)

text \<open>A frame with this id and body reached the dispatcher.\<close>

definition arrived_frame :: "client_event list \<Rightarrow> u64 \<Rightarrow> bytes \<Rightarrow> bool" where
  "arrived_frame es i body \<longleftrightarrow> (\<exists>src. CFrame src (encode_frame i body) \<in> set es)"

lemma arrived_frame_mono: "arrived_frame es i body \<Longrightarrow> arrived_frame (es @ es') i body"
  by (auto simp: arrived_frame_def)

definition attempts :: "rpc_call \<Rightarrow> nat" where
  "attempts c = max (rc_max c) 1"

definition rpc_call_ok :: "(nat \<Rightarrow> u64) \<Rightarrow> nat \<Rightarrow> client_event list \<Rightarrow> client_effect list \<Rightarrow> nat \<Rightarrow> rpc_call \<Rightarrow> bool" where
  "rpc_call_ok own chans es os n c \<longleftrightarrow>
     rc_id c = word_of_nat (Suc n)
     \<and> (\<exists>payload. CCall (rc_server c) payload (rc_max c) \<in> set es \<and> rc_frame c = encode_frame (rc_id c) payload)
     \<and> (case rc_stage c of
          Attempting \<Rightarrow> 0 < rc_left c \<and> sends_of n os + rc_left c = attempts c \<and> returns_of n os = 0 \<and> panics_of n os = 0
        | Registered ch \<Rightarrow> 0 < rc_left c \<and> sends_of n os + rc_left c = attempts c \<and> returns_of n os = 0 \<and> panics_of n os = 0 \<and> ch < chans \<and> own ch = rc_id c
        | Awaiting ch \<Rightarrow> 0 < rc_left c \<and> sends_of n os + rc_left c = attempts c + 1 \<and> returns_of n os = 0 \<and> panics_of n os = 0 \<and> ch < chans \<and> own ch = rc_id c
        | Done \<Rightarrow> sends_of n os \<le> attempts c \<and> returns_of n os + panics_of n os = 1)"

definition return_ok :: "client_event list \<Rightarrow> client_effect list \<Rightarrow> nat \<Rightarrow> rpc_call \<Rightarrow> io_error + bytes \<Rightarrow> bool" where
  "return_ok es os n c r = (case r of
     Inr body \<Rightarrow> arrived_frame es (rc_id c) body
   | Inl e \<Rightarrow> CProceed n (SendFailed e) \<in> set es \<or> e = rpc_timeout (rc_id c) (rc_max c) \<and> sends_of n os = attempts c)"

text \<open>\<open>own\<close> gives the call id for which a channel was created.\<close>

definition client_own :: "(nat \<Rightarrow> u64) \<Rightarrow> client \<Rightarrow> client_event list \<Rightarrow> client_effect list \<Rightarrow> bool" where
  "client_own own cl es os \<longleftrightarrow> cl_next cl = word_of_nat (Suc (length (cl_calls cl)))
     \<and> (\<forall>n < length (cl_calls cl). rpc_call_ok own (length (cl_chans cl)) es os n (cl_calls cl ! n))
     \<and> all_entries (\<lambda>i ch. ch < length (cl_chans cl) \<and> own ch = i) (cl_waiters cl)
     \<and> (\<forall>ch < length (cl_chans cl). \<forall>body \<in> set (cl_chans cl ! ch). arrived_frame es (own ch) body)
     \<and> (\<forall>ch body. cl_hand cl = Some (ch, body) \<longrightarrow> ch < length (cl_chans cl) \<and> arrived_frame es (own ch) body)
     \<and> (\<forall>n i r. CallReturned n i r \<in> set os \<longrightarrow> n < length (cl_calls cl) \<and> i = rc_id (cl_calls cl ! n)
          \<and> return_ok es os n (cl_calls cl ! n) r)
     \<and> (\<forall>n d f. CallSend n d f \<in> set os \<longrightarrow> n < length (cl_calls cl) \<and> d = rc_server (cl_calls cl ! n)
          \<and> f = rc_frame (cl_calls cl ! n))
     \<and> (\<forall>n. CallPanicked n \<in> set os \<longrightarrow> n < length (cl_calls cl) \<and> CProceed n SendPanicked \<in> set es)"

definition client_hist :: "client \<Rightarrow> client_event list \<Rightarrow> client_effect list \<Rightarrow> bool" where
  "client_hist cl es os \<longleftrightarrow> (\<exists>own. client_own own cl es os)"

lemma client_histI: "client_own own cl es os \<Longrightarrow> client_hist cl es os"
  by (auto simp: client_hist_def)

lemma sends_of_none: "\<forall>d f. CallSend n d f \<notin> set os \<Longrightarrow> sends_of n os = 0"
  by (induction n os rule: sends_of.induct) auto

lemma returns_of_none: "(\<forall>i r. CallReturned n i r \<notin> set os) \<longleftrightarrow> returns_of n os = 0"
  by (induction n os rule: returns_of.induct) auto

lemma panics_of_none: "CallPanicked n \<notin> set os \<longleftrightarrow> panics_of n os = 0"
  by (simp add: panics_of_def count_list_0_iff)

text \<open>More events, and effects of other calls, leave a call's record as it is.\<close>

lemma rpc_call_ok_mono:
  assumes "rpc_call_ok own chans es os n c" "sends_of n os' = 0" "returns_of n os' = 0" "panics_of n os' = 0"
    "chans \<le> chans'" "\<forall>ch < chans. own' ch = own ch"
  shows "rpc_call_ok own' chans' (es @ es') (os @ os') n c"
  using assms by (fastforce simp: rpc_call_ok_def split: stage.splits)

lemma return_ok_mono:
  "return_ok es os n c r \<Longrightarrow> sends_of n os' = 0 \<Longrightarrow> return_ok (es @ es') (os @ os') n c r"
  by (auto simp: return_ok_def arrived_frame_mono split: sum.splits)

text \<open>An event that touches only the waiters, the channels and the dispatcher.\<close>

lemma client_own_quiet:
  assumes h: "client_own own cl es os" and same: "cl_next cl' = cl_next cl" "cl_calls cl' = cl_calls cl"
      "length (cl_chans cl') = length (cl_chans cl)"
    and w: "all_entries (\<lambda>i ch. ch < length (cl_chans cl) \<and> own ch = i) (cl_waiters cl')"
    and ch: "\<forall>ch < length (cl_chans cl). \<forall>body \<in> set (cl_chans cl' ! ch). arrived_frame (es @ es') (own ch) body"
    and hand: "\<forall>ch body. cl_hand cl' = Some (ch, body) \<longrightarrow> ch < length (cl_chans cl) \<and> arrived_frame (es @ es') (own ch) body"
  shows "client_own own cl' (es @ es') os"
proof -
  have "rpc_call_ok own (length (cl_chans cl)) (es @ es') os n (cl_calls cl ! n)" if "n < length (cl_calls cl)" for n
    using rpc_call_ok_mono [of own "length (cl_chans cl)" es os n "cl_calls cl ! n" "[]" "length (cl_chans cl)" own es'] h that
    by (simp add: client_own_def)
  moreover have "return_ok (es @ es') os n (cl_calls cl ! n) r" if "CallReturned n i r \<in> set os" for n i r
    using return_ok_mono [of es os n _ r "[]" es'] h that by (auto simp: client_own_def)
  ultimately show ?thesis using h w ch hand by (simp add: client_own_def same)
qed

text \<open>A step of call \<open>n\<close>, which had not returned: the record changes, with effects of this call.\<close>

lemma client_own_call:
  assumes h: "client_own own cl es os" and n: "n < length (cl_calls cl)" and c: "c = cl_calls cl ! n"
    and live: "returns_of n os = 0"
    and cl': "cl_next cl' = cl_next cl" "cl_calls cl' = (cl_calls cl)[n := c']" "cl_hand cl' = cl_hand cl"
      "length (cl_chans cl) \<le> length (cl_chans cl')"
    and same: "rc_id c' = rc_id c" "rc_server c' = rc_server c" "rc_frame c' = rc_frame c" "rc_max c' = rc_max c"
    and own: "\<forall>ch < length (cl_chans cl). own' ch = own ch"
    and ok: "rpc_call_ok own' (length (cl_chans cl')) (es @ [e]) (os @ os') n c'"
    and eff: "\<forall>x \<in> set os'. x = CallSend n (rc_server c) (rc_frame c)
      \<or> (\<exists>r. x = CallReturned n (rc_id c) r \<and> return_ok (es @ [e]) (os @ os') n c' r)
      \<or> x = CallPanicked n \<and> e = CProceed n SendPanicked"
    and w: "all_entries (\<lambda>i ch. ch < length (cl_chans cl') \<and> own' ch = i) (cl_waiters cl')"
    and ch: "\<forall>ch < length (cl_chans cl'). \<forall>body \<in> set (cl_chans cl' ! ch). arrived_frame (es @ [e]) (own' ch) body"
  shows "client_own own' cl' (es @ [e]) (os @ os')"
proof -
  have other: "sends_of m os' = 0 \<and> returns_of m os' = 0 \<and> panics_of m os' = 0" if "m \<noteq> n" for m
    using eff that by (intro conjI sends_of_none returns_of_none [THEN iffD1] panics_of_none [THEN iffD1]) auto
  have old: "rpc_call_ok own' (length (cl_chans cl')) (es @ [e]) (os @ os') m ((cl_calls cl)[n := c'] ! m)"
    if m: "m < length (cl_calls cl)" for m
  proof (cases "m = n")
    case False
    have "rpc_call_ok own (length (cl_chans cl)) es os m (cl_calls cl ! m)" using h m by (simp add: client_own_def)
    from rpc_call_ok_mono [OF this _ _ _ cl'(4) own, of os' "[e]"] other [OF False] False show ?thesis by simp
  qed (use ok n in simp)
  have ret: "m < length (cl_calls cl) \<and> i = rc_id ((cl_calls cl)[n := c'] ! m)
      \<and> return_ok (es @ [e]) (os @ os') m ((cl_calls cl)[n := c'] ! m) r"
    if r: "CallReturned m i r \<in> set (os @ os')" for m i r
  proof (cases "CallReturned m i r \<in> set os")
    case True
    then have "m \<noteq> n" using live returns_of_none [of n os] by blast
    moreover have "m < length (cl_calls cl) \<and> i = rc_id (cl_calls cl ! m) \<and> return_ok es os m (cl_calls cl ! m) r"
      using h True by (simp add: client_own_def)
    ultimately show ?thesis using other [of m] return_ok_mono by simp
  next
    case False
    with r eff n same show ?thesis by auto
  qed
  have snd: "m < length (cl_calls cl) \<and> d = rc_server ((cl_calls cl)[n := c'] ! m) \<and> f = rc_frame ((cl_calls cl)[n := c'] ! m)"
    if s: "CallSend m d f \<in> set (os @ os')" for m d f
  proof (cases "CallSend m d f \<in> set os")
    case True
    then have "m < length (cl_calls cl) \<and> d = rc_server (cl_calls cl ! m) \<and> f = rc_frame (cl_calls cl ! m)"
      using h by (simp add: client_own_def)
    then show ?thesis using same c n by (cases "m = n") auto
  next
    case False
    with s eff n same show ?thesis by auto
  qed
  have "ch < length (cl_chans cl') \<and> arrived_frame (es @ [e]) (own' ch) body" if "cl_hand cl' = Some (ch, body)" for ch body
  proof -
    have "ch < length (cl_chans cl) \<and> arrived_frame es (own ch) body"
      using h that cl'(3) by (simp add: client_own_def)
    with own cl'(4) show ?thesis by (simp add: arrived_frame_mono)
  qed
  moreover have "m < length (cl_calls cl) \<and> CProceed m SendPanicked \<in> set (es @ [e])" if "CallPanicked m \<in> set (os @ os')" for m
    using that h eff n by (auto simp: client_own_def)
  ultimately show ?thesis using old ret snd w ch h unfolding client_own_def cl' by simp
qed

section \<open>Every step keeps the history\<close>

lemma call_begin_hist:
  assumes h: "client_own own cl es os"
  shows "client_own own (call_begin cl server payload mx) (es @ [CCall server payload mx]) os"
proof -
  let ?cl = "call_begin cl server payload mx" and ?es = "es @ [CCall server payload mx]"
  let ?c = "\<lparr>rc_id = cl_next cl, rc_server = server, rc_frame = encode_frame (cl_next cl) payload,
    rc_max = mx, rc_left = max mx 1, rc_stage = Attempting\<rparr>"
  have cl: "cl_calls ?cl = cl_calls cl @ [?c]" "cl_next ?cl = cl_next cl + 1" "cl_chans ?cl = cl_chans cl"
    "cl_waiters ?cl = cl_waiters cl" "cl_hand ?cl = cl_hand cl"
    by (simp_all add: call_begin_def Let_def)
  have q: "client_own own cl ?es os"
    by (rule client_own_quiet [OF h refl refl refl]) (use h in \<open>auto simp: client_own_def arrived_frame_mono\<close>)
  have none: "\<forall>d f. CallSend (length (cl_calls cl)) d f \<notin> set os" "\<forall>i r. CallReturned (length (cl_calls cl)) i r \<notin> set os"
    "CallPanicked (length (cl_calls cl)) \<notin> set os"
    using h unfolding client_own_def by blast+
  then have "rpc_call_ok own (length (cl_chans cl)) ?es os (length (cl_calls cl)) ?c"
    using h sends_of_none [OF none(1)] returns_of_none [of "length (cl_calls cl)" os] panics_of_none [of "length (cl_calls cl)" os]
    by (auto simp: rpc_call_ok_def attempts_def client_own_def)
  with q show ?thesis unfolding client_own_def cl
    by (auto simp: nth_append less_Suc_eq)
qed

text \<open>What all steps of a call start from.\<close>

lemma call_step_base:
  assumes "client_own own cl es os"
  shows "n < length (cl_calls cl) \<Longrightarrow> rpc_call_ok own (length (cl_chans cl)) es os n (cl_calls cl ! n)"
    "all_entries (\<lambda>i ch. ch < length (cl_chans cl) \<and> own ch = i) (cl_waiters cl)"
    "\<forall>ch < length (cl_chans cl). \<forall>body \<in> set (cl_chans cl ! ch). arrived_frame (es @ [e]) (own ch) body"
  using assms by (auto simp: client_own_def arrived_frame_mono)

lemma attempting_hist:
  assumes h: "client_own own cl es os" and n: "n < length (cl_calls cl)" and c_def: "c = cl_calls cl ! n"
    and stage: "rc_stage c = Attempting" and st: "call_step cl n sent = (cl', os')"
  shows "client_hist cl' (es @ [CProceed n sent]) (os @ os')"
proof -
  let ?es = "es @ [CProceed n sent]"
  note ok = call_step_base(1) [OF h n, folded c_def]
    and base = call_step_base(2) [OF h] call_step_base(3) [OF h, where e = "CProceed n sent"]
  note st' = st [unfolded call_step_def Let_def c_def [symmetric]]
  let ?ch = "length (cl_chans cl)"
  let ?own = "own(?ch := rc_id c)"
  have r: "returns_of n os = 0" using ok stage by (simp add: rpc_call_ok_def)
  have cl': "cl' = cl\<lparr>cl_chans := cl_chans cl @ [[]], cl_waiters := AList.update (rc_id c) ?ch (cl_waiters cl),
      cl_calls := (cl_calls cl)[n := c\<lparr>rc_stage := Registered ?ch\<rparr>]\<rparr>" "os' = []"
    using st' stage by simp_all
  have "all_entries (\<lambda>i ch. ch < length (cl_chans cl') \<and> ?own ch = i) (cl_waiters cl)"
    using base(1) by (auto simp: cl' all_entries_def less_Suc_eq)
  then have w: "all_entries (\<lambda>i ch. ch < length (cl_chans cl') \<and> ?own ch = i) (cl_waiters cl')"
    by (simp add: cl' all_entries_update)
  have "client_own ?own cl' ?es (os @ os')"
    by (rule client_own_call [OF h n c_def r, where c' = "c\<lparr>rc_stage := Registered ?ch\<rparr>"])
      (use ok stage base w in \<open>auto simp: cl' rpc_call_ok_def attempts_def nth_append less_Suc_eq\<close>)
  then show ?thesis by (rule client_histI)
qed

lemma registered_hist:
  assumes h: "client_own own cl es os" and n: "n < length (cl_calls cl)" and c_def: "c = cl_calls cl ! n"
    and stage: "rc_stage c = Registered ch" and st: "call_step cl n sent = (cl', os')"
  shows "client_hist cl' (es @ [CProceed n sent]) (os @ os')"
proof -
  let ?es = "es @ [CProceed n sent]"
  note ok = call_step_base(1) [OF h n, folded c_def]
    and base = call_step_base(2) [OF h] call_step_base(3) [OF h, where e = "CProceed n sent"]
  note st' = st [unfolded call_step_def Let_def c_def [symmetric]]
  have r: "returns_of n os = 0" using ok stage by (simp add: rpc_call_ok_def)
  show ?thesis
  proof (cases sent)
    case Sent
    then have cl': "cl' = cl\<lparr>cl_calls := (cl_calls cl)[n := c\<lparr>rc_stage := Awaiting ch\<rparr>]\<rparr>"
      "os' = [CallSend n (rc_server c) (rc_frame c)]"
      using st' stage by simp_all
    have "client_own own cl' ?es (os @ os')"
      by (rule client_own_call [OF h n c_def r, where c' = "c\<lparr>rc_stage := Awaiting ch\<rparr>"])
        (use ok stage base in \<open>auto simp: cl' rpc_call_ok_def attempts_def\<close>)
    then show ?thesis by (rule client_histI)
  next
    case (SendFailed e)
    then have cl': "cl' = cl\<lparr>cl_calls := (cl_calls cl)[n := c\<lparr>rc_stage := Done\<rparr>]\<rparr>"
      "os' = [CallSend n (rc_server c) (rc_frame c), CallReturned n (rc_id c) (Inl e)]"
      using st' stage by simp_all
    have "client_own own cl' ?es (os @ os')"
      by (rule client_own_call [OF h n c_def r, where c' = "c\<lparr>rc_stage := Done\<rparr>"])
        (use ok stage base SendFailed in \<open>auto simp: cl' rpc_call_ok_def attempts_def return_ok_def\<close>)
    then show ?thesis by (rule client_histI)
  next
    case SendPanicked
    then have cl': "cl' = cl\<lparr>cl_calls := (cl_calls cl)[n := c\<lparr>rc_stage := Done\<rparr>]\<rparr>"
      "os' = [CallSend n (rc_server c) (rc_frame c), CallPanicked n]"
      using st' stage by simp_all
    have "client_own own cl' ?es (os @ os')"
      by (rule client_own_call [OF h n c_def r, where c' = "c\<lparr>rc_stage := Done\<rparr>"])
        (use ok stage base SendPanicked in \<open>auto simp: cl' rpc_call_ok_def attempts_def\<close>)
    then show ?thesis by (rule client_histI)
  qed
qed

lemma awaiting_hist:
  assumes h: "client_own own cl es os" and n: "n < length (cl_calls cl)" and c_def: "c = cl_calls cl ! n"
    and stage: "rc_stage c = Awaiting ch" and st: "call_step cl n sent = (cl', os')"
  shows "client_hist cl' (es @ [CProceed n sent]) (os @ os')"
proof -
  let ?es = "es @ [CProceed n sent]"
  note ok = call_step_base(1) [OF h n, folded c_def]
    and base = call_step_base(2) [OF h] call_step_base(3) [OF h, where e = "CProceed n sent"]
  note st' = st [unfolded call_step_def Let_def c_def [symmetric]]
  have r: "returns_of n os = 0" and chl: "ch < length (cl_chans cl)" "own ch = rc_id c"
    using ok stage by (simp_all add: rpc_call_ok_def)
  show ?thesis
  proof (cases "cl_chans cl ! ch")
    case (Cons body rest)
    then have cl': "cl' = cl\<lparr>cl_chans := (cl_chans cl)[ch := rest], cl_calls := (cl_calls cl)[n := c\<lparr>rc_stage := Done\<rparr>]\<rparr>"
      "os' = [CallReturned n (rc_id c) (Inr body)]"
      using st' stage by simp_all
    have "arrived_frame ?es (rc_id c) body" using base(2) chl Cons by (metis list.set_intros(1))
    moreover have "\<forall>k < length (cl_chans cl'). \<forall>body \<in> set (cl_chans cl' ! k). arrived_frame ?es (own k) body"
      using base(2) chl Cons by (auto simp: cl' nth_list_update)
    ultimately have "client_own own cl' ?es (os @ os')"
      by (intro client_own_call [OF h n c_def r, where c' = "c\<lparr>rc_stage := Done\<rparr>"])
        (use ok stage base in \<open>auto simp: cl' rpc_call_ok_def attempts_def return_ok_def\<close>)
    then show ?thesis by (rule client_histI)
  next
    case Nil
    have w: "all_entries (\<lambda>i ch. ch < length (cl_chans cl) \<and> own ch = i) (AList.delete (rc_id c) (cl_waiters cl))"
      by (rule all_entries_delete [OF base(1)])
    show ?thesis
    proof (cases "rc_left c - 1 = 0")
      case True
      let ?c = "c\<lparr>rc_left := rc_left c - 1, rc_stage := Done\<rparr>"
      have cl': "cl' = cl\<lparr>cl_waiters := AList.delete (rc_id c) (cl_waiters cl), cl_calls := (cl_calls cl)[n := ?c]\<rparr>"
        "os' = [CallReturned n (rc_id c) (Inl (rpc_timeout (rc_id c) (rc_max c)))]"
        using st' stage Nil True by simp_all
      have "client_own own cl' ?es (os @ os')"
        by (rule client_own_call [OF h n c_def r, where c' = ?c])
          (use ok stage base w True in \<open>auto simp: cl' rpc_call_ok_def attempts_def return_ok_def\<close>)
      then show ?thesis by (rule client_histI)
    next
      case False
      let ?c = "c\<lparr>rc_left := rc_left c - 1, rc_stage := Attempting\<rparr>"
      have cl': "cl' = cl\<lparr>cl_waiters := AList.delete (rc_id c) (cl_waiters cl), cl_calls := (cl_calls cl)[n := ?c]\<rparr>"
        "os' = []"
        using st' stage Nil False by simp_all
      have "client_own own cl' ?es (os @ os')"
        by (rule client_own_call [OF h n c_def r, where c' = ?c])
          (use ok stage base w False in \<open>auto simp: cl' rpc_call_ok_def attempts_def\<close>)
      then show ?thesis by (rule client_histI)
    qed
  qed
qed

lemma call_step_hist:
  assumes h: "client_own own cl es os" and n: "n < length (cl_calls cl)" and st: "call_step cl n sent = (cl', os')"
  shows "client_hist cl' (es @ [CProceed n sent]) (os @ os')"
proof (cases "rc_stage (cl_calls cl ! n)")
  case Done
  then have cl': "cl' = cl" "os' = []" using st by (simp_all add: call_step_def)
  have "client_own own cl (es @ [CProceed n sent]) os"
    by (rule client_own_quiet [OF h refl refl refl call_step_base(2,3) [OF h]])
      (use h in \<open>auto simp: client_own_def arrived_frame_mono\<close>)
  then show ?thesis unfolding cl' append_Nil2 by (rule client_histI)
qed (use attempting_hist [OF h n refl _ st] registered_hist [OF h n refl _ st] awaiting_hist [OF h n refl _ st] in blast)+

lemma dispatch_hist:
  assumes h: "client_own own cl es os"
  shows "cl_hand cl = None \<Longrightarrow> client_own own (dispatch_take cl src frame) (es @ [CFrame src frame]) os"
    "client_own own (dispatch_put cl) (es @ [CPut]) os"
    "client_own own cl (es @ [e]) os"
proof -
  have base: "all_entries (\<lambda>i ch. ch < length (cl_chans cl) \<and> own ch = i) (cl_waiters cl)"
    "\<forall>ch < length (cl_chans cl). \<forall>body \<in> set (cl_chans cl ! ch). arrived_frame (es @ es') (own ch) body"
    "\<forall>ch body. cl_hand cl = Some (ch, body) \<longrightarrow> ch < length (cl_chans cl) \<and> arrived_frame (es @ es') (own ch) body"
    for es' using h by (auto simp: client_own_def arrived_frame_mono)
  show idle: "client_own own cl (es @ [e]) os" for e
    by (rule client_own_quiet [OF h refl refl refl base])
  show "client_own own (dispatch_put cl) (es @ [CPut]) os"
  proof (cases "cl_hand cl")
    case None
    then show ?thesis using idle by (simp add: dispatch_put_def)
  next
    case (Some x)
    obtain ch body where x: "x = (ch, body)" by (cases x)
    then have "ch < length (cl_chans cl)" "arrived_frame (es @ [CPut]) (own ch) body" using base(3) Some by blast+
    then show ?thesis
      by (intro client_own_quiet [OF h]) (use Some x base in \<open>auto simp: dispatch_put_def nth_list_update\<close>)
  qed
  assume none: "cl_hand cl = None"
  show "client_own own (dispatch_take cl src frame) (es @ [CFrame src frame]) os"
  proof (cases "\<exists>i body ch. decode_frame frame = Some (i, body) \<and> map_of (cl_waiters cl) i = Some ch")
    case True
    then obtain i body ch where f: "decode_frame frame = Some (i, body)" "map_of (cl_waiters cl) i = Some ch" by blast
    have "ch < length (cl_chans cl)" "own ch = i" using all_entriesD [OF base(1) f(2)] by simp_all
    moreover have "arrived_frame (es @ [CFrame src frame]) i body"
      using f(1) by (auto simp: arrived_frame_def decode_frame_Some)
    ultimately show ?thesis
      by (intro client_own_quiet [OF h]) (use f base in \<open>auto simp: dispatch_take_def all_entries_delete\<close>)
  next
    case False
    then have "dispatch_take cl src frame = cl"
      by (auto simp: dispatch_take_def split: option.splits)
    then show ?thesis using idle by simp
  qed
qed

lemma client_step_hist:
  "client_hist cl es os \<Longrightarrow> client_step cl e = Inr (cl', os') \<Longrightarrow> client_hist cl' (es @ [e]) (os @ os')"
proof -
  assume "client_hist cl es os" and st: "client_step cl e = Inr (cl', os')"
  then obtain own where h: "client_own own cl es os" by (auto simp: client_hist_def)
  show "client_hist cl' (es @ [e]) (os @ os')"
  proof (cases e)
    case (CCall server payload mx)
    with st call_begin_hist [OF h] show ?thesis by (auto simp: client_hist_def)
  next
    case (CProceed n sent)
    have "client_hist cl (es @ [e]) os" unfolding client_hist_def using dispatch_hist(3) [OF h] by blast
    with CProceed st call_step_hist [OF h] show ?thesis by (auto split: if_splits)
  next
    case (CFrame src frame)
    with st dispatch_hist(1,3) [OF h] show ?thesis by (auto simp: client_hist_def split: if_splits)
  next
    case CPut
    with st dispatch_hist(2) [OF h] show ?thesis by (auto simp: client_hist_def)
  qed
qed

interpretation cli: history client_step client_hist
  by unfold_locales (rule client_step_hist)

lemma client_hist_new: "client_hist client_new [] []"
  by (simp add: client_hist_def client_own_def client_new_def)

lemma client_runs: "\<exists>cl' os. run_steps client_step cl es = Inr (cl', os)"
proof (induction es arbitrary: cl)
  case (Cons e es)
  have "\<exists>r. client_step cl e = Inr r" by (cases e) auto
  then obtain cl1 os1 where s: "client_step cl e = Inr (cl1, os1)" by auto
  from Cons [of cl1] obtain cl2 os2 where "run_steps client_step cl1 es = Inr (cl2, os2)" by blast
  with s show ?case by simp
qed simp

section \<open>A request whose handler panicked\<close>

text \<open>The thread does not work for the key; the key is taken in the map but no thread works for it.\<close>

fun free_of :: "msg_key \<Rightarrow> worker \<Rightarrow> bool" where
  "free_of k (Replaying src resp) = True"
| "free_of k (Working src i body) = ((src, i) \<noteq> k)"
| "free_of k (Responding src i resp) = ((src, i) \<noteq> k)"
| "free_of k (Storing src i resp) = ((src, i) \<noteq> k)"
| "free_of k Ended = True"

definition stuck :: "msg_key \<Rightarrow> server \<Rightarrow> bool" where
  "stuck k sv \<longleftrightarrow> map_of (sv_dedup sv) k = Some None \<and> list_all (free_of k) (sv_workers sv)"

lemma free_of_replace: "list_all P ws \<Longrightarrow> P w \<Longrightarrow> list_all P (ws[n := w])"
  using set_update_subset_insert [of ws n w] by (auto simp: list_all_iff)

lemma stuck_step:
  assumes s: "stuck k sv" and st: "server_step sv e = Inr (sv', os)"
  shows "stuck k sv' \<and> k \<notin> set (invoked os)"
proof (cases e)
  case (SRequest src frame)
  with s st show ?thesis
    by (auto simp: stuck_def serve_def update_conv' split: option.splits)
next
  case (SWorker n rb)
  show ?thesis
  proof (cases "n < length (sv_workers sv)")
    case True
    then have w: "work sv n rb = (sv', os)" using SWorker st by simp
    have "free_of k (sv_workers sv ! n)" using s True by (simp add: stuck_def list_all_length)
    with s w show ?thesis
      by (cases "sv_workers sv ! n"; cases rb) (auto simp: work_def stuck_def update_conv' free_of_replace)
  qed (use SWorker st s in auto)
qed

lemma stuck_run: "stuck k sv \<Longrightarrow> run_steps server_step sv es = Inr (sv', os) \<Longrightarrow> stuck k sv' \<and> k \<notin> set (invoked os)"
proof (induction es arbitrary: sv os)
  case (Cons e es)
  from Cons.prems(2) obtain sv1 o1 o2 where s: "server_step sv e = Inr (sv1, o1)"
    "run_steps server_step sv1 es = Inr (sv', o2)" "os = o1 @ o2"
    by (auto simp: bind_res_Inr_iff)
  from stuck_step [OF Cons.prems(1) s(1)] Cons.IH [OF _ s(2)] s(3) show ?case by auto
qed simp

lemma answers_invoked: "answers os k resp \<Longrightarrow> k \<in> set (invoked os)"
proof -
  have "Invoked src i body rb \<in> set os \<Longrightarrow> (src, i) \<in> set (invoked os)" for src i body rb
    by (induction os rule: invoked.induct) auto
  then show "answers os k resp \<Longrightarrow> k \<in> set (invoked os)" by (cases k) (auto simp: answers_def)
qed

lemma panic_stuck:
  assumes h: "server_hist sv es os" and n: "n < length (sv_workers sv)" and w: "sv_workers sv ! n = Working src i body"
  shows "stuck (src, i) (fst (work sv n None))" "(src, i) \<notin> set (invoked os)"
proof -
  have ok: "worker_ok (requested es) os es (sv_workers sv ! m)" if "m < length (sv_workers sv)" for m
    using h that by (simp add: server_hist_def)
  from ok [OF n] w show new: "(src, i) \<notin> set (invoked os)" by (simp add: worker_ok_def)
  have "(src, i) \<in> requested es" using ok [OF n] w by (simp add: worker_ok_def)
  then have "map_of (sv_dedup sv) (src, i) \<noteq> None" using h by (simp add: server_hist_def map_of_eq_None_iff)
  moreover have "map_of (sv_dedup sv) (src, i) \<noteq> Some (Some resp)" for resp
    using h new answers_invoked [of os "(src, i)" resp] by (auto simp: server_hist_def dest: all_entriesD)
  ultimately have d: "map_of (sv_dedup sv) (src, i) = Some None" by (metis not_None_eq)
  have "working_key (sv_workers sv ! n) = Some (src, i)" by (simp add: w)
  then have other: "working_key (sv_workers sv ! m) \<noteq> Some (src, i)" if "m < length (sv_workers sv)" "m \<noteq> n" for m
    using h n that unfolding server_hist_def by (metis linorder_neqE_nat)
  have "free_of (src, i) ((sv_workers sv)[n := Ended] ! m)" if m: "m < length (sv_workers sv)" for m
  proof (cases "m = n")
    case False
    with other [OF m False] ok [OF m] new answers_invoked [of os "(src, i)"] show ?thesis
      by (cases "sv_workers sv ! m") (auto simp: worker_ok_def)
  qed (use n in simp)
  then show "stuck (src, i) (fst (work sv n None))" using d by (simp add: work_def w stuck_def list_all_length)
qed

section \<open>Properties\<close>

text \<open>
  RPC frames round trip: a frame decodes to an id and a body exactly when it is their
  encoding, and fails to decode exactly when it is shorter than its header.
\<close>

lemma frame_round_trip:
  "(decode_frame f = Some (i, body) \<longleftrightarrow> f = encode_frame i body) \<and> (decode_frame f = None \<longleftrightarrow> length f < RPC_HDR)"
  using decode_frame_Some by (auto simp: decode_frame_def)

text \<open>
  C36: The server runs the handler at most once per client and rpc id, however often and in
  whatever interleaving requests are repeated; everything it sends is a response that the handler
  computed for that client, under the id of the request it was computed for, and every invocation
  is for a request that arrived.
\<close>

theorem handler_runs_at_most_once:
  assumes "run_steps server_step server_new es = Inr (sv, os)"
  shows "distinct (invoked os)
    \<and> (\<forall>src resp. SendTo src resp \<in> set os \<longrightarrow>
          (\<exists>i body rb. resp = encode_frame i rb \<and> Invoked src i body rb \<in> set os))
    \<and> (\<forall>src i body rb. Invoked src i body rb \<in> set os \<longrightarrow> SRequest src (encode_frame i body) \<in> set es)"
  using srv.run_hist [OF server_hist_new assms] by (fastforce simp: server_hist_def answers_def)

theorem handler_runs_at_most_once_witness:
  "let c = localhost 5; f = encode_frame 1 [7];
       es = [SRequest c f, SRequest c f, SWorker 0 (Some [8]), SRequest c f, SWorker 0 (Some []), SWorker 0 (Some []),
             SRequest c f, SWorker 1 (Some [])]
   in \<exists>sv os. run_steps server_step server_new es = Inr (sv, os) \<and> distinct (invoked os)
     \<and> SendTo c (encode_frame 1 [8]) \<in> set os
     \<and> (\<exists>i body rb. encode_frame 1 [8] = encode_frame i rb \<and> Invoked c i body rb \<in> set os)"
proof -
  let ?c = "localhost 5" and ?f = "encode_frame 1 [7]"
  let ?es = "[SRequest ?c ?f, SRequest ?c ?f, SWorker 0 (Some [8]), SRequest ?c ?f, SWorker 0 (Some []), SWorker 0 (Some []),
             SRequest ?c ?f, SWorker 1 (Some [])]"
  obtain sv os where r: "run_steps server_step server_new ?es = Inr (sv, os)" using server_runs by blast
  have "SendTo ?c (encode_frame 1 [8]) \<in> set (snd (projr (run_steps server_step server_new ?es)))" by code_simp
  then have "SendTo ?c (encode_frame 1 [8]) \<in> set os" using r by simp
  with handler_runs_at_most_once [OF r] r show ?thesis unfolding Let_def by blast
qed

text \<open>
  The deduplication map is never emptied: after any run its keys are exactly those of all
  requests that ever arrived.
\<close>

lemma dedup_never_evicts:
  assumes "run_steps server_step server_new es = Inr (sv, os)"
  shows "set (hm_keys (sv_dedup sv)) = {(src, i). \<exists>body. SRequest src (encode_frame i body) \<in> set es}"
  using srv.run_hist [OF server_hist_new assms] by (simp add: server_hist_def requested_def)

text \<open>
  A handler that panics poisons its request: the placeholder stays in the map, so the request
  is never computed again and never answered, however often the client repeats it.
\<close>

lemma panicked_request_is_never_answered:
  assumes "run_steps server_step server_new es = Inr (sv, os)" "n < length (sv_workers sv)"
    "sv_workers sv ! n = Working src i body" "run_steps server_step sv (SWorker n None # es') = Inr (sv', os')"
  shows "(src, i) \<notin> set (invoked (os @ os')) \<and> SendTo src (encode_frame i rb) \<notin> set (os @ os')"
proof -
  have h: "server_hist sv es os" using srv.run_hist [OF server_hist_new assms(1)] by simp
  note p = panic_stuck [OF h assms(2,3)]
  have w: "work sv n None = (fst (work sv n None), [])" using assms(3) by (simp add: work_def)
  then have "server_step sv (SWorker n None) = Inr (fst (work sv n None), [])" using assms(2) by simp
  then have "run_steps server_step (fst (work sv n None)) es' = Inr (sv', os')"
    using assms(4) by (auto simp: bind_res_Inr_iff)
  with stuck_run [OF p(1)] p(2) have new: "(src, i) \<notin> set (invoked (os @ os'))" by auto
  have h': "server_hist sv' (es @ SWorker n None # es') (os @ os')" by (rule srv.run_hist [OF h assms(4)])
  have "SendTo src (encode_frame i rb) \<notin> set (os @ os')"
  proof
    assume "SendTo src (encode_frame i rb) \<in> set (os @ os')"
    then obtain j where a: "answers (os @ os') (src, j) (encode_frame i rb)"
      using h' unfolding server_hist_def by blast
    then obtain rb' where "encode_frame i rb = encode_frame j rb'" by (auto simp: answers_def)
    then have "j = i" by (metis decode_encode_frame option.inject prod.inject)
    with a answers_invoked new show False by blast
  qed
  with new show ?thesis by blast
qed

lemma panicked_request_is_never_answered_witness:
  "let c = localhost 5; f = encode_frame 1 [7]; retries = replicate 4 (SRequest c f)
   in \<exists>sv' os'. run_steps server_step (fst (projr (run_steps server_step server_new [SRequest c f]))) (SWorker 0 None # retries) = Inr (sv', os')
     \<and> (c, 1) \<notin> set (invoked ([] @ os')) \<and> SendTo c (encode_frame 1 [9]) \<notin> set ([] @ os')"
proof -
  let ?c = "localhost 5" and ?f = "encode_frame 1 [7]"
  let ?sv = "fst (projr (run_steps server_step server_new [SRequest ?c ?f]))"
  have r: "run_steps server_step server_new [SRequest ?c ?f] = Inr (?sv, [])" by simp
  have w: "0 < length (sv_workers ?sv)" "sv_workers ?sv ! 0 = Working ?c 1 [7]" by code_simp+
  obtain sv' os' where r': "run_steps server_step ?sv (SWorker 0 None # replicate 4 (SRequest ?c ?f)) = Inr (sv', os')"
    using server_runs by blast
  from panicked_request_is_never_answered [OF r w r'] r' show ?thesis unfolding Let_def by blast
qed

text \<open>
  C37: What a call returns: over any run and any interleaving of calls, dispatcher and retries, a
  call returns at most once, and under its own id; a body only if a frame with that id and body
  reached the dispatcher; an error only if its \<open>send_to\<close> failed with it, or the time-out error
  after all attempts; and no call sends its frame more often than its attempts allow.
\<close>

theorem client_call_outcome:
  assumes "run_steps client_step client_new es = Inr (cl, os)"
  shows "(\<forall>n i r. CallReturned n i r \<in> set os \<longrightarrow> i = word_of_nat (Suc n) \<and> returns_of n os = 1
      \<and> n < length (cl_calls cl) \<and> (case r of
          Inr body \<Rightarrow> \<exists>src. CFrame src (encode_frame i body) \<in> set es
        | Inl e \<Rightarrow> CProceed n (SendFailed e) \<in> set es
            \<or> e = rpc_timeout i (rc_max (cl_calls cl ! n)) \<and> sends_of n os = max (rc_max (cl_calls cl ! n)) 1))
    \<and> (\<forall>n < length (cl_calls cl). sends_of n os \<le> max (rc_max (cl_calls cl ! n)) 1)"
proof -
  obtain own where h: "client_own own cl es os"
    using cli.run_hist [OF client_hist_new assms] by (auto simp: client_hist_def)
  have ok: "rpc_call_ok own (length (cl_chans cl)) es os n (cl_calls cl ! n)" if "n < length (cl_calls cl)" for n
    using h that by (simp add: client_own_def)
  have ret: "i = word_of_nat (Suc n) \<and> returns_of n os = 1 \<and> n < length (cl_calls cl)
      \<and> return_ok es os n (cl_calls cl ! n) r \<and> i = rc_id (cl_calls cl ! n)" if "CallReturned n i r \<in> set os" for n i r
  proof -
    have n: "n < length (cl_calls cl)" "i = rc_id (cl_calls cl ! n)" "return_ok es os n (cl_calls cl ! n) r"
      using h that by (auto simp: client_own_def)
    have "returns_of n os \<noteq> 0" using that returns_of_none [of n os] by blast
    then have "returns_of n os = 1" using ok [OF n(1)] by (auto simp: rpc_call_ok_def split: stage.splits)
    moreover have "i = word_of_nat (Suc n)" using ok [OF n(1)] n(2) by (simp add: rpc_call_ok_def)
    ultimately show ?thesis using n by blast
  qed
  have "sends_of n os \<le> max (rc_max (cl_calls cl ! n)) 1" if "n < length (cl_calls cl)" for n
    using ok [OF that] by (auto simp: rpc_call_ok_def attempts_def split: stage.splits)
  moreover have "case r of Inr body \<Rightarrow> \<exists>src. CFrame src (encode_frame i body) \<in> set es
      | Inl e \<Rightarrow> CProceed n (SendFailed e) \<in> set es
          \<or> e = rpc_timeout i (rc_max (cl_calls cl ! n)) \<and> sends_of n os = max (rc_max (cl_calls cl ! n)) 1"
    if "CallReturned n i r \<in> set os" for n i r
    using ret [OF that] by (cases r) (auto simp: return_ok_def arrived_frame_def attempts_def)
  ultimately show ?thesis using ret by blast
qed

theorem client_call_outcome_witness:
  "let s = localhost 5;
       es = [CCall s [7] 2, CProceed 0 Sent, CProceed 0 Sent, CProceed 0 Sent, CProceed 0 Sent, CProceed 0 Sent,
             CFrame s (encode_frame 1 [8]), CPut, CProceed 0 Sent]
   in \<exists>cl os. run_steps client_step client_new es = Inr (cl, os) \<and> CallReturned 0 1 (Inr [8]) \<in> set os
     \<and> returns_of 0 os = 1 \<and> (\<exists>src. CFrame src (encode_frame 1 [8]) \<in> set es)
     \<and> sends_of 0 os \<le> max (rc_max (cl_calls cl ! 0)) 1"
proof -
  let ?s = "localhost 5"
  let ?es = "[CCall ?s [7] 2, CProceed 0 Sent, CProceed 0 Sent, CProceed 0 Sent, CProceed 0 Sent, CProceed 0 Sent,
             CFrame ?s (encode_frame 1 [8]), CPut, CProceed 0 Sent]"
  obtain cl os where r: "run_steps client_step client_new ?es = Inr (cl, os)" using client_runs by blast
  have "CallReturned 0 1 (Inr [8]) \<in> set (snd (projr (run_steps client_step client_new ?es)))" by code_simp
  then have c: "CallReturned 0 1 (Inr [8]) \<in> set os" using r by simp
  note o = client_call_outcome [OF r]
  have "returns_of 0 os = 1 \<and> (\<exists>src. CFrame src (encode_frame 1 [8]) \<in> set ?es) \<and> 0 < length (cl_calls cl)"
    using conjunct1 [OF o, rule_format, OF c] by (simp only: sum.case simp_thms)
  moreover from this have "sends_of 0 os \<le> max (rc_max (cl_calls cl ! 0)) 1" using conjunct2 [OF o] by blast
  ultimately show ?thesis using c r unfolding Let_def by blast
qed

text \<open>
  The client does not check where a response comes from: a frame from any address that
  carries the id of a pending call, and ids count up from 1, becomes the result of the call.
\<close>

lemma forged_response_is_returned:
  "\<exists>cl. run_steps client_step client_new
     [CCall server payload mx, CProceed 0 Sent, CProceed 0 Sent, CFrame attacker (encode_frame 1 body), CPut, CProceed 0 Sent]
   = Inr (cl, [CallSend 0 server (encode_frame 1 payload), CallReturned 0 1 (Inr body)])"
  by (simp add: client_new_def call_begin_def call_step_def dispatch_take_def dispatch_put_def Let_def)

text \<open>
  A call whose \<open>send_to\<close> fails returns at once with that error, without the remaining
  attempts, and leaves its waiter registered for ever.
\<close>

lemma failed_send_leaks_waiter:
  "\<exists>cl. run_steps client_step client_new [CCall server payload mx, CProceed 0 Sent, CProceed 0 (SendFailed e)]
     = Inr (cl, [CallSend 0 server (encode_frame 1 payload), CallReturned 0 1 (Inl e)])
   \<and> map rc_stage (cl_calls cl) = [Done] \<and> map_of (cl_waiters cl) 1 = Some 0"
  by (simp add: client_new_def call_begin_def call_step_def Let_def)

end
