(* ===== verification/Alignment.thy ===== *)
theory Alignment
  imports Sender Delivery
begin

text \<open>
  When do sender and receiver agree on where chunks begin? The sender cuts a message at multiples
  of the packet size, unless a RESEND that ends inside a chunk moves its position there; the
  receiver asks for ranges that end at what it has granted. This theory gives the condition on
  configuration and message under which the position of the sender stays at chunk boundaries, as
  an invariant of each of the two state machines that the other one's packets maintain.

  In both, \<open>L\<close> gives the messages by key and \<open>S\<close> is the set of chunks sent so far.
\<close>

section \<open>Chunks as the sender cuts them\<close>

definition chunk_frag :: "nat \<Rightarrow> bytes \<Rightarrow> u64 \<Rightarrow> nat \<Rightarrow> bytes" where
  "chunk_frag ps D mid i = frag D mid (i * ps) (chunk_end ps (length D) (i * ps))"

text \<open>A position is at a chunk boundary or at the end of the message.\<close>

definition at_chunk :: "nat \<Rightarrow> nat \<Rightarrow> nat \<Rightarrow> bool" where
  "at_chunk ps len x \<longleftrightarrow> x mod ps = 0 \<or> x = len"

text \<open>The actions send chunks that start before \<open>x\<close>; \<open>is\<close> are their indices.\<close>

definition sends_chunks :: "nat \<Rightarrow> sockaddr \<Rightarrow> bytes \<Rightarrow> u64 \<Rightarrow> nat \<Rightarrow> action list \<Rightarrow> nat list \<Rightarrow> bool" where
  "sends_chunks ps dest D mid x as is \<longleftrightarrow>
     as = map (\<lambda>i. Send dest (chunk_frag ps D mid i)) is \<and> (\<forall>i \<in> set is. i * ps < x)"

lemma pump_chunks:
  assumes ps: "0 < ps" and le: "limit \<le> length D" "ns \<le> length D" and ns: "at_chunk ps (length D) ns"
  shows "sends_chunks ps dest D mid (pump_end ps (length D) limit ns) (pump_frags ps dest mid D limit ns)
      (map (\<lambda>i. ns div ps + i) [0..<chunk_count ps limit ns])"
    "at_chunk ps (length D) (pump_end ps (length D) limit ns)"
proof -
  let ?e = "pump_end ps (length D) limit ns" and ?k = "chunk_count ps limit ns"
  have al: "ns = ns div ps * ps" if "ns < limit"
    using ns that le by (auto simp: at_chunk_def)
  show "at_chunk ps (length D) ?e"
  proof (cases "ns < limit")
    case True
    then have "(ns + ?k * ps) mod ps = 0" using al by (metis mod_mult_self1 mod_mult_self2_is_0)
    with True show ?thesis by (auto simp: at_chunk_def pump_end_def min_def)
  qed (use ns in \<open>simp add: pump_end_def\<close>)
  show "sends_chunks ps dest D mid ?e (pump_frags ps dest mid D limit ns) (map (\<lambda>i. ns div ps + i) [0..<?k])"
  proof (cases "ns < limit")
    case True
    have idx: "ns + i * ps = (ns div ps + i) * ps" for i using al [OF True] by (simp add: add_mult_distrib)
    have "limit \<le> ?e" using pump_end_bounds(2) [OF ps le] .
    then have lt: "ns + i * ps < ?e" if "i < ?k" for i using that chunk_count_le_iff [OF ps, of i limit ns] by simp
    show ?thesis
      unfolding sends_chunks_def
    proof (intro conjI ballI)
      show "pump_frags ps dest mid D limit ns = map (\<lambda>i. Send dest (chunk_frag ps D mid i)) (map (\<lambda>i. ns div ps + i) [0..<?k])"
        by (simp add: pump_frags_def chunk_frag_def idx)
      fix i assume "i \<in> set (map (\<lambda>i. ns div ps + i) [0..<?k])"
      then obtain j where "j \<in> set [0..<?k]" "i = ns div ps + j" unfolding set_map by blast
      with lt [of j] show "i * ps < ?e" by (simp add: idx)
    qed
  next
    case False
    then show ?thesis using ps by (simp add: sends_chunks_def pump_frags_def)
  qed
qed

lemma resend_chunks:
  assumes ps: "0 < ps" and le: "en \<le> length D"
  shows "\<exists>is. sends_chunks ps src D mid en (resend_frags ps src mid D st en) is"
proof (cases "st < en")
  case True
  let ?is = "[st div ps ..< Suc ((en - 1) div ps)]"
  have "i * ps < en" if "i \<in> set ?is" for i
  proof -
    have "i \<le> (en - 1) div ps" using that by auto
    then have "i * ps \<le> (en - 1) div ps * ps" by (rule mult_le_mono1)
    also have "\<dots> \<le> en - 1" by simp
    finally show ?thesis using True by simp
  qed
  then show ?thesis using True unfolding sends_chunks_def
    by (intro exI [of _ ?is]) (simp add: resend_frags_def chunk_frag_def del: upt_Suc)
qed (auto simp: sends_chunks_def resend_frags_def)

lemma probe_chunks:
  assumes "0 < om_next_send m"
  shows "sends_chunks ps (fst k) (om_data m) (snd k) (om_next_send m) [probe ps k m] [(om_next_send m - 1) div ps]"
proof -
  have "(om_next_send m - 1) div ps * ps \<le> om_next_send m - 1" by simp
  then have "(om_next_send m - 1) div ps * ps < om_next_send m" using assms by linarith
  then show ?thesis by (simp add: sends_chunks_def probe_def probe_at_def chunk_frag_def)
qed

text \<open>What the receiver makes of a chunk datagram.\<close>

lemma decode_chunk:
  assumes "0 < ps" "i * ps < length D" "length D < 2 ^ 32"
  obtains pkt payload where "decode (chunk_frag ps D mid i) = Inr (pkt, payload)" "pkt_typ pkt = Data"
    "pkt_msg_id pkt = mid" "unat (pkt_offset pkt) div ps = i" "carries ps D pkt payload"
proof -
  let ?s = "i * ps" and ?e = "chunk_end ps (length D) (i * ps)"
  let ?p = "packet_new Data (priority_for_len (length D)) mid (as_u32 (length D)) (as_u32 ?s) (as_u32 (?e - ?s))"
  let ?d = "take (?e - ?s) (drop ?s D)"
  have e: "?s < ?e" "?e \<le> length D" using assms by (simp_all add: chunk_end_def)
  then have u: "unat (as_u32 ?s) = ?s" "unat (as_u32 (?e - ?s)) = ?e - ?s" "unat (as_u32 (length D)) = length D"
    using assms(3) by (simp_all only: unat_as_u32)
  have "wire_ok ?p ?d" using e by (simp add: wire_ok_def u)
  then have "decode (chunk_frag ps D mid i) = Inr (?p, ?d)"
    by (simp add: chunk_frag_def frag_def decode_encode_id)
  moreover have "carries ps D ?p ?d" using assms(2) by (simp add: carries_def u)
  ultimately show thesis using assms(1) by (intro that [of ?p ?d]) (simp_all add: u)
qed

section \<open>The condition\<close>

definition fits_window :: "transport_config \<Rightarrow> bytes \<Rightarrow> bool" where
  "fits_window cfg D \<longleftrightarrow> length D \<le> unscheduled_bytes cfg"

definition aligned_windows :: "transport_config \<Rightarrow> bool" where
  "aligned_windows cfg \<longleftrightarrow> 0 < unscheduled_bytes cfg
     \<and> packet_size cfg dvd unscheduled_bytes cfg \<and> packet_size cfg dvd grant_increment cfg"

text \<open>The messages for which the transport is safe.\<close>

definition safe_msg :: "transport_config \<Rightarrow> bytes \<Rightarrow> bool" where
  "safe_msg cfg D \<longleftrightarrow> length D < 2 ^ 32 \<and> (fits_window cfg D \<or> aligned_windows cfg)"

text \<open>The last chunk of a message has been sent.\<close>

definition last_sent :: "nat \<Rightarrow> (msg_key \<times> nat) set \<Rightarrow> msg_key \<Rightarrow> bytes \<Rightarrow> bool" where
  "last_sent ps S k D \<longleftrightarrow> (\<exists>i. (k, i) \<in> S \<and> length D \<le> i * ps + ps)"

text \<open>A position at which it does no harm to end a RESEND.\<close>

definition settled :: "nat \<Rightarrow> (msg_key \<times> nat) set \<Rightarrow> msg_key \<Rightarrow> bytes \<Rightarrow> nat \<Rightarrow> bool" where
  "settled ps S k D x \<longleftrightarrow> at_chunk ps (length D) x \<or> last_sent ps S k D"

lemma last_sent_mono: "last_sent ps S k D \<Longrightarrow> S \<subseteq> S' \<Longrightarrow> last_sent ps S' k D"
  by (auto simp: last_sent_def)

lemma settled_mono: "settled ps S k D x \<Longrightarrow> S \<subseteq> S' \<Longrightarrow> settled ps S' k D x"
  by (auto simp: settled_def intro: last_sent_mono)

text \<open>The chunks sent are chunks of safe messages, and a short message is sent in one go.\<close>

definition log_ok :: "transport_config \<Rightarrow> (msg_key \<Rightarrow> bytes option) \<Rightarrow> (msg_key \<times> nat) set \<Rightarrow> bool" where
  "log_ok cfg L S \<longleftrightarrow> (\<forall>k D. L k = Some D \<longrightarrow> safe_msg cfg D)
     \<and> (\<forall>k i. (k, i) \<in> S \<longrightarrow> (\<exists>D. L k = Some D \<and> i * packet_size cfg < length D
          \<and> (fits_window cfg D \<longrightarrow> last_sent (packet_size cfg) S k D)))"

section \<open>The sender\<close>

definition chunk_act :: "nat \<Rightarrow> (msg_key \<Rightarrow> bytes option) \<Rightarrow> (msg_key \<times> nat) set \<Rightarrow> action \<Rightarrow> bool" where
  "chunk_act ps L S a \<longleftrightarrow> (\<exists>k i D. L k = Some D \<and> (k, i) \<in> S \<and> a = Send (fst k) (chunk_frag ps D (snd k) i))"

definition out_aligned :: "transport_config \<Rightarrow> (msg_key \<Rightarrow> bytes option) \<Rightarrow> (msg_key \<times> nat) set \<Rightarrow> msg_key \<Rightarrow> out_msg \<Rightarrow> bool" where
  "out_aligned cfg L S k m \<longleftrightarrow> L k = Some (om_data m)
     \<and> at_chunk (packet_size cfg) (length (om_data m)) (om_next_send m)
     \<and> (om_data m \<noteq> [] \<longrightarrow> 0 < om_next_send m)
     \<and> (\<forall>i. (k, i) \<in> S \<longrightarrow> i * packet_size cfg < om_next_send m)
     \<and> (fits_window cfg (om_data m) \<and> om_data m \<noteq> [] \<longrightarrow> last_sent (packet_size cfg) S k (om_data m))"

definition sender_aligned :: "transport_config \<Rightarrow> (msg_key \<Rightarrow> bytes option) \<Rightarrow> (msg_key \<times> nat) set \<Rightarrow> sender_core \<Rightarrow> bool" where
  "sender_aligned cfg L S s \<longleftrightarrow> sender_inv s \<and> s_cfg s = cfg \<and> log_ok cfg L S \<and> all_entries (out_aligned cfg L S) (s_out s)"

definition aligned_result :: "transport_config \<Rightarrow> (msg_key \<Rightarrow> bytes option) \<Rightarrow> (msg_key \<times> nat) set \<Rightarrow> (fault + (sender_core \<times> action list)) \<Rightarrow> bool" where
  "aligned_result cfg L S res \<longleftrightarrow> (\<exists>s' as S'. res = Inr (s', as) \<and> S \<subseteq> S' \<and> sender_aligned cfg L S' s'
     \<and> list_all (chunk_act (packet_size cfg) L S') as)"

lemma aligned_resultI:
  "S \<subseteq> S' \<Longrightarrow> sender_aligned cfg L S' s' \<Longrightarrow> list_all (chunk_act (packet_size cfg) L S') as \<Longrightarrow>
     aligned_result cfg L S (Inr (s', as))"
  unfolding aligned_result_def by blast

lemma chunk_act_mono: "chunk_act ps L S a \<Longrightarrow> S \<subseteq> S' \<Longrightarrow> chunk_act ps L S' a"
  unfolding chunk_act_def by blast

lemma at_chunk_last:
  assumes "at_chunk ps len ns" "i * ps < ns" "len \<le> i * ps + ps" "ns \<le> len"
  shows "ns = len"
proof (rule ccontr)
  assume "ns \<noteq> len"
  then have "ns mod ps = 0" using assms(1) by (simp add: at_chunk_def)
  then obtain q where q: "ns = q * ps" by (metis mod_eq_0_iff_dvd dvd_def mult.commute)
  then have "i < q" using assms(2) by (metis mult_less_cancel2)
  then have "Suc i * ps \<le> q * ps" by (intro mult_le_mono1) simp
  with q assms(3,4) \<open>ns \<noteq> len\<close> show False by simp
qed

lemma out_aligned_last:
  assumes "out_aligned cfg L S k m" "om_ok (packet_size cfg) m" "last_sent (packet_size cfg) S k (om_data m)"
  shows "om_next_send m = length (om_data m)"
proof -
  obtain i where "(k, i) \<in> S" "length (om_data m) \<le> i * packet_size cfg + packet_size cfg"
    using assms(3) by (auto simp: last_sent_def)
  with assms(1,2) show ?thesis
    by (intro at_chunk_last [of "packet_size cfg" _ _ i]) (auto simp: out_aligned_def om_ok_def)
qed

text \<open>
  An entry is written while chunks are sent that start before its new position.
\<close>

lemma aligned_put:
  assumes al: "sender_aligned cfg L S s" and D: "L k = Some (om_data m)" and ok: "om_ok (packet_size cfg) m"
    and at: "at_chunk (packet_size cfg) (length (om_data m)) (om_next_send m)"
    and old: "\<And>i. (k, i) \<in> S \<Longrightarrow> i * packet_size cfg < om_next_send m"
    and pos: "om_data m \<noteq> [] \<Longrightarrow> 0 < om_next_send m"
    and fit: "fits_window cfg (om_data m) \<Longrightarrow> om_data m \<noteq> [] \<Longrightarrow> last_sent (packet_size cfg) (S \<union> {k} \<times> set is) k (om_data m)"
    and c: "sends_chunks (packet_size cfg) (fst k) (om_data m) (snd k) (om_next_send m) as is"
  shows "sender_aligned cfg L (S \<union> {k} \<times> set is) (s\<lparr>s_out := AList.update k m (s_out s)\<rparr>)"
    "list_all (chunk_act (packet_size cfg) L (S \<union> {k} \<times> set is)) as"
proof -
  let ?S = "S \<union> {k} \<times> set is" and ?ps = "packet_size cfg" and ?D = "om_data m"
  have sub: "S \<subseteq> ?S" by blast
  have bound: "i * ?ps < om_next_send m" if "(k, i) \<in> ?S" for i using c that old by (auto simp: sends_chunks_def)
  have le: "om_next_send m \<le> length ?D" using ok by (simp add: om_ok_def)
  have "log_ok cfg L ?S"
    unfolding log_ok_def
  proof (intro conjI allI impI)
    show "L k' = Some D' \<Longrightarrow> safe_msg cfg D'" for k' D'
      using al by (simp add: sender_aligned_def log_ok_def)
    fix k' i assume ki: "(k', i) \<in> ?S"
    show "\<exists>D'. L k' = Some D' \<and> i * ?ps < length D' \<and> (fits_window cfg D' \<longrightarrow> last_sent ?ps ?S k' D')"
    proof (cases "(k', i) \<in> S")
      case True
      with al obtain D' where "L k' = Some D'" "i * ?ps < length D'" "fits_window cfg D' \<longrightarrow> last_sent ?ps S k' D'"
        unfolding sender_aligned_def log_ok_def by blast
      with sub show ?thesis by (auto intro: last_sent_mono)
    next
      case False
      then have k: "k' = k" using ki by auto
      with bound [of i] ki le have "i * ?ps < length ?D" by simp
      moreover from this have "?D \<noteq> []" by auto
      ultimately show ?thesis using fit k D by auto
    qed
  qed
  moreover have "all_entries (out_aligned cfg L ?S) (AList.update k m (s_out s))"
    unfolding all_entries_def
  proof (intro allI impI)
    fix k' m' assume h: "map_of (AList.update k m (s_out s)) k' = Some m'"
    show "out_aligned cfg L ?S k' m'"
    proof (cases "k' = k")
      case True
      with h have "m' = m" by (simp add: update_conv')
      with D at pos bound fit True show ?thesis by (simp add: out_aligned_def)
    next
      case False
      with h al have "out_aligned cfg L S k' m'" by (auto simp: sender_aligned_def update_conv' dest: all_entriesD)
      with False sub show ?thesis by (auto simp: out_aligned_def intro: last_sent_mono)
    qed
  qed
  moreover have "sender_inv (s\<lparr>s_out := AList.update k m (s_out s)\<rparr>)"
    using al ok by (intro sender_inv_update) (auto simp: sender_aligned_def)
  ultimately show "sender_aligned cfg L ?S (s\<lparr>s_out := AList.update k m (s_out s)\<rparr>)"
    using al by (simp add: sender_aligned_def)
  show "list_all (chunk_act ?ps L ?S) as"
    using c D by (auto simp: sends_chunks_def chunk_act_def list_all_iff)
qed

lemma sender_aligned_entry:
  assumes "sender_aligned cfg L S s" "map_of (s_out s) k = Some m"
  shows "out_aligned cfg L S k m" "om_ok (packet_size cfg) m" "0 < packet_size cfg" "s_cfg s = cfg" "sender_inv s"
  using assms sender_inv_om [of s k m] sender_inv_ps [of s]
  by (auto simp: sender_aligned_def dest: all_entriesD)

text \<open>Every operation on a bound message advances its position and sends chunks before it.\<close>

lemma aligned_extend:
  assumes al: "sender_aligned cfg L S s" and m: "map_of (s_out s) k = Some m"
    and m': "om_data m' = om_data m" "om_ok (packet_size cfg) m'" "om_next_send m \<le> om_next_send m'"
      "at_chunk (packet_size cfg) (length (om_data m)) (om_next_send m')"
    and c: "sends_chunks (packet_size cfg) (fst k) (om_data m) (snd k) (om_next_send m') as is"
  shows "sender_aligned cfg L (S \<union> {k} \<times> set is) (s\<lparr>s_out := AList.update k m' (s_out s)\<rparr>)"
    "list_all (chunk_act (packet_size cfg) L (S \<union> {k} \<times> set is)) as"
proof -
  note e = sender_aligned_entry [OF al m]
  have "last_sent (packet_size cfg) (S \<union> {k} \<times> set is) k (om_data m')"
    if "fits_window cfg (om_data m')" "om_data m' \<noteq> []"
    using e(1) that m'(1) by (auto simp: out_aligned_def intro: last_sent_mono)
  moreover have "L k = Some (om_data m')" "at_chunk (packet_size cfg) (length (om_data m')) (om_next_send m')"
    "om_data m' \<noteq> [] \<Longrightarrow> 0 < om_next_send m'"
    "sends_chunks (packet_size cfg) (fst k) (om_data m') (snd k) (om_next_send m') as is"
    using e(1) m' c by (auto simp: out_aligned_def)
  moreover have "i * packet_size cfg < om_next_send m'" if "(k, i) \<in> S" for i
    using e(1) that m'(3) by (auto simp: out_aligned_def intro: less_le_trans)
  ultimately show "sender_aligned cfg L (S \<union> {k} \<times> set is) (s\<lparr>s_out := AList.update k m' (s_out s)\<rparr>)"
    "list_all (chunk_act (packet_size cfg) L (S \<union> {k} \<times> set is)) as"
    using aligned_put [OF al _ m'(2)] by blast+
qed

lemma aligned_extendI:
  assumes "sender_aligned cfg L S s" "map_of (s_out s) k = Some m" "om_data m' = om_data m"
    "om_ok (packet_size cfg) m'" "om_next_send m \<le> om_next_send m'"
    "at_chunk (packet_size cfg) (length (om_data m)) (om_next_send m')"
    "sends_chunks (packet_size cfg) (fst k) (om_data m) (snd k) (om_next_send m') as is"
  shows "aligned_result cfg L S (Inr (s\<lparr>s_out := AList.update k m' (s_out s)\<rparr>, as))"
  by (rule aligned_resultI [OF _ aligned_extend [OF assms]]) blast

lemma aligned_idle: "sender_aligned cfg L S s \<Longrightarrow> aligned_result cfg L S (Inr (s, []))"
  by (rule aligned_resultI) simp_all

lemma grant_aligned:
  assumes al: "sender_aligned cfg L S s"
  shows "aligned_result cfg L S (handle_grant s src pkt now)"
proof (cases "map_of (s_out s) (src, pkt_msg_id pkt)")
  case None
  with aligned_idle [OF al] show ?thesis by (simp add: handle_grant_def)
next
  case (Some m)
  note e = sender_aligned_entry [OF al Some]
  let ?g = "min (unat (pkt_offset pkt)) (length (om_data m))" and ?ps = "packet_size cfg"
  show ?thesis
  proof (cases "?g \<le> om_granted_to m \<or> om_done_at m \<noteq> None")
    case True
    then have "handle_grant s src pkt now = Inr (s, [])"
      using Some pump_done [OF Some, of ?g now] by (auto simp: handle_grant_def Let_def)
    with aligned_idle [OF al] show ?thesis by simp
  next
    case False
    then have nd: "om_done_at m = None" by simp
    have "0 < packet_size (s_cfg s)" using e(3,4) by simp
    note p = pump_eq [OF this Some nd, of ?g now, unfolded e(4)]
    have ns: "om_next_send m \<le> length (om_data m)" "at_chunk ?ps (length (om_data m)) (om_next_send m)"
      using e(1,2) by (simp_all add: om_ok_def out_aligned_def)
    have g: "min ?g (length (om_data m)) = ?g" "?g \<le> length (om_data m)" by simp_all
    note pc = pump_chunks [OF e(3) g(2) ns(1,2)]
    have nx: "om_next_send (om_pumped ?ps ?g now m) = pump_end ?ps (length (om_data m)) ?g (om_next_send m)"
      by (simp add: om_pumped_def Let_def)
    have "handle_grant s src pkt now = pump s (src, pkt_msg_id pkt) ?g now"
      using False Some by (simp add: handle_grant_def)
    also have "aligned_result cfg L S \<dots>"
      unfolding p
    proof (rule aligned_extendI [OF al Some])
      show "om_ok ?ps (om_pumped ?ps ?g now m)" by (rule om_pumped_ok [OF e(3,2) nd])
    qed (use pc pump_end_bounds [OF e(3) g(2) ns(1)] in \<open>simp_all add: nx g\<close>)
    finally show ?thesis .
  qed
qed

text \<open>A RESEND is harmless when the range it asks for ends at a settled position.\<close>

lemma resend_aligned:
  assumes al: "sender_aligned cfg L S s"
    and r: "\<And>m. map_of (s_out s) (src, pkt_msg_id pkt) = Some m \<Longrightarrow> settled (packet_size cfg) S (src, pkt_msg_id pkt) (om_data m)
      (min (min (unat (pkt_offset pkt)) (length (om_data m)) + unat (pkt_length pkt)) (length (om_data m)))"
  shows "aligned_result cfg L S (handle_resend s src pkt now)"
proof (cases "map_of (s_out s) (src, pkt_msg_id pkt)")
  case None
  with aligned_idle [OF al] show ?thesis by (simp add: handle_resend_def)
next
  case (Some m)
  note e = sender_aligned_entry [OF al Some]
  let ?ps = "packet_size cfg" and ?k = "(src, pkt_msg_id pkt)" and ?len = "length (om_data m)"
  define st where "st = min (unat (pkt_offset pkt)) ?len"
  define en where "en = min (st + unat (pkt_length pkt)) ?len"
  have len: "en \<le> ?len" by (simp add: en_def)
  have "0 < packet_size (s_cfg s)" using e(3,4) by simp
  note h = handle_resend_eq [OF this Some st_def en_def, of now, unfolded e(4)]
  obtain is0 where c: "sends_chunks ?ps src (om_data m) (pkt_msg_id pkt) en
      (resend_frags ?ps src (pkt_msg_id pkt) (om_data m) st en) is0"
    using resend_chunks [OF e(3) len] by blast
  have nx: "om_next_send (om_resent en now m) = max (om_next_send m) en" by (simp add: om_resent_def)
  have "at_chunk ?ps ?len (max (om_next_send m) en)"
  proof (cases "last_sent ?ps S ?k (om_data m)")
    case True
    then have "om_next_send m = ?len" by (rule out_aligned_last [OF e(1,2)])
    with len show ?thesis by (simp add: at_chunk_def)
  next
    case False
    then have "at_chunk ?ps ?len en" using r [OF Some] by (simp add: settled_def en_def st_def)
    moreover have "at_chunk ?ps ?len (om_next_send m)" using e(1) by (simp add: out_aligned_def)
    ultimately show ?thesis by (simp add: max_def)
  qed
  moreover have "sends_chunks ?ps src (om_data m) (pkt_msg_id pkt) (max (om_next_send m) en)
      (resend_frags ?ps src (pkt_msg_id pkt) (om_data m) st en) is0"
    using c by (auto simp: sends_chunks_def)
  ultimately show ?thesis
    unfolding h using om_resent_ok [OF e(2) len] by (intro aligned_extendI [OF al Some]) (simp_all add: nx)
qed

lemma busy_aligned:
  assumes al: "sender_aligned cfg L S s"
  shows "sender_aligned cfg L S (handle_busy s src pkt now)"
proof (cases "map_of (s_out s) (src, pkt_msg_id pkt)")
  case None
  with al show ?thesis by (simp add: handle_busy_def)
next
  case (Some m)
  note e = sender_aligned_entry [OF al Some]
  have "sender_aligned cfg L (S \<union> {(src, pkt_msg_id pkt)} \<times> set [])
      (s\<lparr>s_out := AList.update (src, pkt_msg_id pkt) (m\<lparr>om_last_progress := now\<rparr>) (s_out s)\<rparr>)"
    using e by (intro aligned_extend [OF al Some, where as = "[]"])
      (simp_all add: om_ok_def out_aligned_def sends_chunks_def)
  with Some show ?thesis by (simp add: handle_busy_def)
qed

lemma finish_aligned:
  assumes "sender_aligned cfg L S s"
  shows "sender_aligned cfg L S (finish s dest i)"
  using assms by (auto simp: sender_aligned_def sender_inv_def finish_def all_entries_delete distinct_delete)

lemma expire_aligned:
  assumes "sender_aligned cfg L S s"
  shows "sender_aligned cfg L S (expire s now)"
  using assms by (auto simp: sender_aligned_def sender_inv_def expire_def all_entries_filter hm_ok_filter)

lemma poke_aligned: "sender_aligned cfg L S s \<Longrightarrow> aligned_result cfg L S (poke_loop s keys now)"
proof (induction keys arbitrary: s S)
  case Nil
  then show ?case by (simp add: aligned_idle)
next
  case (Cons k keys)
  show ?case
  proof (cases "\<exists>m. map_of (s_out s) k = Some m \<and> stalled s now m")
    case False
    then have "poke_loop s (k # keys) now = poke_loop s keys now"
      by (intro poke_loop_skip) (cases "map_of (s_out s) k", auto)
    with Cons show ?thesis by simp
  next
    case True
    then obtain m where m: "map_of (s_out s) k = Some m" "stalled s now m" by blast
    note e = sender_aligned_entry [OF Cons.prems m(1)]
    let ?ps = "packet_size cfg" and ?m = "m\<lparr>om_last_progress := now\<rparr>"
    let ?s = "s\<lparr>s_out := AList.update k ?m (s_out s)\<rparr>" and ?S = "S \<union> {k} \<times> set [(om_next_send m - 1) div ?ps]"
    have "om_data m \<noteq> []" using e(2) m(2) by (auto simp: om_ok_def stalled_def)
    then have "0 < om_next_send m" using e(1) by (simp add: out_aligned_def)
    then have c: "sends_chunks ?ps (fst k) (om_data m) (snd k) (om_next_send ?m) [probe ?ps k m] [(om_next_send m - 1) div ?ps]"
      using probe_chunks by simp
    have ok: "om_data ?m = om_data m" "om_ok ?ps ?m" "om_next_send m \<le> om_next_send ?m"
      "at_chunk ?ps (length (om_data m)) (om_next_send ?m)"
      using e(1,2) by (simp_all add: om_ok_def out_aligned_def)
    note al = aligned_extend(1) [OF Cons.prems m(1) ok c]
    have a: "list_all (chunk_act ?ps L ?S) [probe ?ps k m]" by (rule aligned_extend(2) [OF Cons.prems m(1) ok c])
    from Cons.IH [OF al] obtain s' as S' where r: "poke_loop ?s keys now = Inr (s', as)" "?S \<subseteq> S'"
      "sender_aligned cfg L S' s'" "list_all (chunk_act ?ps L S') as"
      by (auto simp: aligned_result_def)
    have "poke_loop s (k # keys) now = Inr (s', probe ?ps k m # as)"
      using r(1) by (simp only: poke_loop_step [OF e(5) m] e(4) bind_res.simps prod.case)
    moreover have "list_all (chunk_act ?ps L S') (probe ?ps k m # as)"
      using a r(2,4) by (auto intro: chunk_act_mono)
    ultimately show ?thesis using r(2,3) by (auto intro: aligned_resultI)
  qed
qed

lemma sender_tick_aligned: "sender_aligned cfg L S s \<Longrightarrow> aligned_result cfg L S (sender_tick ord s now)"
  by (simp add: sender_tick_def Let_def poke_aligned expire_aligned)

text \<open>A new key may join the log.\<close>

lemma log_ok_fresh: "log_ok cfg L S \<Longrightarrow> L k = None \<Longrightarrow> (k, i) \<notin> S"
  unfolding log_ok_def by (metis option.distinct(1))

lemma sender_aligned_log:
  assumes al: "sender_aligned cfg L S s" and new: "L k = None" and safe: "safe_msg cfg D"
  shows "sender_aligned cfg (L(k \<mapsto> D)) S s"
proof -
  have lo: "log_ok cfg L S" using al by (simp add: sender_aligned_def)
  have "log_ok cfg (L(k \<mapsto> D)) S"
    unfolding log_ok_def
  proof (intro conjI allI impI)
    show "(L(k \<mapsto> D)) k' = Some D' \<Longrightarrow> safe_msg cfg D'" for k' D'
      using lo safe by (auto simp: log_ok_def split: if_splits)
    fix k' i assume "(k', i) \<in> S"
    moreover from this have "k' \<noteq> k" using log_ok_fresh [OF lo new] by auto
    ultimately show "\<exists>D'. (L(k \<mapsto> D)) k' = Some D' \<and> i * packet_size cfg < length D'
        \<and> (fits_window cfg D' \<longrightarrow> last_sent (packet_size cfg) S k' D')"
      using lo unfolding log_ok_def by (metis fun_upd_other)
  qed
  moreover have "out_aligned cfg (L(k \<mapsto> D)) S k' m" if "out_aligned cfg L S k' m" for k' m
    using that new by (auto simp: out_aligned_def)
  ultimately show ?thesis using al by (auto simp: sender_aligned_def all_entries_def)
qed

lemma start_aligned:
  assumes al: "sender_aligned cfg L S s" and new: "L (dest, mid) = None" and safe: "safe_msg cfg D"
  shows "aligned_result cfg (L((dest, mid) \<mapsto> D)) S (start s dest mid D now)"
proof -
  let ?L = "L((dest, mid) \<mapsto> D)" and ?k = "(dest, mid)" and ?ps = "packet_size cfg" and ?len = "length D"
  have cfg: "s_cfg s = cfg" and ps: "0 < ?ps" and lo: "log_ok cfg L S"
    using al sender_inv_ps [of s] by (auto simp: sender_aligned_def)
  let ?u = "min (unscheduled_bytes cfg) ?len" and ?m = "om_started cfg D now"
  have u: "?u \<le> ?len" "0 \<le> ?len" "at_chunk ?ps ?len 0" by (simp_all add: at_chunk_def)
  let ?is = "map (\<lambda>i. 0 div ?ps + i) [0..<chunk_count ?ps ?u 0]"
  note pc = pump_chunks(1) [OF ps u, of dest mid] pump_chunks(2) [OF ps u] and pb = pump_end_bounds [OF ps u(1,2)]
  have nx: "om_next_send ?m = pump_end ?ps ?len ?u 0" by (simp add: om_started_def Let_def)
  have pos: "0 < om_next_send ?m" if "D \<noteq> []"
  proof -
    have "0 < ?len" using that by simp
    moreover have "?len \<le> unscheduled_bytes cfg \<or> 0 < unscheduled_bytes cfg"
      using safe by (auto simp: safe_msg_def fits_window_def aligned_windows_def)
    ultimately have "0 < ?u" by linarith
    then show ?thesis unfolding nx using pb(2) by (rule less_le_trans)
  qed
  have fit: "last_sent ?ps (S \<union> {?k} \<times> set ?is) ?k D" if f: "fits_window cfg D" and ne: "D \<noteq> []"
  proof -
    have u: "?u = ?len" using f by (simp add: fits_window_def)
    define j where "j = (?len - 1) div ?ps"
    have "j * ?ps \<le> ?len - 1" "?len - 1 < Suc j * ?ps"
      using ps dividend_less_div_times [of ?ps "?len - 1"] by (simp_all add: j_def)
    moreover have "1 \<le> ?len" using ne by (simp add: Suc_le_eq)
    moreover have "Suc j * ?ps = j * ?ps + ?ps" by simp
    ultimately have "j * ?ps < ?len" "?len \<le> j * ?ps + ?ps" by linarith+
    moreover from this have "j < chunk_count ?ps ?u 0" using u by (simp add: chunk_count_le_iff [OF ps])
    ultimately show ?thesis unfolding last_sent_def by (intro exI [of _ j]) auto
  qed
  have al': "sender_aligned cfg ?L S s" by (rule sender_aligned_log [OF al new safe])
  have st: "start s dest mid D now = Inr (s\<lparr>s_out := AList.update ?k ?m (s_out s)\<rparr>, pump_frags ?ps dest mid D ?u 0)"
    using start_eq [of s dest mid D now] ps by (simp add: cfg)
  have ok: "om_ok ?ps ?m" by (rule om_started_ok [OF ps])
  have fresh: "(?k, i) \<notin> S" for i by (rule log_ok_fresh [OF lo new])
  have D: "?L ?k = Some (om_data ?m)" by simp
  have at: "at_chunk ?ps (length (om_data ?m)) (om_next_send ?m)" using pc(2) by (simp add: nx)
  have c: "sends_chunks ?ps (fst ?k) (om_data ?m) (snd ?k) (om_next_send ?m) (pump_frags ?ps dest mid D ?u 0) ?is"
    using pc(1) by (simp add: nx)
  have pos': "om_data ?m \<noteq> [] \<Longrightarrow> 0 < om_next_send ?m" using pos by simp
  have fit': "last_sent ?ps (S \<union> {?k} \<times> set ?is) ?k (om_data ?m)" if "fits_window cfg (om_data ?m)" "om_data ?m \<noteq> []"
    using fit that by simp
  have old: "i * ?ps < om_next_send ?m" if "(?k, i) \<in> S" for i using fresh that by blast
  note put = aligned_put [OF al' D ok at old pos' fit' c]
  have "sender_aligned cfg ?L (S \<union> {?k} \<times> set ?is) (s\<lparr>s_out := AList.update ?k ?m (s_out s)\<rparr>)"
    "list_all (chunk_act ?ps ?L (S \<union> {?k} \<times> set ?is)) (pump_frags ?ps dest mid D ?u 0)"
    by (rule put; assumption)+
  then show ?thesis unfolding st by (intro aligned_resultI [of S "S \<union> {?k} \<times> set ?is"]) auto
qed

section \<open>The receiver\<close>

definition in_aligned :: "transport_config \<Rightarrow> (msg_key \<Rightarrow> bytes option) \<Rightarrow> (msg_key \<times> nat) set \<Rightarrow> msg_key \<Rightarrow> in_msg \<Rightarrow> bool" where
  "in_aligned cfg L S k m \<longleftrightarrow> (\<exists>D. L k = Some D \<and> holds (packet_size cfg) D m
     \<and> (\<exists>i. (k, i) \<in> S) \<and> (\<forall>i < length (im_received m). im_received m ! i \<longrightarrow> (k, i) \<in> S)
     \<and> settled (packet_size cfg) S k D (im_granted_to m))"

definition receiver_aligned :: "transport_config \<Rightarrow> (msg_key \<Rightarrow> bytes option) \<Rightarrow> (msg_key \<times> nat) set \<Rightarrow> receiver_core \<Rightarrow> bool" where
  "receiver_aligned cfg L S r \<longleftrightarrow> reasm_ok (packet_size cfg) L r \<and> r_cfg r = cfg \<and> all_entries (in_aligned cfg L S) (r_incoming r)"

lemma acct_aligned:
  assumes "\<forall>i < length bs. bs ! i \<longrightarrow> i * ps + ps \<le> len"
  shows "acct ps len bs mod ps = 0"
proof -
  have "ps dvd (if bs ! i then chunk_len ps len i else 0)" if "i < length bs" for i
    using assms that by (auto simp: chunk_len_def chunk_end_def)
  then have "ps dvd acct ps len bs" unfolding acct_def by (intro dvd_sum) auto
  then show ?thesis by simp
qed

lemma at_chunk_min: "x mod ps = 0 \<Longrightarrow> at_chunk ps len (min x len)"
  by (simp add: at_chunk_def min_def)

lemma settled_max: "settled ps S k D x \<Longrightarrow> settled ps S k D y \<Longrightarrow> settled ps S k D (max x y)"
  by (simp add: max_def)

lemma settled_short:
  assumes "log_ok cfg L S" "L k = Some D" "(k, i) \<in> S" "fits_window cfg D"
  shows "settled (packet_size cfg) S k D x"
proof -
  have "last_sent (packet_size cfg) S k D" using assms unfolding log_ok_def by fastforce
  then show ?thesis by (simp add: settled_def)
qed

lemma log_ok_cases:
  assumes "log_ok cfg L S" "L k = Some D" "(k, i) \<in> S"
  obtains "\<And>x. settled (packet_size cfg) S k D x" | "aligned_windows cfg"
  using assms settled_short unfolding log_ok_def safe_msg_def by blast

text \<open>What is granted is settled: the bytes received end at a chunk boundary unless the last chunk is among them.\<close>

lemma in_aligned_stable:
  assumes lo: "log_ok cfg L S" and ps: "0 < packet_size cfg"
  shows "grant_stable (grant_increment cfg) (in_aligned cfg L S)"
  unfolding grant_stable_def
proof (intro allI impI)
  let ?ps = "packet_size cfg" and ?inc = "grant_increment cfg"
  fix k m now
  assume "in_aligned cfg L S k m"
  then obtain D i where D: "L k = Some D" "holds ?ps D m" "(k, i) \<in> S"
    and bits: "\<forall>i < length (im_received m). im_received m ! i \<longrightarrow> (k, i) \<in> S"
    and g: "settled ?ps S k D (im_granted_to m)"
    by (auto simp: in_aligned_def)
  let ?m = "m\<lparr>im_granted_to := grant_target ?inc m, im_last_grant := now\<rparr>"
  have "settled ?ps S k D (min (im_received_bytes m + ?inc) (length D))"
  proof (cases rule: log_ok_cases [OF lo D(1,3)])
    case 2
    show ?thesis
    proof (cases "last_sent ?ps S k D")
      case False
      then have "\<forall>i < length (im_received m). im_received m ! i \<longrightarrow> i * ?ps + ?ps \<le> length D"
        using bits by (fastforce simp: last_sent_def)
      then have "im_received_bytes m mod ?ps = 0" using D(2) acct_aligned by (simp add: holds_def)
      moreover have "?inc mod ?ps = 0" using 2 by (simp add: aligned_windows_def)
      ultimately have "(im_received_bytes m + ?inc) mod ?ps = 0" by (simp add: mod_add_eq [symmetric])
      then show ?thesis using at_chunk_min by (simp add: settled_def)
    qed (simp add: settled_def)
  qed simp
  then have "settled ?ps S k D (grant_target ?inc m)"
    using g D(2) by (simp add: grant_target_def holds_def settled_max)
  then show "in_aligned cfg L S k ?m" using D bits by (auto simp: in_aligned_def)
qed

lemma in_aligned_touch: "touch_stable (in_aligned cfg L S)"
  by (auto simp: touch_stable_def in_aligned_def)

text \<open>Control packets that do the sender no harm.\<close>

definition safe_ctrl :: "nat \<Rightarrow> (msg_key \<Rightarrow> bytes option) \<Rightarrow> (msg_key \<times> nat) set \<Rightarrow> sockaddr \<Rightarrow> packet \<Rightarrow> bool" where
  "safe_ctrl ps L S d p \<longleftrightarrow> pkt_typ p \<noteq> Data \<and> (pkt_typ p = Resend \<longrightarrow>
     (\<exists>D. L (d, pkt_msg_id p) = Some D \<and> settled ps S (d, pkt_msg_id p) D
        (min (min (unat (pkt_offset p)) (length D) + unat (pkt_length p)) (length D))))"

definition ctrl_act :: "nat \<Rightarrow> (msg_key \<Rightarrow> bytes option) \<Rightarrow> (msg_key \<times> nat) set \<Rightarrow> action \<Rightarrow> bool" where
  "ctrl_act ps L S a \<longleftrightarrow> (\<forall>d b. a = Send d b \<longrightarrow> (\<exists>p. b = encode p [] \<and> safe_ctrl ps L S d p))"

lemma grant_packet_ctrl: "ctrl_act ps L S (grant_packet k m t)"
proof -
  have "\<exists>p. encode (packet_new Grant x y z u v) [] = encode p [] \<and> safe_ctrl ps L S d p" for x y z u v d
    by (intro exI [of _ "packet_new Grant x y z u v"]) (simp add: safe_ctrl_def)
  then show ?thesis by (simp add: ctrl_act_def grant_packet_def)
qed

lemma issue_grant_ctrl: "issue_grant r k now force = (r', as) \<Longrightarrow> list_all (ctrl_act ps L S) as"
  by (erule issue_grant_cases) (simp_all add: grant_packet_ctrl)

lemma grant_all_ctrl: "grant_all r keys now = (r', as) \<Longrightarrow> list_all (ctrl_act ps L S) as"
proof (induction keys arbitrary: r r' as)
  case (Cons k keys)
  obtain r1 as1 r2 as2 where s: "issue_grant r k now False = (r1, as1)" "grant_all r1 keys now = (r2, as2)"
    by (metis surj_pair)
  from Cons.IH [OF s(2)] issue_grant_ctrl [OF s(1)] Cons.prems s show ?case by auto
qed simp

lemma schedule_ctrl: "schedule ord r now = Inr (r', as) \<Longrightarrow> list_all (ctrl_act ps L S) as"
  by (auto simp: schedule_def Let_def bind_res_Inr_iff dest: grant_all_ctrl)

lemma busy_ctrl: "ctrl_act ps L S (Send d (encode (packet_new Busy x y z u v) []))"
  unfolding ctrl_act_def safe_ctrl_def by (auto intro!: exI [of _ "packet_new Busy x y z u v"])

lemma first_false_Some: "first_false bs = Some i \<Longrightarrow> i < length bs \<and> \<not> bs ! i"
  by (induction bs arbitrary: i) (auto split: if_splits)

lemma resend_packet_ctrl:
  assumes lo: "log_ok cfg L S" and ps: "0 < packet_size cfg" and al: "in_aligned cfg L S k m" and ok: "in_msg_ok cfg m"
    and off: "first_missing_offset m (packet_size cfg) = Some off" "off < im_granted_to m"
  shows "ctrl_act (packet_size cfg) L S (resend_packet cfg k m off)"
proof -
  let ?ps = "packet_size cfg" and ?inc = "grant_increment cfg" and ?g = "im_granted_to m"
  let ?span = "min (?g - off) ?inc"
  let ?p = "packet_new Resend (priority_for_len (im_total_len m)) (snd k) 0 (as_u32 off) (as_u32 ?span)"
  obtain D i where D: "L k = Some D" "holds ?ps D m" "(k, i) \<in> S" and g: "settled ?ps S k D ?g"
    using al by (auto simp: in_aligned_def)
  have le: "?g \<le> length D" "length D < 2 ^ 32" using ok D(2) by (simp_all add: in_msg_ok_def holds_def)
  then have u: "unat (as_u32 off) = off" "unat (as_u32 ?span) = ?span" using off(2) by (simp_all only: unat_as_u32)
  have "off mod ?ps = 0" using off(1) by (auto simp: first_missing_offset_def)
  then have "settled ?ps S k D (off + ?span)"
  proof (cases rule: log_ok_cases [OF lo D(1,3)])
    case 2
    then have "(off + ?inc) mod ?ps = 0" using \<open>off mod ?ps = 0\<close> by (simp add: aligned_windows_def mod_add_eq [symmetric])
    then have "settled ?ps S k D (off + ?inc)" by (simp add: settled_def at_chunk_def)
    with g off(2) show ?thesis by (simp add: min_def)
  qed simp
  moreover have "min (min off (length D) + ?span) (length D) = off + ?span" using le(1) off(2) by simp
  ultimately have "safe_ctrl ?ps L S (fst k) ?p"
    unfolding safe_ctrl_def packet_new_simps u using D(1) by auto
  then show ?thesis unfolding ctrl_act_def resend_packet_def by blast
qed

lemma receiver_aligned_entry:
  assumes "receiver_aligned cfg L S r" "map_of (r_incoming r) k = Some m"
  shows "in_aligned cfg L S k m" "in_msg_ok cfg m"
  using assms recv_inv_entry [of r k m] by (auto simp: receiver_aligned_def reasm_ok_def dest: all_entriesD)

text \<open>The timer.\<close>

lemma recover_aligned:
  assumes lo: "log_ok cfg L S" and inv: "recv_inv r" "r_cfg r = cfg" and en: "all_entries (in_aligned cfg L S) (r_incoming r)"
    and h: "recover r k now = (r', as)"
  shows "all_entries (in_aligned cfg L S) (r_incoming r')" "list_all (ctrl_act (packet_size cfg) L S) as"
proof -
  have ps: "0 < packet_size cfg" using inv recv_inv_ps by auto
  show "all_entries (in_aligned cfg L S) (r_incoming r')"
    by (rule recover_entries [OF h en _ in_aligned_touch]) (use in_aligned_stable [OF lo ps] inv(2) in simp)
  have rp: "ctrl_act (packet_size cfg) L S (resend_packet cfg k m off)"
    if "map_of (r_incoming r) k = Some m" "first_missing_offset m (packet_size cfg) = Some off" "off < im_granted_to m" for m off
    using recv_inv_entry [OF inv(1) that(1)] all_entriesD [OF en that(1)] inv(2)
    by (intro resend_packet_ctrl [OF lo ps _ _ that(2,3)]) auto
  from h show "list_all (ctrl_act (packet_size cfg) L S) as"
  proof (cases rule: recover_cases)
    case (regrant m)
    then show ?thesis by (auto split: if_splits intro: issue_grant_ctrl)
  qed (use rp inv(2) in auto)
qed

lemma recover_all_aligned:
  "log_ok cfg L S \<Longrightarrow> recv_inv r \<Longrightarrow> r_cfg r = cfg \<Longrightarrow> all_entries (in_aligned cfg L S) (r_incoming r) \<Longrightarrow>
     recover_all r keys now = (r', as) \<Longrightarrow>
     all_entries (in_aligned cfg L S) (r_incoming r') \<and> list_all (ctrl_act (packet_size cfg) L S) as"
proof (induction keys arbitrary: r r' as)
  case (Cons k keys)
  obtain r1 as1 r2 as2 where s: "recover r k now = (r1, as1)" "recover_all r1 keys now = (r2, as2)"
    by (metis surj_pair)
  note a = recover_aligned [OF Cons.prems(1-4) s(1)]
  have "recv_inv r1" "r_cfg r1 = cfg" using recover_quiet [OF Cons.prems(2) s(1)] Cons.prems(3) by (simp_all add: quiet_step_def)
  from Cons.IH [OF Cons.prems(1) this a(1) s(2)] a(2) s Cons.prems(5) show ?case by auto
qed simp

lemma schedule_aligned:
  assumes lo: "log_ok cfg L S" and inv: "recv_inv r" "r_cfg r = cfg" and en: "all_entries (in_aligned cfg L S) (r_incoming r)"
    and h: "schedule ord r now = Inr (r', as)"
  shows "all_entries (in_aligned cfg L S) (r_incoming r')"
  by (rule schedule_entries [OF h en]) (use in_aligned_stable [OF lo] inv recv_inv_ps in auto)

lemma receiver_tick_aligned:
  assumes al: "receiver_aligned cfg L S r" and lo: "log_ok cfg L S" and ord: "iter_order ord'"
    and h: "receiver_tick ord ord' r now = Inr (r', as)"
  shows "receiver_aligned cfg L S r'" "list_all (ctrl_act (packet_size cfg) L S) as"
proof -
  have r: "reasm_ok (packet_size cfg) L r" "recv_inv r" "r_cfg r = cfg" "all_entries (in_aligned cfg L S) (r_incoming r)"
    using al by (simp_all add: receiver_aligned_def reasm_ok_def)
  obtain r1 as1 where r1: "recover_all r (ord (hm_keys (r_incoming r))) now = (r1, as1)" by force
  from h r1 obtain as2 where s: "schedule ord' r1 now = Inr (r', as2)" "as = as1 @ as2"
    by (auto simp: receiver_tick_def bind_res_Inr_iff)
  note a = recover_all_aligned [OF lo r(2-4) r1]
  have inv1: "recv_inv r1" "r_cfg r1 = cfg" using recover_all_quiet [OF r(2) r1] r(3) by (simp_all add: quiet_step_def)
  have "reasm_ok (packet_size cfg) L r'" using receiver_tick_exact [OF r(1) ord, of ord now] h by (simp add: exact_result_def)
  moreover have "r_cfg r' = cfg" using schedule_inv [OF inv1(1) s(1) ord] inv1(2) by simp
  ultimately show "receiver_aligned cfg L S r'"
    using schedule_aligned [OF lo inv1 _ s(1)] a by (simp add: receiver_aligned_def)
  show "list_all (ctrl_act (packet_size cfg) L S) as" using a schedule_ctrl [OF s(1)] s(2) by simp
qed

text \<open>A chunk that was sent arrives.\<close>

lemma new_entry_aligned:
  assumes lo: "log_ok cfg L S" and ps: "0 < packet_size cfg" and D: "L k = Some D" "(k, i) \<in> S" "length D < 2 ^ 32"
    and m: "new_in_msg cfg (length D) now = Inr m"
  shows "in_aligned cfg L S k m"
proof -
  let ?ps = "packet_size cfg"
  have g: "im_granted_to m = min (unscheduled_bytes cfg) (length D)"
    using m by (auto simp: new_in_msg_def bind_res_Inr_iff)
  have "settled ?ps S k D (im_granted_to m)"
  proof (cases rule: log_ok_cases [OF lo D(1,2)])
    case 2
    then have "unscheduled_bytes cfg mod ?ps = 0" by (simp add: aligned_windows_def)
    then show ?thesis unfolding g settled_def by (simp add: at_chunk_min)
  qed simp
  moreover have "\<not> im_received m ! i" if "i < length (im_received m)" for i
    using new_in_msg_ok [OF ps D(3) m] that by simp
  ultimately show ?thesis using D holds_new [OF ps m D(3)] by (auto simp: in_aligned_def)
qed

lemma stored_aligned:
  assumes al: "in_aligned cfg L S k m" and ps: "0 < packet_size cfg" and ok: "in_msg_ok cfg m"
    and D: "L k = Some D" "D \<noteq> []" and c: "carries (packet_size cfg) D pkt payload"
    and i: "(k, unat (pkt_offset pkt) div packet_size cfg) \<in> S"
    and st: "store_chunk (length D) m (unat (pkt_offset pkt) div packet_size cfg) (unat (pkt_offset pkt)) payload now = Inr m'"
  shows "in_aligned cfg L S k m'"
proof -
  let ?i = "unat (pkt_offset pkt) div packet_size cfg"
  have h: "holds (packet_size cfg) D m" using al D(1) by (auto simp: in_aligned_def)
  have n: "length D = unat (pkt_msg_len pkt)" using c by (simp add: carries_def)
  obtain m2 where "store_chunk (unat (pkt_msg_len pkt)) m ?i (unat (pkt_offset pkt)) payload now = Inr m2" "holds (packet_size cfg) D m2"
    by (rule store_chunk_holds [OF ps ok h c D(2)])
  then have "holds (packet_size cfg) D m'" using st unfolding n by simp
  moreover have "im_granted_to m' = im_granted_to m \<and> (im_received m' = im_received m \<or> im_received m' = (im_received m)[?i := True])"
    using st by (auto simp: store_chunk_def bind_res_Inr_iff split: if_splits)
  moreover have "(k, j) \<in> S" if "j < length (im_received m')" "im_received m' ! j" for j
    using al i that calculation by (cases "j = ?i") (auto simp: in_aligned_def)
  ultimately show ?thesis using al D(1) i by (auto simp: in_aligned_def)
qed

lemma deliver_incoming: "deliver r k src x = (r', as) \<Longrightarrow> r_incoming r' = AList.delete k (r_incoming r) \<and> sends as = []"
  by (auto simp: deliver_def Let_def)

lemma ctrl_all: "sends as = [] \<Longrightarrow> list_all (ctrl_act ps L S) as"
  by (induction as rule: sends.induct) (auto simp: ctrl_act_def)

lemma settle_incoming:
  assumes "settle r k src m = (r', as)" "all_entries P (r_incoming r)" "P k m"
  shows "all_entries P (r_incoming r') \<and> sends as = []"
proof (cases "complete m")
  case True
  then have "deliver (r\<lparr>r_incoming := AList.update k m (r_incoming r)\<rparr>) k src (im_buf m) = (r', as)"
    using assms(1) by (simp add: settle_def)
  from deliver_incoming [OF this] assms(2,3) show ?thesis by (simp add: all_entries_update all_entries_delete)
qed (use assms in \<open>auto simp: settle_def all_entries_update\<close>)

lemma handle_data_aligned:
  assumes al: "receiver_aligned cfg L S r" and lo: "log_ok cfg L S" and ord: "iter_order ord"
    and D: "L (src, pkt_msg_id pkt) = Some D" and c: "carries (packet_size cfg) D pkt payload"
    and i: "((src, pkt_msg_id pkt), unat (pkt_offset pkt) div packet_size cfg) \<in> S"
    and h: "handle_data ord r src pkt payload now = Inr (r', as)"
  shows "receiver_aligned cfg L S r'" "list_all (ctrl_act (packet_size cfg) L S) as"
proof -
  let ?k = "(src, pkt_msg_id pkt)" and ?ps = "packet_size cfg"
  have r: "reasm_ok ?ps L r" "recv_inv r" "r_cfg r = cfg" "all_entries (in_aligned cfg L S) (r_incoming r)"
    using al by (simp_all add: receiver_aligned_def reasm_ok_def)
  have ps: "0 < ?ps" using r(2,3) recv_inv_ps by auto
  have n: "unat (pkt_msg_len pkt) = length D" using c by (simp add: carries_def)
  then have small: "length D < 2 ^ 32" using unat_u32_less [of "pkt_msg_len pkt"] by simp
  have ne: "D \<noteq> []" using lo i D unfolding log_ok_def by fastforce
  have re: "reasm_ok ?ps L r'" using handle_data_exact [OF r(1) ord D c, of now] h by (simp add: exact_result_def)
  have step: "sound_step r r' as" using handle_data_sound [OF r(2) ord h] .
  then have cfg: "r_cfg r' = cfg" using r(3) by (simp add: sound_step_def)
  have "all_entries (in_aligned cfg L S) (r_incoming r') \<and> list_all (ctrl_act ?ps L S) as"
    using h
  proof (cases rule: handle_data_Inr)
    case late
    with r(4) show ?thesis by simp
  next
    case busy
    with r(4) busy_ctrl show ?thesis by simp
  next
    case (empty m r1 as1 as2)
    with n ne show ?thesis by simp
  next
    case (stored m m' r1 as1 as2)
    have ok: "in_msg_ok cfg m" using entry_of_ok [OF r(2) stored(4) unat_u32_less] r(3) by simp
    have al0: "in_aligned cfg L S ?k m"
    proof (cases "map_of (r_incoming r) ?k")
      case None
      then have "new_in_msg cfg (length D) now = Inr m" using stored(4) r(3) n by (simp add: entry_of_def)
      then show ?thesis by (rule new_entry_aligned [OF lo ps D i small])
    next
      case (Some m0)
      with stored(4) all_entriesD [OF r(4) Some] show ?thesis by (simp add: entry_of_def)
    qed
    have "store_chunk (length D) m (unat (pkt_offset pkt) div ?ps) (unat (pkt_offset pkt)) payload now = Inr m'"
      using stored(5) r(3) n by simp
    note al' = stored_aligned [OF al0 ps ok D ne c i this]
    note e1 = settle_incoming [OF stored(6) r(4) al']
    have im': "in_msg_ok (r_cfg r) m'" using store_chunk_ok [OF ok stored(5)] r(3) by simp
    have "settle r ?k (fst ?k) m' = (r1, as1)" using stored(6) by simp
    from settle_step [OF r(2) im' stored(1,3) this] have inv1: "recv_inv r1" "r_cfg r1 = cfg" using r(3) by simp_all
    from schedule_aligned [OF lo inv1 _ stored(7)] schedule_ctrl [OF stored(7)] e1 ctrl_all stored(8) show ?thesis by simp
  qed
  with re cfg show "receiver_aligned cfg L S r'" "list_all (ctrl_act ?ps L S) as" by (simp_all add: receiver_aligned_def)
qed

text \<open>More messages and more chunks do no harm to what was safe before.\<close>

lemma in_aligned_mono:
  assumes "in_aligned cfg L S k m" "L \<subseteq>\<^sub>m L'" "S \<subseteq> S'"
  shows "in_aligned cfg L' S' k m"
proof -
  obtain D where "L k = Some D" "holds (packet_size cfg) D m" "\<exists>i. (k, i) \<in> S"
    "\<forall>i < length (im_received m). im_received m ! i \<longrightarrow> (k, i) \<in> S" "settled (packet_size cfg) S k D (im_granted_to m)"
    using assms(1) by (auto simp: in_aligned_def)
  moreover from this have "L' k = Some D" using assms(2) by (metis map_le_def domI)
  ultimately show ?thesis using assms(3) unfolding in_aligned_def
    by (intro exI [of _ D]) (auto intro: settled_mono)
qed

lemma reasm_ok_mono: "reasm_ok ps L r \<Longrightarrow> L \<subseteq>\<^sub>m L' \<Longrightarrow> reasm_ok ps L' r"
  unfolding reasm_ok_def all_entries_def map_le_def by (metis domI)

lemma receiver_aligned_mono:
  "receiver_aligned cfg L S r \<Longrightarrow> L \<subseteq>\<^sub>m L' \<Longrightarrow> S \<subseteq> S' \<Longrightarrow> receiver_aligned cfg L' S' r"
  by (auto simp: receiver_aligned_def all_entries_def intro: in_aligned_mono reasm_ok_mono)

lemma safe_ctrl_mono:
  assumes "safe_ctrl ps L S d p" "L \<subseteq>\<^sub>m L'" "S \<subseteq> S'"
  shows "safe_ctrl ps L' S' d p"
proof -
  have "L k = Some D \<Longrightarrow> L' k = Some D" for k D using assms(2) by (metis map_le_def domI)
  with assms(1,3) show ?thesis unfolding safe_ctrl_def by (blast intro: settled_mono)
qed

end
