(* ===== verification/Network.thy ===== *)
theory Network
  imports Transport Alignment
begin

text \<open>
  Any number of hosts, each running the transport of \<^verbatim>\<open>src/transport/mod.rs\<close>, and the
  network between them. A step is one critical section or one iteration of the IO loop on one
  host; a datagram once sent may arrive at its destination at any later time, any number of times
  or never, so the network may lose, duplicate, delay and reorder at will, but neither invents
  datagrams nor forges their source. The theorem is the end-to-end contract of the crate.
\<close>

section \<open>The system\<close>

record network =
  nw_hosts :: "sockaddr \<Rightarrow> transport"
  nw_wire :: "(sockaddr \<times> datagram) list"                 \<comment> \<open>source, destination, bytes\<close>
  nw_sent :: "(sockaddr \<times> sockaddr \<times> bytes) list"         \<comment> \<open>source, destination, message given to \<open>send_to\<close>\<close>
  nw_got :: "(sockaddr \<times> sockaddr \<times> bytes) list"          \<comment> \<open>host, source and message returned by \<open>recv\<close>\<close>

definition network_new :: "transport_config \<Rightarrow> (sockaddr \<Rightarrow> instant) \<Rightarrow> network" where
  "network_new cfg boot = \<lparr>nw_hosts = (\<lambda>h. transport_new cfg (boot h)), nw_wire = [], nw_sent = [], nw_got = []\<rparr>"

fun puts :: "effect list \<Rightarrow> datagram list" where
  "puts [] = []"
| "puts (Put d b # out) = (d, b) # puts out"
| "puts (_ # out) = puts out"

lemma puts_append [simp]: "puts (xs @ ys) = puts xs @ puts ys"
  by (induction xs rule: puts.induct) auto

definition after :: "network \<Rightarrow> sockaddr \<Rightarrow> transport_event \<Rightarrow> transport \<Rightarrow> effect list \<Rightarrow> network" where
  "after n h e t out = n\<lparr>
     nw_hosts := (nw_hosts n)(h := t),
     nw_wire := nw_wire n @ map (Pair h) (puts out),
     nw_sent := nw_sent n @ (case e of TSend dest data now \<Rightarrow> [(h, dest, data)] | _ \<Rightarrow> []),
     nw_got := nw_got n @ map (Pair h) (received out)\<rparr>"

text \<open>
  What may happen on host \<open>h\<close>: a datagram arrives that was sent to it; a message that satisfies
  \<open>ok\<close> is handed to \<open>send_to\<close>, unless the message counter would wrap around; anything else.
\<close>

fun allowed :: "(bytes \<Rightarrow> bool) \<Rightarrow> network \<Rightarrow> sockaddr \<Rightarrow> transport_event \<Rightarrow> bool" where
  "allowed ok n h (TIo ord ords res now1 now2) =
     (iter_order ord \<and> iter_orders ords
      \<and> (case res of Received buf src \<Rightarrow> (src, h, buf) \<in> set (nw_wire n) | _ \<Rightarrow> True))"
| "allowed ok n h (TSend dest data now) = (ok data \<and> length (t_calls (nw_hosts n h)) < 2 ^ 64 - 1)"
| "allowed ok n h (TCall k now) = True"
| "allowed ok n h (TRecv deadline now) = True"

inductive net_step :: "(bytes \<Rightarrow> bool) \<Rightarrow> network \<Rightarrow> network \<Rightarrow> bool" for ok where
  host: "allowed ok n h e \<Longrightarrow> transport_step (nw_hosts n h) e = Inr (t, out) \<Longrightarrow> net_step ok n (after n h e t out)"

inductive reachable :: "transport_config \<Rightarrow> (bytes \<Rightarrow> bool) \<Rightarrow> network \<Rightarrow> bool" for cfg ok where
  init: "reachable cfg ok (network_new cfg boot)"
| step: "reachable cfg ok n \<Longrightarrow> net_step ok n n' \<Longrightarrow> reachable cfg ok n'"

inductive_cases net_stepE: "net_step ok n n'"

section \<open>The view of a receiver\<close>

text \<open>
  \<open>L a\<close> gives the messages that host \<open>a\<close> has started, by destination and id, and \<open>S a\<close> the chunks
  it has sent of them. Host \<open>h\<close> sees those that are meant for it, by source and id.
\<close>

type_synonym logs = "sockaddr \<Rightarrow> msg_key \<Rightarrow> bytes option"

type_synonym chunks = "sockaddr \<Rightarrow> (msg_key \<times> nat) set"

definition seen_log :: "logs \<Rightarrow> sockaddr \<Rightarrow> msg_key \<Rightarrow> bytes option" where
  "seen_log L h k = L (fst k) (h, snd k)"

definition seen_set :: "chunks \<Rightarrow> sockaddr \<Rightarrow> (msg_key \<times> nat) set" where
  "seen_set S h = {((a, i), j). ((h, i), j) \<in> S a}"

lemma seen_log_pair [simp]: "seen_log L h (a, i) = L a (h, i)"
  by (simp add: seen_log_def)

lemma seen_set_iff [simp]: "((a, i), j) \<in> seen_set S h \<longleftrightarrow> ((h, i), j) \<in> S a"
  by (simp add: seen_set_def)

lemma last_sent_seen: "last_sent ps (seen_set S h) (a, i) D \<longleftrightarrow> last_sent ps (S a) (h, i) D"
  by (simp add: last_sent_def)

lemma settled_seen: "settled ps (seen_set S h) (a, i) D x \<longleftrightarrow> settled ps (S a) (h, i) D x"
  by (simp add: settled_def last_sent_seen)

definition logs_ok :: "transport_config \<Rightarrow> logs \<Rightarrow> chunks \<Rightarrow> bool" where
  "logs_ok cfg L S \<longleftrightarrow> 0 < packet_size cfg \<and> (\<forall>a. log_ok cfg (L a) (S a))"

lemma seen_log_ok: "logs_ok cfg L S \<Longrightarrow> log_ok cfg (seen_log L h) (seen_set S h)"
  unfolding logs_ok_def log_ok_def by (auto simp: last_sent_seen)

definition extends :: "logs \<Rightarrow> chunks \<Rightarrow> logs \<Rightarrow> chunks \<Rightarrow> bool" where
  "extends L S L' S' \<longleftrightarrow> (\<forall>a. L a \<subseteq>\<^sub>m L' a \<and> S a \<subseteq> S' a)"

lemma extends_seen: "extends L S L' S' \<Longrightarrow> seen_log L h \<subseteq>\<^sub>m seen_log L' h \<and> seen_set S h \<subseteq> seen_set S' h"
  unfolding extends_def map_le_def seen_log_def by (auto simp: seen_set_def dom_def subset_iff)

lemma extends_SomeD: "extends L S L' S' \<Longrightarrow> L a k = Some D \<Longrightarrow> L' a k = Some D"
  unfolding extends_def map_le_def by (metis domI)

lemma extends_chunks: "S h \<subseteq> X \<Longrightarrow> extends L S L (S(h := X))"
  by (simp add: extends_def)

text \<open>A datagram that host \<open>a\<close> may have sent: a chunk, or a control packet that does no harm.\<close>

definition good_gram :: "nat \<Rightarrow> logs \<Rightarrow> chunks \<Rightarrow> sockaddr \<Rightarrow> datagram \<Rightarrow> bool" where
  "good_gram ps L S a x \<longleftrightarrow>
     (\<exists>i j D. L a (fst x, i) = Some D \<and> ((fst x, i), j) \<in> S a \<and> snd x = chunk_frag ps D i j)
     \<or> (\<exists>p. snd x = encode p [] \<and> safe_ctrl ps (seen_log L a) (seen_set S a) (fst x) p)"

lemma good_gram_mono:
  assumes "good_gram ps L S a x" "extends L S L' S'"
  shows "good_gram ps L' S' a x"
proof -
  have "S a \<subseteq> S' a" using assms(2) by (simp add: extends_def)
  with assms extends_seen [OF assms(2), of a] extends_SomeD [OF assms(2)] show ?thesis
    unfolding good_gram_def by (meson safe_ctrl_mono subsetD)
qed

lemma chunk_acts_good:
  assumes "list_all (chunk_act ps (L h) (S h)) as"
  shows "\<forall>x \<in> set (sends as). good_gram ps L S h x" "delivers as = []"
proof -
  show "\<forall>x \<in> set (sends as). good_gram ps L S h x"
  proof
    fix x assume "x \<in> set (sends as)"
    then have "Send (fst x) (snd x) \<in> set as" by (simp add: in_sends_iff [symmetric])
    then have "chunk_act ps (L h) (S h) (Send (fst x) (snd x))" using assms by (simp add: list_all_iff)
    then show "good_gram ps L S h x" unfolding chunk_act_def good_gram_def by (metis action.inject(1) prod.collapse)
  qed
  show "delivers as = []" using assms
    by (induction as rule: delivers.induct) (auto simp: chunk_act_def)
qed

lemma ctrl_acts_good:
  "list_all (ctrl_act ps (seen_log L h) (seen_set S h)) as \<Longrightarrow> \<forall>x \<in> set (sends as). good_gram ps L S h x"
  by (induction as rule: sends.induct) (auto simp: ctrl_act_def good_gram_def)

section \<open>The invariant of a host\<close>

definition state_al :: "transport_config \<Rightarrow> logs \<Rightarrow> chunks \<Rightarrow> sockaddr \<Rightarrow> state \<Rightarrow> bool" where
  "state_al cfg L S h st \<longleftrightarrow> logs_ok cfg L S \<and> sender_aligned cfg (L h) (S h) (st_sender st)
     \<and> receiver_aligned cfg (seen_log L h) (seen_set S h) (st_receiver st)
     \<and> txq_ok (st_tx st) \<and> (\<forall>x \<in> set (contents (st_tx st)). good_gram (packet_size cfg) L S h x)
     \<and> (\<forall>x \<in> set (st_completed st). \<exists>i. L (fst x) (h, i) = Some (snd x))"

definition good_out :: "transport_config \<Rightarrow> logs \<Rightarrow> chunks \<Rightarrow> sockaddr \<Rightarrow> effect list \<Rightarrow> bool" where
  "good_out cfg L S h out \<longleftrightarrow> (\<forall>x \<in> set (puts out). good_gram (packet_size cfg) L S h x)
     \<and> (\<forall>x \<in> set (received out). \<exists>i. L (fst x) (h, i) = Some (snd x))"

lemma good_out_mono: "good_out cfg L S h out \<Longrightarrow> extends L S L' S' \<Longrightarrow> good_out cfg L' S' h out"
  unfolding good_out_def by (meson extends_SomeD good_gram_mono)

lemma good_out_append [simp]: "good_out cfg L S h (xs @ ys) \<longleftrightarrow> good_out cfg L S h xs \<and> good_out cfg L S h ys"
  by (auto simp: good_out_def)

lemma good_out_simps [simp]:
  "good_out cfg L S h []" "good_out cfg L S h (Wake # out) = good_out cfg L S h out"
  "good_out cfg L S h (SendReturned i r # out) = good_out cfg L S h out"
  by (simp_all add: good_out_def)

lemma drain_al:
  assumes st: "state_al cfg L S h st"
    and as: "\<forall>x \<in> set (sends as). good_gram (packet_size cfg) L S h x" "\<forall>(k, x) \<in> set (delivers as). seen_log L h k = Some x"
    and d: "drain st as = (st', out)"
  shows "state_al cfg L S h st'" "good_out cfg L S h out"
proof -
  let ?t = "enqueue (sends as) (st_tx st)" and ?ps = "packet_size cfg"
  have ok: "txq_ok ?t" using st by (simp add: state_al_def enqueue_ok)
  have good: "good_gram ?ps L S h x" if "x \<in> set (contents ?t) \<union> set (sends as)" for x
    using that enqueue_set [of "st_tx st" "sends as"] st as(1) by (auto simp: state_al_def)
  have st': "st' = st\<lparr>st_completed := st_completed st @ map drop_id (delivers as), st_tx := fst (pop_batch ?t FLUSH_BUDGET)\<rparr>"
    and out: "out = (if delivers as = [] then [] else [Wake])
        @ map (\<lambda>(d, b). Put d b) (filter (\<lambda>x. \<not> is_data (snd x)) (sends as) @ take FLUSH_BUDGET (contents ?t))"
    using d by (simp_all add: drain_eq)
  have "good_gram ?ps L S h x" if "x \<in> set (contents (st_tx st'))" for x
    using that pop_batch_take [of ?t FLUSH_BUDGET] by (auto simp: st' intro!: good dest: in_set_dropD)
  moreover have "txq_ok (st_tx st')" using pop_batch_ok [OF ok] by (simp add: st')
  moreover have "\<exists>i. L (fst x) (h, i) = Some (snd x)" if "x \<in> set (map drop_id (delivers as))" for x
    using that as(2) by (force simp: drop_id_def seen_log_def)
  then have "\<forall>x \<in> set (st_completed st'). \<exists>i. L (fst x) (h, i) = Some (snd x)"
    using st by (auto simp: st' state_al_def)
  ultimately show "state_al cfg L S h st'" using st by (simp add: state_al_def st')
  have "puts (map (\<lambda>(d, b). Put d b) xs) = xs" for xs by (induction xs) auto
  moreover have "received out = []" by (rule received_drain [OF d])
  ultimately show "good_out cfg L S h out"
    by (auto simp: good_out_def out intro!: good dest: in_set_takeD)
qed

section \<open>Every step of a host keeps it\<close>

text \<open>The outcome of a step on host \<open>h\<close>: no fault, and only chunks of \<open>h\<close> join those sent.\<close>

definition moved :: "transport_config \<Rightarrow> logs \<Rightarrow> chunks \<Rightarrow> sockaddr \<Rightarrow> (fault + (state \<times> effect list)) \<Rightarrow> bool" where
  "moved cfg L S h res \<longleftrightarrow> (\<exists>st' out X. res = Inr (st', out) \<and> S h \<subseteq> X
     \<and> state_al cfg L (S(h := X)) h st' \<and> good_out cfg L (S(h := X)) h out)"

lemma movedI:
  "S h \<subseteq> X \<Longrightarrow> state_al cfg L (S(h := X)) h st' \<Longrightarrow> good_out cfg L (S(h := X)) h out \<Longrightarrow> moved cfg L S h (Inr (st', out))"
  unfolding moved_def by blast

lemma moved_idle: "state_al cfg L S h st \<Longrightarrow> good_out cfg L S h out \<Longrightarrow> moved cfg L S h (Inr (st, out))"
  by (rule movedI [where X = "S h"]) simp_all

text \<open>When chunks are sent, what does not concern the sender stays good.\<close>

lemma state_al_extend:
  assumes st: "state_al cfg L S h st" and X: "S h \<subseteq> X" and s: "sender_aligned cfg (L h) X s"
  shows "state_al cfg L (S(h := X)) h (st\<lparr>st_sender := s\<rparr>)"
proof -
  have ex: "extends L S L (S(h := X))" by (rule extends_chunks [of S h X L, OF X])
  have "logs_ok cfg L (S(h := X))" using st s by (auto simp: state_al_def logs_ok_def sender_aligned_def)
  moreover have "receiver_aligned cfg (seen_log L h) (seen_set (S(h := X)) h) (st_receiver st)"
  proof (rule receiver_aligned_mono [OF _ map_le_refl])
    show "receiver_aligned cfg (seen_log L h) (seen_set S h) (st_receiver st)" using st by (simp add: state_al_def)
    show "seen_set S h \<subseteq> seen_set (S(h := X)) h" using extends_seen [OF ex] by blast
  qed
  ultimately show ?thesis using st s good_gram_mono [OF _ ex] by (simp add: state_al_def)
qed

lemma sender_drain_al:
  assumes st: "state_al cfg L S h st" and r: "aligned_result cfg (L h) (S h) res"
  shows "moved cfg L S h (bind_res res (\<lambda>(s, as). Inr (drain (st\<lparr>st_sender := s\<rparr>) as)))"
proof -
  obtain s as X where X: "res = Inr (s, as)" "S h \<subseteq> X" "sender_aligned cfg (L h) X s"
    "list_all (chunk_act (packet_size cfg) (L h) X) as"
    using r by (auto simp: aligned_result_def)
  obtain st' out where d: "drain (st\<lparr>st_sender := s\<rparr>) as = (st', out)" by force
  have "list_all (chunk_act (packet_size cfg) (L h) ((S(h := X)) h)) as" using X(4) by simp
  note c = chunk_acts_good [where S = "S(h := X)" and L = L and h = h, OF this]
  have dl: "\<forall>(k, x) \<in> set (delivers as). seen_log L h k = Some x" by (simp add: c(2))
  from drain_al [OF state_al_extend [OF st X(2,3)] c(1) dl d] X(1,2) d show ?thesis by (auto intro: movedI)
qed

lemma wake_al: "moved cfg L S h (Inr (st, out)) \<Longrightarrow> moved cfg L S h (Inr (st, Wake # out))"
  unfolding moved_def by auto

text \<open>A packet arrives from host \<open>a\<close>.\<close>

definition arrives :: "nat \<Rightarrow> logs \<Rightarrow> chunks \<Rightarrow> sockaddr \<Rightarrow> sockaddr \<Rightarrow> packet \<Rightarrow> bytes \<Rightarrow> bool" where
  "arrives ps L S h a pkt payload \<longleftrightarrow>
     (pkt_typ pkt = Data \<longrightarrow> (\<exists>D. L a (h, pkt_msg_id pkt) = Some D \<and> carries ps D pkt payload
        \<and> ((h, pkt_msg_id pkt), unat (pkt_offset pkt) div ps) \<in> S a))
     \<and> (pkt_typ pkt = Resend \<longrightarrow> safe_ctrl ps (seen_log L a) (seen_set S a) h pkt)"

lemma gram_arrives:
  assumes lo: "logs_ok cfg L S" and g: "good_gram (packet_size cfg) L S a (h, buf)" and d: "decode buf = Inr (pkt, payload)"
  shows "arrives (packet_size cfg) L S h a pkt payload"
proof -
  let ?ps = "packet_size cfg"
  from g consider (chunk) i j D where "L a (h, i) = Some D" "((h, i), j) \<in> S a" "buf = chunk_frag ?ps D i j"
    | (ctrl) p where "buf = encode p []" "safe_ctrl ?ps (seen_log L a) (seen_set S a) h p"
    by (auto simp: good_gram_def)
  then show ?thesis
  proof cases
    case chunk
    have "log_ok cfg (L a) (S a)" and ps: "0 < ?ps" using lo by (auto simp: logs_ok_def)
    then have b: "j * ?ps < length D" "length D < 2 ^ 32"
      using chunk(1,2) unfolding log_ok_def safe_msg_def by (metis option.inject)+
    obtain p x where "decode buf = Inr (p, x)" "pkt_typ p = Data" "pkt_msg_id p = i"
      "unat (pkt_offset p) div ?ps = j" "carries ?ps D p x"
      unfolding chunk(3) by (rule decode_chunk [OF ps b])
    with d chunk show ?thesis by (simp add: arrives_def)
  next
    case ctrl
    then have "wire_ok p []" by (simp add: wire_ok_def safe_ctrl_def)
    then have "pkt = p" using d ctrl(1) by (simp add: decode_encode_id)
    with ctrl(2) show ?thesis by (simp add: arrives_def safe_ctrl_def)
  qed
qed

text \<open>What the receiver does with an event that concerns it.\<close>

lemma receiver_aligned_exact:
  assumes al: "receiver_aligned cfg LL SS r" and e: "reasm_adm (packet_size cfg) LL e"
  obtains r' as where "receiver_step r e = Inr (r', as)" "\<forall>(k, x) \<in> set (delivers as). LL k = Some x"
proof -
  obtain r' as where r: "receiver_step r e = Inr (r', as)" "list_all (exact LL) as"
    using receiver_step_exact [of "packet_size cfg" LL r e] al e by (auto simp: receiver_aligned_def exact_result_def)
  from exact_ok [OF r(2)] have "\<forall>(k, x) \<in> set (delivers as). LL k = Some x" by (simp add: actions_ok_def)
  with r(1) show thesis by (rule that)
qed

lemma io_packet_al:
  assumes st: "state_al cfg L S h st" and ord: "iter_order ord" and ar: "arrives (packet_size cfg) L S h a pkt payload"
  shows "moved cfg L S h (io_packet ord st a pkt payload now)"
proof (cases "pkt_typ pkt")
  case Data
  let ?LL = "seen_log L h" and ?SS = "seen_set S h" and ?ps = "packet_size cfg"
  have al: "receiver_aligned cfg ?LL ?SS (st_receiver st)" and lo: "log_ok cfg ?LL ?SS"
    using st by (simp_all add: state_al_def seen_log_ok)
  obtain D where D: "?LL (a, pkt_msg_id pkt) = Some D" "carries ?ps D pkt payload"
    "((a, pkt_msg_id pkt), unat (pkt_offset pkt) div ?ps) \<in> ?SS"
    using ar Data by (auto simp: arrives_def)
  obtain r as where h: "handle_data ord (st_receiver st) a pkt payload now = Inr (r, as)"
    "\<forall>(k, x) \<in> set (delivers as). ?LL k = Some x"
    using receiver_aligned_exact [OF al, of "RData ord a pkt payload now"] ord D by auto
  note n = handle_data_aligned [OF al lo ord D h(1)]
  obtain st' out where d: "drain (st\<lparr>st_receiver := r\<rparr>) as = (st', out)" by force
  have "state_al cfg L S h (st\<lparr>st_receiver := r\<rparr>)" using st n(1) by (simp add: state_al_def)
  from drain_al [OF this ctrl_acts_good [OF n(2)] h(2) d] h(1) d Data show ?thesis
    by (simp add: io_packet_def moved_idle)
next
  case Grant
  have al: "sender_aligned cfg (L h) (S h) (st_sender st)" using st by (simp add: state_al_def)
  note r = grant_aligned [OF al, of a pkt now]
  obtain s as where h: "handle_grant (st_sender st) a pkt now = Inr (s, as)" using r by (auto simp: aligned_result_def)
  obtain st' out where d: "drain (st\<lparr>st_sender := s\<rparr>) as = (st', out)" by force
  have "moved cfg L S h (Inr (st', out))" using sender_drain_al [OF st r] h d by simp
  with h d Grant show ?thesis by (auto simp: io_packet_def intro: wake_al)
next
  case Resend
  have al: "sender_aligned cfg (L h) (S h) (st_sender st)" using st by (simp add: state_al_def)
  have "settled (packet_size cfg) (S h) (a, pkt_msg_id pkt) (om_data m)
      (min (min (unat (pkt_offset pkt)) (length (om_data m)) + unat (pkt_length pkt)) (length (om_data m)))"
    if "map_of (s_out (st_sender st)) (a, pkt_msg_id pkt) = Some m" for m
  proof -
    have "L h (a, pkt_msg_id pkt) = Some (om_data m)"
      using sender_aligned_entry(1) [OF al that] by (simp add: out_aligned_def)
    with ar Resend show ?thesis by (simp add: arrives_def safe_ctrl_def settled_seen)
  qed
  from sender_drain_al [OF st resend_aligned [OF al this]] Resend show ?thesis by (simp add: io_packet_def)
next
  case Busy
  have al: "sender_aligned cfg (L h) (S h) (st_sender st)" using st by (simp add: state_al_def)
  from sender_drain_al [OF st aligned_idle [OF busy_aligned [OF al]]] Busy show ?thesis by (simp add: io_packet_def)
qed

lemma io_tick_al:
  assumes st: "state_al cfg L S h st" and ords: "iter_orders ords"
  shows "moved cfg L S h (io_tick ords st now)"
proof -
  obtain o1 o2 o3 where o: "ords = (o1, o2, o3)" by (cases ords)
  have al: "sender_aligned cfg (L h) (S h) (st_sender st)" using st by (simp add: state_al_def)
  obtain s as1 X where s: "sender_tick o1 (st_sender st) now = Inr (s, as1)" "S h \<subseteq> X" "sender_aligned cfg (L h) X s"
    "list_all (chunk_act (packet_size cfg) (L h) X) as1"
    using sender_tick_aligned [OF al, of o1 now] by (auto simp: aligned_result_def)
  let ?S = "S(h := X)"
  let ?LL = "seen_log L h" and ?SS = "seen_set ?S h" and ?ps = "packet_size cfg"
  have st1: "state_al cfg L ?S h (st\<lparr>st_sender := s\<rparr>)" by (rule state_al_extend [OF st s(2,3)])
  then have ra: "receiver_aligned cfg ?LL ?SS (st_receiver st)" and lo: "log_ok cfg ?LL ?SS"
    by (simp_all add: state_al_def seen_log_ok)
  have oo: "iter_order o2" "iter_order o3" using ords o by (simp_all add: iter_orders_def)
  obtain r as2 where t: "receiver_tick o2 o3 (st_receiver st) now = Inr (r, as2)"
    "\<forall>(k, x) \<in> set (delivers as2). ?LL k = Some x"
    using receiver_aligned_exact [OF ra, of "RTick o2 o3 now"] oo by auto
  note n = receiver_tick_aligned [OF ra lo oo(2) t(1)]
  obtain st' out where d: "drain (st\<lparr>st_sender := s, st_receiver := r\<rparr>) (as1 @ as2) = (st', out)" by force
  have st2: "state_al cfg L ?S h (st\<lparr>st_sender := s, st_receiver := r\<rparr>)" using st1 n(1) by (simp add: state_al_def)
  have "list_all (chunk_act ?ps (L h) (?S h)) as1" using s(4) by simp
  note c = chunk_acts_good [where S = "?S" and L = L and h = h, OF this]
  have sd: "\<forall>x \<in> set (sends (as1 @ as2)). good_gram ?ps L ?S h x"
    using c(1) ctrl_acts_good [OF n(2)] by auto
  have dl: "\<forall>(k, x) \<in> set (delivers (as1 @ as2)). ?LL k = Some x" using c(2) t(2) by simp
  from drain_al [OF st2 sd dl d] s(1,2) t(1) d show ?thesis by (simp add: io_tick_def o movedI)
qed

text \<open>An iteration of the IO loop, with its variable beside the state.\<close>

definition moved_loop :: "transport_config \<Rightarrow> logs \<Rightarrow> chunks \<Rightarrow> sockaddr \<Rightarrow> (fault + ((state \<times> instant) \<times> effect list)) \<Rightarrow> bool" where
  "moved_loop cfg L S h res \<longleftrightarrow> (\<exists>st' l out. res = Inr ((st', l), out) \<and> moved cfg L S h (Inr (st', out)))"

lemma tick_if_due_al:
  assumes "state_al cfg L S h st" "iter_orders ords"
  shows "moved_loop cfg L S h (tick_if_due ords (st, last_tick) now)"
proof (cases "TICK_INTERVAL \<le> now - last_tick")
  case True
  note m = io_tick_al [OF assms, of now]
  then obtain st' out where "io_tick ords st now = Inr (st', out)" unfolding moved_def by blast
  with m True show ?thesis by (simp add: tick_if_due_def moved_loop_def)
next
  case False
  with moved_idle [OF assms(1)] show ?thesis by (simp add: tick_if_due_def moved_loop_def)
qed

lemma moved_trans:
  assumes "S h \<subseteq> X" "good_out cfg L (S(h := X)) h o1" "moved cfg L (S(h := X)) h (Inr (st, o2))"
  shows "moved cfg L S h (Inr (st, o1 @ o2))"
proof -
  obtain Y where Y: "X \<subseteq> Y" "state_al cfg L (S(h := Y)) h st" "good_out cfg L (S(h := Y)) h o2"
    using assms(3) by (auto simp: moved_def)
  have "extends L (S(h := X)) L (S(h := Y))" using Y(1) by (simp add: extends_def)
  then have "good_out cfg L (S(h := Y)) h o1" by (rule good_out_mono [OF assms(2)])
  with Y assms(1) show ?thesis by (intro movedI [where X = Y]) auto
qed

lemma io_iter_al:
  assumes st: "state_al cfg L S h st" and o: "iter_order ord" "iter_orders ords"
    and ar: "\<And>buf a. res = Received buf a \<Longrightarrow> good_gram (packet_size cfg) L S a (h, buf)"
  shows "moved_loop cfg L S h (io_iter ord ords (st, last_tick) res now1 now2)"
proof (cases "\<exists>buf a pkt payload. res = Received buf a \<and> decode buf = Inr (pkt, payload)")
  case True
  then obtain buf a pkt payload where r: "res = Received buf a" "decode buf = Inr (pkt, payload)" by blast
  have "logs_ok cfg L S" using st by (simp add: state_al_def)
  then have "arrives (packet_size cfg) L S h a pkt payload" using gram_arrives ar [OF r(1)] r(2) by blast
  from io_packet_al [OF st o(1) this, of now1] obtain st1 o1 X where
    p: "io_packet ord st a pkt payload now1 = Inr (st1, o1)" "S h \<subseteq> X" "state_al cfg L (S(h := X)) h st1"
      "good_out cfg L (S(h := X)) h o1"
    by (auto simp: moved_def)
  from tick_if_due_al [OF p(3) o(2), of last_tick now2] obtain st2 l o2 where
    t: "tick_if_due ords (st1, last_tick) now2 = Inr ((st2, l), o2)" "moved cfg L (S(h := X)) h (Inr (st2, o2))"
    by (auto simp: moved_loop_def)
  from p(1) t(1) r moved_trans [OF p(2,4) t(2)] show ?thesis by (simp add: io_iter_def moved_loop_def)
next
  case False
  show ?thesis
  proof (cases "\<exists>buf a. res = Received buf a")
    case True
    then obtain buf a e where "res = Received buf a" "decode buf = Inl e"
      using False by (metis old.sum.exhaust surj_pair)
    then show ?thesis using moved_idle [OF st] by (simp add: io_iter_def moved_loop_def)
  next
    case False
    then have "io_iter ord ords (st, last_tick) res now1 now2 = tick_if_due ords (st, last_tick) now2"
      by (cases res) (auto simp: io_iter_def)
    with tick_if_due_al [OF st o(2)] show ?thesis by simp
  qed
qed

lemma recv_poll_al:
  assumes st: "state_al cfg L S h st" and p: "recv_poll st deadline now = (st', out)"
  shows "moved cfg L S h (Inr (st', out))"
proof (cases "st_completed st")
  case Nil
  with p have "st' = st" "good_out cfg L S h out" by (auto simp: recv_poll_def good_out_def split: if_splits)
  with moved_idle [OF st] show ?thesis by simp
next
  case (Cons x xs)
  with p have r: "st' = st\<lparr>st_completed := xs\<rparr>" "out = [RecvReturned (Inr x)]" by (auto simp: recv_poll_def)
  have "good_out cfg L S h out" using st Cons by (simp add: r good_out_def state_al_def)
  moreover have "state_al cfg L S h st'" using st Cons by (simp add: r state_al_def)
  ultimately show ?thesis by (intro moved_idle)
qed

section \<open>The calls of \<open>send_to\<close>\<close>

text \<open>What a call promises while it is under way; \<open>gave\<close> are the messages handed to \<open>send_to\<close> on \<open>h\<close>.\<close>

fun call_id :: "send_call \<Rightarrow> u64" where
  "call_id (Called i dest data t0) = i"
| "call_id (Dispatching i dest deadline as) = i"
| "call_id (Waiting i dest deadline) = i"
| "call_id (Returned i) = i"

fun call_al :: "transport_config \<Rightarrow> logs \<Rightarrow> chunks \<Rightarrow> sockaddr \<Rightarrow> (sockaddr \<times> bytes) set \<Rightarrow> send_call \<Rightarrow> bool" where
  "call_al cfg L S h gave (Called i dest data t0) \<longleftrightarrow> (\<forall>d. L h (d, i) = None) \<and> safe_msg cfg data \<and> (dest, data) \<in> gave"
| "call_al cfg L S h gave (Dispatching i dest deadline as) \<longleftrightarrow>
     (\<forall>x \<in> set (sends as). good_gram (packet_size cfg) L S h x) \<and> delivers as = []"
| "call_al cfg L S h gave (Waiting i dest deadline) \<longleftrightarrow> True"
| "call_al cfg L S h gave (Returned i) \<longleftrightarrow> True"

lemma call_al_chunks:
  assumes "call_al cfg L S h gave c" "extends L S L S'"
  shows "call_al cfg L S' h gave c"
  using assms by (cases c) (auto intro: good_gram_mono)

lemma call_al_start:
  assumes "call_al cfg L S h gave c" "call_id c \<noteq> i" "extends L S (L(h := (L h)((dest, i) \<mapsto> D))) S'"
  shows "call_al cfg (L(h := (L h)((dest, i) \<mapsto> D))) S' h gave c"
  using assms by (cases c) (auto intro: good_gram_mono)

text \<open>The first critical section adds the message to the log; the others leave it as it is.\<close>

lemma start_call_al:
  assumes st: "state_al cfg L S h st" and c: "call_al cfg L S h gave (Called i dest D t0)"
  defines "L' \<equiv> L(h := (L h)((dest, i) \<mapsto> D))"
  obtains st' c' X where "send_call_step timeout st (Called i dest D t0) now = Inr ((st', c'), [])" "S h \<subseteq> X"
    "extends L S L' (S(h := X))" "state_al cfg L' (S(h := X)) h st'" "call_al cfg L' (S(h := X)) h gave c'" "call_id c' = i"
proof -
  have al: "sender_aligned cfg (L h) (S h) (st_sender st)" using st by (simp add: state_al_def)
  have new: "L h (dest, i) = None" and safe: "safe_msg cfg D" using c by simp_all
  obtain s as X where X: "start (st_sender st) dest i D t0 = Inr (s, as)" "S h \<subseteq> X" "sender_aligned cfg (L' h) X s"
    "list_all (chunk_act (packet_size cfg) (L' h) X) as"
    using start_aligned [OF al new safe, of t0] by (auto simp: aligned_result_def L'_def)
  let ?S = "S(h := X)"
  have exL: "extends L S L' S" using new by (auto simp: extends_def L'_def map_le_def)
  have ex: "extends L S L' ?S" using X(2) new by (auto simp: extends_def L'_def map_le_def)
  have "log_ok cfg (L' a) (?S a)" for a
    using st X(3) by (auto simp: state_al_def logs_ok_def sender_aligned_def L'_def)
  then have lo: "logs_ok cfg L' ?S" using st by (simp add: state_al_def logs_ok_def)
  have ra: "receiver_aligned cfg (seen_log L' h) (seen_set ?S h) (st_receiver st)"
  proof (rule receiver_aligned_mono)
    show "receiver_aligned cfg (seen_log L h) (seen_set S h) (st_receiver st)" using st by (simp add: state_al_def)
  qed (use extends_seen [OF ex] in blast)+
  have sa: "sender_aligned cfg (L' h) (?S h) s" using X(3) by simp
  have "state_al cfg L' ?S h (st\<lparr>st_sender := s\<rparr>)"
    using st lo ra sa good_gram_mono [OF _ ex] extends_SomeD [OF ex] unfolding state_al_def by fastforce
  moreover have "list_all (chunk_act (packet_size cfg) (L' h) (?S h)) as" using X(4) by simp
  note g = chunk_acts_good [where S = "?S" and L = L' and h = h, OF this]
  have "call_al cfg L' ?S h gave (Dispatching i dest (t0 + timeout) as)" using g by simp
  ultimately show thesis using X(1,2) ex by (intro that) (auto simp: send_call_step_def)
qed

lemma later_call_al:
  assumes st: "state_al cfg L S h st" and c: "call_al cfg L S h gave c" and n: "\<And>i dest D t0. c \<noteq> Called i dest D t0"
  obtains st' c' out where "send_call_step timeout st c now = Inr ((st', c'), out)" "moved cfg L S h (Inr (st', out))"
    "call_al cfg L S h gave c'" "call_id c' = call_id c"
proof (cases c)
  case (Called i dest D t0)
  with n show thesis by blast
next
  case (Dispatching i dest deadline as)
  obtain st' out where d: "drain st as = (st', out)" by force
  have "\<forall>(k, x) \<in> set (delivers as). seen_log L h k = Some x" "\<forall>x \<in> set (sends as). good_gram (packet_size cfg) L S h x"
    using c Dispatching by simp_all
  from drain_al [OF st this(2,1) d] d show thesis
    by (intro that) (auto simp: send_call_step_def Dispatching moved_idle)
next
  case (Waiting i dest deadline)
  have al: "sender_aligned cfg (L h) (S h) (st_sender st)" using st by (simp add: state_al_def)
  have "state_al cfg L S h (st\<lparr>st_sender := finish (st_sender st) dest i\<rparr>)"
    using st finish_aligned [OF al] by (simp add: state_al_def)
  with st show thesis
    by (cases "is_done (st_sender st) dest i"; cases "deadline - now = 0")
      (auto simp: send_call_step_def Waiting intro!: that moved_idle)
next
  case (Returned i)
  with moved_idle [OF st] show thesis by (intro that) (auto simp: send_call_step_def)
qed

section \<open>The invariant of the network\<close>

definition gave :: "network \<Rightarrow> sockaddr \<Rightarrow> (sockaddr \<times> bytes) set" where
  "gave n h = {(dest, data). (h, dest, data) \<in> set (nw_sent n)}"

text \<open>
  A host: its calls have the ids 1, 2, 3, ..., a call that has not started has its id to itself, and
  every message in the log was given to \<open>send_to\<close>.
\<close>

definition host_al :: "transport_config \<Rightarrow> logs \<Rightarrow> chunks \<Rightarrow> sockaddr \<Rightarrow> (sockaddr \<times> bytes) set \<Rightarrow> transport \<Rightarrow> bool" where
  "host_al cfg L S h G t \<longleftrightarrow> state_al cfg L S h (t_state t)
     \<and> length (t_calls t) < 2 ^ 64 \<and> t_counter t = word_of_nat (Suc (length (t_calls t)))
     \<and> (\<forall>k < length (t_calls t). call_id (t_calls t ! k) = word_of_nat (Suc k) \<and> call_al cfg L S h G (t_calls t ! k))
     \<and> (\<forall>d i D. L h (d, i) = Some D \<longrightarrow> (d, D) \<in> G \<and> (\<exists>k < length (t_calls t). i = word_of_nat (Suc k)))"

definition net_al :: "transport_config \<Rightarrow> logs \<Rightarrow> chunks \<Rightarrow> network \<Rightarrow> bool" where
  "net_al cfg L S n \<longleftrightarrow> (\<forall>h. host_al cfg L S h (gave n h) (nw_hosts n h))
     \<and> (\<forall>(a, x) \<in> set (nw_wire n). good_gram (packet_size cfg) L S a x)
     \<and> (\<forall>(h, a, x) \<in> set (nw_got n). (a, h, x) \<in> set (nw_sent n))"

lemma call_al_gave: "call_al cfg L S h G c \<Longrightarrow> G \<subseteq> G' \<Longrightarrow> call_al cfg L S h G' c"
  by (cases c) auto

text \<open>The other hosts are not disturbed.\<close>

lemma state_al_other:
  assumes st: "state_al cfg L S h st" and ex: "extends L S L' S'" and lo: "logs_ok cfg L' S'"
    and same: "L' h = L h" "S' h = S h"
  shows "state_al cfg L' S' h st"
proof -
  have ra: "receiver_aligned cfg (seen_log L' h) (seen_set S' h) (st_receiver st)"
  proof (rule receiver_aligned_mono)
    show "receiver_aligned cfg (seen_log L h) (seen_set S h) (st_receiver st)" using st by (simp add: state_al_def)
  qed (use extends_seen [OF ex] in blast)+
  have "sender_aligned cfg (L' h) (S' h) (st_sender st)" using st by (simp add: state_al_def same)
  with ra lo st show ?thesis
    using good_gram_mono [OF _ ex] extends_SomeD [OF ex] unfolding state_al_def by fastforce
qed

lemma host_al_other:
  assumes "host_al cfg L S h G t" "extends L S L' S'" "logs_ok cfg L' S'" "L' h = L h" "S' h = S h" "G \<subseteq> G'"
  shows "host_al cfg L' S' h G' t"
proof -
  have "call_al cfg L' S' h G' c" if "call_al cfg L S h G c" for c
    using call_al_gave [OF that assms(6)] assms(2,4) by (cases c) (auto intro: good_gram_mono)
  with assms state_al_other [OF _ assms(2-5)] show ?thesis by (auto simp: host_al_def)
qed

text \<open>A step of one host that keeps its invariant keeps that of the network.\<close>

lemma net_al_after:
  assumes n: "net_al cfg L S n" and ex: "extends L S L' S'" and same: "\<forall>a. a \<noteq> h \<longrightarrow> L' a = L a \<and> S' a = S a"
    and t: "host_al cfg L' S' h (gave (after n h e t out) h) t" and out: "good_out cfg L' S' h out"
  shows "net_al cfg L' S' (after n h e t out)"
  unfolding net_al_def
proof (intro conjI allI)
  let ?n = "after n h e t out"
  have lo: "logs_ok cfg L' S'" using t by (simp add: host_al_def state_al_def)
  have G: "gave n a \<subseteq> gave ?n a" for a by (auto simp: gave_def after_def)
  have sub: "set (nw_sent n) \<subseteq> set (nw_sent ?n)" by (auto simp: after_def)
  have host: "host_al cfg L' S' a (gave ?n a) (nw_hosts ?n a)" for a
  proof (cases "a = h")
    case True
    with t show ?thesis by (simp add: after_def)
  next
    case False
    have "host_al cfg L S a (gave n a) (nw_hosts n a)" using n by (simp add: net_al_def)
    from host_al_other [OF this ex lo _ _ G] same False show ?thesis by (simp add: after_def)
  qed
  then show "host_al cfg L' S' a (gave ?n a) (nw_hosts ?n a)" for a .
  show "\<forall>(a, x) \<in> set (nw_wire ?n). good_gram (packet_size cfg) L' S' a x"
    using n out good_gram_mono [OF _ ex] by (fastforce simp: net_al_def after_def good_out_def)
  have "(a, h, x) \<in> set (nw_sent ?n)" if x: "(a, x) \<in> set (received out)" for a x
  proof -
    obtain i where "L' a (h, i) = Some x" using out x by (fastforce simp: good_out_def)
    then have "(h, x) \<in> gave ?n a" using host [of a] by (simp add: host_al_def)
    then show ?thesis by (simp add: gave_def)
  qed
  then show "\<forall>(k, a, x) \<in> set (nw_got ?n). (a, k, x) \<in> set (nw_sent ?n)"
    using n sub by (fastforce simp: net_al_def after_def)
qed

section \<open>Every allowed step keeps it\<close>

lemma host_al_move:
  assumes t: "host_al cfg L S h G t" and X: "S h \<subseteq> X" and st: "state_al cfg L (S(h := X)) h st"
    and cs: "cs = t_calls t \<or> (\<exists>k c. k < length (t_calls t) \<and> cs = (t_calls t)[k := c] \<and> call_al cfg L (S(h := X)) h G c
      \<and> call_id c = call_id (t_calls t ! k))"
  shows "host_al cfg L (S(h := X)) h G (t\<lparr>t_state := st, t_last_tick := l, t_calls := cs\<rparr>)"
proof -
  have ex: "extends L S L (S(h := X))" by (rule extends_chunks [of S h X L, OF X])
  have len: "length cs = length (t_calls t)" using cs by auto
  have "call_id (cs ! k) = word_of_nat (Suc k) \<and> call_al cfg L (S(h := X)) h G (cs ! k)" if "k < length cs" for k
    using t cs that call_al_chunks [OF _ ex] by (auto simp: host_al_def nth_list_update)
  with t st show ?thesis by (simp add: host_al_def len)
qed

text \<open>What is to be shown of an allowed step: it succeeds, and the invariant of the host holds after it.\<close>

definition steps_well :: "transport_config \<Rightarrow> logs \<Rightarrow> chunks \<Rightarrow> network \<Rightarrow> sockaddr \<Rightarrow> transport_event \<Rightarrow> bool" where
  "steps_well cfg L S n h e \<longleftrightarrow> (\<exists>t out L' S'. transport_step (nw_hosts n h) e = Inr (t, out) \<and> extends L S L' S'
     \<and> (\<forall>a. a \<noteq> h \<longrightarrow> L' a = L a \<and> S' a = S a) \<and> host_al cfg L' S' h (gave (after n h e t out) h) t \<and> good_out cfg L' S' h out)"

lemma steps_wellI:
  "transport_step (nw_hosts n h) e = Inr (t, out) \<Longrightarrow> extends L S L' S' \<Longrightarrow> (\<forall>a. a \<noteq> h \<longrightarrow> L' a = L a \<and> S' a = S a) \<Longrightarrow>
     host_al cfg L' S' h (gave (after n h e t out) h) t \<Longrightarrow> good_out cfg L' S' h out \<Longrightarrow> steps_well cfg L S n h e"
  unfolding steps_well_def by blast

lemma gave_same: "(\<And>dest D now. e \<noteq> TSend dest D now) \<Longrightarrow> gave (after n h e t out) h = gave n h"
  by (cases e) (auto simp: gave_def after_def)

text \<open>A step that starts no message.\<close>

lemma steps_well_moved:
  assumes t: "host_al cfg L S h (gave n h) (nw_hosts n h)"
    and s: "transport_step (nw_hosts n h) e = Inr ((nw_hosts n h)\<lparr>t_state := st', t_last_tick := l, t_calls := cs\<rparr>, out)"
    and X: "S h \<subseteq> X" "state_al cfg L (S(h := X)) h st'" "good_out cfg L (S(h := X)) h out"
    and cs: "cs = t_calls (nw_hosts n h) \<or> (\<exists>k c. k < length (t_calls (nw_hosts n h)) \<and> cs = (t_calls (nw_hosts n h))[k := c]
        \<and> call_al cfg L (S(h := X)) h (gave n h) c \<and> call_id c = call_id (t_calls (nw_hosts n h) ! k))"
    and ns: "\<And>dest D now. e \<noteq> TSend dest D now"
  shows "steps_well cfg L S n h e"
proof (rule steps_wellI [OF s])
  show "extends L S L (S(h := X))" by (rule extends_chunks [of S h X L, OF X(1)])
  show "host_al cfg L (S(h := X)) h (gave (after n h e ((nw_hosts n h)\<lparr>t_state := st', t_last_tick := l, t_calls := cs\<rparr>) out) h)
      ((nw_hosts n h)\<lparr>t_state := st', t_last_tick := l, t_calls := cs\<rparr>)"
    unfolding gave_same [OF ns] by (rule host_al_move [OF t X(1,2) cs])
qed (use X(3) in simp_all)

lemma host_state_al: "host_al cfg L S h G t \<Longrightarrow> state_al cfg L S h (t_state t)"
  by (simp add: host_al_def)

lemma io_steps_well:
  assumes n: "net_al cfg L S n" and e: "allowed ok n h (TIo ord ords res now1 now2)"
  shows "steps_well cfg L S n h (TIo ord ords res now1 now2)"
proof -
  let ?t = "nw_hosts n h"
  have t: "host_al cfg L S h (gave n h) ?t" using n by (simp add: net_al_def)
  have "good_gram (packet_size cfg) L S a (h, buf)" if "res = Received buf a" for buf a
    using n e that by (auto simp: net_al_def)
  with e obtain st' l out X where io: "io_iter ord ords (t_state ?t, t_last_tick ?t) res now1 now2 = Inr ((st', l), out)"
    "S h \<subseteq> X" "state_al cfg L (S(h := X)) h st'" "good_out cfg L (S(h := X)) h out"
    using io_iter_al [OF host_state_al [OF t], of ord ords res "t_last_tick ?t" now1 now2] by (auto simp: moved_loop_def moved_def)
  then show ?thesis by (intro steps_well_moved [OF t _ io(2-4), where l = l and cs = "t_calls ?t"]) simp_all
qed

lemma send_steps_well:
  assumes n: "net_al cfg L S n" and safe: "\<And>D. ok D \<Longrightarrow> safe_msg cfg D" and e: "allowed ok n h (TSend dest D now)"
  shows "steps_well cfg L S n h (TSend dest D now)"
proof -
  let ?t = "nw_hosts n h" and ?e = "TSend dest D now"
  have t: "host_al cfg L S h (gave n h) ?t" using n by (simp add: net_al_def)
  let ?i = "t_counter ?t"
  let ?t' = "?t\<lparr>t_counter := ?i + 1, t_calls := t_calls ?t @ [Called ?i dest D now]\<rparr>"
  have len: "Suc (length (t_calls ?t)) < 2 ^ 64" using e by simp
  have i: "?i = word_of_nat (Suc (length (t_calls ?t)))" using t by (simp add: host_al_def)
  have G: "gave (after n h ?e ?t' []) h = insert (dest, D) (gave n h)" by (auto simp: gave_def after_def)
  have new: "L h (d, ?i) = None" for d
  proof (rule ccontr)
    assume "L h (d, ?i) \<noteq> None"
    then obtain k where k: "k < length (t_calls ?t)" "?i = word_of_nat (Suc k)"
      using t unfolding host_al_def by (metis option.exhaust)
    have "Suc k < 2 ^ 64" using k(1) len by simp
    with id_inj [OF len this] k i show False by simp
  qed
  have "call_al cfg L S h (insert (dest, D) (gave n h)) c" if "call_al cfg L S h (gave n h) c" for c
    by (rule call_al_gave [OF that]) blast
  moreover have "call_al cfg L S h (insert (dest, D) (gave n h)) (Called ?i dest D now)"
    using new safe e by simp
  moreover have "t_counter ?t + 1 = word_of_nat (Suc (Suc (length (t_calls ?t))))" by (simp add: i)
  ultimately have "host_al cfg L S h (gave (after n h ?e ?t' []) h) ?t'"
    using t len i unfolding G host_al_def by (fastforce simp: nth_append less_Suc_eq)
  then show ?thesis by (intro steps_wellI [of n h ?e ?t' "[]" L S L S]) (simp_all add: extends_def)
qed

text \<open>The first step of a call puts its message into the log.\<close>

lemma start_steps_well:
  assumes t: "host_al cfg L S h (gave n h) (nw_hosts n h)" and k: "k < length (t_calls (nw_hosts n h))"
    and cd: "t_calls (nw_hosts n h) ! k = Called i dest D t0"
  shows "steps_well cfg L S n h (TCall k now)"
proof -
  let ?t = "nw_hosts n h" and ?L = "L(h := (L h)((dest, i) \<mapsto> D))"
  have cc: "call_al cfg L S h (gave n h) (Called i dest D t0)" using t k cd by (metis host_al_def)
  obtain st' c' X where s: "send_call_step (t_timeout ?t) (t_state ?t) (Called i dest D t0) now = Inr ((st', c'), [])"
    "S h \<subseteq> X" "extends L S ?L (S(h := X))" "state_al cfg ?L (S(h := X)) h st'"
    "call_al cfg ?L (S(h := X)) h (gave n h) c'" "call_id c' = i"
    by (rule start_call_al [OF host_state_al [OF t] cc, of "t_timeout ?t" now])
  let ?t' = "?t\<lparr>t_state := st', t_calls := (t_calls ?t)[k := c']\<rparr>"
  have len: "length (t_calls ?t) < 2 ^ 64" using t by (simp add: host_al_def)
  have ids: "call_id (t_calls ?t ! j) = word_of_nat (Suc j)" if "j < length (t_calls ?t)" for j
    using t that by (simp add: host_al_def)
  have i: "i = word_of_nat (Suc k)" using ids [OF k] cd by simp
  have other: "call_id (t_calls ?t ! j) \<noteq> i" if "j < length (t_calls ?t)" "j \<noteq> k" for j
    using id_inj [of j k] ids [OF that(1)] i that k len by simp
  have "call_al cfg ?L (S(h := X)) h (gave n h) ((t_calls ?t)[k := c'] ! j)" if "j < length (t_calls ?t)" for j
    using s(5) t that call_al_start [OF _ other s(3)] by (cases "j = k") (auto simp: host_al_def k)
  moreover have "call_id ((t_calls ?t)[k := c'] ! j) = word_of_nat (Suc j)" if "j < length (t_calls ?t)" for j
    using s(6) i ids [OF that] k by (cases "j = k") auto
  moreover have "(dest, D) \<in> gave n h" using cc by simp
  ultimately have "host_al cfg ?L (S(h := X)) h (gave n h) ?t'"
    using t s(4) k i unfolding host_al_def by auto
  moreover have "gave (after n h (TCall k now) ?t' []) h = gave n h" by (rule gave_same) simp
  ultimately show ?thesis using s k cd
    by (intro steps_wellI [of n h "TCall k now" ?t' "[]" L S ?L "S(h := X)"]) simp_all
qed

lemma call_steps_well:
  assumes t: "host_al cfg L S h (gave n h) (nw_hosts n h)"
  shows "steps_well cfg L S n h (TCall k now)"
proof -
  let ?t = "nw_hosts n h"
  note st = host_state_al [OF t]
  consider (idle) "length (t_calls ?t) \<le> k" | (start) i dest D t0 where "k < length (t_calls ?t)" "t_calls ?t ! k = Called i dest D t0"
    | (later) "k < length (t_calls ?t)" "\<And>i dest D t0. t_calls ?t ! k \<noteq> Called i dest D t0"
    by (metis not_le)
  then show ?thesis
  proof cases
    case idle
    then show ?thesis using st
      by (intro steps_well_moved [OF t, where st' = "t_state ?t" and l = "t_last_tick ?t" and cs = "t_calls ?t" and out = "[]" and X = "S h"]) simp_all
  next
    case start
    then show ?thesis by (rule start_steps_well [OF t])
  next
    case later
    have c: "call_al cfg L S h (gave n h) (t_calls ?t ! k)" using t later(1) by (simp add: host_al_def)
    obtain st' c' out where s: "send_call_step (t_timeout ?t) (t_state ?t) (t_calls ?t ! k) now = Inr ((st', c'), out)"
      "moved cfg L S h (Inr (st', out))" "call_al cfg L S h (gave n h) c'" "call_id c' = call_id (t_calls ?t ! k)"
      by (rule later_call_al [OF st c, of "t_timeout ?t" now]) (use later(2) in blast)+
    obtain X where X: "S h \<subseteq> X" "state_al cfg L (S(h := X)) h st'" "good_out cfg L (S(h := X)) h out"
      using s(2) by (auto simp: moved_def)
    have "call_al cfg L (S(h := X)) h (gave n h) c'" by (rule call_al_chunks [OF s(3) extends_chunks [of S h X L, OF X(1)]])
    with s later(1) show ?thesis
      by (intro steps_well_moved [OF t _ X, where l = "t_last_tick ?t" and cs = "(t_calls ?t)[k := c']"]) auto
  qed
qed

lemma recv_steps_well:
  assumes t: "host_al cfg L S h (gave n h) (nw_hosts n h)"
  shows "steps_well cfg L S n h (TRecv deadline now)"
proof -
  let ?t = "nw_hosts n h"
  obtain st' out where p: "recv_poll (t_state ?t) deadline now = (st', out)" by force
  then obtain X where X: "S h \<subseteq> X" "state_al cfg L (S(h := X)) h st'" "good_out cfg L (S(h := X)) h out"
    using recv_poll_al [OF host_state_al [OF t] p] by (auto simp: moved_def)
  from p show ?thesis by (intro steps_well_moved [OF t _ X, where l = "t_last_tick ?t" and cs = "t_calls ?t"]) simp_all
qed

lemma host_step_al:
  assumes n: "net_al cfg L S n" and safe: "\<And>D. ok D \<Longrightarrow> safe_msg cfg D" and e: "allowed ok n h e"
  obtains t out L' S' where "transport_step (nw_hosts n h) e = Inr (t, out)" "extends L S L' S'"
    "\<forall>a. a \<noteq> h \<longrightarrow> L' a = L a \<and> S' a = S a" "host_al cfg L' S' h (gave (after n h e t out) h) t" "good_out cfg L' S' h out"
proof -
  have t: "host_al cfg L S h (gave n h) (nw_hosts n h)" using n by (simp add: net_al_def)
  have "steps_well cfg L S n h e"
  proof (cases e)
    case (TIo ord ords res now1 now2)
    with io_steps_well [OF n] e show ?thesis by blast
  next
    case (TSend dest D now)
    with send_steps_well [OF n safe] e show ?thesis by blast
  qed (simp_all add: call_steps_well [OF t] recv_steps_well [OF t])
  then show thesis using that unfolding steps_well_def by blast
qed

lemma host_al_new: "0 < packet_size cfg \<Longrightarrow> host_al cfg (\<lambda>a. Map.empty) (\<lambda>a. {}) h G (transport_new cfg boot)"
  using sender_inv_new [of cfg] reasm_ok_new [of cfg]
  by (simp add: host_al_def state_al_def logs_ok_def log_ok_def sender_aligned_def receiver_aligned_def
      transport_new_def state_new_def txq_ok_new sender_new_def receiver_new_def)

lemma reachable_al:
  assumes "reachable cfg ok n" "0 < packet_size cfg" "\<And>D. ok D \<Longrightarrow> safe_msg cfg D"
  shows "\<exists>L S. net_al cfg L S n"
  using assms(1)
proof (induction rule: reachable.induct)
  case (init boot)
  have "net_al cfg (\<lambda>a. Map.empty) (\<lambda>a. {}) (network_new cfg boot)"
    using host_al_new [OF assms(2)] by (simp add: net_al_def network_new_def)
  then show ?case by blast
next
  case (step n n')
  then obtain L S where n: "net_al cfg L S n" by blast
  from step.hyps(2) show ?case
  proof (rule net_stepE)
    fix h e t out
    assume n': "n' = after n h e t out" and e: "allowed ok n h e" and t: "transport_step (nw_hosts n h) e = Inr (t, out)"
    obtain t2 out2 L' S' where s: "transport_step (nw_hosts n h) e = Inr (t2, out2)" "extends L S L' S'"
      "\<forall>a. a \<noteq> h \<longrightarrow> L' a = L a \<and> S' a = S a" "host_al cfg L' S' h (gave (after n h e t2 out2) h) t2" "good_out cfg L' S' h out2"
      by (rule host_step_al [OF n assms(3) e]) blast
    have "t2 = t" "out2 = out" using s(1) t by simp_all
    with net_al_after [OF n s(2-5)] n' show ?thesis by blast
  qed
qed

section \<open>Playing a run\<close>

text \<open>
  An executable form of the step relation, for the examples: the \<open>k\<close>-th datagram ever sent
  arrives, a host does something else.
\<close>

datatype move = Arrive nat instant | Local sockaddr transport_event

definition act :: "(bytes \<Rightarrow> bool) \<Rightarrow> network \<Rightarrow> sockaddr \<Rightarrow> transport_event \<Rightarrow> network option" where
  "act ok n h e = (case transport_step (nw_hosts n h) e of Inl f \<Rightarrow> None | Inr (t, out) \<Rightarrow> Some (after n h e t out))"

abbreviation tick :: "recv_result \<Rightarrow> instant \<Rightarrow> transport_event" where
  "tick res now \<equiv> TIo (\<lambda>ks. ks) (\<lambda>ks. ks, \<lambda>ks. ks, \<lambda>ks. ks) res now now"

fun play :: "(bytes \<Rightarrow> bool) \<Rightarrow> network \<Rightarrow> move \<Rightarrow> network option" where
  "play ok n (Arrive k now) =
     (if k < length (nw_wire n)
      then case nw_wire n ! k of (a, h, buf) \<Rightarrow> act ok n h (tick (Received buf a) now)
      else None)"
| "play ok n (Local h (TIo ord ords res now1 now2)) =
     (if res = RecvTimeout then act ok n h (tick RecvTimeout now1) else None)"
| "play ok n (Local h (TSend dest data now)) =
     (if ok data \<and> length (t_calls (nw_hosts n h)) < 2 ^ 64 - 1 then act ok n h (TSend dest data now) else None)"
| "play ok n (Local h (TCall k now)) = act ok n h (TCall k now)"
| "play ok n (Local h (TRecv deadline now)) = act ok n h (TRecv deadline now)"

fun plays :: "(bytes \<Rightarrow> bool) \<Rightarrow> network \<Rightarrow> move list \<Rightarrow> network option" where
  "plays ok n [] = Some n"
| "plays ok n (m # ms) = (case play ok n m of None \<Rightarrow> None | Some n' \<Rightarrow> plays ok n' ms)"

lemma act_step: "act ok n h e = Some n' \<Longrightarrow> allowed ok n h e \<Longrightarrow> net_step ok n n'"
  by (auto simp: act_def intro: net_step.host split: sum.splits)

lemma play_step: "play ok n m = Some n' \<Longrightarrow> net_step ok n n'"
proof (induction ok n m rule: play.induct)
  case (1 ok n k now)
  obtain a h buf where w: "nw_wire n ! k = (a, h, buf)" by (cases "nw_wire n ! k") auto
  with 1 have "k < length (nw_wire n)" "act ok n h (tick (Received buf a) now) = Some n'"
    by (auto split: if_splits)
  moreover from this w have "(a, h, buf) \<in> set (nw_wire n)" by (metis nth_mem)
  then have "allowed ok n h (tick (Received buf a) now)" by (simp add: iter_orders_def)
  ultimately show ?case by (blast intro: act_step)
qed (auto simp: iter_orders_def split: if_splits intro: act_step)

lemma plays_reachable: "plays ok n ms = Some n' \<Longrightarrow> reachable cfg ok n \<Longrightarrow> reachable cfg ok n'"
proof (induction ms arbitrary: n)
  case (Cons m ms)
  then obtain n1 where "play ok n m = Some n1" "plays ok n1 ms = Some n'" by (auto split: option.splits)
  with Cons reachable.step [OF Cons.prems(2) play_step] show ?case by blast
qed simp

section \<open>Properties\<close>

text \<open>
  End to end: for hosts whose configuration is the same, and messages that are short enough for
  the unscheduled window or a configuration whose windows are multiples of the packet size, the
  transport is exact: in any interleaving of any number of hosts, with datagrams lost, duplicated,
  delayed and reordered at will, no host ever panics, and whatever \<open>recv\<close> returns on a host is
  byte for byte a message that was handed to \<open>send_to\<close> on its source for that very host.
\<close>

lemma end_to_end_exact:
  assumes "reachable cfg ok n" "0 < packet_size cfg" "\<And>D. ok D \<Longrightarrow> safe_msg cfg D"
  shows "(\<forall>(h, src, data) \<in> set (nw_got n). (src, h, data) \<in> set (nw_sent n))
    \<and> (\<forall>h e. allowed ok n h e \<longrightarrow> (\<exists>t out. transport_step (nw_hosts n h) e = Inr (t, out)))"
proof -
  obtain L S where n: "net_al cfg L S n" using reachable_al [OF assms] by blast
  have "\<exists>t out. transport_step (nw_hosts n h) e = Inr (t, out)" if "allowed ok n h e" for h e
  proof -
    from assms(3) that show ?thesis by (rule host_step_al [OF n]) blast+
  qed
  with n show ?thesis by (simp add: net_al_def)
qed

text \<open>An example: a message of 31 bytes, whose first GRANT is lost, so that a RESEND asks for more.\<close>

definition example_msg :: bytes where
  "example_msg = map (\<lambda>i. word_of_nat (i + 1)) [0..<31]"

definition example_moves :: "move list" where
  "example_moves =
     [Local (localhost 1) (TSend (localhost 2) example_msg 0), Local (localhost 1) (TCall 0 0), Local (localhost 1) (TCall 0 0),
      Arrive 0 1, Arrive 1 1, Local (localhost 2) (tick RecvTimeout 30000000), Arrive 3 30000001, Arrive 4 30000002,
      Arrive 5 30000002, Arrive 6 30000003, Arrive 7 30000004, Arrive 8 30000004, Arrive 9 30000004, Arrive 10 30000005,
      Arrive 11 30000006, Local (localhost 2) (tick RecvTimeout 60000000), Arrive 12 60000001, Arrive 13 60000002,
      Local (localhost 2) (TRecv 0 0)]"

definition aligned_config :: transport_config where
  "aligned_config = small_config\<lparr>unscheduled_bytes := 8, grant_increment := 12\<rparr>"

text \<open>Another: the second chunk overtakes the first, and arrives twice.\<close>

definition example_reordered :: "move list" where
  "example_reordered =
     [Local (localhost 1) (TSend (localhost 2) [1, 2, 3, 4, 5, 6, 7] 0), Local (localhost 1) (TCall 0 0), Local (localhost 1) (TCall 0 0),
      Arrive 1 1, Arrive 1 1, Arrive 0 1, Local (localhost 2) (TRecv 0 0)]"

lemma example_run:
  "map_option (\<lambda>n. (nw_sent n, nw_got n)) (plays (\<lambda>D. length D < 2 ^ 32) (network_new small_config (\<lambda>h. 0)) example_moves)
     = Some ([(localhost 1, localhost 2, example_msg)],
         [(localhost 2, localhost 1, take 16 example_msg @ [0, 0, 0] @ drop 19 example_msg)])"
  by code_simp

lemma example_reordered_run:
  "map_option nw_got (plays (safe_msg aligned_config) (network_new aligned_config (\<lambda>h. 0)) example_reordered)
     = Some [(localhost 2, localhost 1, [1, 2, 3, 4, 5, 6, 7])]"
  by code_simp

lemma end_to_end_exact_witness:
  "\<exists>n. reachable aligned_config (safe_msg aligned_config) n \<and> nw_got n = [(localhost 2, localhost 1, [1, 2, 3, 4, 5, 6, 7])]
    \<and> (\<forall>(h, src, data) \<in> set (nw_got n). (src, h, data) \<in> set (nw_sent n))
    \<and> (\<forall>h e. allowed (safe_msg aligned_config) n h e \<longrightarrow> (\<exists>t out. transport_step (nw_hosts n h) e = Inr (t, out)))"
proof -
  let ?cfg = aligned_config and ?ok = "safe_msg aligned_config"
  obtain n where n: "plays ?ok (network_new ?cfg (\<lambda>h. 0)) example_reordered = Some n"
    "nw_got n = [(localhost 2, localhost 1, [1, 2, 3, 4, 5, 6, 7])]"
    using example_reordered_run by auto
  have r: "reachable ?cfg ?ok n" by (rule plays_reachable [OF n(1) reachable.init])
  have ps: "0 < packet_size ?cfg" by (simp add: aligned_config_def)
  have safe: "\<And>D. ?ok D \<Longrightarrow> safe_msg ?cfg D" .
  from end_to_end_exact [OF r ps safe] r n(2) show ?thesis by blast
qed

text \<open>
  That condition is needed, and a single lost GRANT is enough to violate it: a run of two whole transports whose windows
  are not multiples of the packet size (as in the default configuration), in which \<open>recv\<close> returns a message of the right
  length with bytes 16 to 18 zero. Theory \<open>Corruption\<close> has the general statement.
\<close>

lemma lost_grant_corrupts:
  "\<exists>n. reachable small_config (\<lambda>D. length D < 2 ^ 32) n
    \<and> nw_sent n = [(localhost 1, localhost 2, example_msg)]
    \<and> nw_got n = [(localhost 2, localhost 1, take 16 example_msg @ [0, 0, 0] @ drop 19 example_msg)]"
proof -
  obtain n where n: "plays (\<lambda>D. length D < 2 ^ 32) (network_new small_config (\<lambda>h. 0)) example_moves = Some n"
    "nw_sent n = [(localhost 1, localhost 2, example_msg)]"
    "nw_got n = [(localhost 2, localhost 1, take 16 example_msg @ [0, 0, 0] @ drop 19 example_msg)]"
    using example_run by auto
  from plays_reachable [OF n(1) reachable.init] n(2,3) show ?thesis by blast
qed

end
