(* ===== verification/RemoteCalls.thy ===== *)
theory RemoteCalls
  imports Rpc Network
begin

text \<open>
  Remote procedure calls end to end: one server and any number of clients of
  \<^verbatim>\<open>src/rpc/mod.rs\<close> over the transport. All the RPC layer relies on is that the transport
  delivers only what was sent, as a locale; the network of transports provides it.
\<close>

section \<open>The interface\<close>

type_synonym message = "sockaddr \<times> sockaddr \<times> bytes"

text \<open>
  \<open>give W (h, a, x)\<close>: on host \<open>h\<close>, \<open>recv\<close> may return message \<open>x\<close> from \<open>a\<close> when \<open>W\<close> has been
  sent, as (source, destination, bytes). Messages that satisfy \<open>fits\<close> are not garbled.
\<close>

locale messaging =
  fixes give :: "message set \<Rightarrow> message \<Rightarrow> bool" and fits :: "bytes \<Rightarrow> bool"
  assumes given_sent: "\<forall>(a, d, x) \<in> W. fits x \<Longrightarrow> give W (h, a, x) \<Longrightarrow> (a, h, x) \<in> W"

text \<open>What the network of transports delivers: in some run in which no more than \<open>W\<close> has been sent.\<close>

definition transport_gives :: "transport_config \<Rightarrow> message set \<Rightarrow> message \<Rightarrow> bool" where
  "transport_gives cfg W m \<longleftrightarrow>
     (\<exists>n. reachable cfg (\<lambda>D. D \<in> (\<lambda>(a, d, x). x) ` W) n \<and> set (nw_sent n) \<subseteq> W \<and> m \<in> set (nw_got n))"

lemma transport_gives_sent:
  assumes "0 < packet_size cfg" "\<forall>(a, d, x) \<in> W. safe_msg cfg x" "transport_gives cfg W (h, a, x)"
  shows "(a, h, x) \<in> W"
proof -
  let ?ok = "\<lambda>D. D \<in> (\<lambda>(a, d, x). x) ` W"
  obtain n where n: "reachable cfg ?ok n" "set (nw_sent n) \<subseteq> W" "(h, a, x) \<in> set (nw_got n)"
    using assms(3) by (auto simp: transport_gives_def)
  have "?ok D \<Longrightarrow> safe_msg cfg D" for D using assms(2) by auto
  from reachable_al [OF n(1) assms(1) this] obtain L S where "net_al cfg L S n" by blast
  then have "(a, h, x) \<in> set (nw_sent n)" using n(3) by (auto simp: net_al_def)
  with n(2) show ?thesis by blast
qed

text \<open>
  The RPC layer binds its transports with the default configuration, which is safe for messages
  that fit in its unscheduled window.
\<close>

definition rpc_fits :: "bytes \<Rightarrow> bool" where
  "rpc_fits x \<longleftrightarrow> length x \<le> 10240"

lemma rpc_fits_safe: "rpc_fits x \<Longrightarrow> safe_msg default_config x"
  by (simp add: rpc_fits_def safe_msg_def fits_window_def default_config_def)

interpretation tm: messaging "transport_gives default_config" rpc_fits
proof unfold_locales
  fix W h a x
  assume w: "\<forall>(a, d, x) \<in> W. rpc_fits x" and g: "transport_gives default_config W (h, a, x)"
  have "0 < packet_size default_config" by (simp add: default_config_def)
  moreover have "\<forall>(a, d, x) \<in> W. safe_msg default_config x" using w rpc_fits_safe by blast
  ultimately show "(a, h, x) \<in> W" using g by (rule transport_gives_sent)
qed

section \<open>The system\<close>

text \<open>With the histories of events and effects of the server and of each client.\<close>

record rpc_net =
  rn_server :: server
  rn_client :: "sockaddr \<Rightarrow> client"
  rn_sent :: "message list"
  rn_requests :: "server_event list"
  rn_served :: "server_effect list"
  rn_events :: "sockaddr \<Rightarrow> client_event list"
  rn_out :: "sockaddr \<Rightarrow> client_effect list"

definition rpc_net_new :: rpc_net where
  "rpc_net_new = \<lparr>rn_server = server_new, rn_client = (\<lambda>c. client_new), rn_sent = [], rn_requests = [], rn_served = [],
     rn_events = (\<lambda>c. []), rn_out = (\<lambda>c. [])\<rparr>"

fun server_sends :: "server_effect list \<Rightarrow> (sockaddr \<times> bytes) list" where
  "server_sends [] = []"
| "server_sends (SendTo d b # os) = (d, b) # server_sends os"
| "server_sends (Invoked src i body rb # os) = server_sends os"

fun client_sends :: "client_effect list \<Rightarrow> (sockaddr \<times> bytes) list" where
  "client_sends [] = []"
| "client_sends (CallSend k d f # os) = (d, f) # client_sends os"
| "client_sends (CallReturned k i r # os) = client_sends os"
| "client_sends (CallPanicked k # os) = client_sends os"

lemma server_sends_set: "set (map (Pair s) (server_sends os)) = {(s, d, b) | d b. SendTo d b \<in> set os}"
  by (induction os rule: server_sends.induct) auto

lemma client_sends_set: "set (map (Pair c) (client_sends os)) = {(c, d, f) | d f. \<exists>k. CallSend k d f \<in> set os}"
  by (induction os rule: client_sends.induct) auto

definition server_after :: "sockaddr \<Rightarrow> rpc_net \<Rightarrow> server_event \<Rightarrow> server \<Rightarrow> server_effect list \<Rightarrow> rpc_net" where
  "server_after s n e sv os = n\<lparr>rn_server := sv, rn_sent := rn_sent n @ map (Pair s) (server_sends os),
     rn_requests := rn_requests n @ [e], rn_served := rn_served n @ os\<rparr>"

definition client_after :: "sockaddr \<Rightarrow> rpc_net \<Rightarrow> client_event \<Rightarrow> client \<Rightarrow> client_effect list \<Rightarrow> rpc_net" where
  "client_after c n e cl os = n\<lparr>rn_client := (rn_client n)(c := cl),
     rn_sent := rn_sent n @ map (Pair c) (client_sends os),
     rn_events := (rn_events n)(c := rn_events n c @ [e]), rn_out := (rn_out n)(c := rn_out n c @ os)\<rparr>"

text \<open>
  What may happen at the server: a frame that the transport gives arrives; a worker takes a step,
  in which the handler returns or panics, or \<open>send_to\<close> panics.
\<close>

definition runs_handler :: "(bytes \<Rightarrow> bytes) \<Rightarrow> worker \<Rightarrow> bytes option \<Rightarrow> bool" where
  "runs_handler handler w r = (case w of Working src i body \<Rightarrow> r = None \<or> r = Some (handler body) | _ \<Rightarrow> True)"

fun server_may :: "(message set \<Rightarrow> message \<Rightarrow> bool) \<Rightarrow> (bytes \<Rightarrow> bytes) \<Rightarrow> sockaddr \<Rightarrow> rpc_net \<Rightarrow> server_event \<Rightarrow> bool" where
  "server_may give handler s n (SRequest src frame) = give (set (rn_sent n)) (s, src, frame)"
| "server_may give handler s n (SWorker k r) =
     (k < length (sv_workers (rn_server n)) \<and> runs_handler handler (sv_workers (rn_server n) ! k) r)"

text \<open>The clients call the server, each fewer than \<open>2 ^ 64\<close> times, so that ids do not repeat.\<close>

fun client_may :: "(message set \<Rightarrow> message \<Rightarrow> bool) \<Rightarrow> sockaddr \<Rightarrow> rpc_net \<Rightarrow> sockaddr \<Rightarrow> client_event \<Rightarrow> bool" where
  "client_may give s n c (CCall server payload mx) = (server = s \<and> length (cl_calls (rn_client n c)) < 2 ^ 64 - 1)"
| "client_may give s n c (CProceed k sent) = True"
| "client_may give s n c (CFrame src frame) = give (set (rn_sent n)) (c, src, frame)"
| "client_may give s n c CPut = True"

inductive rpc_step :: "(message set \<Rightarrow> message \<Rightarrow> bool) \<Rightarrow> (bytes \<Rightarrow> bytes) \<Rightarrow> sockaddr \<Rightarrow> rpc_net \<Rightarrow> rpc_net \<Rightarrow> bool"
  for give handler s where
  server: "server_may give handler s n e \<Longrightarrow> server_step (rn_server n) e = Inr (sv, os) \<Longrightarrow>
     rpc_step give handler s n (server_after s n e sv os)"
| client: "c \<noteq> s \<Longrightarrow> client_may give s n c e \<Longrightarrow> client_step (rn_client n c) e = Inr (cl, os) \<Longrightarrow>
     rpc_step give handler s n (client_after c n e cl os)"

inductive rpc_reach :: "(message set \<Rightarrow> message \<Rightarrow> bool) \<Rightarrow> (bytes \<Rightarrow> bytes) \<Rightarrow> sockaddr \<Rightarrow> rpc_net \<Rightarrow> bool"
  for give handler s where
  init: "rpc_reach give handler s rpc_net_new"
| step: "rpc_reach give handler s n \<Longrightarrow> rpc_step give handler s n n' \<Longrightarrow> rpc_reach give handler s n'"

section \<open>The invariant\<close>

definition client_end :: "sockaddr \<Rightarrow> message set \<Rightarrow> sockaddr \<Rightarrow> client \<Rightarrow> client_event list \<Rightarrow> client_effect list \<Rightarrow> bool" where
  "client_end s W c cl es os \<longleftrightarrow> client_hist cl es os \<and> length (cl_calls cl) < 2 ^ 64
     \<and> (\<forall>src f. CFrame src f \<in> set es \<longrightarrow> (src, c, f) \<in> W)
     \<and> (\<forall>sv p mx. CCall sv p mx \<in> set es \<longrightarrow> sv = s)
     \<and> (c \<noteq> s \<longrightarrow> (\<forall>d f. (c, d, f) \<in> W \<longrightarrow> (\<exists>k. CallSend k d f \<in> set os)))"

definition server_end :: "(bytes \<Rightarrow> bytes) \<Rightarrow> sockaddr \<Rightarrow> message set \<Rightarrow> server \<Rightarrow> server_event list \<Rightarrow> server_effect list \<Rightarrow> bool" where
  "server_end handler s W sv es os \<longleftrightarrow> server_hist sv es os
     \<and> (\<forall>src f. SRequest src f \<in> set es \<longrightarrow> (src, s, f) \<in> W)
     \<and> (\<forall>src i body rb. Invoked src i body rb \<in> set os \<longrightarrow> rb = handler body)
     \<and> (\<forall>d b. (s, d, b) \<in> W \<longrightarrow> SendTo d b \<in> set os)"

definition rpc_ok :: "(bytes \<Rightarrow> bytes) \<Rightarrow> sockaddr \<Rightarrow> rpc_net \<Rightarrow> bool" where
  "rpc_ok handler s n \<longleftrightarrow> server_end handler s (set (rn_sent n)) (rn_server n) (rn_requests n) (rn_served n)
     \<and> (\<forall>c. client_end s (set (rn_sent n)) c (rn_client n c) (rn_events n c) (rn_out n c))"

lemma rpc_ok_new: "rpc_ok handler s rpc_net_new"
  using server_hist_new client_hist_new
  by (simp add: rpc_ok_def rpc_net_new_def server_end_def client_end_def) (simp add: client_new_def)

text \<open>Messages of others leave an end of the system as it is.\<close>

lemma client_end_others:
  "client_end s W c cl es os \<Longrightarrow> \<forall>(a, d, x) \<in> V. a \<noteq> c \<Longrightarrow> client_end s (W \<union> V) c cl es os"
  by (fastforce simp: client_end_def)

lemma server_end_others:
  "server_end handler s W sv es os \<Longrightarrow> \<forall>(a, d, x) \<in> V. a \<noteq> s \<Longrightarrow> server_end handler s (W \<union> V) sv es os"
  by (fastforce simp: server_end_def)

lemma server_end_step:
  assumes h: "server_end handler s W sv es os" and st: "server_step sv e = Inr (sv', os')"
    and e: "\<And>src f. e = SRequest src f \<Longrightarrow> (src, s, f) \<in> W"
      "\<And>k r. e = SWorker k r \<Longrightarrow> runs_handler handler (sv_workers sv ! k) r"
  shows "server_end handler s (W \<union> {(s, d, b) | d b. SendTo d b \<in> set os'}) sv' (es @ [e]) (os @ os')"
proof -
  have "rb = handler body" if "Invoked src i body rb \<in> set os'" for src i body rb
  proof (cases e)
    case (SWorker k r)
    with st that have k: "k < length (sv_workers sv)" "work sv k r = (sv', os')" by (auto split: if_splits)
    with that e(2) [OF SWorker] show ?thesis
      by (cases "sv_workers sv ! k"; cases r) (auto simp: work_def runs_handler_def)
  qed (use st that in simp)
  moreover have "server_hist sv' (es @ [e]) (os @ os')"
    using server_step_hist [OF _ st] h by (simp add: server_end_def)
  ultimately show ?thesis using h e(1) by (auto simp: server_end_def)
qed

lemma client_calls_grow:
  "client_step cl e = Inr (cl', os) \<Longrightarrow>
     length (cl_calls cl') = length (cl_calls cl) + (case e of CCall sv p mx \<Rightarrow> 1 | _ \<Rightarrow> 0)"
  by (cases e) (auto simp: call_begin_def call_step_def dispatch_take_def dispatch_put_def Let_def
      split: send_answer.splits if_splits stage.splits option.splits list.splits)

lemma client_end_step:
  assumes h: "client_end s W c cl es os" and st: "client_step cl e = Inr (cl', os')"
    and e: "\<And>src f. e = CFrame src f \<Longrightarrow> (src, c, f) \<in> W"
      "\<And>sv p mx. e = CCall sv p mx \<Longrightarrow> sv = s \<and> length (cl_calls cl) < 2 ^ 64 - 1"
  shows "client_end s (W \<union> {(c, d, f) | d f. \<exists>k. CallSend k d f \<in> set os'}) c cl' (es @ [e]) (os @ os')"
proof -
  have "length (cl_calls cl') < 2 ^ 64"
    using client_calls_grow [OF st] h e(2) by (cases e) (auto simp: client_end_def)
  moreover have "client_hist cl' (es @ [e]) (os @ os')"
    using client_step_hist [OF _ st] h by (simp add: client_end_def)
  ultimately show ?thesis using h e by (fastforce simp: client_end_def)
qed

section \<open>What a call returns\<close>

context messaging begin

lemma rpc_invariant:
  "rpc_reach give handler s n \<Longrightarrow> \<forall>(a, d, x) \<in> set (rn_sent n). fits x \<Longrightarrow> rpc_ok handler s n"
proof (induction rule: rpc_reach.induct)
  case init
  show ?case by (rule rpc_ok_new)
next
  case (step n n')
  from step.hyps(2) have mono: "set (rn_sent n) \<subseteq> set (rn_sent n')"
    by (cases rule: rpc_step.cases) (auto simp: server_after_def client_after_def)
  then have fit: "\<forall>(a, d, x) \<in> set (rn_sent n). fits x" using step.prems by blast
  then have ok: "rpc_ok handler s n" by (rule step.IH)
  then have sv: "server_end handler s (set (rn_sent n)) (rn_server n) (rn_requests n) (rn_served n)"
    and cl: "\<And>c. client_end s (set (rn_sent n)) c (rn_client n c) (rn_events n c) (rn_out n c)"
    by (simp_all add: rpc_ok_def)
  from step.hyps(2) show ?case
  proof (cases rule: rpc_step.cases)
    case (server e sv' os)
    have "client_end s (set (rn_sent n) \<union> {(s, d, b) | d b. SendTo d b \<in> set os}) c (rn_client n c) (rn_events n c) (rn_out n c)" for c
      using cl [of c] by (auto simp: client_end_def)
    moreover have "server_end handler s (set (rn_sent n) \<union> {(s, d, b) | d b. SendTo d b \<in> set os}) sv' (rn_requests n @ [e]) (rn_served n @ os)"
      by (rule server_end_step [OF sv server(3)]) (use server(2) given_sent [OF fit] in auto)
    ultimately show ?thesis unfolding server(1)
      by (simp add: rpc_ok_def server_after_def server_sends_set del: set_map)
  next
    case (client c e cl' os)
    let ?V = "{(c, d, f) | d f. \<exists>k. CallSend k d f \<in> set os}"
    have "client_end s (set (rn_sent n) \<union> ?V) c cl' (rn_events n c @ [e]) (rn_out n c @ os)"
      by (rule client_end_step [OF cl client(4)]) (use client(3) given_sent [OF fit] in auto)
    moreover have "client_end s (set (rn_sent n) \<union> ?V) a (rn_client n a) (rn_events n a) (rn_out n a)" if "a \<noteq> c" for a
      by (rule client_end_others [OF cl]) (use that in auto)
    moreover have "server_end handler s (set (rn_sent n) \<union> ?V) (rn_server n) (rn_requests n) (rn_served n)"
      by (rule server_end_others [OF sv]) (use client(2) in auto)
    ultimately show ?thesis unfolding client(1)
      by (simp add: rpc_ok_def client_after_def client_sends_set del: set_map)
  qed
qed

end

lemma call_frame:
  assumes "client_end s W c cl es os" "n < length (cl_calls cl)"
  obtains payload where "rc_id (cl_calls cl ! n) = word_of_nat (Suc n)" "rc_server (cl_calls cl ! n) = s"
    "rc_frame (cl_calls cl ! n) = encode_frame (word_of_nat (Suc n)) payload" "CCall s payload (rc_max (cl_calls cl ! n)) \<in> set es"
proof -
  obtain own where h: "client_own own cl es os" using assms(1) by (auto simp: client_end_def client_hist_def)
  then have ok: "rpc_call_ok own (length (cl_chans cl)) es os n (cl_calls cl ! n)" using assms(2) by (simp add: client_own_def)
  then obtain payload where p: "CCall (rc_server (cl_calls cl ! n)) payload (rc_max (cl_calls cl ! n)) \<in> set es"
    "rc_id (cl_calls cl ! n) = word_of_nat (Suc n)" "rc_frame (cl_calls cl ! n) = encode_frame (word_of_nat (Suc n)) payload"
    by (auto simp: rpc_call_ok_def)
  moreover from this have "rc_server (cl_calls cl ! n) = s" using assms(1) unfolding client_end_def by blast
  ultimately show thesis by (intro that) simp_all
qed

lemma client_effects:
  assumes "client_end s W c cl es os"
  shows "CallSend k d f \<in> set os \<Longrightarrow> k < length (cl_calls cl) \<and> d = rc_server (cl_calls cl ! k) \<and> f = rc_frame (cl_calls cl ! k)"
    "CallReturned k i (Inr body) \<in> set os \<Longrightarrow> k < length (cl_calls cl) \<and> i = rc_id (cl_calls cl ! k) \<and> arrived_frame es i body"
proof -
  obtain own where h: "client_own own cl es os" using assms by (auto simp: client_end_def client_hist_def)
  then show "CallSend k d f \<in> set os \<Longrightarrow> k < length (cl_calls cl) \<and> d = rc_server (cl_calls cl ! k) \<and> f = rc_frame (cl_calls cl ! k)"
    by (simp add: client_own_def)
  show "k < length (cl_calls cl) \<and> i = rc_id (cl_calls cl ! k) \<and> arrived_frame es i body" if "CallReturned k i (Inr body) \<in> set os"
  proof -
    have "k < length (cl_calls cl) \<and> i = rc_id (cl_calls cl ! k) \<and> return_ok es os k (cl_calls cl ! k) (Inr body)"
      using h that unfolding client_own_def by blast
    then show ?thesis by (simp add: return_ok_def)
  qed
qed

text \<open>From the response back to the request: the frames that reach a client are the server's, and those that reach the server the clients'.\<close>

lemma response_computed:
  assumes ok: "rpc_ok handler s n" and c: "c \<noteq> s" and r: "CallReturned k i (Inr body) \<in> set (rn_out n c)"
  obtains payload where "i = word_of_nat (Suc k)" "CCall s payload (rc_max (cl_calls (rn_client n c) ! k)) \<in> set (rn_events n c)"
    "rc_frame (cl_calls (rn_client n c) ! k) = encode_frame i payload"
    "body = handler payload" "Invoked c i payload body \<in> set (rn_served n)" "distinct (invoked (rn_served n))"
proof -
  have sv: "server_end handler s (set (rn_sent n)) (rn_server n) (rn_requests n) (rn_served n)"
    and cl: "\<And>c. client_end s (set (rn_sent n)) c (rn_client n c) (rn_events n c) (rn_out n c)"
    using ok by (simp_all add: rpc_ok_def)
  note ret = client_effects(2) [OF cl r]
  then obtain src where "CFrame src (encode_frame i body) \<in> set (rn_events n c)" by (auto simp: arrived_frame_def)
  then have w: "(src, c, encode_frame i body) \<in> set (rn_sent n)" using cl [of c] unfolding client_end_def by blast
  have "src = s"
  proof (rule ccontr)
    assume "src \<noteq> s"
    then obtain k' where "CallSend k' c (encode_frame i body) \<in> set (rn_out n src)"
      using w cl [of src] unfolding client_end_def by blast
    with client_effects(1) [OF cl] have "k' < length (cl_calls (rn_client n src))" "c = rc_server (cl_calls (rn_client n src) ! k')"
      by blast+
    with call_frame [OF cl] c show False by metis
  qed
  then have "SendTo c (encode_frame i body) \<in> set (rn_served n)" using w sv unfolding server_end_def by blast
  moreover have hist: "\<forall>src resp. SendTo src resp \<in> set (rn_served n) \<longrightarrow> (\<exists>i. answers (rn_served n) (src, i) resp)"
    "\<forall>src i body rb. Invoked src i body rb \<in> set (rn_served n) \<longrightarrow> SRequest src (encode_frame i body) \<in> set (rn_requests n)"
    "distinct (invoked (rn_served n))"
    using sv by (simp_all add: server_end_def server_hist_def)
  ultimately obtain j where "answers (rn_served n) (c, j) (encode_frame i body)" by blast
  then obtain q rb where "encode_frame i body = encode_frame j rb" "Invoked c j q rb \<in> set (rn_served n)"
    by (auto simp: answers_def)
  moreover from this(1) have "j = i \<and> rb = body" by (metis decode_encode_frame option.inject prod.inject)
  ultimately have inv: "Invoked c i q body \<in> set (rn_served n)" by simp
  then have "SRequest c (encode_frame i q) \<in> set (rn_requests n)" and h: "body = handler q"
    using hist(2) sv unfolding server_end_def by blast+
  then have "(c, s, encode_frame i q) \<in> set (rn_sent n)" using sv unfolding server_end_def by blast
  then obtain k' where "CallSend k' s (encode_frame i q) \<in> set (rn_out n c)" using c cl [of c] unfolding client_end_def by blast
  then have k': "k' < length (cl_calls (rn_client n c))" "encode_frame i q = rc_frame (cl_calls (rn_client n c) ! k')"
    using client_effects(1) [OF cl] by blast+
  obtain p' where p': "rc_frame (cl_calls (rn_client n c) ! k') = encode_frame (word_of_nat (Suc k')) p'"
    by (rule call_frame [OF cl k'(1)])
  obtain p where p: "rc_id (cl_calls (rn_client n c) ! k) = word_of_nat (Suc k)"
    "rc_frame (cl_calls (rn_client n c) ! k) = encode_frame (word_of_nat (Suc k)) p"
    "CCall s p (rc_max (cl_calls (rn_client n c) ! k)) \<in> set (rn_events n c)"
    using ret by (blast elim: call_frame [OF cl])
  have len: "length (cl_calls (rn_client n c)) < 2 ^ 64" using cl [of c] by (simp add: client_end_def)
  have "i = word_of_nat (Suc k')" "q = p'"
    using k'(2) p' by (metis decode_encode_frame option.inject prod.inject)+
  moreover have "i = word_of_nat (Suc k)" using ret p(1) by simp
  moreover have "Suc k' < 2 ^ 64" "Suc k < 2 ^ 64"
    using le_less_trans [OF Suc_leI [OF k'(1)] len] le_less_trans [OF Suc_leI [OF conjunct1 [OF ret]] len] .
  ultimately have "k' = k" using id_inj by metis
  then have "q = p" using k'(2) p(2) \<open>i = word_of_nat (Suc k)\<close> by (metis decode_encode_frame option.inject prod.inject)
  then show thesis using that p \<open>i = word_of_nat (Suc k)\<close> h inv hist(3) by metis
qed

section \<open>Playing a run\<close>

datatype rpc_move = AtServer server_event | AtClient sockaddr client_event

fun rpc_play :: "(message set \<Rightarrow> message \<Rightarrow> bool) \<Rightarrow> (bytes \<Rightarrow> bytes) \<Rightarrow> sockaddr \<Rightarrow> rpc_net \<Rightarrow> rpc_move \<Rightarrow> rpc_net option" where
  "rpc_play give handler s n (AtServer e) =
     (if server_may give handler s n e
      then case server_step (rn_server n) e of Inl f \<Rightarrow> None | Inr (sv, os) \<Rightarrow> Some (server_after s n e sv os) else None)"
| "rpc_play give handler s n (AtClient c e) =
     (if c \<noteq> s \<and> client_may give s n c e
      then case client_step (rn_client n c) e of Inl f \<Rightarrow> None | Inr (cl, os) \<Rightarrow> Some (client_after c n e cl os) else None)"

fun rpc_plays :: "(message set \<Rightarrow> message \<Rightarrow> bool) \<Rightarrow> (bytes \<Rightarrow> bytes) \<Rightarrow> sockaddr \<Rightarrow> rpc_net \<Rightarrow> rpc_move list \<Rightarrow> rpc_net option" where
  "rpc_plays give handler s n [] = Some n"
| "rpc_plays give handler s n (m # ms) =
     (case rpc_play give handler s n m of None \<Rightarrow> None | Some n' \<Rightarrow> rpc_plays give handler s n' ms)"

lemma rpc_play_step: "rpc_play give handler s n m = Some n' \<Longrightarrow> rpc_step give handler s n n'"
  by (cases m) (auto intro: rpc_step.intros split: if_splits sum.splits)

lemma rpc_plays_reach: "rpc_plays give handler s n ms = Some n' \<Longrightarrow> rpc_reach give handler s n \<Longrightarrow> rpc_reach give handler s n'"
proof (induction ms arbitrary: n)
  case (Cons m ms)
  then obtain n1 where "rpc_play give handler s n m = Some n1" "rpc_plays give handler s n1 ms = Some n'"
    by (auto split: option.splits)
  with Cons rpc_reach.step [OF Cons.prems(2) rpc_play_step] show ?case by blast
qed simp

text \<open>A network that delivers more allows more.\<close>

lemma rpc_reach_mono:
  assumes "\<And>W m. give W m \<Longrightarrow> give' W m"
  shows "rpc_reach give handler s n \<Longrightarrow> rpc_reach give' handler s n"
proof (induction rule: rpc_reach.induct)
  case (step n n')
  have sm: "server_may give handler s n e \<Longrightarrow> server_may give' handler s n e" for e
    by (cases e) (use assms in auto)
  have cm: "client_may give s n c e \<Longrightarrow> client_may give' s n c e" for c e
    by (cases e) (use assms in auto)
  from step.hyps(2) have "rpc_step give' handler s n n'"
    by (cases rule: rpc_step.cases) (use sm cm in \<open>auto intro: rpc_step.intros\<close>)
  with step.IH show ?case by (rule rpc_reach.step)
qed (rule rpc_reach.init)

lemma reachable_mono: "reachable cfg ok n \<Longrightarrow> (\<And>D. ok D \<Longrightarrow> ok' D) \<Longrightarrow> reachable cfg ok' n"
proof (induction rule: reachable.induct)
  case (step n n')
  have al: "allowed ok n h e \<Longrightarrow> allowed ok' n h e" for h e
    by (cases e) (use step.prems in auto)
  from step.hyps(2) have "net_step ok' n n'"
    by (rule net_stepE) (use al in \<open>auto intro: net_step.host\<close>)
  with step.IH [OF step.prems] show ?case by (rule reachable.step)
qed (rule reachable.init)

section \<open>Properties\<close>

text \<open>
  Remote calls end to end: a server that runs \<open>handler\<close> and clients that call it, over the
  transport with the configuration the RPC layer uses, and no frame longer than the unscheduled
  window. In every interleaving of all threads of all hosts, whatever the network loses, repeats,
  delays or reorders and however often calls are repeated: if the \<open>k\<close>-th call of a client returns
  a body, the body is what \<open>handler\<close> computed for the payload of that call, in an invocation for
  that client and id, and the server invokes the handler at most once per client and id.
\<close>

lemma rpc_call_exact:
  assumes "rpc_reach (transport_gives default_config) handler s n"
    "\<forall>(a, d, x) \<in> set (rn_sent n). length x \<le> 10240"
    "c \<noteq> s" "CallReturned k i (Inr body) \<in> set (rn_out n c)"
  shows "(\<exists>payload. CCall s payload (rc_max (cl_calls (rn_client n c) ! k)) \<in> set (rn_events n c)
      \<and> rc_frame (cl_calls (rn_client n c) ! k) = encode_frame i payload
      \<and> body = handler payload \<and> Invoked c i payload body \<in> set (rn_served n))
    \<and> i = word_of_nat (Suc k) \<and> distinct (invoked (rn_served n))"
proof -
  have "\<forall>(a, d, x) \<in> set (rn_sent n). rpc_fits x" using assms(2) by (simp add: rpc_fits_def)
  from response_computed [OF tm.rpc_invariant [OF assms(1) this] assms(3,4)] show ?thesis by metis
qed

text \<open>An example: the transport carries a request of 9 bytes and the response.\<close>

abbreviation one_message :: "sockaddr \<Rightarrow> sockaddr \<Rightarrow> bytes \<Rightarrow> move list" where
  "one_message a h x \<equiv> [Local a (TSend h x 0), Local a (TCall 0 0), Local a (TCall 0 0), Arrive 0 1, Local h (TRecv 0 2)]"

lemma example_given:
  assumes "map_option (\<lambda>n. (nw_sent n, nw_got n)) (plays (\<lambda>D. D = x) (network_new default_config (\<lambda>h. 0)) (one_message a h x))
    = Some ([(a, h, x)], [(h, a, x)])" "(a, h, x) \<in> W"
  shows "transport_gives default_config W (h, a, x)"
proof -
  obtain n where n: "plays (\<lambda>D. D = x) (network_new default_config (\<lambda>h. 0)) (one_message a h x) = Some n"
    "nw_sent n = [(a, h, x)]" "nw_got n = [(h, a, x)]" using assms(1) by auto
  have "reachable default_config (\<lambda>D. D = x) n" by (rule plays_reachable [OF n(1) reachable.init])
  then have "reachable default_config (\<lambda>D. D \<in> (\<lambda>(a, d, x). x) ` W) n"
    by (rule reachable_mono) (use assms(2) in force)
  with n assms(2) show ?thesis by (auto simp: transport_gives_def)
qed

definition example_request :: message where
  "example_request = (localhost 5, localhost 1, encode_frame 1 [7])"

definition example_response :: message where
  "example_response = (localhost 1, localhost 5, encode_frame 1 [7, 7])"

lemma example_request_run:
  "map_option (\<lambda>n. (nw_sent n, nw_got n)) (plays (\<lambda>D. D = encode_frame 1 [7]) (network_new default_config (\<lambda>h. 0))
     (one_message (localhost 5) (localhost 1) (encode_frame 1 [7])))
   = Some ([(localhost 5, localhost 1, encode_frame 1 [7])], [(localhost 1, localhost 5, encode_frame 1 [7])])"
  by code_simp

lemma example_response_run:
  "map_option (\<lambda>n. (nw_sent n, nw_got n)) (plays (\<lambda>D. D = encode_frame 1 [7, 7]) (network_new default_config (\<lambda>h. 0))
     (one_message (localhost 1) (localhost 5) (encode_frame 1 [7, 7])))
   = Some ([(localhost 1, localhost 5, encode_frame 1 [7, 7])], [(localhost 5, localhost 1, encode_frame 1 [7, 7])])"
  by code_simp

definition example_gives :: "message set \<Rightarrow> message \<Rightarrow> bool" where
  "example_gives W m = (case m of (h, a, x) \<Rightarrow> (a, h, x) \<in> W \<and> ((a, h, x) = example_request \<or> (a, h, x) = example_response))"

lemma example_gives_transport: "example_gives W m \<Longrightarrow> transport_gives default_config W m"
  using example_given [OF example_request_run] example_given [OF example_response_run]
  by (auto simp: example_gives_def example_request_def example_response_def)

text \<open>The request is sent twice and arrives three times; the response arrives twice.\<close>

definition example_calls :: "rpc_move list" where
  "example_calls =
     (let c = localhost 5; s = localhost 1; request = SRequest c (encode_frame 1 [7]); response = CFrame s (encode_frame 1 [7, 7])
      in [AtClient c (CCall s [7] 2), AtClient c (CProceed 0 Sent), AtClient c (CProceed 0 Sent), AtServer request,
          AtClient c (CProceed 0 Sent), AtClient c (CProceed 0 Sent), AtServer request, AtServer (SWorker 0 (Some [7, 7])),
          AtServer (SWorker 0 (Some [])), AtServer (SWorker 0 (Some [])), AtServer request, AtServer (SWorker 1 (Some [])),
          AtClient c (CProceed 0 Sent), AtClient c response, AtClient c CPut, AtClient c (CProceed 0 Sent), AtClient c response])"

lemma example_calls_run:
  "map_option (\<lambda>n. (map (\<lambda>(a, d, x). length x) (rn_sent n), rn_out n (localhost 5), invoked (rn_served n)))
     (rpc_plays example_gives (\<lambda>x. x @ x) (localhost 1) rpc_net_new example_calls)
   = Some ([9, 10, 10, 9], [CallSend 0 (localhost 1) (encode_frame 1 [7]), CallSend 0 (localhost 1) (encode_frame 1 [7]),
         CallReturned 0 1 (Inr [7, 7])], [(localhost 5, 1)])"
  by code_simp

lemma rpc_call_exact_witness:
  "let c = localhost 5; s = localhost 1
   in \<exists>n. rpc_reach (transport_gives default_config) (\<lambda>x. x @ x) s n \<and> CallReturned 0 1 (Inr [7, 7]) \<in> set (rn_out n c)
     \<and> (\<exists>payload. CCall s payload (rc_max (cl_calls (rn_client n c) ! 0)) \<in> set (rn_events n c)
         \<and> [7, 7] = payload @ payload \<and> Invoked c 1 payload [7, 7] \<in> set (rn_served n))
     \<and> invoked (rn_served n) = [(c, 1)]"
proof -
  let ?c = "localhost 5" and ?s = "localhost 1"
  obtain n where p: "rpc_plays example_gives (\<lambda>x. x @ x) ?s rpc_net_new example_calls = Some n"
    and l: "map (\<lambda>(a, d, x). length x) (rn_sent n) = [9, 10, 10, 9]"
    and r: "CallReturned 0 1 (Inr [7, 7]) \<in> set (rn_out n ?c)" and i: "invoked (rn_served n) = [(?c, 1)]"
    using example_calls_run by auto
  have g: "rpc_reach (transport_gives default_config) (\<lambda>x. x @ x) ?s n"
    by (rule rpc_reach_mono [OF example_gives_transport rpc_plays_reach [OF p rpc_reach.init]])
  have "length x \<in> set [9, 10, 10, 9]" if "(a, d, x) \<in> set (rn_sent n)" for a d x
    using that unfolding l [symmetric] by force
  then have fit: "\<forall>(a, d, x) \<in> set (rn_sent n). length x \<le> 10240" by fastforce
  have "?c \<noteq> ?s" by (simp add: localhost_def)
  from rpc_call_exact [OF g fit this r] g r i show ?thesis unfolding Let_def by blast
qed

end
