(* ===== verification/Threads.thy ===== *)
theory Threads
  imports Prelude
begin

text \<open>
  What the threads of the crate have in common: each runs a loop that reads a stop flag before every
  round, and each works on the state of a component whose operations are modelled elsewhere. The
  first locale says when such a loop ends, the second that a run of the threads is a run of the
  component.
\<close>

section \<open>Loops with a stop flag\<close>

text \<open>
  \<open>own\<close> marks the steps of the thread among all steps, \<open>rank\<close> bounds how many of them it has left once
  the flag is set; \<open>blocked\<close> says that it waits for a lock that is never released.
\<close>

locale flagged_loop =
  fixes step :: "'s \<Rightarrow> 'e \<Rightarrow> fault + ('s \<times> 'o list)"
    and own :: "'e \<Rightarrow> bool"
    and flag :: "'s \<Rightarrow> bool"
    and blocked :: "'s \<Rightarrow> bool"
    and rank :: "'s \<Rightarrow> nat"
  assumes flag_stays: "flag s \<Longrightarrow> step s e = Inr (s', os) \<Longrightarrow> flag s'"
    and blocked_stays: "blocked s \<Longrightarrow> step s e = Inr (s', os) \<Longrightarrow> blocked s'"
    and own_rank: "flag s \<Longrightarrow> own e \<Longrightarrow> step s e = Inr (s', os) \<Longrightarrow> \<not> blocked s' \<Longrightarrow> rank s' \<le> rank s - 1"
    and other_rank: "flag s \<Longrightarrow> \<not> own e \<Longrightarrow> step s e = Inr (s', os) \<Longrightarrow> rank s' \<le> rank s"
begin

lemma run_blocked: "blocked s \<Longrightarrow> run_steps step s es = Inr (s', os) \<Longrightarrow> blocked s'"
proof (induction es arbitrary: s os)
  case (Cons e es)
  from Cons.prems(2) obtain t os1 os2 where "step s e = Inr (t, os1)" "run_steps step t es = Inr (s', os2)"
    by (auto simp: bind_res_Inr_iff)
  with Cons blocked_stays show ?case by blast
qed simp

lemma run_rank:
  "flag s \<Longrightarrow> run_steps step s es = Inr (s', os) \<Longrightarrow> \<not> blocked s' \<Longrightarrow>
     flag s' \<and> rank s' \<le> rank s - length (filter own es)"
proof (induction es arbitrary: s os)
  case (Cons e es)
  from Cons.prems(2) obtain t os1 os2 where st: "step s e = Inr (t, os1)"
    and run: "run_steps step t es = Inr (s', os2)"
    by (auto simp: bind_res_Inr_iff)
  have nb: "\<not> blocked t" using run_blocked [OF _ run] Cons.prems(3) by blast
  from Cons.IH [OF flag_stays [OF Cons.prems(1) st] run Cons.prems(3)]
    own_rank [OF Cons.prems(1) _ st nb] other_rank [OF Cons.prems(1) _ st]
  show ?case by (cases "own e") auto
qed simp

lemma run_ends:
  "flag s \<Longrightarrow> run_steps step s es = Inr (s', os) \<Longrightarrow> \<not> blocked s' \<Longrightarrow> rank s \<le> length (filter own es) \<Longrightarrow> rank s' = 0"
  using run_rank [of s es s' os] by simp

end

text \<open>
  The position in a loop whose body begins with one blocking call: before the flag is read; in that
  call; out of the loop; or dead by a panic.
\<close>

datatype loop_pos = LoopHead | LoopBody | LoopEnded | LoopPanicked

fun loop_left :: "loop_pos \<Rightarrow> nat" where
  "loop_left LoopHead = 1"
| "loop_left LoopBody = 2"
| "loop_left LoopEnded = 0"
| "loop_left LoopPanicked = 0"

lemma loop_left_0: "loop_left x = 0 \<longleftrightarrow> x = LoopEnded \<or> x = LoopPanicked"
  by (cases x) auto

lemma loop_left_le: "loop_left x \<le> 2"
  by (cases x) auto

section \<open>Threads over a component\<close>

text \<open>
  Every step of the threads (\<open>step\<close>) in a state that satisfies \<open>inv\<close> is some steps of the component (\<open>astep\<close>) on its part \<open>abs\<close> of
  the state, with the component's part \<open>outs\<close> of the output. \<open>refines e f\<close> says what an event \<open>f\<close> of
  the component has in common with the event \<open>e\<close> of the threads that causes it.
\<close>

locale simulation =
  fixes step :: "'s \<Rightarrow> 'e \<Rightarrow> fault + ('s \<times> 'o list)"
    and astep :: "'a \<Rightarrow> 'f \<Rightarrow> fault + ('a \<times> 'p list)"
    and inv :: "'s \<Rightarrow> bool"
    and abs :: "'s \<Rightarrow> 'a"
    and outs :: "'o list \<Rightarrow> 'p list"
    and refines :: "'e \<Rightarrow> 'f \<Rightarrow> bool"
  assumes step_inv: "inv s \<Longrightarrow> step s e = Inr (s', os) \<Longrightarrow> inv s'"
    and step_sim: "inv s \<Longrightarrow> step s e = Inr (s', os) \<Longrightarrow>
      \<exists>fs. run_steps astep (abs s) fs = Inr (abs s', outs os) \<and> (\<forall>f \<in> set fs. refines e f)"
    and outs_Nil: "outs [] = []"
    and outs_append: "outs (os @ os') = outs os @ outs os'"
begin

lemma run_inv: "inv s \<Longrightarrow> run_steps step s es = Inr (s', os) \<Longrightarrow> inv s'"
proof (induction es arbitrary: s os)
  case (Cons e es)
  from Cons.prems(2) obtain t os1 os2 where "step s e = Inr (t, os1)" "run_steps step t es = Inr (s', os2)"
    by (auto simp: bind_res_Inr_iff)
  with Cons step_inv show ?case by blast
qed simp

lemma run_sim:
  "inv s \<Longrightarrow> run_steps step s es = Inr (s', os) \<Longrightarrow>
     \<exists>fs. run_steps astep (abs s) fs = Inr (abs s', outs os) \<and> (\<forall>f \<in> set fs. \<exists>e \<in> set es. refines e f)"
proof (induction es arbitrary: s os)
  case Nil
  then show ?case by (intro exI [of _ "[]"]) (simp add: outs_Nil)
next
  case (Cons e es)
  from Cons.prems(2) obtain t os1 os2 where st: "step s e = Inr (t, os1)"
    and run: "run_steps step t es = Inr (s', os2)" and os: "os = os1 @ os2"
    by (auto simp: bind_res_Inr_iff)
  from step_sim [OF Cons.prems(1) st] obtain fs1 where
    f1: "run_steps astep (abs s) fs1 = Inr (abs t, outs os1)" "\<forall>f \<in> set fs1. refines e f" by blast
  from Cons.IH [OF step_inv [OF Cons.prems(1) st] run] obtain fs2 where
    f2: "run_steps astep (abs t) fs2 = Inr (abs s', outs os2)" "\<forall>f \<in> set fs2. \<exists>e \<in> set es. refines e f" by blast
  have "run_steps astep (abs s) (fs1 @ fs2) = Inr (abs s', outs os)"
    using f1 f2 by (simp add: run_steps_append os outs_append)
  moreover have "\<forall>f \<in> set (fs1 @ fs2). \<exists>e \<in> set (e # es). refines e f" using f1(2) f2(2) by auto
  ultimately show ?case by blast
qed

end

text \<open>Where a step is one step of the component or none, that is a run of it.\<close>

lemma one_or_none:
  assumes "(a' = a \<and> os = []) \<or> (\<exists>f. astep a f = Inr (a', os) \<and> P f)"
  shows "\<exists>fs. run_steps astep a fs = Inr (a', os) \<and> (\<forall>f \<in> set fs. P f)"
  using assms
proof (elim disjE exE)
  fix f
  assume "astep a f = Inr (a', os) \<and> P f"
  then show ?thesis by (intro exI [of _ "[f]"]) simp
qed (intro exI [of _ "[]"], simp)

text \<open>A step function without faults runs through any events.\<close>

lemma steps_run: "(\<And>s e. \<exists>r. step s e = Inr r) \<Longrightarrow> \<exists>s' os. run_steps step s es = Inr (s', os)"
proof (induction es arbitrary: s)
  case (Cons e es)
  obtain t os where "step s e = Inr (t, os)" using Cons.prems [of s e] by auto
  moreover obtain s' os' where "run_steps step t es = Inr (s', os')" using Cons by blast
  ultimately show ?case by simp
qed simp

end
