(* ===== verification/TcpBaseline.thy ===== *)
theory TcpBaseline
  imports Threads Types
begin

text \<open>
  The module \<open>tcp_baseline\<close> of \<^verbatim>\<open>src/rpc/mod.rs\<close>: the echo server with its accept loop and its
  connection loop, and the client's call, over byte streams. A stream is everything the peer sends before it closes the
  connection; the \<open>k\<close>-th \<open>write_all\<close> succeeds when \<open>write_ok k\<close>.
\<close>

section \<open>The code\<close>

text \<open>\<open>Read::read_exact\<close> into a buffer of \<open>n\<close> bytes: what it read and what remains, or an error at the end of the stream.\<close>

definition read_exact :: "nat \<Rightarrow> bytes \<Rightarrow> (bytes \<times> bytes) option" where
  "read_exact n s = (if n \<le> length s then Some (take n s, drop n s) else None)"

lemma read_exact_append [simp]: "length x = n \<Longrightarrow> read_exact n (x @ s) = Some (x, s)"
  by (simp add: read_exact_def)

lemma read_exact_Some: "read_exact n s = Some (x, s') \<longleftrightarrow> s = x @ s' \<and> length x = n"
  by (auto simp: read_exact_def)

text \<open>What the server writes on one connection, one element per \<open>write_all\<close>.\<close>

function handle_conn :: "(nat \<Rightarrow> bool) \<Rightarrow> nat \<Rightarrow> bytes \<Rightarrow> bytes list" where
  "handle_conn write_ok k s =
     (case read_exact 4 s of
        None \<Rightarrow> []
      | Some (hdr, s1) \<Rightarrow>
          let len = unat (u32_from_le_bytes hdr)
          in case read_exact len s1 of
               None \<Rightarrow> []
             | Some (body, s2) \<Rightarrow>
                 let out = u32_to_le_bytes (as_u32 len) @ body
                 in if write_ok k then out # handle_conn write_ok (Suc k) s2 else [])"
  by pat_completeness auto

termination
  by (relation "measure (\<lambda>(_, _, s). length s)") (auto simp: read_exact_Some)

declare handle_conn.simps [simp del]

text \<open>
  The bytes a call writes, and the call: \<open>connected\<close> and \<open>written\<close> are the errors of \<open>connect\<close> and
  \<open>write_all\<close>, if they fail; \<open>peer\<close> gives what the server answers to what it reads; \<open>early_end\<close> is the
  error of a \<open>read_exact\<close> that meets the end of the stream.
\<close>

definition tcp_frame :: "bytes \<Rightarrow> bytes" where
  "tcp_frame payload = u32_to_le_bytes (as_u32 (length payload)) @ payload"

definition tcp_call ::
  "io_error \<Rightarrow> io_error option \<Rightarrow> io_error option \<Rightarrow> (bytes \<Rightarrow> bytes) \<Rightarrow> bytes \<Rightarrow> io_error + bytes" where
  "tcp_call early_end connected written peer payload =
     (case connected of
        Some e \<Rightarrow> Inl e
      | None \<Rightarrow>
     (case written of
        Some e \<Rightarrow> Inl e
      | None \<Rightarrow>
     (case read_exact 4 (peer (tcp_frame payload)) of
        None \<Rightarrow> Inl early_end
      | Some (hdr, s1) \<Rightarrow>
          (case read_exact (unat (u32_from_le_bytes hdr)) s1 of
             None \<Rightarrow> Inl early_end
           | Some (body, s2) \<Rightarrow> Inr body))))"

definition echo_server :: "bytes \<Rightarrow> bytes" where
  "echo_server s = concat (handle_conn (\<lambda>k. True) 0 s)"

section \<open>The accept loop\<close>

text \<open>
  What \<open>accept\<close> gives: a connection, with the bytes its peer will send and whether \<open>set_nonblocking\<close>
  succeeds on it; nothing yet, after which the loop sleeps; or another error.
\<close>

datatype accepted = Connection bytes bool | NoConnection | AcceptError

record tcp_server =
  ts_shutdown :: bool
  ts_loop :: loop_pos

text \<open>\<open>TcpEchoServer::spawn\<close>: the results of \<open>bind\<close>, \<open>set_nonblocking\<close> and \<open>local_addr\<close>.\<close>

definition tcp_spawn :: "io_error option \<Rightarrow> io_error option \<Rightarrow> io_error + sockaddr \<Rightarrow> io_error + (sockaddr \<times> tcp_server)" where
  "tcp_spawn bound nonblocking local_addr =
     (case bound of
        Some e \<Rightarrow> Inl e
      | None \<Rightarrow>
     (case nonblocking of
        Some e \<Rightarrow> Inl e
      | None \<Rightarrow>
     (case local_addr of
        Inl e \<Rightarrow> Inl e
      | Inr addr \<Rightarrow> Inr (addr, \<lparr>ts_shutdown = False, ts_loop = LoopHead\<rparr>))))"

datatype tcp_effect = Serving bytes      \<comment> \<open>a thread that runs \<open>handle_conn\<close> on a connection\<close>

text \<open>The next step of the loop: the test of the \<open>while\<close>, or a round with what \<open>accept\<close> gave.\<close>

definition accept_loop :: "tcp_server \<Rightarrow> accepted \<Rightarrow> tcp_server \<times> tcp_effect list" where
  "accept_loop s a =
     (case ts_loop s of
        LoopHead \<Rightarrow> (s\<lparr>ts_loop := (if ts_shutdown s then LoopEnded else LoopBody)\<rparr>, [])
      | LoopBody \<Rightarrow>
          (case a of
             Connection stream blocking_ok \<Rightarrow>
               (s\<lparr>ts_loop := LoopHead\<rparr>, if blocking_ok then [Serving stream] else [])
           | NoConnection \<Rightarrow> (s\<lparr>ts_loop := LoopHead\<rparr>, [])
           | AcceptError \<Rightarrow> (s\<lparr>ts_loop := LoopEnded\<rparr>, []))
      | LoopEnded \<Rightarrow> (s, [])
      | LoopPanicked \<Rightarrow> (s, []))"

text \<open>\<open>TsDrop\<close> is the first statement of \<open>drop\<close>.\<close>

datatype tcp_event = TsLoop accepted | TsDrop

fun tcp_step :: "tcp_server \<Rightarrow> tcp_event \<Rightarrow> fault + (tcp_server \<times> tcp_effect list)" where
  "tcp_step s (TsLoop a) = Inr (accept_loop s a)"
| "tcp_step s TsDrop = Inr (s\<lparr>ts_shutdown := True\<rparr>, [])"

fun is_accept :: "tcp_event \<Rightarrow> bool" where
  "is_accept (TsLoop a) = True"
| "is_accept TsDrop = False"

interpretation ts_loop: flagged_loop tcp_step is_accept ts_shutdown "\<lambda>s. False" "\<lambda>s. loop_left (ts_loop s)"
proof unfold_locales
  fix s e s' os
  assume "ts_shutdown s" "tcp_step s e = Inr (s', os)"
  then show "ts_shutdown s'"
    by (cases e) (auto simp: accept_loop_def split: loop_pos.splits accepted.splits)
next
  fix s e s' os
  assume "ts_shutdown s" "is_accept e" "tcp_step s e = Inr (s', os)"
  then show "loop_left (ts_loop s') \<le> loop_left (ts_loop s) - 1"
    by (cases e) (auto simp: accept_loop_def split: loop_pos.splits accepted.splits)
next
  fix s e s' os
  assume "ts_shutdown s" "\<not> is_accept e" "tcp_step s e = Inr (s', os)"
  then show "loop_left (ts_loop s') \<le> loop_left (ts_loop s)"
    by (cases e) auto
qed simp

text \<open>
  The loop as a function of what happens in its rounds, each with what \<open>accept\<close> gives: the connections
  that get a thread, up to the first error that is not \<open>WouldBlock\<close>.
\<close>

fun until_error :: "accepted list \<Rightarrow> bytes list" where
  "until_error [] = []"
| "until_error (Connection stream ok # as) = (if ok then stream # until_error as else until_error as)"
| "until_error (NoConnection # as) = until_error as"
| "until_error (AcceptError # as) = []"

fun rounds :: "accepted list \<Rightarrow> tcp_event list" where
  "rounds [] = []"
| "rounds (a # as) = TsLoop NoConnection # TsLoop a # rounds as"

lemma accept_ended: "ts_loop s = LoopEnded \<Longrightarrow> run_steps tcp_step s (map TsLoop as) = Inr (s, [])"
  by (induction as) (simp_all add: accept_loop_def)

lemma rounds_ended: "ts_loop s = LoopEnded \<Longrightarrow> run_steps tcp_step s (rounds as) = Inr (s, [])"
  by (induction as) (simp_all add: accept_loop_def)

lemma rounds_run:
  "ts_loop s = LoopHead \<Longrightarrow> \<not> ts_shutdown s \<Longrightarrow>
     run_steps tcp_step s (rounds as) =
       Inr (s\<lparr>ts_loop := (if AcceptError \<in> set as then LoopEnded else LoopHead)\<rparr>, map Serving (until_error as))"
proof (induction as)
  case (Cons a as)
  have s: "s\<lparr>ts_loop := LoopHead\<rparr> = s" using Cons.prems(1) by simp
  show ?case
    using Cons by (cases a) (simp_all add: accept_loop_def s rounds_ended)
qed simp

section \<open>Complete frames\<close>

text \<open>A stream that holds no complete frame.\<close>

definition incomplete :: "bytes \<Rightarrow> bool" where
  "incomplete s \<longleftrightarrow> length s < 4 \<or> length s < 4 + unat (u32_from_le_bytes (take 4 s))"

lemma handle_conn_incomplete: "incomplete s \<Longrightarrow> handle_conn w k s = []"
  by (subst handle_conn.simps) (auto simp: incomplete_def read_exact_def Let_def)

lemma handle_conn_frame:
  assumes "length p < 2 ^ 32"
  shows "handle_conn w k (tcp_frame p @ s) = (if w k then tcp_frame p # handle_conn w (Suc k) s else [])"
proof -
  have "unat (as_u32 (length p)) = length p" using assms by simp
  then show ?thesis by (subst handle_conn.simps) (simp add: tcp_frame_def Let_def)
qed

lemma stream_cases:
  obtains (incomplete) "incomplete s" | (frame) p s' where "s = tcp_frame p @ s'" "length p < 2 ^ 32"
proof (cases "incomplete s")
  case False
  let ?n = "unat (u32_from_le_bytes (take 4 s))"
  let ?p = "take ?n (drop 4 s)"
  have len: "4 + ?n \<le> length s" "length (take 4 s) = 4" using False by (auto simp: incomplete_def)
  then have "length ?p = ?n" by simp
  moreover from this len(2) have "tcp_frame ?p = take 4 s @ ?p" by (simp add: tcp_frame_def u32_to_from_le)
  then have "s = tcp_frame ?p @ drop ?n (drop 4 s)" by (metis append.assoc append_take_drop_id)
  ultimately show thesis using frame unat_u32_less by metis
qed (use incomplete in blast)

lemma tcp_frame_nonempty: "0 < length (tcp_frame p)"
  by (simp add: tcp_frame_def)

text \<open>Every stream is a sequence of frames and an incomplete rest.\<close>

lemma stream_frames: "\<exists>ps rest. s = concat (map tcp_frame ps) @ rest \<and> (\<forall>p \<in> set ps. length p < 2 ^ 32) \<and> incomplete rest"
proof (induction "length s" arbitrary: s rule: less_induct)
  case less
  show ?case
  proof (cases s rule: stream_cases)
    case incomplete
    then have "s = concat (map tcp_frame []) @ s" by simp
    with incomplete show ?thesis by fastforce
  next
    case (frame p s')
    then have "length s' < length s" using tcp_frame_nonempty [of p] by simp
    from less [OF this] obtain ps rest where "s' = concat (map tcp_frame ps) @ rest"
      "\<forall>p \<in> set ps. length p < 2 ^ 32" "incomplete rest" by blast
    with frame show ?thesis by (intro exI [of _ "p # ps"] exI [of _ rest]) auto
  qed
qed

lemma handle_conn_frames:
  "\<forall>p \<in> set ps. length p < 2 ^ 32 \<Longrightarrow> incomplete rest \<Longrightarrow>
     handle_conn w k (concat (map tcp_frame ps) @ rest) = map tcp_frame (map snd (takeWhile (\<lambda>(j, p). w j) (enumerate k ps)))"
  by (induction ps arbitrary: k) (simp_all add: handle_conn_incomplete handle_conn_frame)

section \<open>Properties\<close>

text \<open>
  C38: The connection loop is equivalent to a parser of frames: every input stream is a
  sequence of complete frames and an incomplete rest, and the loop writes those frames back in
  order, up to the first write that fails, and then ends.
\<close>

theorem handle_conn_echoes_frames:
  "\<exists>ps rest. s = concat (map tcp_frame ps) @ rest \<and> list_all (\<lambda>p. length p < 2 ^ 32) ps \<and> incomplete rest
     \<and> (\<forall>w. handle_conn w 0 s = map tcp_frame (map snd (takeWhile (\<lambda>(j, p). w j) (enumerate 0 ps))))"
  using stream_frames [of s] handle_conn_frames [of _ _ _ 0] unfolding list_all_iff by blast

text \<open>
  A call to the echo server returns the first \<open>length mod 2 ^ 32\<close> bytes of its payload: all
  of it below 4 GiB, and, because the length is cut to 32 bits, only a part above.
\<close>

lemma tcp_call_echo: "tcp_call early None None echo_server payload = Inr (take (length payload mod 2 ^ 32) payload)"
proof -
  let ?n = "length payload mod 2 ^ 32"
  have len: "length (take ?n payload) = ?n" by simp
  have "as_u32 (length payload) = as_u32 ?n" by (simp add: as_u32_def word_unat_eq_iff unat_of_nat)
  then have "tcp_frame payload = tcp_frame (take ?n payload) @ drop ?n payload"
    unfolding tcp_frame_def len by simp
  moreover have "length (take ?n payload) < 2 ^ 32" by simp
  ultimately have "echo_server (tcp_frame payload) = tcp_frame (take ?n payload) @ concat (handle_conn (\<lambda>k. True) 1 (drop ?n payload))"
    by (simp add: echo_server_def handle_conn_frame)
  moreover have "unat (as_u32 (length (take ?n payload))) = ?n" by (subst len) simp
  ultimately show ?thesis unfolding tcp_call_def tcp_frame_def by simp
qed


text \<open>
  C39: The accept loop: it starts one thread per accepted connection, in order, until \<open>accept\<close> fails with
  any error but \<open>WouldBlock\<close>; then, and when it was dropped within two of its steps, it has ended, and no
  connection is ever served again.
\<close>

theorem accept_loop_outcome:
  assumes "tcp_spawn bound nonblocking local_addr = Inr (addr, s)"
  shows "\<exists>s'. run_steps tcp_step s (rounds as) = Inr (s', map Serving (until_error as))
    \<and> (AcceptError \<in> set as \<longrightarrow> \<not> ts_shutdown s' \<and> (\<forall>bs. run_steps tcp_step s' (map TsLoop bs) = Inr (s', [])))
    \<and> (\<forall>es s'' out. run_steps tcp_step s' (TsDrop # es) = Inr (s'', out) \<longrightarrow> 2 \<le> length (filter is_accept es) \<longrightarrow>
         (\<forall>bs. run_steps tcp_step s'' (map TsLoop bs) = Inr (s'', [])))"
proof -
  have s: "ts_loop s = LoopHead" "\<not> ts_shutdown s"
    using assms by (auto simp: tcp_spawn_def split: option.splits sum.splits)
  let ?s = "s\<lparr>ts_loop := (if AcceptError \<in> set as then LoopEnded else LoopHead)\<rparr>"
  have "ts_loop s'' = LoopEnded \<or> ts_loop s'' = LoopPanicked"
    if "run_steps tcp_step ?s (TsDrop # es) = Inr (s'', out)" "2 \<le> length (filter is_accept es)" for es s'' out
  proof -
    have r: "run_steps tcp_step (?s\<lparr>ts_shutdown := True\<rparr>) es = Inr (s'', out)" using that(1) by (auto simp: bind_res_Inr_iff)
    have "loop_left (ts_loop s'') = 0"
      using ts_loop.run_ends [OF _ r] loop_left_le [of "ts_loop ?s"] that(2) by simp
    then show ?thesis by (simp add: loop_left_0)
  qed
  moreover have "run_steps tcp_step t (map TsLoop bs) = Inr (t, [])" if "ts_loop t = LoopEnded \<or> ts_loop t = LoopPanicked" for t bs
    using that by (induction bs) (auto simp: accept_loop_def)
  moreover note rounds_run [OF s, of as]
  ultimately show ?thesis using s by (intro exI [of _ ?s]) auto
qed

theorem accept_loop_outcome_witness:
  "let s = \<lparr>ts_shutdown = False, ts_loop = LoopHead\<rparr>
   in \<exists>s'. run_steps tcp_step s (rounds [Connection [1] True, NoConnection, Connection [2] False, AcceptError, Connection [3] True])
         = Inr (s', [Serving [1]])
      \<and> \<not> ts_shutdown s' \<and> run_steps tcp_step s' (map TsLoop [NoConnection, Connection [4] True]) = Inr (s', [])"
proof -
  let ?as = "[Connection [1] True, NoConnection, Connection [2] False, AcceptError, Connection [3] True]"
  have "tcp_spawn None None (Inr (localhost 5)) = Inr (localhost 5, \<lparr>ts_shutdown = False, ts_loop = LoopHead\<rparr>)"
    by (simp add: tcp_spawn_def)
  note a = accept_loop_outcome [OF this, of ?as]
  have u: "map Serving (until_error ?as) = [Serving [1]]" and m: "AcceptError \<in> set ?as" by simp_all
  show ?thesis using a m unfolding Let_def u by blast
qed

end
