(* ===== verification/Workload.thy ===== *)
theory Workload
  imports Rpc
begin

text \<open>
  The deterministic parts of \<^verbatim>\<open>benches/mixed.rs\<close>: the fingerprint of the workload, the
  threads that share it out, and the JSON line of the results with its reader. Floating-point
  numbers are of any type, with their printing and parsing as parameters.
\<close>

section \<open>Constants and fingerprint\<close>

definition WORKERS :: u64 where "WORKERS = 8"
definition TOTAL_OPS :: u64 where "TOTAL_OPS = 550"
definition SHORT_BYTES :: nat where "SHORT_BYTES = 100"
definition LONG_BYTES :: nat where "LONG_BYTES = 2 ^ 20"
definition LONG_EVERY :: u64 where "LONG_EVERY = 11"

definition fnv_step :: "u64 \<Rightarrow> char \<Rightarrow> u64" where
  "fnv_step h b = xor h (word_of_nat (of_char b)) * 0x100000001b3"

definition fnv :: "string \<Rightarrow> u64" where
  "fnv spec = foldl fnv_step 0xcbf29ce484222325 spec"

definition workload_hash :: u64 where
  "workload_hash = fnv (decimal (unat WORKERS) @ '':'' @ decimal (unat TOTAL_OPS) @ '':'' @ decimal SHORT_BYTES @ '':''
     @ decimal LONG_BYTES @ '':'' @ decimal (unat LONG_EVERY))"

text \<open>The multiplier is odd, so a step can be undone, and no step hides a difference.\<close>

lemma prime_inverse: "0x100000001b3 * 0xce965057aff6957b = (1 :: u64)"
  by (simp add: word_unat_eq_iff unsigned_numeral take_bit_eq_mod)

lemma mult_prime_inj: "(h :: u64) * 0x100000001b3 = h' * 0x100000001b3 \<Longrightarrow> h = h'"
proof -
  assume "h * 0x100000001b3 = h' * 0x100000001b3"
  then have "h * 0x100000001b3 * 0xce965057aff6957b = h' * 0x100000001b3 * 0xce965057aff6957b" by (rule arg_cong)
  then show "h = h'" by (simp only: mult.assoc prime_inverse mult_1_right)
qed

lemma char_word_inj: "(word_of_nat (of_char b) :: u64) = word_of_nat (of_char c) \<Longrightarrow> b = c"
proof -
  assume "(word_of_nat (of_char b) :: u64) = word_of_nat (of_char c)"
  then have "unat (word_of_nat (of_char b) :: u64) = unat (word_of_nat (of_char c) :: u64)" by (simp only:)
  moreover have "(of_char x :: nat) < 2 ^ 64" for x :: char
    using nat_of_char_less_256 [of x] by (rule less_trans) simp
  ultimately have "(of_char b :: nat) = of_char c" by (simp add: unat_of_nat)
  then show "b = c" by simp
qed

lemma fnv_step_inj: "fnv_step h b = fnv_step h' b \<Longrightarrow> h = h'" "fnv_step h b = fnv_step h c \<Longrightarrow> b = c"
proof -
  have x: "xor a b = xor a' b \<Longrightarrow> a = a'" for a a' b :: u64 
    by (metis bit.xor_left_self xor.commute)
  show "fnv_step h b = fnv_step h' b \<Longrightarrow> h = h'"
    unfolding fnv_step_def by (blast dest: mult_prime_inj x)
  show "fnv_step h b = fnv_step h c \<Longrightarrow> b = c"
    unfolding fnv_step_def using char_word_inj by (metis bit.xor_left_self mult_prime_inj)
qed

lemma fnv_tail_inj: "foldl fnv_step h s = foldl fnv_step h' s \<Longrightarrow> h = h'"
  by (induction s arbitrary: h h') (auto dest: fnv_step_inj(1))

section \<open>The worker threads\<close>

text \<open>
  A thread is before \<open>fetch_add\<close>, before its call, or before it records the time the call took;
  or it left the loop, or its \<open>unwrap\<close> panicked.
\<close>

datatype bench_worker = Fetching | Calling u64 | Recording u64 duration | Stopped | Panicked

record bench =
  bn_counter :: u64
  bn_workers :: "bench_worker list"
  bn_short :: "duration list"
  bn_long :: "duration list"

definition bench_new :: bench where
  "bench_new = \<lparr>bn_counter = 0, bn_workers = replicate (unat WORKERS) Fetching, bn_short = [], bn_long = []\<rparr>"

datatype bench_effect = BenchCall u64 bytes      \<comment> \<open>the \<open>n\<close>-th operation calls the server with a payload\<close>

definition is_long :: "u64 \<Rightarrow> bool" where
  "is_long n \<longleftrightarrow> n mod LONG_EVERY = LONG_EVERY - 1"

definition payload_of :: "u64 \<Rightarrow> bytes" where
  "payload_of n = (if is_long n then replicate LONG_BYTES 0xcd else replicate SHORT_BYTES 0xab)"

text \<open>The next step of a thread; \<open>result\<close> is the time its call took, \<open>None\<close> when the call failed.\<close>

definition bench_work :: "bench \<Rightarrow> nat \<Rightarrow> duration option \<Rightarrow> bench \<times> bench_effect list" where
  "bench_work b w result =
     (case bn_workers b ! w of
        Fetching \<Rightarrow>
          let n = bn_counter b; b1 = b\<lparr>bn_counter := n + 1\<rparr>
          in (b1\<lparr>bn_workers := (bn_workers b)[w := (if n \<ge> TOTAL_OPS then Stopped else Calling n)]\<rparr>, [])
      | Calling n \<Rightarrow>
          (b\<lparr>bn_workers := (bn_workers b)[w := (case result of None \<Rightarrow> Panicked | Some el \<Rightarrow> Recording n el)]\<rparr>,
           [BenchCall n (payload_of n)])
      | Recording n el \<Rightarrow>
          let b1 = b\<lparr>bn_workers := (bn_workers b)[w := Fetching]\<rparr>
          in (if is_long n then b1\<lparr>bn_long := bn_long b @ [el]\<rparr> else b1\<lparr>bn_short := bn_short b @ [el]\<rparr>, [])
      | Stopped \<Rightarrow> (b, [])
      | Panicked \<Rightarrow> (b, []))"

fun bench_step :: "bench \<Rightarrow> nat \<times> duration option \<Rightarrow> fault + (bench \<times> bench_effect list)" where
  "bench_step b (w, result) = Inr (if w < length (bn_workers b) then bench_work b w result else (b, []))"

fun ops :: "bench_effect list \<Rightarrow> nat list" where
  "ops [] = []"
| "ops (BenchCall n p # os) = unat n # ops os"

lemma ops_append [simp]: "ops (xs @ ys) = ops xs @ ops ys"
  by (induction xs rule: ops.induct) auto

subsection \<open>The invariant\<close>

text \<open>What one thread contributes to the sums: a claimed operation, a call not recorded yet, a stop.\<close>

fun claimed :: "bench_worker \<Rightarrow> nat multiset" where
  "claimed (Calling n) = {#unat n#}"
| "claimed _ = {#}"

fun unrecorded :: "bool \<Rightarrow> bench_worker \<Rightarrow> nat" where
  "unrecorded l (Recording n el) = (if is_long n = l then 1 else 0)"
| "unrecorded l _ = 0"

fun panics :: "bench_worker \<Rightarrow> nat" where
  "panics Panicked = 1"
| "panics _ = 0"

abbreviation total :: "(bench_worker \<Rightarrow> 'a :: comm_monoid_add) \<Rightarrow> bench \<Rightarrow> 'a" where
  "total f b \<equiv> sum_list (map f (bn_workers b))"

fun stops :: "bench_worker \<Rightarrow> nat" where
  "stops Stopped = 1"
| "stops _ = 0"

definition long_nat :: "nat \<Rightarrow> bool" where
  "long_nat n \<longleftrightarrow> n mod 11 = 10"

lemma is_long_nat: "is_long n \<longleftrightarrow> long_nat (unat n)"
proof -
  have "n mod LONG_EVERY = LONG_EVERY - 1 \<longleftrightarrow> unat (n mod 11) = unat (10 :: u64)"
    by (simp add: LONG_EVERY_def word_unat_eq_iff)
  then show ?thesis by (simp add: is_long_def long_nat_def unat_mod)
qed

lemma long_counts: "length (filter long_nat [0..<11 * k]) = k \<and> length (filter (\<lambda>n. \<not> long_nat n) [0..<11 * k]) = 10 * k"
proof (induction k)
  case (Suc k)
  have "[0..<11 * Suc k] = [0..<11 * k] @ [11 * k..<11 * k + 11]"
    by (metis add.commute mult_Suc_right upt_add_eq_append zero_le)
  also have "[11 * k..<11 * k + 11] = map (\<lambda>i. i + 11 * k) [0, 1, 2, 3, 4, 5, 6, 7, 8, 9, 10]"
    by (simp add: upt_conv_Cons)
  finally have eq: "[0..<11 * Suc k] = [0..<11 * k] @ map (\<lambda>i. i + 11 * k) [0, 1, 2, 3, 4, 5, 6, 7, 8, 9, 10]" .
  from Suc show ?case
    unfolding eq filter_append filter_map length_append length_map comp_def long_nat_def mod_mult_self2 by simp
qed simp

lemma sum_list_upd:
  "i < length xs \<Longrightarrow> sum_list (map f (xs[i := x])) + f (xs ! i) = sum_list (map f xs) + (f x :: 'a :: comm_monoid_add)"
  by (induction xs arbitrary: i) (auto simp: ac_simps nth_Cons' split: nat.split)

definition bench_hist :: "bench \<Rightarrow> (nat \<times> duration option) list \<Rightarrow> bench_effect list \<Rightarrow> bool" where
  "bench_hist b es os \<longleftrightarrow> length (bn_workers b) = 8
     \<and> unat (bn_counter b) \<le> 550 + total stops b \<and> (0 < total stops b \<longrightarrow> 550 \<le> unat (bn_counter b))
     \<and> mset (ops os) + total claimed b = mset [0..<min 550 (unat (bn_counter b))]
     \<and> (total panics b = 0 \<longrightarrow>
          length (filter long_nat (ops os)) = length (bn_long b) + total (unrecorded True) b
          \<and> length (filter (\<lambda>n. \<not> long_nat n) (ops os)) = length (bn_short b) + total (unrecorded False) b)
     \<and> (\<forall>n p. BenchCall n p \<in> set os \<longrightarrow> p = payload_of n)"

lemma below_Suc:
  "mset [0..<min 550 (Suc n)] = (if n < 550 then {#n#} else {#}) + mset [0..<min 550 n]"
proof (cases "n < 550")
  case True
  then have "min 550 (Suc n) = Suc n" "min 550 n = n" by simp_all
  with True show ?thesis by (simp del: mset_upt)
qed (simp add: min_def del: mset_upt)

lemma stops_bound: "sum_list (map stops ws) \<le> length ws"
proof (induction ws)
  case (Cons w ws)
  then show ?case by (cases w) auto
qed simp

lemma bench_new_simps:
  "bn_counter bench_new = 0" "bn_workers bench_new = replicate 8 Fetching" "bn_short bench_new = []" "bn_long bench_new = []"
  by (simp_all add: bench_new_def WORKERS_def)

lemma bench_hist_new: "bench_hist bench_new [] []"
  by (simp add: bench_hist_def bench_new_simps numeral_nat)

lemma bench_step_hist:
  assumes h: "bench_hist b es os" and st: "bench_step b e = Inr (b', os')"
  shows "bench_hist b' (es @ [e]) (os @ os')"
proof -
  obtain w r where e: "e = (w, r)" by (cases e)
  show ?thesis
  proof (cases "w < length (bn_workers b)")
    case False
    then show ?thesis using h st by (simp add: e bench_hist_def)
  next
    case True
    then have bw: "bench_work b w r = (b', os')" using st by (simp add: e)
    note sums = sum_list_upd [OF True, of stops] sum_list_upd [OF True, of claimed] sum_list_upd [OF True, of panics]
      sum_list_upd [OF True, of "unrecorded True"] sum_list_upd [OF True, of "unrecorded False"]
    show ?thesis
    proof (cases "bn_workers b ! w")
      case Fetching
      let ?n = "bn_counter b"
      have "unat ?n \<le> 558" using h stops_bound [of "bn_workers b"] by (simp add: bench_hist_def)
      then have n1: "unat (?n + 1) = Suc (unat ?n)" by (simp add: unat_word_ariths)
      have le: "TOTAL_OPS \<le> ?n \<longleftrightarrow> 550 \<le> unat ?n" by (simp add: TOTAL_OPS_def word_le_nat_alt)
      show ?thesis
      proof (cases "550 \<le> unat ?n")
        case stop: True
        then have "b' = b\<lparr>bn_counter := ?n + 1, bn_workers := (bn_workers b)[w := Stopped]\<rparr>" "os' = []"
          using bw Fetching le by (auto simp: bench_work_def Let_def)
        with h n1 stop Fetching sums [where x = Stopped] show ?thesis
          unfolding bench_hist_def by (auto simp: below_Suc simp del: mset_upt sum_list_eq_0_iff)
      next
        case call: False
        then have "b' = b\<lparr>bn_counter := ?n + 1, bn_workers := (bn_workers b)[w := Calling ?n]\<rparr>" "os' = []"
          using bw Fetching le by (auto simp: bench_work_def Let_def)
        with h n1 call Fetching sums [where x = "Calling ?n"] show ?thesis
          unfolding bench_hist_def by (auto simp: below_Suc simp del: mset_upt sum_list_eq_0_iff)
      qed
    next
      case (Calling n)
      have l: "is_long n = long_nat (unat n)" by (rule is_long_nat)
      let ?x = "case r of None \<Rightarrow> Panicked | Some el \<Rightarrow> Recording n el"
      have "b' = b\<lparr>bn_workers := (bn_workers b)[w := ?x]\<rparr>" "os' = [BenchCall n (payload_of n)]"
        using bw Calling by (auto simp: bench_work_def)
      moreover have "claimed ?x = {#}" by (cases r) simp_all
      then have "total claimed b = add_mset (unat n) (sum_list (map claimed ((bn_workers b)[w := ?x])))"
        using sums(2) [where x = ?x] Calling by simp
      ultimately show ?thesis using h True l Calling sums(1,3-5) [where x = ?x]
        unfolding bench_hist_def by (auto split: option.splits simp del: mset_upt sum_list_eq_0_iff)
    next
      case (Recording n el)
      let ?ws = "(bn_workers b)[w := Fetching]"
      have "b' = (if is_long n then b\<lparr>bn_workers := ?ws, bn_long := bn_long b @ [el]\<rparr> else b\<lparr>bn_workers := ?ws, bn_short := bn_short b @ [el]\<rparr>)"
        "os' = []" using bw Recording by (auto simp: bench_work_def Let_def)
      with h True Recording sums [where x = Fetching] show ?thesis
        unfolding bench_hist_def by (auto simp del: mset_upt sum_list_eq_0_iff)
    qed (use h bw in \<open>simp_all add: bench_work_def bench_hist_def\<close>)
  qed
qed

interpretation bn: history bench_step bench_hist
  by unfold_locales (rule bench_step_hist)

text \<open>One thread does the first \<open>k\<close> operations on its own.\<close>

definition alone :: "nat \<Rightarrow> (nat \<times> duration option) list" where
  "alone k = concat (replicate k [(0, Some 0), (0, Some 0), (0, Some 0)])"

lemma replicate_update_same [simp]: "(replicate n x)[i := x] = replicate n x"
  by (induction n arbitrary: i) (auto split: nat.split)

lemma alone_run:
  "k \<le> 550 \<Longrightarrow> \<exists>b os. run_steps bench_step bench_new (alone k) = Inr (b, os)
     \<and> bn_counter b = word_of_nat k \<and> bn_workers b = replicate 8 Fetching"
proof (induction k)
  case 0
  show ?case by (simp add: alone_def bench_new_simps)
next
  case (Suc k)
  then obtain b os where b: "run_steps bench_step bench_new (alone k) = Inr (b, os)"
    "bn_counter b = word_of_nat k" "bn_workers b = replicate 8 Fetching" by auto
  have "alone (Suc k) = alone k @ [(0, Some 0), (0, Some 0), (0, Some 0)]"
    unfolding alone_def by (subst replicate_Suc, subst replicate_append_same [symmetric]) simp
  moreover have "\<not> TOTAL_OPS \<le> word_of_nat k"
    using Suc.prems by (simp add: TOTAL_OPS_def word_le_nat_alt unat_of_nat)
  ultimately show ?case using b
    by (simp add: run_steps_append bench_work_def Let_def)
qed

lemma all_stop_run:
  assumes "bn_counter b = 550" "bn_workers b = replicate 8 Fetching"
  shows "j \<le> 8 \<Longrightarrow> \<exists>b' os. run_steps bench_step b (map (\<lambda>w. (w, None)) [0..<j]) = Inr (b', os)
     \<and> bn_counter b' = 550 + word_of_nat j \<and> bn_workers b' = replicate j Stopped @ replicate (8 - j) Fetching"
proof (induction j)
  case 0
  then show ?case using assms by simp
next
  case (Suc j)
  then obtain b' os where b': "run_steps bench_step b (map (\<lambda>w. (w, None)) [0..<j]) = Inr (b', os)"
    "bn_counter b' = 550 + word_of_nat j" "bn_workers b' = replicate j Stopped @ replicate (8 - j) Fetching" by auto
  have "unat (550 + word_of_nat j :: u64) = 550 + j" using Suc.prems by (simp add: unat_word_ariths unat_of_nat)
  then have "TOTAL_OPS \<le> 550 + word_of_nat j" by (simp add: TOTAL_OPS_def word_le_nat_alt)
  moreover have "(replicate j Stopped @ replicate (8 - j) Fetching)[j := Stopped] = replicate (Suc j) Stopped @ replicate (8 - Suc j) Fetching"
  proof -
    have "8 - j = Suc (8 - Suc j)" using Suc.prems by simp
    then show ?thesis by (simp add: list_update_append replicate_app_Cons_same)
  qed
  ultimately show ?case using b' Suc.prems
    by (simp add: run_steps_append bench_work_def Let_def nth_append)
qed

text \<open>What the history says once all threads have left their loops.\<close>

lemma all_stopped:
  assumes h: "bench_hist b es os" and stopped: "set (bn_workers b) \<subseteq> {Stopped}"
  shows "mset (ops os) = mset [0..<550] \<and> length (bn_short b) = 500 \<and> length (bn_long b) = 50
    \<and> (\<forall>n p. BenchCall n p \<in> set os \<longrightarrow>
          p = (if unat n mod 11 = 10 then replicate (2 ^ 20) 0xcd else replicate 100 0xab))"
proof -
  have ws: "bn_workers b = replicate 8 Stopped"
    using h stopped by (intro replicate_eqI) (auto simp: bench_hist_def)
  have sums: "total stops b = 8" "total claimed b = {#}" "total panics b = 0" "total (unrecorded l) b = 0" for l
    unfolding ws by (simp_all add: sum_list_replicate numeral_nat)
  have all: "mset (ops os) = mset [0..<550]" using h unfolding bench_hist_def sums by simp
  have "length (filter P (ops os)) = length (filter P [0..<550])" for P
    using arg_cong [OF all, of "\<lambda>m. size (filter_mset P m)"] by (simp only: size_mset mset_filter [symmetric])
  moreover have "length (filter long_nat [0..<550]) = 50" "length (filter (\<lambda>n. \<not> long_nat n) [0..<550]) = 500"
    using long_counts [of 50] by simp_all
  moreover have "length (filter long_nat (ops os)) = length (bn_long b)"
    "length (filter (\<lambda>n. \<not> long_nat n) (ops os)) = length (bn_short b)"
    using h sums unfolding bench_hist_def by simp_all
  moreover have "p = (if unat n mod 11 = 10 then replicate (2 ^ 20) 0xcd else replicate 100 0xab)"
    if "BenchCall n p \<in> set os" for n p
  proof -
    have "p = payload_of n" using h that unfolding bench_hist_def by blast
    then show ?thesis by (simp add: payload_of_def is_long_nat long_nat_def LONG_BYTES_def SHORT_BYTES_def)
  qed
  ultimately show ?thesis using all by (simp only:) blast
qed

section \<open>Results and their reader\<close>

text \<open>The \<open>f64\<close> fields are of type \<open>'f\<close>; \<open>show_one\<close> and \<open>show_three\<close> print them with one and three decimals.\<close>

record 'f metrics =
  short_n :: u64
  short_p50_us :: 'f
  short_p90_us :: 'f
  short_p99_us :: 'f
  long_n :: u64
  long_p50_us :: 'f
  long_p90_us :: 'f
  long_p99_us :: 'f
  ops_per_sec :: 'f
  total_seconds :: 'f

definition hex16 :: "u64 \<Rightarrow> string" where
  "hex16 h = map (\<lambda>i. ''0123456789abcdef'' ! (unat h div 16 ^ i mod 16)) (rev [0..<16])"

text \<open>A field of the JSON object: the quoted key, a colon, the value.\<close>

definition field :: "string \<Rightarrow> string \<Rightarrow> string" where
  "field key v = CHR 0x22 # key @ [CHR 0x22] @ '':'' @ v"

definition quoted :: "string \<Rightarrow> string" where
  "quoted v = CHR 0x22 # v @ [CHR 0x22]"

definition metrics_json :: "('f \<Rightarrow> string) \<Rightarrow> ('f \<Rightarrow> string) \<Rightarrow> 'f metrics \<Rightarrow> string \<Rightarrow> string" where
  "metrics_json show_one show_three m tag =
     ''{'' @ field ''tag'' (quoted tag) @ '','' @ field ''workload_hash'' (quoted (hex16 workload_hash))
     @ '','' @ field ''short_n'' (decimal (unat (short_n m))) @ '','' @ field ''short_p50_us'' (show_one (short_p50_us m))
     @ '','' @ field ''short_p90_us'' (show_one (short_p90_us m)) @ '','' @ field ''short_p99_us'' (show_one (short_p99_us m))
     @ '','' @ field ''long_n'' (decimal (unat (long_n m))) @ '','' @ field ''long_p50_us'' (show_one (long_p50_us m))
     @ '','' @ field ''long_p90_us'' (show_one (long_p90_us m)) @ '','' @ field ''long_p99_us'' (show_one (long_p99_us m))
     @ '','' @ field ''ops_per_sec'' (show_one (ops_per_sec m)) @ '','' @ field ''total_seconds'' (show_three (total_seconds m)) @ ''}''"

text \<open>\<open>str::find\<close> with a string, and \<open>trim\<close> on ASCII text.\<close>

fun find_str :: "string \<Rightarrow> string \<Rightarrow> nat option" where
  "find_str pat s =
     (if take (length pat) s = pat then Some 0
      else case s of [] \<Rightarrow> None | c # s' \<Rightarrow> map_option Suc (find_str pat s'))"

definition is_space :: "char \<Rightarrow> bool" where
  "is_space c \<longleftrightarrow> c \<in> {CHR 0x20, CHR 0x09, CHR 0x0A, CHR 0x0B, CHR 0x0C, CHR 0x0D}"

definition trim :: "string \<Rightarrow> string" where
  "trim s = rev (dropWhile is_space (rev (dropWhile is_space s)))"

text \<open>\<open>None\<close> is a panic: the field is missing, or \<open>parse\<close> rejects its text.\<close>

definition parse_f64_field :: "(string \<Rightarrow> 'f option) \<Rightarrow> string \<Rightarrow> string \<Rightarrow> 'f option" where
  "parse_f64_field parse json key =
     (let pat = field key []
      in case find_str pat json of
           None \<Rightarrow> None
         | Some start \<Rightarrow>
             let rest = drop (start + length pat) json;
                 end_pos = length (takeWhile (\<lambda>c. c \<noteq> CHR '','' \<and> c \<noteq> CHR ''}'') rest)
             in parse (trim (take end_pos rest)))"

declare find_str.simps [simp del]

text \<open>The field after the first occurrence of its pattern.\<close>

definition plain :: "string \<Rightarrow> bool" where
  "plain s \<longleftrightarrow> list_all (\<lambda>c. c \<noteq> CHR 0x22 \<and> c \<noteq> CHR '','' \<and> c \<noteq> CHR ''}'' \<and> \<not> is_space c) s"

lemma trim_plain: "plain s \<Longrightarrow> trim s = s"
proof -
  have "dropWhile is_space xs = xs" if "plain xs" for xs
    using that by (cases xs) (simp_all add: plain_def)
  moreover have "plain s \<Longrightarrow> plain (rev s)" by (simp add: plain_def list_all_iff)
  ultimately show "plain s \<Longrightarrow> trim s = s" by (simp add: trim_def)
qed

text \<open>The search as a function that gives what follows the pattern.\<close>

definition after_str :: "string \<Rightarrow> string \<Rightarrow> string option" where
  "after_str pat s = map_option (\<lambda>i. drop (i + length pat) s) (find_str pat s)"

lemma after_str_Cons:
  "after_str pat (c # s) = (if take (length pat) (c # s) = pat then Some (drop (length pat) (c # s)) else after_str pat s)"
  unfolding after_str_def by (subst find_str.simps) (simp add: option.map_comp comp_def)

lemma after_str_skip: "CHR 0x22 \<notin> set x \<Longrightarrow> after_str (CHR 0x22 # pat) (x @ s) = after_str (CHR 0x22 # pat) s"
  by (induction x) (auto simp: after_str_Cons)

lemma parse_after:
  "parse_f64_field parse json key =
     (case after_str (field key []) json of
        None \<Rightarrow> None
      | Some rest \<Rightarrow> parse (trim (takeWhile (\<lambda>c. c \<noteq> CHR '','' \<and> c \<noteq> CHR ''}'') rest)))"
  by (simp add: parse_f64_field_def after_str_def Let_def takeWhile_eq_take [symmetric] split: option.split)

lemma plain_value:
  "plain v \<Longrightarrow> c = CHR '','' \<or> c = CHR ''}'' \<Longrightarrow> takeWhile (\<lambda>c. c \<noteq> CHR '','' \<and> c \<noteq> CHR ''}'') (v @ c # s) = v"
  by (induction v) (auto simp: plain_def)

lemma plain_quote: "plain v \<Longrightarrow> CHR 0x22 \<notin> set v"
  by (auto simp: plain_def list_all_iff)

lemma plain_append [simp]: "plain (v @ w) \<longleftrightarrow> plain v \<and> plain w"
  by (simp add: plain_def)

lemma decimal_plain: "plain (decimal n)"
proof (induction n rule: decimal.induct)
  case (1 n)
  have "plain [char_of (48 + d)]" if "d < 10" for d :: nat
  proof -
    have "d \<in> {0, 1, 2, 3, 4, 5, 6, 7, 8, 9}" using that by auto
    then show ?thesis by (auto simp: plain_def is_space_def char_of_nat_def char_of_def)
  qed
  with 1 show ?case by (subst decimal.simps) (auto simp del: decimal.simps)
qed

lemma workload_hash_hex: "hex16 workload_hash = ''4587ea4132431b37''"
  by code_simp

section \<open>Properties\<close>

text \<open>
  The load is deterministic: however the eight threads interleave, once all of them have left
  the loop the operations 0 to 549 were each called exactly once, every eleventh of them with the
  long payload, and 500 short and 50 long times were recorded.
\<close>

lemma workload_exact:
  assumes "run_steps bench_step bench_new es = Inr (b, os)" "set (bn_workers b) \<subseteq> {Stopped}"
  shows "mset (ops os) = mset [0..<550] \<and> length (bn_short b) = 500 \<and> length (bn_long b) = 50
    \<and> (\<forall>n p. BenchCall n p \<in> set os \<longrightarrow>
          p = (if unat n mod 11 = 10 then replicate (2 ^ 20) 0xcd else replicate 100 0xab))"
proof -
  have "bench_hist b es os" using bn.run_hist [OF bench_hist_new assms(1)] by simp
  then show ?thesis using assms(2) by (rule all_stopped)
qed

lemma workload_exact_witness:
  "\<exists>b os. run_steps bench_step bench_new (alone 550 @ map (\<lambda>w. (w, None)) [0..<8]) = Inr (b, os)
     \<and> mset (ops os) = mset [0..<550] \<and> length (bn_short b) = 500 \<and> length (bn_long b) = 50"
proof -
  obtain b1 o1 where b1: "run_steps bench_step bench_new (alone 550) = Inr (b1, o1)"
    "bn_counter b1 = word_of_nat 550" "bn_workers b1 = replicate 8 Fetching"
    using alone_run [of 550] by auto
  have "bn_counter b1 = 550" using b1(2) by simp
  from all_stop_run [OF this b1(3), of 8] obtain b o2 where
    b: "run_steps bench_step b1 (map (\<lambda>w. (w, None)) [0..<8]) = Inr (b, o2)" "bn_workers b = replicate 8 Stopped" by auto
  have run: "run_steps bench_step bench_new (alone 550 @ map (\<lambda>w. (w, None)) [0..<8]) = Inr (b, o1 @ o2)"
    unfolding run_steps_append b1(1) by (simp add: b(1))
  moreover have "set (bn_workers b) \<subseteq> {Stopped}" by (simp add: b(2))
  ultimately show ?thesis using workload_exact [OF run] by blast
qed

text \<open>
  The fingerprint is the one that \<^verbatim>\<open>bench-data/baseline.json\<close> records, and a change of one
  character of the specification always changes it.
\<close>

lemma workload_hash_recorded: "workload_hash = 0x4587ea4132431b37"
  by code_simp

lemma fnv_detects_change: "fnv (p @ b # s) = fnv (p @ c # s) \<longleftrightarrow> b = c"
  unfolding fnv_def by (auto dest: fnv_tail_inj fnv_step_inj(2))

text \<open>
  The reader of the performance gate finds in the JSON line that the benchmark writes exactly
  the printed numbers it looks for, when a printed number holds no quote, comma, brace or space.
\<close>

lemma metrics_read_back:
  assumes "\<And>x. plain (show_one x)"
  shows "parse_f64_field parse (metrics_json show_one show_three m ''agent-transport'') ''short_p50_us'' = parse (show_one (short_p50_us m))
    \<and> parse_f64_field parse (metrics_json show_one show_three m ''agent-transport'') ''short_p99_us'' = parse (show_one (short_p99_us m))
    \<and> parse_f64_field parse (metrics_json show_one show_three m ''agent-transport'') ''ops_per_sec'' = parse (show_one (ops_per_sec m))"
proof -
  note skip = after_str_skip [OF plain_quote [OF assms]] after_str_skip [OF plain_quote [OF decimal_plain]]
  let ?json = "metrics_json show_one show_three m ''agent-transport''"
  have found: "parse_f64_field parse ?json key = parse (show_one x)"
    if "\<exists>s. after_str (field key []) ?json = Some (show_one x @ CHR '','' # s)" for key x
    using that by (auto simp: parse_after plain_value assms trim_plain)
  have "\<exists>s. after_str (field ''short_p50_us'' []) ?json = Some (show_one (short_p50_us m) @ CHR '','' # s)"
    "\<exists>s. after_str (field ''short_p99_us'' []) ?json = Some (show_one (short_p99_us m) @ CHR '','' # s)"
    "\<exists>s. after_str (field ''ops_per_sec'' []) ?json = Some (show_one (ops_per_sec m) @ CHR '','' # s)"
    unfolding metrics_json_def field_def quoted_def workload_hash_hex
    by (simp_all add: after_str_Cons skip del: decimal.simps)
  then show ?thesis by (blast intro: found)
qed

text \<open>An example with natural numbers for the measurements.\<close>

definition example_metrics :: "nat metrics" where
  "example_metrics = \<lparr>short_n = 500, short_p50_us = 814, short_p90_us = 1755, short_p99_us = 4231, long_n = 50,
     long_p50_us = 2353, long_p90_us = 3023, long_p99_us = 24498, ops_per_sec = 1210, total_seconds = 0\<rparr>"

lemma metrics_read_back_example:
  "parse_f64_field Some (metrics_json decimal decimal example_metrics ''agent-transport'') ''short_p50_us'' = Some ''814''
   \<and> parse_f64_field Some (metrics_json decimal decimal example_metrics ''agent-transport'') ''short_p99_us'' = Some ''4231''
   \<and> parse_f64_field Some (metrics_json decimal decimal example_metrics ''agent-transport'') ''ops_per_sec'' = Some ''1210''"
proof -
  have "decimal 814 = ''814''" "decimal 4231 = ''4231''" "decimal 1210 = ''1210''" by code_simp+
  with metrics_read_back [where show_one = decimal and show_three = decimal and m = example_metrics and parse = Some, OF decimal_plain]
  show ?thesis by (simp add: example_metrics_def del: decimal.simps)
qed

end
