(* ===== verification/Measurement.thy ===== *)
theory Measurement
  imports Workload
begin

text \<open>
  What \<^verbatim>\<open>benches/mixed.rs\<close> makes of the measured times: percentiles, the metrics of a run,
  and the gate that compares them with those of an earlier run. Arithmetic of floating-point
  numbers, of a type \<open>'f\<close>, is given by its operations.
\<close>

section \<open>The code\<close>

text \<open>
  \<open>rank n p\<close> is \<open>((n as f64 - 1.0) * p).ceil() as usize\<close>; \<open>micros d\<close> is \<open>d.as_secs_f64() * 1e6\<close>; \<open>seconds d\<close> is
  \<open>d.as_secs_f64()\<close> and \<open>per_second d\<close> is \<open>TOTAL_OPS as f64\<close> divided by it; \<open>p50\<close>, \<open>p90\<close>, \<open>p99\<close> are the three constants;
  \<open>ratio\<close> is division, \<open>short_share\<close> and \<open>long_share\<close> are the percentages of short and long operations;
  \<open>greater\<close> is the comparison, \<open>raised x\<close> and \<open>lowered x\<close> are \<open>x * (1.0 + REGRESSION_FRACTION)\<close> and
  \<open>x * (1.0 - REGRESSION_FRACTION)\<close>.
\<close>

record 'f float_ops =
  rank :: "nat \<Rightarrow> 'f \<Rightarrow> nat"
  micros :: "duration \<Rightarrow> 'f"
  seconds :: "duration \<Rightarrow> 'f"
  per_second :: "duration \<Rightarrow> 'f"
  p50 :: 'f
  p90 :: 'f
  p99 :: 'f
  ratio :: "'f \<Rightarrow> 'f \<Rightarrow> 'f"
  short_share :: 'f
  long_share :: 'f
  greater :: "'f \<Rightarrow> 'f \<Rightarrow> bool"
  raised :: "'f \<Rightarrow> 'f"
  lowered :: "'f \<Rightarrow> 'f"

definition percentile :: "'f float_ops \<Rightarrow> duration list \<Rightarrow> 'f \<Rightarrow> duration" where
  "percentile fo xs p = (if xs = [] then 0 else xs ! min (rank fo (length xs) p) (length xs - 1))"

text \<open>\<open>Stats::metrics\<close>; \<open>elapsed\<close> is the time since the start of the run.\<close>

definition stats_metrics :: "'f float_ops \<Rightarrow> bench \<Rightarrow> duration \<Rightarrow> 'f metrics" where
  "stats_metrics fo b elapsed =
     (let short = sort (bn_short b); long = sort (bn_long b)
      in \<lparr>short_n = word_of_nat (length short),
          short_p50_us = micros fo (percentile fo short (p50 fo)),
          short_p90_us = micros fo (percentile fo short (p90 fo)),
          short_p99_us = micros fo (percentile fo short (p99 fo)),
          long_n = word_of_nat (length long),
          long_p50_us = micros fo (percentile fo long (p50 fo)),
          long_p90_us = micros fo (percentile fo long (p90 fo)),
          long_p99_us = micros fo (percentile fo long (p99 fo)),
          ops_per_sec = per_second fo elapsed,
          total_seconds = seconds fo elapsed\<rparr>)"

text \<open>
  What is printed, one constructor for each \<open>println\<close> with the values it inserts (the fixed text around
  them is left out). A \<open>bool\<close> is printed as FAIL or ok.
\<close>

datatype 'f printed =
    Title
  | Load u64 'f nat 'f nat u64             \<comment> \<open>operations, share and bytes of short ones, share and MiB of long ones, threads\<close>
  | Hash string
  | AgentHeading
  | AgentDone u64 'f 'f
  | TcpHeading
  | TcpDone u64 'f 'f
  | Unit_line
  | Table_head
  | Table_rule
  | Row string u64 'f 'f 'f u64 'f 'f 'f
  | Speedup_p99 'f
  | Speedup_p50 'f
  | Json string
  | GateHeading
  | Gate_p50 'f 'f bool
  | Gate_p99 'f 'f bool
  | Gate_ops 'f 'f bool
  | GateFail
  | GatePass

definition report_human :: "string \<Rightarrow> 'f metrics \<Rightarrow> 'f printed" where
  "report_human name m = Row name (short_n m) (short_p50_us m) (short_p90_us m) (short_p99_us m)
     (long_n m) (long_p50_us m) (long_p90_us m) (long_p99_us m)"

text \<open>\<open>run_gate\<close> on the text of the baseline file, if it can be read; \<open>None\<close> is a panic.\<close>

definition run_gate ::
  "'f float_ops \<Rightarrow> (string \<Rightarrow> 'f option) \<Rightarrow> string option \<Rightarrow> 'f metrics \<Rightarrow> ('f printed list \<times> bool) option" where
  "run_gate fo parse file agent =
     (case file of
        None \<Rightarrow> None
      | Some baseline \<Rightarrow>
     (case parse_f64_field parse baseline ''short_p99_us'' of
        None \<Rightarrow> None
      | Some b_short_p99 \<Rightarrow>
     (case parse_f64_field parse baseline ''short_p50_us'' of
        None \<Rightarrow> None
      | Some b_short_p50 \<Rightarrow>
     (case parse_f64_field parse baseline ''ops_per_sec'' of
        None \<Rightarrow> None
      | Some b_ops \<Rightarrow>
          let fail_short_p99 = greater fo (short_p99_us agent) (raised fo b_short_p99);
              fail_short_p50 = greater fo (short_p50_us agent) (raised fo b_short_p50);
              fail_ops = greater fo (lowered fo b_ops) (ops_per_sec agent);
              pass = (\<not> (fail_short_p99 \<or> fail_short_p50 \<or> fail_ops))
          in Some ([GateHeading, Gate_p50 b_short_p50 (short_p50_us agent) fail_short_p50,
                    Gate_p99 b_short_p99 (short_p99_us agent) fail_short_p99,
                    Gate_ops b_ops (ops_per_sec agent) fail_ops,
                    if pass then GatePass else GateFail], pass)))))"

section \<open>Percentiles\<close>

text \<open>
  Whatever the rounding, a percentile is one of the times, enough of the times do not exceed it,
  and it grows with the rank.
\<close>

lemma percentile_mem: "xs \<noteq> [] \<Longrightarrow> percentile fo xs p \<in> set xs"
  by (simp add: percentile_def min_less_iff_disj)

lemma percentile_covers:
  assumes "sorted xs"
  shows "min (Suc (rank fo (length xs) p)) (length xs) \<le> length (filter (\<lambda>x. x \<le> percentile fo xs p) xs)"
proof (cases "xs = []")
  case False
  obtain i where i_def: "i = min (rank fo (length xs) p) (length xs - 1)" by blast
  let ?P = "\<lambda>x. x \<le> xs ! i"
  have i: "i < length xs" using False by (simp add: i_def min_less_iff_disj)
  have "filter ?P (take (Suc i) xs) = take (Suc i) xs"
    using assms i by (auto simp: filter_id_conv in_set_conv_nth less_Suc_eq_le intro!: sorted_nth_mono)
  then have "Suc i = length (filter ?P (take (Suc i) xs))" using i by simp
  also have "\<dots> \<le> length (filter ?P (take (Suc i) xs @ drop (Suc i) xs))"
    by (simp only: filter_append length_append le_add1)
  finally have "Suc i \<le> length (filter ?P xs)" by (simp only: append_take_drop_id)
  then show ?thesis using False by (auto simp: percentile_def i_def)
qed simp

lemma percentile_mono:
  assumes "sorted xs" "rank fo (length xs) p \<le> rank fo (length xs) q"
  shows "percentile fo xs p \<le> percentile fo xs q"
proof (cases "xs = []")
  case False
  then have "min (rank fo (length xs) q) (length xs - 1) < length xs" by (simp add: min_less_iff_disj)
  then show ?thesis using assms False unfolding percentile_def
    by (auto intro!: sorted_nth_mono)
qed (simp add: percentile_def)

section \<open>The gate\<close>

text \<open>
  A run of all operations reports 500 and 50 samples, and what its metrics say is what the gate of a
  later run reads from the JSON line: the gate fails on a baseline exactly when one of the three
  numbers is worse than its printed value by more than the allowed fraction.
\<close>

lemma complete_run_metrics:
  assumes "length (bn_short b) = 500" "length (bn_long b) = 50"
  shows "short_n (stats_metrics fo b elapsed) = 500" "long_n (stats_metrics fo b elapsed) = 50"
  using assms by (simp_all add: stats_metrics_def Let_def)

lemma gate_reads_json:
  assumes "\<And>x. plain (show_one x)" "\<And>x. parse (show_one x) = Some (rounded x)"
  shows "\<exists>out. run_gate fo parse (Some (metrics_json show_one show_three old ''agent-transport'')) new =
    Some (out, \<not> greater fo (short_p99_us new) (raised fo (rounded (short_p99_us old)))
        \<and> \<not> greater fo (short_p50_us new) (raised fo (rounded (short_p50_us old)))
        \<and> \<not> greater fo (lowered fo (rounded (ops_per_sec old))) (ops_per_sec new))"
  using metrics_read_back [OF assms(1), where parse = parse and m = old and show_three = show_three] assms(2)
  by (simp add: run_gate_def Let_def)


section \<open>The program\<close>

text \<open>
  \<open>run_mixed\<close>: the statistics are created first, then the server and the client (\<open>started\<close> says whether
  that succeeds); \<open>warm k\<close> says whether the \<open>k\<close>-th call of the warm-up succeeded; then the threads run by the schedule \<open>es\<close>. The statistics are
  returned once all threads have left their loop; \<open>None\<close> is a panic, or a schedule that stops before.
\<close>

definition WARM_UP :: nat where
  "WARM_UP = 50"

definition run_mixed :: "bool \<Rightarrow> (nat \<Rightarrow> bool) \<Rightarrow> (nat \<times> duration option) list \<Rightarrow> bench option" where
  "run_mixed started warm es =
     (if started \<and> list_all warm [0..<WARM_UP]
      then case run_steps bench_step bench_new es of
             Inl f \<Rightarrow> None
           | Inr (b, calls) \<Rightarrow> if list_all (\<lambda>w. w = Stopped) (bn_workers b) then Some b else None
      else None)"

text \<open>\<open>args.windows(2).find(|w| w[0] == "--check")\<close>.\<close>

fun gate_path :: "string list \<Rightarrow> string option" where
  "gate_path (a # b # args) = (if a = ''--check'' then Some b else gate_path (b # args))"
| "gate_path _ = None"

text \<open>
  \<open>main\<close>: what it prints and its exit status, 101 for a panic. \<open>agent\<close> and \<open>tcp\<close> are the results of the two
  runs, each with the time since the run's statistics were created, \<open>read_file\<close> the files there are.
\<close>

definition banner :: "'f float_ops \<Rightarrow> 'f printed list" where
  "banner fo = [Title, Load TOTAL_OPS (short_share fo) SHORT_BYTES (long_share fo) (LONG_BYTES div 2 ^ 20) WORKERS,
     Hash (hex16 workload_hash), AgentHeading]"

definition human_report :: "'f float_ops \<Rightarrow> 'f metrics \<Rightarrow> 'f metrics \<Rightarrow> 'f printed list" where
  "human_report fo agent_m tcp_m =
     [Unit_line, Table_head, Table_rule, report_human ''agent-transport'' agent_m, report_human ''tcp-baseline'' tcp_m]
     @ (if 0 < short_n agent_m \<and> 0 < short_n tcp_m
        then [Speedup_p99 (ratio fo (short_p99_us tcp_m) (short_p99_us agent_m)),
              Speedup_p50 (ratio fo (short_p50_us tcp_m) (short_p50_us agent_m))]
        else [])"

definition bench_main ::
  "'f float_ops \<Rightarrow> (string \<Rightarrow> 'f option) \<Rightarrow> ('f \<Rightarrow> string) \<Rightarrow> ('f \<Rightarrow> string) \<Rightarrow> (string \<Rightarrow> string option) \<Rightarrow> string list
     \<Rightarrow> (bench \<times> duration) option \<Rightarrow> (bench \<times> duration) option \<Rightarrow> 'f printed list \<times> nat" where
  "bench_main fo parse show_one show_three read_file args agent tcp =
     (let json_mode = list_ex (\<lambda>a. a = ''--json'') args; path = gate_path args; out1 = banner fo
      in case agent of
           None \<Rightarrow> (out1, 101)
         | Some (ab, at) \<Rightarrow>
        (let agent_m = stats_metrics fo ab at;
             out2 = out1 @ [AgentDone TOTAL_OPS (total_seconds agent_m) (ops_per_sec agent_m), TcpHeading]
         in case tcp of
              None \<Rightarrow> (out2, 101)
            | Some (tb, tt) \<Rightarrow>
                let tcp_m = stats_metrics fo tb tt;
                    out3 = out2 @ [TcpDone TOTAL_OPS (total_seconds tcp_m) (ops_per_sec tcp_m)]
                      @ (if json_mode
                         then [Json (metrics_json show_one show_three agent_m ''agent-transport''),
                               Json (metrics_json show_one show_three tcp_m ''tcp-baseline'')]
                         else human_report fo agent_m tcp_m)
                in case path of
                     None \<Rightarrow> (out3, 0)
                   | Some p \<Rightarrow>
                       (case run_gate fo parse (read_file p) agent_m of
                          None \<Rightarrow> (out3, 101)
                        | Some (gate_out, pass) \<Rightarrow> (out3 @ gate_out, if pass then 0 else 1))))"

text \<open>The JSON lines among what is printed.\<close>

fun json_lines :: "'f printed list \<Rightarrow> string list" where
  "json_lines [] = []"
| "json_lines (Json s # out) = s # json_lines out"
| "json_lines (x # out) = json_lines out"

lemma json_lines_append [simp]: "json_lines (out @ out') = json_lines out @ json_lines out'"
  by (induction out rule: json_lines.induct) auto

lemma json_lines_gate: "run_gate fo parse file m = Some (out, pass) \<Longrightarrow> json_lines out = []"
  by (auto simp: run_gate_def Let_def split: option.splits if_splits)

text \<open>With \<open>--json\<close> exactly the two JSON lines are printed among the rest, without it none.\<close>

lemma main_json_lines:
  assumes "bench_main fo parse show_one show_three read_file args (Some (ab, at)) (Some (tb, tt)) = (out, status)"
  shows "json_lines out =
    (if ''--json'' \<in> set args
     then [metrics_json show_one show_three (stats_metrics fo ab at) ''agent-transport'',
           metrics_json show_one show_three (stats_metrics fo tb tt) ''tcp-baseline'']
     else [])"
  using assms json_lines_gate [of fo parse]
  by (fastforce simp: bench_main_def Let_def banner_def human_report_def report_human_def list_ex_iff
      split: option.splits if_splits)

text \<open>
  The gate end to end: a first run prints its JSON lines with \<open>--json\<close>; a second run that is given
  the first of them with \<open>--check\<close> exits with 1 exactly when one of its three numbers is worse than the printed
  one by more than the allowed fraction, and with 0 otherwise.
\<close>

lemma gate_end_to_end:
  assumes "\<And>x. plain (show_one x)" "\<And>x. parse (show_one x) = Some (rounded x)"
    "bench_main fo parse show_one show_three read0 [''mixed'', ''--json''] (Some (ab, at)) (Some (tb, tt)) = (out, status)"
    "read_file file = Some (hd (json_lines out))"
  shows "status = 0 \<and> snd (bench_main fo parse show_one show_three read_file [''mixed'', ''--check'', file] (Some (ab', at')) (Some (tb', tt'))) =
    (let old = stats_metrics fo ab at; new = stats_metrics fo ab' at'
     in if greater fo (short_p99_us new) (raised fo (rounded (short_p99_us old)))
          \<or> greater fo (short_p50_us new) (raised fo (rounded (short_p50_us old)))
          \<or> greater fo (lowered fo (rounded (ops_per_sec old))) (ops_per_sec new) then 1 else 0)"
proof -
  have l: "hd (json_lines out) = metrics_json show_one show_three (stats_metrics fo ab at) ''agent-transport''"
    using main_json_lines [OF assms(3)] by simp
  have st: "status = 0" using assms(3) by (auto simp: bench_main_def Let_def)
  let ?new = "stats_metrics fo ab' at'"
  obtain gout where g: "run_gate fo parse (read_file file) ?new =
    Some (gout, \<not> greater fo (short_p99_us ?new) (raised fo (rounded (short_p99_us (stats_metrics fo ab at))))
        \<and> \<not> greater fo (short_p50_us ?new) (raised fo (rounded (short_p50_us (stats_metrics fo ab at))))
        \<and> \<not> greater fo (lowered fo (rounded (ops_per_sec (stats_metrics fo ab at)))) (ops_per_sec ?new))"
    using gate_reads_json [OF assms(1), where parse = parse and rounded = rounded and fo = fo and show_three = show_three, OF assms(2)]
    unfolding assms(4) l by blast
  show ?thesis unfolding st by (simp add: bench_main_def Let_def g)
qed

text \<open>What a run that returns has measured, and so what it reports.\<close>

lemma run_mixed_complete:
  assumes "run_mixed started warm es = Some b"
  shows "\<exists>calls. run_steps bench_step bench_new es = Inr (b, calls) \<and> bn_workers b = replicate 8 Stopped
    \<and> mset (ops calls) = mset [0..<550]"
proof -
  obtain calls where r: "run_steps bench_step bench_new es = Inr (b, calls)" "list_all (\<lambda>w. w = Stopped) (bn_workers b)"
    using assms by (auto simp: run_mixed_def split: if_splits sum.splits)
  have h: "bench_hist b es calls" using bn.run_hist [OF bench_hist_new r(1)] by simp
  have ws: "bn_workers b = replicate 8 Stopped"
    using h r(2) by (intro replicate_eqI) (auto simp: bench_hist_def list_all_iff)
  have "total stops b = 8" "total claimed b = {#}" unfolding ws by (simp_all add: sum_list_replicate numeral_nat)
  then have "mset (ops calls) = mset [0..<550]" using h unfolding bench_hist_def by simp
  with r(1) ws show ?thesis by blast
qed

end
