(* ===== verification/Session.thy ===== *)
theory Session
  imports Alignment
begin

text \<open>
  One message from start to delivery: the sender core and the receiver core joined by a network
  that loses nothing but may reorder at will. No timer is needed then: within a bounded number of
  arrivals the message is delivered and the sender is done.
\<close>

section \<open>The session\<close>

record session =
  ss_sender :: sender_core
  ss_receiver :: receiver_core
  ss_flight :: "datagram list"

text \<open>A packet that arrives on the sending side, as the IO loop dispatches it.\<close>

definition at_sender :: "sender_core \<Rightarrow> sockaddr \<Rightarrow> packet \<Rightarrow> instant \<Rightarrow> fault + (sender_core \<times> action list)" where
  "at_sender s src pkt now =
     (case pkt_typ pkt of
        Data \<Rightarrow> Inr (s, [])
      | Grant \<Rightarrow> handle_grant s src pkt now
      | Resend \<Rightarrow> handle_resend s src pkt now
      | Busy \<Rightarrow> Inr (handle_busy s src pkt now, []))"

definition at_receiver :: "(msg_key list \<Rightarrow> msg_key list) \<Rightarrow> receiver_core \<Rightarrow> sockaddr \<Rightarrow> packet \<Rightarrow> bytes \<Rightarrow> instant \<Rightarrow> fault + (receiver_core \<times> action list)" where
  "at_receiver ord r src pkt payload now =
     (if pkt_typ pkt = Data then handle_data ord r src pkt payload now else Inr (r, []))"

text \<open>
  One of the datagrams in flight between \<open>a\<close>, the sender, and \<open>b\<close>, the receiver, arrives. The
  output is what the receiver delivers.
\<close>

definition arrive :: "sockaddr \<Rightarrow> sockaddr \<Rightarrow> session \<Rightarrow> nat \<Rightarrow> (msg_key list \<Rightarrow> msg_key list) \<Rightarrow> instant \<Rightarrow> fault + (session \<times> (msg_key \<times> bytes) list)" where
  "arrive a b n i ord now =
     (let (dest, buf) = ss_flight n ! i; rest = take i (ss_flight n) @ drop (Suc i) (ss_flight n)
      in case decode buf of
           Inl e \<Rightarrow> Inr (n\<lparr>ss_flight := rest\<rparr>, [])
         | Inr (pkt, payload) \<Rightarrow>
             if dest = b
             then bind_res (at_receiver ord (ss_receiver n) a pkt payload now) (\<lambda>(r, as).
                    Inr (n\<lparr>ss_receiver := r, ss_flight := rest @ sends as\<rparr>, delivers as))
             else bind_res (at_sender (ss_sender n) b pkt now) (\<lambda>(s, as).
                    Inr (n\<lparr>ss_sender := s, ss_flight := rest @ sends as\<rparr>, delivers as)))"

text \<open>The network picks the datagram: any number names one of those in flight.\<close>

fun session_step :: "sockaddr \<Rightarrow> sockaddr \<Rightarrow> session \<Rightarrow> nat \<times> (msg_key list \<Rightarrow> msg_key list) \<times> instant \<Rightarrow> fault + (session \<times> (msg_key \<times> bytes) list)" where
  "session_step a b n (k, ord, now) =
     (if ss_flight n = [] then Inr (n, []) else arrive a b n (k mod length (ss_flight n)) ord now)"

section \<open>The scheduler with one message\<close>

lemma iter_order_single: "iter_order ord \<Longrightarrow> ord [x] = [x]"
  unfolding iter_order_def by (metis mset_single_iff mset_single_iff_right mset.simps)

lemma iter_order_Nil: "iter_order ord \<Longrightarrow> ord [] = []"
  unfolding iter_order_def by (metis mset_zero_iff mset.simps(1))

lemma schedule_none: "iter_order ord \<Longrightarrow> r_incoming r = [] \<Longrightarrow> schedule ord r now = Inr (r\<lparr>r_granting := []\<rparr>, [])"
  by (simp add: schedule_def iter_order_Nil)

lemma schedule_single:
  assumes "iter_order ord" "r_incoming r = [(key, m)]" "\<not> complete m" "im_received_bytes m \<le> im_total_len m"
  shows "schedule ord r now =
    (if im_granted_to m < im_total_len m then Inr (issue_grant (r\<lparr>r_granting := [key]\<rparr>) key now False)
     else Inr (r\<lparr>r_granting := []\<rparr>, []))"
proof -
  have k: "take (max n 1) [x] = [x]" for n and x :: 'z by (cases n) simp_all
  show ?thesis using assms
    by (auto simp: schedule_def Let_def iter_order_single eligible_def remaining_def usize_sub_def k split: prod.split)
qed

text \<open>The window is open: all is granted, or half an increment is still to come.\<close>

definition window_open :: "transport_config \<Rightarrow> in_msg \<Rightarrow> bool" where
  "window_open cfg m \<longleftrightarrow> im_granted_to m = im_total_len m
     \<or> grant_increment cfg div 2 \<le> im_granted_to m - im_received_bytes m"

lemma schedule_opens:
  assumes ord: "iter_order ord" and r: "r_incoming r = [(key, m)]" "\<not> complete m" "im_received_bytes m \<le> im_total_len m"
    and g: "im_granted_to m \<le> im_total_len m"
  obtains r' t as where "schedule ord r now = Inr (r', as)"
    "r_incoming r' = [(key, m\<lparr>im_granted_to := t, im_last_grant := now\<rparr>)] \<and> im_granted_to m < t \<and> as = [grant_packet key m t]
     \<or> r_incoming r' = [(key, m)] \<and> t = im_granted_to m \<and> as = []"
    "window_open (r_cfg r) (m\<lparr>im_granted_to := t\<rparr>)" "t \<le> im_total_len m"
proof (cases "im_granted_to m < im_total_len m")
  case False
  then show thesis using schedule_single [OF ord r] r g
    by (intro that [of "r\<lparr>r_granting := []\<rparr>" "[]" "im_granted_to m"]) (simp_all add: window_open_def)
next
  case True
  let ?r = "r\<lparr>r_granting := [key]\<rparr>" and ?t = "grant_target (grant_increment (r_cfg r)) m"
  have m: "map_of (r_incoming ?r) key = Some m" by (simp add: r)
  have s: "schedule ord r now = Inr (issue_grant ?r key now False)" using schedule_single [OF ord r] True by simp
  show thesis
  proof (cases "im_granted_to m - im_received_bytes m < grant_increment (r_cfg r) div 2 \<and> im_granted_to m < ?t")
    case grant: True
    then show thesis using s issue_grant_Some [OF m, of now False] r g
      by (intro that [of _ _ ?t]) (auto simp: window_open_def grant_target_def)
  next
    case False
    then show thesis using s issue_grant_Some [OF m, of now False] r g
      by (intro that [of ?r "[]" "im_granted_to m"]) (auto simp: window_open_def grant_target_def)
  qed
qed

section \<open>The receiving side\<close>

text \<open>
  What the receiver has of the message: the chunks \<open>R\<close>, and it has granted \<open>G\<close> bytes.
\<close>

definition marked :: "in_msg \<Rightarrow> nat set" where
  "marked m = {i. i < length (im_received m) \<and> im_received m ! i}"

definition receiving :: "transport_config \<Rightarrow> msg_key \<Rightarrow> bytes \<Rightarrow> receiver_core \<Rightarrow> nat set \<Rightarrow> nat \<Rightarrow> bool" where
  "receiving cfg key D r R G \<longleftrightarrow> recv_inv r \<and> r_cfg r = cfg \<and> key \<notin> set (r_completed r)
     \<and> (r_incoming r = [] \<and> R = {} \<and> G = min (unscheduled_bytes cfg) (length D)
        \<or> (\<exists>m. r_incoming r = [(key, m)] \<and> holds (packet_size cfg) D m \<and> \<not> complete m \<and> R = marked m
             \<and> G = im_granted_to m \<and> window_open cfg m))"

text \<open>The log of \<open>Reassembly\<close> for this one message.\<close>

definition only :: "msg_key \<Rightarrow> bytes \<Rightarrow> msg_key \<Rightarrow> bytes option" where
  "only key D = (\<lambda>k. if k = key then Some D else None)"

lemma receiving_reasm: "receiving cfg key D r R G \<Longrightarrow> reasm_ok (packet_size cfg) (only key D) r"
  by (auto simp: receiving_def reasm_ok_def only_def all_entries_def split: if_splits)

lemma receiving_entry:
  assumes "receiving cfg key D r R G" "length D < 2 ^ 32" "D \<noteq> []" "entry_of r key (length D) now = Inr m"
  shows "in_msg_ok cfg m \<and> holds (packet_size cfg) D m \<and> marked m = R \<and> im_granted_to m = G"
proof (cases "r_incoming r = []")
  case True
  have ps: "0 < packet_size cfg" using assms(1) recv_inv_ps by (auto simp: receiving_def)
  have n: "new_in_msg cfg (length D) now = Inr m" "R = {}" "G = min (unscheduled_bytes cfg) (length D)"
    using assms True by (auto simp: receiving_def entry_of_def)
  with new_in_msg_ok [OF ps assms(2) n(1)] holds_new [OF ps n(1) assms(2)] show ?thesis
    by (auto simp: marked_def new_in_msg_def bind_res_Inr_iff)
next
  case False
  with assms have "r_incoming r = [(key, m)]" "holds (packet_size cfg) D m" "marked m = R" "im_granted_to m = G"
    "recv_inv r" "r_cfg r = cfg" by (auto simp: receiving_def entry_of_def)
  then show ?thesis using recv_inv_entry [of r key m] by simp
qed

lemma store_chunk_granted: "store_chunk n m idx off payload now = Inr m' \<Longrightarrow> im_granted_to m' = im_granted_to m"
  by (auto simp: store_chunk_def bind_res_Inr_iff split: if_splits)

lemma marked_set:
  assumes "im_received m' = (im_received m)[i := True]" "i < length (im_received m)"
  shows "marked m' = insert i (marked m)"
  using assms by (auto simp: marked_def nth_list_update)

lemma marked_all:
  assumes "0 < packet_size cfg" "in_msg_ok cfg m" "holds (packet_size cfg) D m" "D \<noteq> []"
  shows "marked m \<subseteq> {..<chunk_count (packet_size cfg) (length D) 0}"
    "complete m \<longleftrightarrow> marked m = {..<chunk_count (packet_size cfg) (length D) 0}"
proof -
  have len: "length (im_received m) = chunk_count (packet_size cfg) (length D) 0"
    using bitmap_length [OF assms(1,2)] assms(3,4) by (simp add: holds_def)
  then show "marked m \<subseteq> {..<chunk_count (packet_size cfg) (length D) 0}" by (auto simp: marked_def)
  have "complete m \<longleftrightarrow> acct (packet_size cfg) (length D) (im_received m) = length D"
    using assms(3) by (simp add: holds_def complete_def)
  also have "\<dots> \<longleftrightarrow> (\<forall>i < length (im_received m). im_received m ! i)" by (rule acct_full [OF assms(1) len])
  also have "\<dots> \<longleftrightarrow> marked m = {..<chunk_count (packet_size cfg) (length D) 0}" by (auto simp: marked_def len)
  finally show "complete m \<longleftrightarrow> marked m = {..<chunk_count (packet_size cfg) (length D) 0}" .
qed

text \<open>What recording a chunk does to the entry.\<close>

lemma record_chunk:
  assumes rc: "receiving cfg (src, mid) D r R G" and len: "length D < 2 ^ 32" "D \<noteq> []"
    and pkt: "unat (pkt_offset pkt) div packet_size cfg = j" "carries (packet_size cfg) D pkt payload"
    and e: "entry_of r (src, mid) (length D) now = Inr m"
    and st: "store_chunk (unat (pkt_msg_len pkt)) m j (unat (pkt_offset pkt)) payload now = Inr m'"
  shows "in_msg_ok cfg m'" "holds (packet_size cfg) D m'" "marked m' = insert j R" "im_granted_to m' = G"
    "AList.update (src, mid) m' (r_incoming r) = [((src, mid), m')]"
proof -
  let ?ps = "packet_size cfg"
  have ps: "0 < ?ps" using rc recv_inv_ps by (auto simp: receiving_def)
  have m: "in_msg_ok cfg m" "holds ?ps D m" "marked m = R" "im_granted_to m = G"
    using receiving_entry [OF rc len e] by simp_all
  have m': "holds ?ps D m'" "im_received m' = (im_received m)[j := True]"
    using store_chunk_holds [OF ps m(1,2) pkt(2) len(2), of now] st pkt(1) by auto
  show "in_msg_ok cfg m'" by (rule store_chunk_ok [OF m(1) st])
  show "holds ?ps D m'" by (rule m'(1))
  show "im_granted_to m' = G" using store_chunk_granted [OF st] m(4) by simp
  have "j < length (im_received m)"
    using bitmap_length [OF ps m(1)] m(2) len(2) carries_index(2) [OF pkt(2) len(2) ps] pkt(1) by (simp add: holds_def)
  then show "marked m' = insert j R" using marked_set [OF m'(2)] m(3) by simp
  show "AList.update (src, mid) m' (r_incoming r) = [((src, mid), m')]" using rc by (auto simp: receiving_def)
qed

text \<open>A chunk arrives: it is recorded, and perhaps more is granted; or it was the last one.\<close>

lemma receive_chunk:
  assumes rc: "receiving cfg (src, mid) D r R G" and ord: "iter_order ord" and len: "length D < 2 ^ 32" "D \<noteq> []"
    and room: "0 < max_incoming cfg"
    and pkt: "pkt_msg_id pkt = mid" "unat (pkt_offset pkt) div packet_size cfg = j" "carries (packet_size cfg) D pkt payload"
  obtains (more) r' G' as where "handle_data ord r src pkt payload now = Inr (r', as)"
      "receiving cfg (src, mid) D r' (insert j R) G'" "delivers as = []"
      "G < G' \<and> (\<exists>m. sends as = sends [grant_packet (src, mid) m G']) \<or> G' = G \<and> sends as = []"
  | (last) r' where "handle_data ord r src pkt payload now = Inr (r', [Deliver src mid D])"
      "r_incoming r' = []" "insert j R = {..<chunk_count (packet_size cfg) (length D) 0}"
proof -
  let ?ps = "packet_size cfg" and ?key = "(src, mid)"
  have ps: "0 < ?ps" using rc recv_inv_ps by (auto simp: receiving_def)
  have cfg: "r_cfg r = cfg" and new: "?key \<notin> set (r_completed r)" using rc by (simp_all add: receiving_def)
  have n: "unat (pkt_msg_len pkt) = length D" using pkt(3) by (simp add: carries_def)
  obtain r' as where h: "handle_data ord r src pkt payload now = Inr (r', as)" and ok: "reasm_ok ?ps (only ?key D) r'"
    using handle_data_exact [OF receiving_reasm [OF rc] ord _ pkt(3), of src now] pkt(1)
    by (auto simp: only_def exact_result_def)
  have b: "\<not> (map_of (r_incoming r) ?key = None \<and> max_incoming (r_cfg r) \<le> length (r_incoming r))"
    using rc room by (auto simp: receiving_def)
  from h show thesis
  proof (cases rule: handle_data_Inr)
    case (stored m m' r1 as1 as2)
    have e: "entry_of r ?key (length D) now = Inr m" using stored(4) pkt(1) n by simp
    have st: "store_chunk (unat (pkt_msg_len pkt)) m j (unat (pkt_offset pkt)) payload now = Inr m'"
      using stored(5) pkt(2) cfg by simp
    note rec = record_chunk [OF rc len pkt(2,3) e st]
    note ok' = rec(1) and m' = rec(2) and mk = rec(3) and g' = rec(4) and inc = rec(5)
    show thesis
    proof (cases "complete m'")
      case True
      then have r1: "r_incoming r1 = []" "as1 = [Deliver src mid (im_buf m')]"
        using stored(6) inc pkt(1) by (auto simp: settle_def Let_def deliver_def)
      then have "as2 = []" "r_incoming r' = []" using stored(7) schedule_none [OF ord r1(1)] by auto
      moreover have "im_buf m' = D" by (rule holds_complete [OF ps ok' m' True len(2)])
      moreover have "insert j R = {..<chunk_count ?ps (length D) 0}"
        using marked_all(2) [OF ps ok' m' len(2)] True mk by simp
      ultimately show thesis using h stored(8) r1(2) by (intro last) simp_all
    next
      case False
      then have r1: "r_incoming r1 = [(?key, m')]" "as1 = []" "r_cfg r1 = cfg" "r_completed r1 = r_completed r"
        using stored(6) inc pkt(1) cfg by (auto simp: settle_def Let_def)
      have "im_received_bytes m' \<le> im_total_len m'" by (rule holds_le [OF ps ok' m'])
      moreover have "im_granted_to m' \<le> im_total_len m'" using ok' by (simp add: in_msg_ok_def)
      ultimately obtain r2 t as3 where s: "schedule ord r1 now = Inr (r2, as3)"
        "r_incoming r2 = [(?key, m'\<lparr>im_granted_to := t, im_last_grant := now\<rparr>)] \<and> im_granted_to m' < t \<and> as3 = [grant_packet ?key m' t]
         \<or> r_incoming r2 = [(?key, m')] \<and> t = im_granted_to m' \<and> as3 = []"
        "window_open cfg (m'\<lparr>im_granted_to := t\<rparr>)"
        using schedule_opens [OF ord r1(1) False] r1(3) by metis
      have "r2 = r'" "as3 = as2" using s(1) stored(7) by simp_all
      have dl: "delivers as = []" using s(2) r1(2) stored(8) \<open>as3 = as2\<close> by (auto simp: delivers_grant_packet)
      have inv: "recv_inv r'" "r_cfg r' = cfg" "r_completed r' = r_completed r"
        using handle_data_sound [OF _ ord h] rc dl cfg by (auto simp: receiving_def sound_step_def recv_inv_def cache_push_Nil)
      let ?m = "m'\<lparr>im_granted_to := t, im_last_grant := now\<rparr>"
      have "holds ?ps D ?m" "\<not> complete ?m" "marked ?m = insert j R" "im_granted_to ?m = t" "window_open cfg ?m"
        using m' False mk s(3) by (simp_all add: complete_def marked_def window_open_def)
      then have "receiving cfg ?key D r' (insert j R) t"
        using inv new s(2) g' mk m' False s(3) \<open>r2 = r'\<close> by (auto simp: receiving_def window_open_def)
      moreover have "G < t \<and> (\<exists>m. sends as = sends [grant_packet ?key m t]) \<or> t = G \<and> sends as = []"
        using s(2) g' r1(2) stored(8) \<open>as3 = as2\<close> by auto
      ultimately show thesis using h dl by (intro more)
    qed
  qed (use new b pkt n len in auto)
qed

section \<open>The sending side\<close>

definition sender_at :: "transport_config \<Rightarrow> msg_key \<Rightarrow> bytes \<Rightarrow> sender_core \<Rightarrow> out_msg \<Rightarrow> bool" where
  "sender_at cfg key D s m \<longleftrightarrow> sender_inv s \<and> s_cfg s = cfg \<and> map_of (s_out s) key = Some m \<and> om_data m = D
     \<and> at_chunk (packet_size cfg) (length D) (om_next_send m)"

definition chunks_sent :: "nat \<Rightarrow> out_msg \<Rightarrow> nat" where
  "chunks_sent ps m = chunk_count ps (om_next_send m) 0"

lemma count_eqI: "(\<And>i :: nat. i < x \<longleftrightarrow> i < y) \<Longrightarrow> x = y"
  by (meson linorder_neqE_nat less_irrefl)

lemma chunks_sent_all:
  assumes "0 < ps" "at_chunk ps len (om_next_send m)" "om_next_send m \<le> len"
    "chunk_count ps len 0 \<le> chunks_sent ps m"
  shows "om_next_send m = len"
proof (rule ccontr)
  let ?q = "om_next_send m div ps"
  assume "om_next_send m \<noteq> len"
  then have q: "om_next_send m = ?q * ps" "om_next_send m < len" using assms(2,3) by (auto simp: at_chunk_def)
  then have "?q < chunk_count ps len 0" using assms(1) by (simp add: chunk_count_le_iff)
  then have "?q < chunk_count ps (om_next_send m) 0" using assms(4) unfolding chunks_sent_def by (rule less_le_trans)
  then have "?q * ps < om_next_send m" using assms(1) by (simp add: chunk_count_le_iff)
  with q(1) show False by simp
qed

lemma chunks_sent_le: "0 < ps \<Longrightarrow> om_next_send m \<le> len \<Longrightarrow> chunks_sent ps m \<le> chunk_count ps len 0"
  unfolding chunks_sent_def by (meson chunk_count_le_iff le_less_linear less_irrefl less_le_trans)

text \<open>The chunks a pump sends continue those sent before.\<close>

lemma pump_indices:
  assumes ps: "0 < ps" and le: "limit \<le> len" "ns \<le> len" and ns: "at_chunk ps len ns"
  shows "map (\<lambda>i. ns div ps + i) [0..<chunk_count ps limit ns]
       = [chunk_count ps ns 0..<chunk_count ps (pump_end ps len limit ns) 0]"
proof (cases "ns < limit")
  case False
  then show ?thesis using ps by (simp add: pump_end_def)
next
  case True
  let ?q = "ns div ps" and ?k = "chunk_count ps limit ns"
  have q: "ns = ?q * ps" using ns True le by (auto simp: at_chunk_def)
  have "chunk_count ps ns 0 = ?q"
    by (rule count_eqI) (subst chunk_count_le_iff [OF ps], subst q, use ps in simp)
  moreover have "chunk_count ps (pump_end ps len limit ns) 0 = ?q + ?k"
  proof (rule count_eqI)
    fix i
    have e: "pump_end ps len limit ns = min ((?q + ?k) * ps) len"
      using True q by (simp add: pump_end_def add_mult_distrib)
    have "i * ps < len" if "i < ?q + ?k"
    proof (cases "i < ?q")
      case True
      then have "i * ps \<le> ?q * ps" by simp
      with q \<open>ns < limit\<close> le show ?thesis by linarith
    next
      case False
      with that have "i - ?q < ?k" by simp
      then have "ns + (i - ?q) * ps < limit" using chunk_count_le_iff [OF ps] by blast
      moreover have "?q * ps + (i - ?q) * ps = i * ps" using False by (simp flip: add_mult_distrib)
      ultimately show ?thesis using q le(1) by simp
    qed
    then show "i < chunk_count ps (pump_end ps len limit ns) 0 \<longleftrightarrow> i < ?q + ?k"
      unfolding chunk_count_le_iff [OF ps] e using ps by auto
  qed
  moreover have "map (\<lambda>i. ?q + i) [0..<?k] = [?q..<?q + ?k]" by (simp add: map_add_upt add.commute)
  ultimately show ?thesis by simp
qed

lemma chunk_sends:
  "sends (map (\<lambda>i. Send b (f i)) is) = map (\<lambda>i. (b, f i)) is" "delivers (map (\<lambda>i. Send b (f i)) is) = []"
  by (induction "is") simp_all

text \<open>A grant arrives at the sender: it sends the next chunks, or has sent them already.\<close>

lemma sender_grant:
  assumes s: "sender_at cfg (b, mid) D s m" and pkt: "pkt_msg_id pkt = mid" "min (unat (pkt_offset pkt)) (length D) = g"
  obtains s' m' as where "handle_grant s b pkt now = Inr (s', as)" "sender_at cfg (b, mid) D s' m'" "delivers as = []"
    "sends as = map (\<lambda>i. (b, chunk_frag (packet_size cfg) D mid i)) [chunks_sent (packet_size cfg) m..<chunks_sent (packet_size cfg) m']"
    "chunks_sent (packet_size cfg) m \<le> chunks_sent (packet_size cfg) m'"
    "om_granted_to m' = max (om_granted_to m) g \<or> om_next_send m = length D \<and> m' = m"
proof -
  let ?ps = "packet_size cfg"
  have g: "g \<le> length D" using pkt(2) by auto
  have m: "map_of (s_out s) (b, mid) = Some m" "om_data m = D" "at_chunk ?ps (length D) (om_next_send m)" "sender_inv s" "s_cfg s = cfg"
    using s by (simp_all add: sender_at_def)
  have ps: "0 < ?ps" using sender_inv_ps [OF m(4)] m(5) by simp
  have ok: "om_ok ?ps m" using sender_inv_om [OF m(4,1)] m(5) by simp
  have e: "handle_grant s b pkt now = (if g \<le> om_granted_to m then Inr (s, []) else pump s (b, mid) g now)"
    using m pkt g by (simp add: handle_grant_def Let_def)
  consider "g \<le> om_granted_to m" | "om_granted_to m < g" "om_next_send m = length D" | "om_granted_to m < g" "om_next_send m \<noteq> length D"
    by linarith
  then show thesis
  proof cases
    case 1
    with e s show thesis by (intro that [of s "[]" m]) (simp_all add: max_def)
  next
    case 2
    then have "om_done_at m \<noteq> None" using ok m(2) by (simp add: om_ok_def)
    with 2 e s pump_done [OF m(1)] show thesis by (intro that [of s "[]" m]) simp_all
  next
    case 3
    then have nd: "om_done_at m = None" using ok m(2) by (simp add: om_ok_def)
    let ?m = "om_pumped ?ps g now m" and ?as = "pump_frags ?ps b mid D g (om_next_send m)"
    have le: "om_next_send m \<le> length D" using ok m(2) by (simp add: om_ok_def)
    have p: "pump s (b, mid) g now = Inr (s\<lparr>s_out := AList.update (b, mid) ?m (s_out s)\<rparr>, ?as)"
      using pump_eq [OF _ m(1) nd, of g now] ps m(2,5) g by simp
    have ns: "om_next_send ?m = pump_end ?ps (length D) g (om_next_send m)" "om_granted_to ?m = max (om_granted_to m) g"
      using m(2) g by (simp_all add: om_pumped_def Let_def)
    note c = pump_chunks(1) [OF ps g le m(3), where dest = b and mid = mid] pump_chunks(2) [OF ps g le m(3)]
    have "sender_at cfg (b, mid) D (s\<lparr>s_out := AList.update (b, mid) ?m (s_out s)\<rparr>) ?m"
      using sender_inv_update [OF m(4), of ?m "(b, mid)"] om_pumped_ok [OF ps ok nd] m(2,5) c(2) ns(1)
      by (simp add: sender_at_def update_conv')
    moreover have "?as = map (\<lambda>i. Send b (chunk_frag ?ps D mid i)) [chunks_sent ?ps m..<chunks_sent ?ps ?m]"
      using c(1) pump_indices [OF ps g le m(3)] by (simp add: sends_chunks_def chunks_sent_def ns(1))
    moreover have "chunks_sent ?ps m \<le> chunks_sent ?ps ?m"
      unfolding chunks_sent_def ns(1) using pump_end_bounds(1) [OF ps g le]
      by (meson chunk_count_le_iff ps le_less_linear less_irrefl less_le_trans)
    ultimately show thesis using 3 e p ns(2) by (intro that [of _ ?as ?m]) (simp_all add: chunk_sends)
  qed
qed

section \<open>The invariant of a session\<close>

text \<open>What is in flight: chunks towards \<open>b\<close> and grants towards \<open>a\<close>.\<close>

datatype item = Chunk nat | Limit nat

fun gram :: "nat \<Rightarrow> sockaddr \<Rightarrow> sockaddr \<Rightarrow> u64 \<Rightarrow> bytes \<Rightarrow> datagram \<Rightarrow> item \<Rightarrow> bool" where
  "gram ps a b mid D x (Chunk j) \<longleftrightarrow> j * ps < length D \<and> x = (b, chunk_frag ps D mid j)"
| "gram ps a b mid D x (Limit g) \<longleftrightarrow> g \<le> length D \<and> (\<exists>p. x = (a, encode p []) \<and> pkt_typ p = Grant
     \<and> pkt_msg_id p = mid \<and> unat (pkt_offset p) = g)"

fun chunks_of :: "item list \<Rightarrow> nat list" where
  "chunks_of [] = []"
| "chunks_of (Chunk j # is) = j # chunks_of is"
| "chunks_of (Limit g # is) = chunks_of is"

lemma chunks_of_append [simp]: "chunks_of (xs @ ys) = chunks_of xs @ chunks_of ys"
  by (induction xs rule: chunks_of.induct) auto

lemma chunks_of_map [simp]: "chunks_of (map Chunk is) = is"
  by (induction "is") auto

lemma chunks_of_mem: "Chunk j \<in> set is \<Longrightarrow> j \<in> set (chunks_of is)"
  by (induction "is" rule: chunks_of.induct) auto

text \<open>
  Every chunk sent is either in flight or received, once; and if not all of the message is sent,
  the receiver's last grant has reached the sender or is in flight.
\<close>

definition sending :: "transport_config \<Rightarrow> sockaddr \<Rightarrow> sockaddr \<Rightarrow> u64 \<Rightarrow> bytes \<Rightarrow> session \<Rightarrow> out_msg \<Rightarrow> item list \<Rightarrow> nat set \<Rightarrow> nat \<Rightarrow> bool" where
  "sending cfg a b mid D n m items R G \<longleftrightarrow>
     sender_at cfg (b, mid) D (ss_sender n) m \<and> receiving cfg (a, mid) D (ss_receiver n) R G
     \<and> list_all2 (gram (packet_size cfg) a b mid D) (ss_flight n) items
     \<and> finite R \<and> mset (chunks_of items) + mset_set R = mset_set {..<chunks_sent (packet_size cfg) m}
     \<and> (om_next_send m \<noteq> length D \<longrightarrow> G \<le> om_granted_to m \<or> Limit G \<in> set items)"

definition rank :: "transport_config \<Rightarrow> bytes \<Rightarrow> out_msg \<Rightarrow> item list \<Rightarrow> nat \<Rightarrow> nat" where
  "rank cfg D m items G = length D - G
     + (chunk_count (packet_size cfg) (length D) 0 - chunks_sent (packet_size cfg) m) + length items"

text \<open>After the delivery only grants are in flight, for a message that is sent.\<close>

definition arrived :: "transport_config \<Rightarrow> sockaddr \<Rightarrow> sockaddr \<Rightarrow> u64 \<Rightarrow> bytes \<Rightarrow> session \<Rightarrow> bool" where
  "arrived cfg a b mid D n \<longleftrightarrow>
     (\<exists>m. sender_at cfg (b, mid) D (ss_sender n) m \<and> om_next_send m = length D)
     \<and> (\<forall>x \<in> set (ss_flight n). \<exists>g. gram (packet_size cfg) a b mid D x (Limit g))"

lemma receiving_le:
  assumes "receiving cfg key D r R G"
  shows "G \<le> length D"
proof (cases "r_incoming r = []")
  case False
  with assms obtain m where "r_incoming r = [(key, m)]" "holds (packet_size cfg) D m" "G = im_granted_to m" "recv_inv r"
    by (auto simp: receiving_def)
  then show ?thesis using recv_inv_entry [of r key m] by (simp add: in_msg_ok_def holds_def)
qed (use assms in \<open>auto simp: receiving_def\<close>)

lemma sender_at_facts:
  assumes "sender_at cfg key D s m"
  shows "0 < packet_size cfg" "om_granted_to m \<le> om_next_send m" "om_next_send m \<le> length D"
    "at_chunk (packet_size cfg) (length D) (om_next_send m)" "om_done_at m \<noteq> None \<longleftrightarrow> om_next_send m = length D"
  using assms sender_inv_om [of s key m] sender_inv_ps [of s] by (auto simp: sender_at_def om_ok_def)

text \<open>What is received adds up to what is sent when nothing is in flight: then the message is complete.\<close>

lemma sending_flight:
  assumes n: "sending cfg a b mid D n m items R G" and D: "D \<noteq> []"
    and cfg: "0 < unscheduled_bytes cfg" "2 \<le> grant_increment cfg"
  shows "ss_flight n \<noteq> []"
proof
  let ?ps = "packet_size cfg" and ?len = "length D"
  assume "ss_flight n = []"
  then have "items = []" using n by (simp add: sending_def)
  moreover from this n have "mset_set R = mset_set {..<chunks_sent ?ps m}" "finite R" by (simp_all add: sending_def)
  ultimately have R: "R = {..<chunks_sent ?ps m}" by (metis finite_lessThan finite_set_mset_mset_set)
  have s: "sender_at cfg (b, mid) D (ss_sender n) m" using n by (simp add: sending_def)
  note f = sender_at_facts [OF s]
  have g: "om_next_send m \<noteq> ?len \<Longrightarrow> G \<le> om_granted_to m" using n \<open>items = []\<close> by (simp add: sending_def)
  have r: "receiving cfg (a, mid) D (ss_receiver n) R G" using n by (simp add: sending_def)
  show False
  proof (cases "r_incoming (ss_receiver n) = []")
    case True
    then have "R = {}" "G = min (unscheduled_bytes cfg) ?len" using r by (simp_all add: receiving_def)
    then have "0 < G" "chunks_sent ?ps m = 0" using D cfg R by auto
    then have "\<not> 0 < om_next_send m" using chunk_count_le_iff [OF f(1), of 0 "om_next_send m" 0] by (simp add: chunks_sent_def)
    with g f(2) \<open>0 < G\<close> D show False by auto
  next
    case False
    then obtain im where im: "r_incoming (ss_receiver n) = [((a, mid), im)]" "holds ?ps D im" "\<not> complete im" "R = marked im"
      "G = im_granted_to im" "window_open cfg im" "recv_inv (ss_receiver n)" "r_cfg (ss_receiver n) = cfg"
      using r by (auto simp: receiving_def)
    have ok: "in_msg_ok cfg im" using recv_inv_entry [of "ss_receiver n" "(a, mid)" im] im by simp
    have "R \<noteq> {..<chunk_count ?ps ?len 0}" using marked_all(2) [OF f(1) ok im(2) D] im(3,4) by simp
    then have ne: "om_next_send m \<noteq> ?len" using R by (auto simp: chunks_sent_def)
    have len: "length (im_received im) = chunk_count ?ps ?len 0"
      using bitmap_length [OF f(1) ok] im(2) D by (simp add: holds_def)
    let ?N = "chunks_sent ?ps m"
    have N: "?N \<le> chunk_count ?ps ?len 0" by (rule chunks_sent_le [OF f(1,3)])
    have bit: "im_received im ! i \<longleftrightarrow> i < ?N" if "i < length (im_received im)" for i
      using that im(4) R unfolding marked_def by (metis (mono_tags, lifting) lessThan_iff mem_Collect_eq)
    have "acct ?ps ?len (im_received im) = (\<Sum>i<chunk_count ?ps ?len 0. if i < ?N then chunk_len ?ps ?len i else 0)"
      unfolding acct_def using bit by (simp add: len)
    also have "\<dots> = (\<Sum>i<?N. chunk_len ?ps ?len i)"
      using N by (simp add: sum.If_cases Int_absorb1 lessThan_subset_iff flip: lessThan_def)
    also have "\<dots> = min (?N * ?ps) ?len" by (rule sum_chunk_len)
    also have "om_next_send m \<le> \<dots>"
    proof -
      have "\<not> ?N < chunk_count ?ps (om_next_send m) 0" by (simp add: chunks_sent_def)
      then have "om_next_send m \<le> ?N * ?ps" by (simp add: chunk_count_le_iff [OF f(1)])
      with f(3) show ?thesis by simp
    qed
    finally have "om_next_send m \<le> im_received_bytes im" using im(2) by (simp add: holds_def)
    with g [OF ne] f(2) im(5) have "G \<le> im_received_bytes im" by linarith
    moreover have "G \<noteq> ?len" using g [OF ne] f(2,3) ne by linarith
    ultimately show False using im(2,5,6) cfg(2) by (auto simp: window_open_def holds_def)
  qed
qed

section \<open>An arrival\<close>

lemma decode_grant: "pkt_typ p = Grant \<Longrightarrow> decode (encode p []) = Inr (p, [])"
  by (simp add: decode_encode_id wire_ok_def)

lemma grams_without:
  assumes "list_all2 P xs ys" "i < length xs"
  shows "list_all2 P (take i xs @ drop (Suc i) xs) (take i ys @ drop (Suc i) ys)" "P (xs ! i) (ys ! i)" "i < length ys"
    "ys = take i ys @ ys ! i # drop (Suc i) ys"
  using assms list_all2_lengthD [OF assms(1)]
  by (simp_all add: list_all2_appendI list_all2_takeI list_all2_dropI list_all2_nthD id_take_nth_drop)

lemma grant_gram:
  assumes "sends as = sends [grant_packet (a, mid) m G]" "G \<le> length D" "length D < 2 ^ 32"
  shows "list_all2 (gram ps a b mid D) (sends as) [Limit G]"
  using assms by (auto simp: grant_packet_def)

text \<open>What is in flight when the chunk \<open>j\<close> has been taken out of it.\<close>

lemma chunk_taken:
  assumes n: "sending cfg a b mid D n m items R G" and i: "i < length (ss_flight n)" "items ! i = Chunk j"
  defines "items' \<equiv> take i items @ drop (Suc i) items" and "rest \<equiv> take i (ss_flight n) @ drop (Suc i) (ss_flight n)"
  shows "finite (insert j R)" "mset (chunks_of items') + mset_set (insert j R) = mset_set {..<chunks_sent (packet_size cfg) m}"
    "length items' < length items" "length rest = length items'" "Limit g \<in> set items \<Longrightarrow> Limit g \<in> set items'"
proof -
  have fl: "list_all2 (gram (packet_size cfg) a b mid D) (ss_flight n) items" using n by (simp add: sending_def)
  note w = grams_without [OF fl i(1)]
  have fin: "finite R" and ms: "mset (chunks_of items) + mset_set R = mset_set {..<chunks_sent (packet_size cfg) m}"
    using n by (simp_all add: sending_def)
  have "chunks_of items = chunks_of (take i items) @ j # chunks_of (drop (Suc i) items)"
    by (subst w(4)) (simp add: i(2))
  then have split: "mset (chunks_of items) = add_mset j (mset (chunks_of items'))" by (simp add: items'_def)
  have "j \<notin> R"
  proof
    assume "j \<in> R"
    then have "2 \<le> count (mset (chunks_of items) + mset_set R) j" using split fin by simp
    then show False unfolding ms by (simp add: count_mset_set' split: if_splits)
  qed
  then show "mset (chunks_of items') + mset_set (insert j R) = mset_set {..<chunks_sent (packet_size cfg) m}"
    using ms split fin by simp
  show "length items' < length items" "length rest = length items'"
    using w(3) list_all2_lengthD [OF w(1)] by (simp_all add: items'_def rest_def)
  show "Limit g \<in> set items \<Longrightarrow> Limit g \<in> set items'"
    unfolding items'_def using i(2) by (subst (asm) w(4)) auto
qed (use n in \<open>simp add: sending_def\<close>)

lemma only_limits:
  assumes "list_all2 (gram ps a b mid D) xs items" "chunks_of items = []" "x \<in> set xs"
  shows "\<exists>g. gram ps a b mid D x (Limit g)"
proof -
  obtain k where k: "k < length xs" "xs ! k = x" using assms(3) unfolding in_set_conv_nth by blast
  then have "gram ps a b mid D x (items ! k)" using list_all2_nthD [OF assms(1) k(1)] by simp
  moreover have "items ! k \<in> set items" using k(1) list_all2_lengthD [OF assms(1)] by simp
  moreover have "Chunk j \<notin> set items" for j using assms(2) chunks_of_mem [of j items] by auto
  ultimately show ?thesis by (metis item.exhaust)
qed

text \<open>The chunk \<open>j\<close> arrives: if it is not the last, the receiver records it and may give a grant; if it is, the message is delivered.\<close>

lemma arrive_chunk_more:
  assumes n: "sending cfg a b mid D n m items R G" and i: "i < length (ss_flight n)" "items ! i = Chunk j"
    and len: "length D < 2 ^ 32" and r: "receiving cfg (a, mid) D r' (insert j R) G'"
    and g: "G < G' \<and> (\<exists>m. sends as = sends [grant_packet (a, mid) m G']) \<or> G' = G \<and> sends as = []"
  shows "\<exists>items'. sending cfg a b mid D (n\<lparr>ss_receiver := r',
      ss_flight := (take i (ss_flight n) @ drop (Suc i) (ss_flight n)) @ sends as\<rparr>) m items' (insert j R) G'
    \<and> rank cfg D m items' G' < rank cfg D m items G"
proof -
  let ?items = "take i items @ drop (Suc i) items"
  have s: "sender_at cfg (b, mid) D (ss_sender n) m" and fl: "list_all2 (gram (packet_size cfg) a b mid D) (ss_flight n) items"
    using n by (simp_all add: sending_def)
  note w = grams_without [OF fl i(1)] and t = chunk_taken [OF n i]
  have le: "G' \<le> length D" by (rule receiving_le [OF r])
  show ?thesis
  proof (cases "G < G'")
    case True
    then obtain im where "sends as = sends [grant_packet (a, mid) im G']" using g by auto
    from list_all2_appendI [OF w(1) grant_gram [OF this le len]]
    show ?thesis using s r t(1,2) True le t(3,4)
      by (intro exI [of _ "?items @ [Limit G']"]) (simp add: sending_def rank_def)
  next
    case False
    then have same: "G' = G" "sends as = []" using g by auto
    have "rank cfg D m ?items G < rank cfg D m items G" using t(3) unfolding rank_def by linarith
    then show ?thesis using s r t(1,2) w(1) n t(5) same
      by (intro exI [of _ ?items]) (auto simp: sending_def)
  qed
qed

lemma arrive_chunk_last:
  fixes r' :: receiver_core
  assumes n: "sending cfg a b mid D n m items R G" and i: "i < length (ss_flight n)" "items ! i = Chunk j"
    and all: "insert j R = {..<chunk_count (packet_size cfg) (length D) 0}"
  defines "n' \<equiv> n\<lparr>ss_receiver := r', ss_flight := take i (ss_flight n) @ drop (Suc i) (ss_flight n)\<rparr>"
  shows "arrived cfg a b mid D n'" "length (ss_flight n') < rank cfg D m items G"
proof -
  let ?ps = "packet_size cfg" and ?items = "take i items @ drop (Suc i) items"
  have s: "sender_at cfg (b, mid) D (ss_sender n) m" and fl: "list_all2 (gram ?ps a b mid D) (ss_flight n) items"
    using n by (simp_all add: sending_def)
  note f = sender_at_facts [OF s] and w = grams_without [OF fl i(1)] and t = chunk_taken [OF n i]
  have N: "chunks_sent ?ps m \<le> chunk_count ?ps (length D) 0" by (rule chunks_sent_le [OF f(1,3)])
  have "length (chunks_of ?items) + chunk_count ?ps (length D) 0 = chunks_sent ?ps m"
    using arg_cong [OF t(2) [unfolded all], of size] by simp
  with N have "length (chunks_of ?items) = 0" "chunk_count ?ps (length D) 0 \<le> chunks_sent ?ps m" by linarith+
  then have none: "chunks_of ?items = []" "chunk_count ?ps (length D) 0 \<le> chunks_sent ?ps m" by (simp_all only: length_0_conv)
  have "om_next_send m = length D" by (rule chunks_sent_all [OF f(1,4,3) none(2)])
  then show "arrived cfg a b mid D n'" using s only_limits [OF w(1) none(1)] by (auto simp: arrived_def n'_def)
  show "length (ss_flight n') < rank cfg D m items G" using t(3,4) by (simp add: rank_def n'_def)
qed

lemma arrive_chunk:
  assumes n: "sending cfg a b mid D n m items R G" and ab: "a \<noteq> b" and len: "length D < 2 ^ 32" "D \<noteq> []"
    and room: "0 < max_incoming cfg" and ord: "iter_order ord"
    and i: "i < length (ss_flight n)" "items ! i = Chunk j"
  shows "\<exists>n' items' R' G'. arrive a b n i ord now = Inr (n', []) \<and> sending cfg a b mid D n' m items' R' G'
      \<and> rank cfg D m items' G' < rank cfg D m items G
    \<or> arrive a b n i ord now = Inr (n', [((a, mid), D)]) \<and> arrived cfg a b mid D n'
      \<and> length (ss_flight n') < rank cfg D m items G"
proof -
  let ?ps = "packet_size cfg"
  let ?rest = "take i (ss_flight n) @ drop (Suc i) (ss_flight n)"
  have s: "sender_at cfg (b, mid) D (ss_sender n) m" and rc: "receiving cfg (a, mid) D (ss_receiver n) R G"
    and fl: "list_all2 (gram ?ps a b mid D) (ss_flight n) items" using n by (simp_all add: sending_def)
  note f = sender_at_facts [OF s] and w = grams_without [OF fl i(1)]
  have x: "ss_flight n ! i = (b, chunk_frag ?ps D mid j)" "j * ?ps < length D" using w(2) i(2) by simp_all
  obtain pkt payload where d: "decode (chunk_frag ?ps D mid j) = Inr (pkt, payload)" "pkt_typ pkt = Data" "pkt_msg_id pkt = mid"
    "unat (pkt_offset pkt) div ?ps = j" "carries ?ps D pkt payload"
    by (rule decode_chunk [OF f(1) x(2) len(1)])
  have e: "arrive a b n i ord now = bind_res (handle_data ord (ss_receiver n) a pkt payload now) (\<lambda>(r, as).
      Inr (n\<lparr>ss_receiver := r, ss_flight := ?rest @ sends as\<rparr>, delivers as))"
    by (simp add: arrive_def x(1) d(1,2) at_receiver_def)
  show ?thesis
  proof (rule receive_chunk [OF rc ord len room d(3,4,5), of now])
    fix r' G' as
    assume h: "handle_data ord (ss_receiver n) a pkt payload now = Inr (r', as)" "delivers as = []"
      and more: "receiving cfg (a, mid) D r' (insert j R) G'"
        "G < G' \<and> (\<exists>m. sends as = sends [grant_packet (a, mid) m G']) \<or> G' = G \<and> sends as = []"
    from arrive_chunk_more [OF n i len(1) more] h show ?thesis by (simp add: e) blast
  next
    fix r'
    assume h: "handle_data ord (ss_receiver n) a pkt payload now = Inr (r', [Deliver a mid D])"
      and all: "insert j R = {..<chunk_count ?ps (length D) 0}"
    from arrive_chunk_last [OF n i all, of r'] h show ?thesis by (simp add: e)
  qed
qed

text \<open>The chunks that a grant makes the sender send join those in flight.\<close>

lemma sent_chunks:
  assumes s: "sender_at cfg (b, mid) D s' m'"
    and out: "sends as = map (\<lambda>i. (b, chunk_frag (packet_size cfg) D mid i)) [N..<chunks_sent (packet_size cfg) m']"
  shows "list_all2 (gram (packet_size cfg) a b mid D) (sends as) (map Chunk [N..<chunks_sent (packet_size cfg) m'])"
proof -
  let ?ps = "packet_size cfg"
  note f = sender_at_facts [OF s]
  have start: "j * ?ps < length D" if "j \<in> set [N..<chunks_sent ?ps m']" for j
  proof -
    have "j < chunk_count ?ps (om_next_send m') 0" using that by (simp add: chunks_sent_def)
    then have "j * ?ps < om_next_send m'" by (simp add: chunk_count_le_iff [OF f(1)])
    with f(3) show ?thesis by simp
  qed
  show ?thesis unfolding out list.rel_map by (rule list.rel_refl_strong) (use start in simp)
qed

lemma mset_sent_chunks:
  assumes "mset xs + mset_set R = mset_set {..<N}" "N \<le> N'"
  shows "mset (xs @ [N..<N']) + mset_set R = mset_set {..<N'}"
proof -
  have "mset (xs @ [N..<N']) + mset_set R = mset_set {..<N} + mset_set {N..<N'}"
    unfolding assms(1) [symmetric] by simp
  also have "\<dots> = mset_set {..<N'}" using assms(2) by (subst mset_set_Union [symmetric]) (auto simp: ivl_disj_un)
  finally show ?thesis .
qed

text \<open>A grant arrives.\<close>

lemma arrive_grant:
  assumes n: "sending cfg a b mid D n m items R G" and ab: "a \<noteq> b"
    and i: "i < length (ss_flight n)" "items ! i = Limit g"
  shows "\<exists>n' m' items'. arrive a b n i ord now = Inr (n', []) \<and> sending cfg a b mid D n' m' items' R G
      \<and> rank cfg D m' items' G < rank cfg D m items G"
proof -
  let ?ps = "packet_size cfg"
  let ?rest = "take i (ss_flight n) @ drop (Suc i) (ss_flight n)" and ?items = "take i items @ drop (Suc i) items"
  have s: "sender_at cfg (b, mid) D (ss_sender n) m" and rc: "receiving cfg (a, mid) D (ss_receiver n) R G"
    and fl: "list_all2 (gram ?ps a b mid D) (ss_flight n) items" using n by (simp_all add: sending_def)
  note f = sender_at_facts [OF s] and w = grams_without [OF fl i(1)]
  obtain p where x: "ss_flight n ! i = (a, encode p [])" "pkt_typ p = Grant" "pkt_msg_id p = mid"
    "unat (pkt_offset p) = g" "g \<le> length D" using w(2) i(2) by auto
  have lim: "min (unat (pkt_offset p)) (length D) = g" using x(4,5) by simp
  obtain s' m' as where h: "handle_grant (ss_sender n) b p now = Inr (s', as)" "sender_at cfg (b, mid) D s' m'" "delivers as = []"
    "sends as = map (\<lambda>i. (b, chunk_frag ?ps D mid i)) [chunks_sent ?ps m..<chunks_sent ?ps m']"
    "chunks_sent ?ps m \<le> chunks_sent ?ps m'"
    "om_granted_to m' = max (om_granted_to m) g \<or> om_next_send m = length D \<and> m' = m"
    by (rule sender_grant [OF s x(3) lim, of now])
  note f' = sender_at_facts [OF h(2)]
  let ?new = "[chunks_sent ?ps m..<chunks_sent ?ps m']"
  let ?n = "n\<lparr>ss_sender := s', ss_flight := ?rest @ sends as\<rparr>"
  have a: "arrive a b n i ord now = Inr (?n, [])"
    using ab by (simp add: arrive_def x decode_grant at_sender_def h(1,3))
  have fl': "list_all2 (gram ?ps a b mid D) (?rest @ sends as) (?items @ map Chunk ?new)"
    by (rule list_all2_appendI [OF w(1) sent_chunks [OF h(2,4)]])
  have "chunks_of items = chunks_of ?items"
    by (subst w(4)) (simp add: i(2))
  then have "mset (chunks_of ?items) + mset_set R = mset_set {..<chunks_sent ?ps m}" using n unfolding sending_def by metis
  from mset_sent_chunks [OF this h(5)]
  have ms: "mset (chunks_of (?items @ map Chunk ?new)) + mset_set R = mset_set {..<chunks_sent ?ps m'}"
    by (simp add: ac_simps)
  have "G \<le> om_granted_to m' \<or> Limit G \<in> set ?items" if ne: "om_next_send m' \<noteq> length D"
  proof -
    have "om_next_send m \<noteq> length D"
      using chunks_sent_all [OF f'(1,4,3)] h(5) ne by (auto simp: chunks_sent_def)
    moreover from this have gr: "om_granted_to m' = max (om_granted_to m) g" using h(6) by simp
    ultimately have "G \<le> om_granted_to m \<or> Limit G \<in> set items" using n by (simp add: sending_def)
    with gr show ?thesis using i(2) by (subst (asm) w(4)) (auto simp: max_def)
  qed
  then have "sending cfg a b mid D ?n m' (?items @ map Chunk ?new) R G"
    using h(2) rc fl' ms n by (auto simp: sending_def)
  moreover have "chunks_sent ?ps m' \<le> chunk_count ?ps (length D) 0" by (rule chunks_sent_le [OF f'(1,3)])
  then have "rank cfg D m' (?items @ map Chunk ?new) G < rank cfg D m items G"
    using h(5) w(3) by (simp add: rank_def)
  ultimately show ?thesis using a by blast
qed

text \<open>After the delivery a grant changes nothing.\<close>

lemma arrive_late:
  assumes n: "arrived cfg a b mid D n" and ab: "a \<noteq> b" and i: "i < length (ss_flight n)"
  shows "\<exists>n'. arrive a b n i ord now = Inr (n', []) \<and> arrived cfg a b mid D n' \<and> length (ss_flight n') < length (ss_flight n)"
proof -
  obtain m where s: "sender_at cfg (b, mid) D (ss_sender n) m" "om_next_send m = length D" using n by (auto simp: arrived_def)
  have "\<exists>g. gram (packet_size cfg) a b mid D (ss_flight n ! i) (Limit g)" using n i by (simp add: arrived_def)
  then obtain p where x: "ss_flight n ! i = (a, encode p [])" "pkt_typ p = Grant" "pkt_msg_id p = mid"
    "unat (pkt_offset p) \<le> length D" by auto
  obtain s' m' as where h: "handle_grant (ss_sender n) b p now = Inr (s', as)" "sender_at cfg (b, mid) D s' m'" "delivers as = []"
    "sends as = map (\<lambda>i. (b, chunk_frag (packet_size cfg) D mid i)) [chunks_sent (packet_size cfg) m..<chunks_sent (packet_size cfg) m']"
    "chunks_sent (packet_size cfg) m \<le> chunks_sent (packet_size cfg) m'"
    by (rule sender_grant [OF s(1) x(3) refl, of now])
  note f = sender_at_facts [OF s(1)] and f' = sender_at_facts [OF h(2)]
  have "chunks_sent (packet_size cfg) m' \<le> chunks_sent (packet_size cfg) m"
    using chunks_sent_le [OF f'(1,3)] s(2) by (simp add: chunks_sent_def)
  with h(5) have eq: "chunks_sent (packet_size cfg) m' = chunks_sent (packet_size cfg) m" by simp
  then have "om_next_send m' = length D"
    using chunks_sent_all [OF f'(1,4,3)] s(2) by (simp add: chunks_sent_def)
  moreover have "sends as = []" using h(4) eq by simp
  ultimately show ?thesis using ab n h i
    by (auto simp: arrive_def x decode_grant at_sender_def arrived_def dest: in_set_takeD in_set_dropD)
qed

section \<open>Every session ends\<close>

text \<open>The valid choices of the network.\<close>

abbreviation orders :: "(nat \<times> (msg_key list \<Rightarrow> msg_key list) \<times> instant) list \<Rightarrow> bool" where
  "orders cs \<equiv> list_all (\<lambda>(k, ord, now). iter_order ord) cs"

lemma run_arrived:
  "arrived cfg a b mid D n \<Longrightarrow> a \<noteq> b \<Longrightarrow> length (ss_flight n) \<le> length cs \<Longrightarrow>
     \<exists>n'. run_steps (session_step a b) n cs = Inr (n', []) \<and> arrived cfg a b mid D n' \<and> ss_flight n' = []"
proof (induction cs arbitrary: n)
  case (Cons c cs)
  obtain k ord now where c: "c = (k, ord, now)" by (cases c)
  show ?case
  proof (cases "ss_flight n = []")
    case True
    with Cons.IH [OF Cons.prems(1,2)] show ?thesis by (auto simp: c)
  next
    case False
    then obtain n1 where n1: "arrive a b n (k mod length (ss_flight n)) ord now = Inr (n1, [])"
      "arrived cfg a b mid D n1" "length (ss_flight n1) < length (ss_flight n)"
      using arrive_late [OF Cons.prems(1,2)] by (metis length_greater_0_conv mod_less_divisor)
    with Cons.IH [OF n1(2) Cons.prems(2)] Cons.prems(3) False show ?thesis by (auto simp: c)
  qed
qed simp

lemma run_sending:
  assumes D: "length D < 2 ^ 32" "D \<noteq> []" and ab: "a \<noteq> b"
    and cfg: "0 < unscheduled_bytes cfg" "2 \<le> grant_increment cfg" "0 < max_incoming cfg"
  shows "sending cfg a b mid D n m items R G \<Longrightarrow> orders cs \<Longrightarrow> rank cfg D m items G \<le> length cs \<Longrightarrow>
     \<exists>n'. run_steps (session_step a b) n cs = Inr (n', [((a, mid), D)]) \<and> arrived cfg a b mid D n' \<and> ss_flight n' = []"
proof (induction cs arbitrary: n m items R G)
  case Nil
  have "items = []" using Nil.prems(3) by (simp add: rank_def)
  moreover have "list_all2 (gram (packet_size cfg) a b mid D) (ss_flight n) items" using Nil.prems(1) by (simp add: sending_def)
  ultimately have "ss_flight n = []" by simp
  with sending_flight [OF Nil.prems(1) D(2) cfg(1,2)] show ?case by simp
next
  case (Cons c cs)
  obtain k ord now where c: "c = (k, ord, now)" by (cases c)
  have ord: "iter_order ord" "orders cs" using Cons.prems(2) by (simp_all add: c)
  let ?i = "k mod length (ss_flight n)"
  have ne: "ss_flight n \<noteq> []" by (rule sending_flight [OF Cons.prems(1) D(2) cfg(1,2)])
  then have i: "?i < length (ss_flight n)" by simp
  have st: "session_step a b n c = arrive a b n ?i ord now" using ne by (simp add: c)
  have next_step: "\<exists>n'. run_steps (session_step a b) n (c # cs) = Inr (n', [((a, mid), D)]) \<and> arrived cfg a b mid D n' \<and> ss_flight n' = []"
    if a: "arrive a b n ?i ord now = Inr (n1, [])" and n1: "sending cfg a b mid D n1 m1 items1 R1 G1"
      and rk: "rank cfg D m1 items1 G1 < rank cfg D m items G" for n1 m1 items1 R1 G1
  proof -
    have "rank cfg D m1 items1 G1 \<le> length cs" using rk Cons.prems(3) by simp
    from Cons.IH [OF n1 ord(2) this] show ?thesis using a by (auto simp: st)
  qed
  show ?case
  proof (cases "items ! ?i")
    case (Limit g)
    from arrive_grant [OF Cons.prems(1) ab i this] show ?thesis by (blast intro: next_step)
  next
    case (Chunk j)
    from arrive_chunk [OF Cons.prems(1) ab D cfg(3) ord(1) i Chunk, of now]
    consider n1 items1 R1 G1 where "arrive a b n ?i ord now = Inr (n1, [])" "sending cfg a b mid D n1 m items1 R1 G1"
        "rank cfg D m items1 G1 < rank cfg D m items G"
      | n1 where "arrive a b n ?i ord now = Inr (n1, [((a, mid), D)])" "arrived cfg a b mid D n1"
        "length (ss_flight n1) < rank cfg D m items G" by blast
    then show ?thesis
    proof cases
      case 2
      then have "length (ss_flight n1) \<le> length cs" using Cons.prems(3) by simp
      from run_arrived [OF 2(2) ab this] 2(1) show ?thesis by (auto simp: st)
    qed (rule next_step)
  qed
qed

text \<open>The session that \<open>start\<close> begins.\<close>

lemma start_sending:
  assumes s: "sender_inv s" "s_cfg s = cfg" and r: "recv_inv r" "r_cfg r = cfg" "r_incoming r = []" "(a, mid) \<notin> set (r_completed r)"
    and st: "start s b mid D now = Inr (s1, as)"
  obtains m where "sending cfg a b mid D \<lparr>ss_sender = s1, ss_receiver = r, ss_flight = sends as\<rparr> m
      (map Chunk [0..<chunks_sent (packet_size cfg) m]) {} (min (unscheduled_bytes cfg) (length D))"
proof -
  let ?ps = "packet_size cfg" and ?u = "min (unscheduled_bytes cfg) (length D)"
  let ?m = "om_started cfg D now"
  have ps: "0 < ?ps" using sender_inv_ps [OF s(1)] s(2) by simp
  have e: "s1 = s\<lparr>s_out := AList.update (b, mid) ?m (s_out s)\<rparr>" "as = pump_frags ?ps b mid D ?u 0"
    using start_eq [of s b mid D now] ps s(2) st by simp_all
  have at: "at_chunk ?ps (length D) 0" by (simp add: at_chunk_def)
  have u: "?u \<le> length D" by simp
  have ns: "om_next_send ?m = pump_end ?ps (length D) ?u 0" "om_granted_to ?m = ?u"
    by (simp_all add: om_started_def Let_def)
  note c = pump_chunks(1) [OF ps u _ at, where dest = b and mid = mid] pump_chunks(2) [OF ps u _ at]
  have "sender_at cfg (b, mid) D s1 ?m"
    using sender_inv_update [OF s(1), of ?m "(b, mid)"] om_started_ok [OF ps] s(2) c(2) ns(1)
    by (simp add: sender_at_def e(1) update_conv')
  moreover have "receiving cfg (a, mid) D r {} ?u" using r by (simp add: receiving_def)
  moreover have "as = map (\<lambda>i. Send b (chunk_frag ?ps D mid i)) [0..<chunks_sent ?ps ?m]"
    using c(1) pump_indices [OF ps u _ at] e(2) ps by (simp add: sends_chunks_def chunks_sent_def ns(1))
  then have "sends as = map (\<lambda>i. (b, chunk_frag ?ps D mid i)) [0..<chunks_sent ?ps ?m]" by (simp add: chunk_sends)
  moreover have "i * ?ps < length D" if "i \<in> set [0..<chunks_sent ?ps ?m]" for i
  proof -
    have "i * ?ps < om_next_send ?m" using that by (simp add: chunks_sent_def chunk_count_le_iff [OF ps])
    moreover have "om_next_send ?m \<le> length D" using om_started_ok [OF ps, of D now] by (simp add: om_ok_def)
    ultimately show ?thesis by simp
  qed
  then have "list_all2 (gram ?ps a b mid D) (map (\<lambda>i. (b, chunk_frag ?ps D mid i)) [0..<chunks_sent ?ps ?m])
      (map Chunk [0..<chunks_sent ?ps ?m])"
    unfolding list.rel_map by (intro list.rel_refl_strong) simp
  ultimately show thesis
    by (intro that [of ?m]) (simp add: sending_def ns(2) lessThan_atLeast0)
qed

section \<open>Properties\<close>

text \<open>
  C4: Without loss every message arrives: let sender and receiver have the same configuration, aligned windows or
  not, with a positive packet size (which \<open>sender_inv\<close> implies) and unscheduled window, an increment of at least 2
  and room for at least one message, and let the receiver be idle and not have completed this key lately. From the
  start of a nonempty message of less than 4 GiB, if the network loses nothing but delivers the datagrams of sender
  and receiver in any order it likes, then no step fails, and after at most twice as many arrivals
  as the message has bytes nothing is in flight, the message has been delivered exactly once, byte
  for byte, and the sender is done. No timer is needed. (The window sizes are natural numbers here: in the
  code their sums with offsets must stay below \<open>2 ^ 64\<close>.)
\<close>

theorem session_completes:
  assumes "sender_inv s" "s_cfg s = cfg" "recv_inv r" "r_cfg r = cfg" "r_incoming r = []" "(a, mid) \<notin> set (r_completed r)"
    "D \<noteq> []" "length D < 2 ^ 32" "a \<noteq> b"
    "0 < unscheduled_bytes cfg" "2 \<le> grant_increment cfg" "0 < max_incoming cfg"
    "start s b mid D now = Inr (s1, as)"
    "list_all (\<lambda>(k, ord, t). iter_order ord) cs" "2 * length D \<le> length cs"
  shows "\<exists>n. run_steps (session_step a b) \<lparr>ss_sender = s1, ss_receiver = r, ss_flight = sends as\<rparr> cs = Inr (n, [((a, mid), D)])
    \<and> ss_flight n = [] \<and> is_done (ss_sender n) b mid"
proof -
  let ?ps = "packet_size cfg" and ?u = "min (unscheduled_bytes cfg) (length D)"
  obtain m where n: "sending cfg a b mid D \<lparr>ss_sender = s1, ss_receiver = r, ss_flight = sends as\<rparr> m
      (map Chunk [0..<chunks_sent ?ps m]) {} ?u"
    by (rule start_sending [OF assms(1-6,13)])
  have sa: "sender_at cfg (b, mid) D s1 m" using n by (simp add: sending_def)
  note f = sender_at_facts [OF sa]
  have "chunk_count ?ps (length D) 0 \<le> length D"
    using f(1) by (metis chunk_count_le_iff add_0 le_less_linear less_irrefl less_le_trans mult.right_neutral mult_le_mono2 Suc_leI One_nat_def)
  then have "rank cfg D m (map Chunk [0..<chunks_sent ?ps m]) ?u \<le> length cs"
    using chunks_sent_le [OF f(1,3)] assms(15) by (simp add: rank_def)
  from run_sending [OF assms(8,7,9-12) n assms(14) this] obtain n' where
    "run_steps (session_step a b) \<lparr>ss_sender = s1, ss_receiver = r, ss_flight = sends as\<rparr> cs = Inr (n', [((a, mid), D)])"
    "arrived cfg a b mid D n'" "ss_flight n' = []" by blast
  moreover from this(2) obtain m' where s': "sender_at cfg (b, mid) D (ss_sender n') m'" "om_next_send m' = length D"
    by (auto simp: arrived_def)
  have "is_done (ss_sender n') b mid"
    using sender_at_facts(5) [OF s'(1)] s' by (auto simp: sender_at_def is_done_def)
  ultimately show ?thesis by blast
qed

text \<open>A message of 100,000 bytes with the default configuration; the network always swaps two datagrams.\<close>

theorem session_completes_witness:
  "let a = localhost 1; b = localhost 2; D = replicate 100000 7
   in \<exists>s1 as n. start (sender_new default_config) b 1 D 0 = Inr (s1, as)
     \<and> run_steps (session_step a b) \<lparr>ss_sender = s1, ss_receiver = receiver_new default_config, ss_flight = sends as\<rparr>
         (replicate 200000 (1, rev, 0)) = Inr (n, [((a, 1), D)])
     \<and> ss_flight n = [] \<and> is_done (ss_sender n) b 1"
proof -
  let ?D = "replicate 100000 7 :: bytes" and ?cfg = default_config
  have c: "0 < packet_size ?cfg" "0 < unscheduled_bytes ?cfg" "2 \<le> grant_increment ?cfg" "0 < max_incoming ?cfg"
    by (simp_all add: default_config_def)
  have s: "sender_inv (sender_new ?cfg)" "s_cfg (sender_new ?cfg) = ?cfg"
    using sender_inv_new [OF c(1)] by (simp_all add: sender_new_def)
  have r: "recv_inv (receiver_new ?cfg)" "r_cfg (receiver_new ?cfg) = ?cfg" "r_incoming (receiver_new ?cfg) = []"
    "(localhost 1, 1) \<notin> set (r_completed (receiver_new ?cfg))"
    using recv_inv_new [OF c(1)] by (simp_all add: receiver_new_def)
  obtain s1 as where st: "start (sender_new ?cfg) (localhost 2) 1 ?D 0 = Inr (s1, as)"
    using start_eq [of "sender_new ?cfg"] c(1) s(2) by simp
  have D: "?D \<noteq> []" "length ?D < 2 ^ 32" by simp_all
  have ab: "localhost 1 \<noteq> localhost 2" by simp
  have cs: "list_all (\<lambda>(k, ord, t). iter_order ord) (replicate 200000 (1, rev, 0))" by (simp add: list_all_iff)
  have l: "2 * length ?D \<le> length (replicate 200000 (1 :: nat, rev :: msg_key list \<Rightarrow> msg_key list, 0 :: instant))" by simp
  from session_completes [OF s r D ab c(2-4) st cs l] st show ?thesis unfolding Let_def by blast
qed

end
