(* ===== verification/Loss.thy ===== *)
theory Loss
  imports Session
begin

text \<open>
  The session of \<open>Session\<close> over a network that also loses and repeats datagrams, with the timers
  of both sides and with a sender that may give up at any time. Whatever happens, no step fails
  and the message is delivered at most once, and as it was sent.
\<close>

section \<open>The lossy session\<close>

text \<open>The timers: \<open>tick\<close> of the receiver and \<open>tick\<close> of the sender.\<close>

definition timer :: "session \<Rightarrow> (msg_key list \<Rightarrow> msg_key list) \<Rightarrow> (msg_key list \<Rightarrow> msg_key list) \<Rightarrow> instant \<Rightarrow> fault + (session \<times> (msg_key \<times> bytes) list)" where
  "timer n ord ord' now =
     bind_res (receiver_tick ord ord' (ss_receiver n) now) (\<lambda>(r, as).
       Inr (n\<lparr>ss_receiver := r, ss_flight := ss_flight n @ sends as\<rparr>, delivers as))"

definition sender_timer :: "session \<Rightarrow> (msg_key list \<Rightarrow> msg_key list) \<Rightarrow> instant \<Rightarrow> fault + (session \<times> (msg_key \<times> bytes) list)" where
  "sender_timer n ord now =
     bind_res (sender_tick ord (ss_sender n) now) (\<lambda>(s, as).
       Inr (n\<lparr>ss_sender := s, ss_flight := ss_flight n @ sends as\<rparr>, delivers as))"

text \<open>
  A datagram arrives, is lost or repeated; a timer fires; \<open>send_to\<close> runs into its time-out and
  drops the message.
\<close>

datatype lossy_event =
    Arrives nat "msg_key list \<Rightarrow> msg_key list" instant
  | Lost nat
  | Repeated nat
  | Ticks "msg_key list \<Rightarrow> msg_key list" "msg_key list \<Rightarrow> msg_key list" instant
  | Probes "msg_key list \<Rightarrow> msg_key list" instant
  | GivesUp u64

fun lossy_step :: "sockaddr \<Rightarrow> sockaddr \<Rightarrow> session \<Rightarrow> lossy_event \<Rightarrow> fault + (session \<times> (msg_key \<times> bytes) list)" where
  "lossy_step a b n (Arrives k ord now) = session_step a b n (k, ord, now)"
| "lossy_step a b n (Lost k) =
     (let i = k mod length (ss_flight n)
      in Inr (n\<lparr>ss_flight := take i (ss_flight n) @ drop (Suc i) (ss_flight n)\<rparr>, []))"
| "lossy_step a b n (Repeated k) =
     Inr (if ss_flight n = [] then n
          else n\<lparr>ss_flight := ss_flight n @ [ss_flight n ! (k mod length (ss_flight n))]\<rparr>, [])"
| "lossy_step a b n (Ticks ord ord' now) = timer n ord ord' now"
| "lossy_step a b n (Probes ord now) = sender_timer n ord now"
| "lossy_step a b n (GivesUp mid) = Inr (n\<lparr>ss_sender := finish (ss_sender n) b mid\<rparr>, [])"

fun lossy_ok :: "lossy_event \<Rightarrow> bool" where
  "lossy_ok (Arrives k ord now) = iter_order ord"
| "lossy_ok (Lost k) = True"
| "lossy_ok (Repeated k) = True"
| "lossy_ok (Ticks ord ord' now) = (iter_order ord \<and> iter_order ord')"
| "lossy_ok (Probes ord now) = iter_order ord"
| "lossy_ok (GivesUp mid) = True"

section \<open>A request arrives at the sender\<close>

lemma resend_indices:
  "resend_frags ps b mid D st en =
     map (\<lambda>i. Send b (chunk_frag ps D mid i)) [st div ps..<if st < en then Suc ((en - 1) div ps) else st div ps]"
  by (simp add: resend_frags_def chunk_frag_def del: upt_Suc)

lemma request_covers:
  assumes "0 < ps" "st \<le> j * ps" "j * ps < en"
  shows "j \<in> set [st div ps..<if st < en then Suc ((en - 1) div ps) else st div ps]"
proof -
  have "st div ps \<le> j" using assms(1,2) by (metis div_le_mono nonzero_mult_div_cancel_right less_not_refl3)
  moreover have "j \<le> (en - 1) div ps" using assms(1,3) by (subst less_eq_div_iff_mult_less_eq) auto
  moreover have "st < en" using assms(2,3) by linarith
  ultimately show ?thesis by (simp add: less_Suc_eq_le del: upt_Suc)
qed

lemma sender_request:
  assumes s: "sender_at cfg (b, mid) D s m" and pkt: "pkt_msg_id pkt = mid"
    and st: "st = min (unat (pkt_offset pkt)) (length D)" and en: "en = min (st + unat (pkt_length pkt)) (length D)"
    and at: "at_chunk (packet_size cfg) (length D) en \<or> om_next_send m = length D"
  obtains s' m' "is" where
    "handle_resend s b pkt now = Inr (s', map (\<lambda>i. Send b (chunk_frag (packet_size cfg) D mid i)) is)"
    "sender_at cfg (b, mid) D s' m'" "chunks_sent (packet_size cfg) m \<le> chunks_sent (packet_size cfg) m'"
    "\<And>i. i \<in> set is \<Longrightarrow> i < chunks_sent (packet_size cfg) m'" "length is \<le> chunk_count (packet_size cfg) (length D) 0"
    "\<And>j. st \<le> j * packet_size cfg \<Longrightarrow> j * packet_size cfg < en \<Longrightarrow> j \<in> set is"
proof -
  let ?ps = "packet_size cfg"
  have m: "map_of (s_out s) (b, mid) = Some m" "om_data m = D" "sender_inv s" "s_cfg s = cfg"
    using s by (simp_all add: sender_at_def)
  note f = sender_at_facts [OF s]
  let ?m = "om_resent en now m" and ?is = "[st div ?ps..<if st < en then Suc ((en - 1) div ?ps) else st div ?ps]"
  have len: "en \<le> length D" using en by simp
  have h: "handle_resend s b pkt now = Inr (s\<lparr>s_out := AList.update (b, mid) ?m (s_out s)\<rparr>,
      map (\<lambda>i. Send b (chunk_frag ?ps D mid i)) ?is)"
    using handle_resend_eq [of s b pkt m st en now] f(1) m pkt st en by (simp add: resend_indices del: upt_Suc)
  have ns: "om_next_send ?m = max (om_next_send m) en" by (simp add: om_resent_def)
  have "om_ok ?ps m" using sender_inv_om [OF m(3,1)] m(4) by simp
  then have ok: "om_ok ?ps ?m" using om_resent_ok [of ?ps m en now] len m(2) by simp
  have "at_chunk ?ps (length D) (max (om_next_send m) en)"
    using at f(3,4) len by (auto simp: max_def at_chunk_def)
  then have s': "sender_at cfg (b, mid) D (s\<lparr>s_out := AList.update (b, mid) ?m (s_out s)\<rparr>) ?m"
    using sender_inv_update [OF m(3), of ?m "(b, mid)"] ok m by (simp add: sender_at_def ns update_conv')
  have mono: "chunk_count ?ps x 0 \<le> chunk_count ?ps y 0" if "x \<le> y" for x y
    using that by (meson chunk_count_le_iff f(1) le_less_linear less_irrefl less_le_trans)
  have idx: "i < chunks_sent ?ps ?m" if "i \<in> set ?is" for i
  proof -
    have "i \<le> (en - 1) div ?ps" "st < en" using that by (auto split: if_splits)
    then have "i * ?ps \<le> en - 1" "0 < en" using f(1) by (auto simp: less_eq_div_iff_mult_less_eq)
    then have "i * ?ps < max (om_next_send m) en" by linarith
    then show ?thesis by (simp add: chunks_sent_def ns chunk_count_le_iff [OF f(1)])
  qed
  have "length ?is \<le> chunk_count ?ps (length D) 0"
  proof -
    have "set ?is \<subseteq> {..<chunks_sent ?ps ?m}" using idx by blast
    then have "card (set ?is) \<le> chunks_sent ?ps ?m" by (metis card_lessThan card_mono finite_lessThan)
    moreover have "card (set ?is) = length ?is" by (rule distinct_card) simp
    moreover have "chunks_sent ?ps ?m \<le> chunk_count ?ps (length D) 0"
      using f(3) len unfolding chunks_sent_def ns by (intro mono) simp
    ultimately show ?thesis by linarith
  qed
  then show thesis
    using h s' idx request_covers [OF f(1)] mono [of "om_next_send m" "om_next_send ?m"]
    by (intro that [of _ ?is ?m]) (simp_all add: chunks_sent_def ns del: upt_Suc)
qed

section \<open>The invariant\<close>

definition sent_set :: "msg_key \<Rightarrow> nat \<Rightarrow> out_msg \<Rightarrow> (msg_key \<times> nat) set" where
  "sent_set k ps m = {k} \<times> {..<chunks_sent ps m}"

text \<open>What is in flight: chunks that were sent, grants, and requests that do no harm.\<close>

definition known :: "transport_config \<Rightarrow> sockaddr \<Rightarrow> sockaddr \<Rightarrow> u64 \<Rightarrow> bytes \<Rightarrow> out_msg \<Rightarrow> datagram \<Rightarrow> bool" where
  "known cfg a b mid D m x \<longleftrightarrow>
     (\<exists>j < chunks_sent (packet_size cfg) m. x = (b, chunk_frag (packet_size cfg) D mid j))
     \<or> (\<exists>p. x = (a, encode p []) \<and> pkt_msg_id p = mid \<and> (pkt_typ p = Grant \<or> pkt_typ p = Resend)
          \<and> safe_ctrl (packet_size cfg) (only (a, mid) D) (sent_set (a, mid) (packet_size cfg) m) a p)"

text \<open>
  The sender's part: it has the message, or has dropped it and \<open>m\<close> is what it was; and both parts
  before the delivery.
\<close>

definition out_safely :: "transport_config \<Rightarrow> bytes \<Rightarrow> out_msg \<Rightarrow> bool" where
  "out_safely cfg D m \<longleftrightarrow> 0 < packet_size cfg \<and> om_ok (packet_size cfg) m \<and> om_data m = D
     \<and> at_chunk (packet_size cfg) (length D) (om_next_send m) \<and> 0 < om_next_send m
     \<and> safe_msg cfg D \<and> D \<noteq> [] \<and> (fits_window cfg D \<longrightarrow> om_next_send m = length D)"

definition sends_safely :: "transport_config \<Rightarrow> msg_key \<Rightarrow> bytes \<Rightarrow> sender_core \<Rightarrow> out_msg \<Rightarrow> bool" where
  "sends_safely cfg key D s m \<longleftrightarrow> out_safely cfg D m \<and> sender_inv s \<and> s_cfg s = cfg \<and> (s_out s = [(key, m)] \<or> s_out s = [])"

definition linked :: "transport_config \<Rightarrow> sockaddr \<Rightarrow> sockaddr \<Rightarrow> u64 \<Rightarrow> bytes \<Rightarrow> session \<Rightarrow> out_msg \<Rightarrow> nat set \<Rightarrow> nat \<Rightarrow> bool" where
  "linked cfg a b mid D n m R G \<longleftrightarrow> sends_safely cfg (b, mid) D (ss_sender n) m
     \<and> receiving cfg (a, mid) D (ss_receiver n) R G
     \<and> receiver_aligned cfg (only (a, mid) D) (sent_set (a, mid) (packet_size cfg) m) (ss_receiver n)
     \<and> (\<forall>x \<in> set (ss_flight n). known cfg a b mid D m x)"

text \<open>After the delivery.\<close>

definition finished :: "transport_config \<Rightarrow> sockaddr \<Rightarrow> sockaddr \<Rightarrow> u64 \<Rightarrow> bytes \<Rightarrow> session \<Rightarrow> out_msg \<Rightarrow> bool" where
  "finished cfg a b mid D n m \<longleftrightarrow> sends_safely cfg (b, mid) D (ss_sender n) m \<and> om_next_send m = length D
     \<and> (a, mid) \<in> set (r_completed (ss_receiver n)) \<and> r_incoming (ss_receiver n) = []
     \<and> (\<forall>x \<in> set (ss_flight n). known cfg a b mid D m x)"

lemma sends_facts:
  assumes "sends_safely cfg key D s m"
  shows "0 < packet_size cfg" "om_granted_to m \<le> om_next_send m" "om_next_send m \<le> length D"
    "at_chunk (packet_size cfg) (length D) (om_next_send m)" "om_done_at m \<noteq> None \<longleftrightarrow> om_next_send m = length D"
    "length D < 2 ^ 32" "D \<noteq> []"
  using assms by (auto simp: sends_safely_def out_safely_def om_ok_def safe_msg_def)

lemma sends_at: "sends_safely cfg key D s m \<Longrightarrow> s_out s \<noteq> [] \<Longrightarrow> sender_at cfg key D s m"
  by (auto simp: sends_safely_def out_safely_def sender_at_def)

lemma sent_set_mono: "chunks_sent ps m \<le> chunks_sent ps m' \<Longrightarrow> sent_set k ps m \<subseteq> sent_set k ps m'"
  by (auto simp: sent_set_def)

lemma known_mono:
  assumes "known cfg a b mid D m x" "chunks_sent (packet_size cfg) m \<le> chunks_sent (packet_size cfg) m'"
  shows "known cfg a b mid D m' x"
proof -
  have "safe_ctrl (packet_size cfg) L (sent_set k (packet_size cfg) m) d p \<Longrightarrow>
      safe_ctrl (packet_size cfg) L (sent_set k (packet_size cfg) m') d p" for L k d p
    by (rule safe_ctrl_mono [OF _ map_le_refl sent_set_mono [OF assms(2)]])
  with assms show ?thesis unfolding known_def using less_le_trans by blast
qed

lemma last_chunk:
  assumes "0 < ps" "0 < len"
  shows "len \<le> (chunk_count ps len 0 - 1) * ps + ps" "0 < chunk_count ps len 0"
proof -
  show pos: "0 < chunk_count ps len 0" using assms by (simp add: chunk_count_le_iff)
  have "\<not> chunk_count ps len 0 * ps < len" using chunk_count_le_iff [OF assms(1), of "chunk_count ps len 0" len 0] by simp
  moreover have "chunk_count ps len 0 * ps = (chunk_count ps len 0 - 1) * ps + ps"
    using pos by (cases "chunk_count ps len 0") simp_all
  ultimately show "len \<le> (chunk_count ps len 0 - 1) * ps + ps" by simp
qed

lemma sent_log_ok:
  assumes "sends_safely cfg key D s m"
  shows "log_ok cfg (only k D) (sent_set k (packet_size cfg) m)"
proof -
  let ?ps = "packet_size cfg"
  have D: "safe_msg cfg D" "D \<noteq> []" "fits_window cfg D \<longrightarrow> om_next_send m = length D"
    using assms by (simp_all add: sends_safely_def out_safely_def)
  note f = sends_facts [OF assms]
  have "i * ?ps < length D" if "i < chunks_sent ?ps m" for i
    using that f(3) chunk_count_le_iff [OF f(1), of i "om_next_send m" 0] by (simp add: chunks_sent_def)
  moreover have "last_sent ?ps (sent_set k ?ps m) k D" if "fits_window cfg D"
    using last_chunk [OF f(1), of "length D"] D that
    by (auto simp: last_sent_def sent_set_def chunks_sent_def intro!: exI [of _ "chunk_count ?ps (length D) 0 - 1"])
  ultimately show ?thesis using D(1) by (auto simp: log_ok_def only_def sent_set_def)
qed

lemma settled_position:
  assumes s: "sends_safely cfg key D s m" and x: "settled (packet_size cfg) (sent_set k (packet_size cfg) m) k D x"
  shows "at_chunk (packet_size cfg) (length D) x \<or> om_next_send m = length D"
proof -
  let ?ps = "packet_size cfg"
  note f = sends_facts [OF s]
  have "om_next_send m = length D" if "i < chunks_sent ?ps m" "length D \<le> i * ?ps + ?ps" for i
  proof (rule chunks_sent_all [OF f(1,4,3)])
    have "\<not> Suc i < chunk_count ?ps (length D) 0" using that(2) by (simp add: chunk_count_le_iff [OF f(1)])
    with that(1) show "chunk_count ?ps (length D) 0 \<le> chunks_sent ?ps m" by simp
  qed
  with x show ?thesis by (auto simp: settled_def last_sent_def sent_set_def)
qed

text \<open>The sender moves on: what was safe stays safe.\<close>

lemma sends_all:
  assumes "sends_safely cfg key D s' m'" "chunks_sent (packet_size cfg) m \<le> chunks_sent (packet_size cfg) m'" "om_next_send m = length D"
  shows "om_next_send m' = length D"
  using chunks_sent_all [OF sends_facts(1,4,3) [OF assms(1)]] assms(2,3) by (simp add: chunks_sent_def)

lemma sends_safely_step:
  assumes s: "sends_safely cfg key D s m" and s': "sender_at cfg key D s' m'" "hm_keys (s_out s') = hm_keys (s_out s)" "s_out s \<noteq> []"
    and le: "chunks_sent (packet_size cfg) m \<le> chunks_sent (packet_size cfg) m'"
  shows "sends_safely cfg key D s' m' \<and> s_out s' \<noteq> []"
proof -
  note f = sends_facts [OF s] and f' = sender_at_facts [OF s'(1)]
  have m': "map_of (s_out s') key = Some m'" "sender_inv s'" "s_cfg s' = cfg" "om_data m' = D" using s'(1) by (simp_all add: sender_at_def)
  have out: "s_out s' = [(key, m')]" using s s' m'(1) by (auto simp: sends_safely_def split: if_splits)
  have "om_ok (packet_size cfg) m'" using sender_inv_om [OF m'(2,1)] m'(3) by simp
  moreover have "0 < om_next_send m'"
  proof -
    have "0 < om_next_send m" using s by (simp add: sends_safely_def out_safely_def)
    then have "0 < chunks_sent (packet_size cfg) m" by (simp add: chunks_sent_def chunk_count_le_iff [OF f(1)])
    then have "0 < chunks_sent (packet_size cfg) m'" using le by simp
    then show ?thesis by (simp add: chunks_sent_def chunk_count_le_iff [OF f(1)])
  qed
  moreover have "om_next_send m = length D \<Longrightarrow> om_next_send m' = length D"
    using chunks_sent_all [OF f'(1,4,3)] le by (simp add: chunks_sent_def)
  ultimately show ?thesis using s f' m' out by (auto simp: sends_safely_def out_safely_def)
qed

text \<open>The keys of the sender stay, and a message is not done earlier than at \<open>\<sigma>\<close>.\<close>

definition done_late :: "instant \<Rightarrow> sender_core \<Rightarrow> bool" where
  "done_late \<sigma> s \<longleftrightarrow> all_entries (\<lambda>k m. \<forall>t. om_done_at m = Some t \<longrightarrow> \<sigma> \<le> t) (s_out s)"

lemma all_entries_single: "all_entries P [(k, v)] \<longleftrightarrow> P k v"
  by (auto simp: all_entries_def)

lemma done_late_update:
  "done_late \<sigma> s \<Longrightarrow> \<forall>t. om_done_at m = Some t \<longrightarrow> \<sigma> \<le> t \<Longrightarrow> done_late \<sigma> (s\<lparr>s_out := AList.update k m (s_out s)\<rparr>)"
  by (simp add: done_late_def all_entries_update)

text \<open>At most the entry of \<open>k\<close> changes, and it may become done now.\<close>

definition touched :: "sender_core \<Rightarrow> msg_key \<Rightarrow> instant \<Rightarrow> sender_core \<Rightarrow> bool" where
  "touched s k now s' \<longleftrightarrow> s' = s \<or> (\<exists>m m'. map_of (s_out s) k = Some m \<and> s' = s\<lparr>s_out := AList.update k m' (s_out s)\<rparr>
     \<and> (om_done_at m' = om_done_at m \<or> om_done_at m' = Some now))"

lemma touchedI:
  "map_of (s_out s) k = Some m \<Longrightarrow> om_done_at m' = om_done_at m \<or> om_done_at m' = Some now \<Longrightarrow>
     touched s k now (s\<lparr>s_out := AList.update k m' (s_out s)\<rparr>)"
  by (auto simp: touched_def)

lemma touched_refl: "touched s k now s"
  by (simp add: touched_def)

lemma pump_touched: "pump s k limit now = Inr (s', as) \<Longrightarrow> touched s k now s'"
  by (auto simp: pump_def Let_def bind_res_Inr_iff split: option.splits if_splits intro!: touchedI touched_refl)

lemma at_sender_touched:
  assumes "at_sender s src p now = Inr (s', as)"
  shows "touched s (src, pkt_msg_id p) now s'"
proof (cases "pkt_typ p")
  case Grant
  then have "handle_grant s src p now = Inr (s', as)" using assms by (simp add: at_sender_def)
  then show ?thesis
    by (auto simp: handle_grant_def Let_def split: option.splits if_splits intro!: pump_touched touched_refl)
next
  case Resend
  then have "handle_resend s src p now = Inr (s', as)" using assms by (simp add: at_sender_def)
  then show ?thesis
    by (auto simp: handle_resend_def Let_def bind_res_Inr_iff split: option.splits if_splits intro!: touchedI touched_refl)
next
  case Busy
  then have "s' = handle_busy s src p now" using assms by (simp add: at_sender_def)
  then show ?thesis by (auto simp: handle_busy_def Let_def split: option.splits intro!: touchedI touched_refl)
qed (use assms in \<open>simp add: at_sender_def touched_refl\<close>)

lemma touched_keys: "touched s k now s' \<Longrightarrow> hm_keys (s_out s') = hm_keys (s_out s)"
  by (auto simp: touched_def hm_keys_update_Some)

lemma touched_late:
  assumes "touched s k now s'" "done_late \<sigma> s" "\<sigma> \<le> now"
  shows "done_late \<sigma> s'"
proof (cases "s' = s")
  case False
  then obtain m m' where m: "map_of (s_out s) k = Some m" "s' = s\<lparr>s_out := AList.update k m' (s_out s)\<rparr>"
    "om_done_at m' = om_done_at m \<or> om_done_at m' = Some now"
    using assms(1) by (auto simp: touched_def)
  have "\<forall>t. om_done_at m = Some t \<longrightarrow> \<sigma> \<le> t" using assms(2) m(1) unfolding done_late_def by (rule all_entriesD)
  then have "\<forall>t. om_done_at m' = Some t \<longrightarrow> \<sigma> \<le> t" using m(3) assms(3) by auto
  then show ?thesis using done_late_update [OF assms(2)] m(2) by simp
qed (use assms in simp)

text \<open>Any packet of the receiver arrives at the sender.\<close>

lemma sender_reply:
  assumes s: "sends_safely cfg (b, mid) D s m" and p: "pkt_msg_id p = mid" "pkt_typ p = Grant \<or> pkt_typ p = Resend"
    and safe: "safe_ctrl (packet_size cfg) (only (a, mid) D) (sent_set (a, mid) (packet_size cfg) m) a p"
  obtains s' m' "is" as where "at_sender s b p now = Inr (s', as)" "delivers as = []"
    "sends as = map (\<lambda>i. (b, chunk_frag (packet_size cfg) D mid i)) is"
    "sends_safely cfg (b, mid) D s' m'" "chunks_sent (packet_size cfg) m \<le> chunks_sent (packet_size cfg) m'"
    "\<forall>i \<in> set is. i < chunks_sent (packet_size cfg) m'"
    "pkt_typ p = Grant \<Longrightarrow> length is = chunks_sent (packet_size cfg) m' - chunks_sent (packet_size cfg) m"
    "length is \<le> chunk_count (packet_size cfg) (length D) 0" "s_out s \<noteq> [] \<Longrightarrow> s_out s' \<noteq> []"
    "\<And>j. s_out s \<noteq> [] \<Longrightarrow> pkt_typ p = Resend \<Longrightarrow> min (unat (pkt_offset p)) (length D) \<le> j * packet_size cfg \<Longrightarrow>
       j * packet_size cfg < min (min (unat (pkt_offset p)) (length D) + unat (pkt_length p)) (length D) \<Longrightarrow> j \<in> set is"
proof (cases "s_out s = []")
  case True
  then have "at_sender s b p now = Inr (s, [])"
    using p(2) by (auto simp: at_sender_def handle_grant_def handle_resend_def Let_def)
  then show thesis using s True by (intro that [of s "[]" "[]" m]) simp_all
next
  case live: False
  let ?ps = "packet_size cfg"
  note sa = sends_at [OF s live]
  show thesis
  proof (cases "pkt_typ p = Grant")
    case True
    obtain s' m' as where h: "handle_grant s b p now = Inr (s', as)" "sender_at cfg (b, mid) D s' m'" "delivers as = []"
      "sends as = map (\<lambda>i. (b, chunk_frag ?ps D mid i)) [chunks_sent ?ps m..<chunks_sent ?ps m']"
      "chunks_sent ?ps m \<le> chunks_sent ?ps m'"
      by (rule sender_grant [OF sa p(1) refl, of now])
    have a: "at_sender s b p now = Inr (s', as)" using h(1) True by (simp add: at_sender_def)
    have "chunks_sent ?ps m' \<le> chunk_count ?ps (length D) 0" by (rule chunks_sent_le [OF sender_at_facts(1,3) [OF h(2)]])
    then show thesis using a h True sends_safely_step [OF s h(2) touched_keys [OF at_sender_touched [OF a]] live h(5)]
      by (intro that [of s' as "[chunks_sent ?ps m..<chunks_sent ?ps m']" m']) simp_all
  next
    case False
    let ?st = "min (unat (pkt_offset p)) (length D)"
    let ?en = "min (?st + unat (pkt_length p)) (length D)"
    have "settled ?ps (sent_set (a, mid) ?ps m) (a, mid) D ?en"
      using safe False p by (simp add: safe_ctrl_def only_def)
    note at = settled_position [OF s this]
    obtain s' m' "is" where h: "handle_resend s b p now = Inr (s', map (\<lambda>i. Send b (chunk_frag ?ps D mid i)) is)"
      "sender_at cfg (b, mid) D s' m'" "chunks_sent ?ps m \<le> chunks_sent ?ps m'"
      "\<And>i. i \<in> set is \<Longrightarrow> i < chunks_sent ?ps m'" "length is \<le> chunk_count ?ps (length D) 0"
      "\<And>j. ?st \<le> j * ?ps \<Longrightarrow> j * ?ps < ?en \<Longrightarrow> j \<in> set is"
      by (rule sender_request [OF sa p(1) refl refl at, of now]) blast
    let ?as = "map (\<lambda>i. Send b (chunk_frag ?ps D mid i)) is"
    have a: "at_sender s b p now = Inr (s', ?as)" using h(1) False p(2) by (auto simp: at_sender_def)
    have cov: "\<And>j. s_out s \<noteq> [] \<Longrightarrow> pkt_typ p = Resend \<Longrightarrow> ?st \<le> j * ?ps \<Longrightarrow> j * ?ps < ?en \<Longrightarrow> j \<in> set is"
      by (rule h(6))
    show thesis
      by (rule that [OF a _ _ _ h(3) _ _ h(5) _ cov])
        (use False h(4) sends_safely_step [OF s h(2) touched_keys [OF at_sender_touched [OF a]] live h(3)] in \<open>simp_all add: chunk_sends\<close>)
  qed
qed

section \<open>An arrival\<close>

text \<open>A request may be answered with every chunk of the message, so it weighs more than what it causes.\<close>

definition weight :: "nat \<Rightarrow> datagram \<Rightarrow> nat" where
  "weight T x = (case decode (snd x) of Inl e \<Rightarrow> 1 | Inr (p, payload) \<Rightarrow> if pkt_typ p = Resend then T + 2 else 1)"

definition load :: "nat \<Rightarrow> datagram list \<Rightarrow> nat" where
  "load T xs = sum_list (map (weight T) xs)"

lemma weight_pos: "0 < weight T x"
  by (auto simp: weight_def split: sum.split)

lemma load_append [simp]: "load T (xs @ ys) = load T xs + load T ys"
  by (simp add: load_def)

lemma load_Nil [simp]: "load T [] = 0"
  by (simp add: load_def)

lemma load_pos: "xs \<noteq> [] \<Longrightarrow> 0 < load T xs"
  using weight_pos by (cases xs) (simp_all add: load_def)

lemma load_without:
  assumes "i < length xs"
  shows "load T xs = weight T (xs ! i) + load T (take i xs @ drop (Suc i) xs)"
  using arg_cong [OF id_take_nth_drop [OF assms], of "load T"] by (simp add: load_def)

lemma set_without: "i < length xs \<Longrightarrow> set xs \<subseteq> insert (xs ! i) (set (take i xs @ drop (Suc i) xs))"
  using arg_cong [OF id_take_nth_drop, of i xs set] by auto

lemma subset_without: "set (take i xs @ drop (Suc i) xs) \<subseteq> set xs"
  by (auto dest: in_set_takeD in_set_dropD)

definition effort :: "transport_config \<Rightarrow> bytes \<Rightarrow> out_msg \<Rightarrow> nat \<Rightarrow> datagram list \<Rightarrow> nat" where
  "effort cfg D m G xs = length D - G
     + (chunk_count (packet_size cfg) (length D) 0 - chunks_sent (packet_size cfg) m)
     + load (chunk_count (packet_size cfg) (length D) 0) xs"

text \<open>The chunk \<open>J\<close> is in flight, or a request for it is.\<close>

definition covers :: "nat \<Rightarrow> bytes \<Rightarrow> nat \<Rightarrow> packet \<Rightarrow> bool" where
  "covers ps D J p \<longleftrightarrow> pkt_typ p = Resend \<and> min (unat (pkt_offset p)) (length D) \<le> J * ps
     \<and> J * ps < min (min (unat (pkt_offset p)) (length D) + unat (pkt_length p)) (length D)"

definition coming :: "nat \<Rightarrow> sockaddr \<Rightarrow> sockaddr \<Rightarrow> u64 \<Rightarrow> bytes \<Rightarrow> nat \<Rightarrow> datagram list \<Rightarrow> bool" where
  "coming ps a b mid D J xs \<longleftrightarrow> (b, chunk_frag ps D mid J) \<in> set xs
     \<or> (\<exists>p. (a, encode p []) \<in> set xs \<and> covers ps D J p)"

lemma decode_ctrl: "pkt_typ p \<noteq> Data \<Longrightarrow> decode (encode p []) = Inr (p, [])"
  by (simp add: decode_encode_id wire_ok_def)

lemma chunk_frag_inj:
  assumes "0 < ps" "i * ps < length D" "length D < 2 ^ 32" "chunk_frag ps D mid i = chunk_frag ps D mid j" "j * ps < length D"
  shows "i = j"
proof -
  obtain p x where p: "decode (chunk_frag ps D mid i) = Inr (p, x)" "unat (pkt_offset p) div ps = i"
    by (rule decode_chunk [OF assms(1-3)])
  obtain q y where "decode (chunk_frag ps D mid j) = Inr (q, y)" "unat (pkt_offset q) div ps = j"
    by (rule decode_chunk [OF assms(1,5,3)])
  with p assms(4) show ?thesis by simp
qed

lemma weight_chunk: "0 < ps \<Longrightarrow> j * ps < length D \<Longrightarrow> length D < 2 ^ 32 \<Longrightarrow> weight T (d, chunk_frag ps D mid j) = 1"
  by (rule decode_chunk [of ps j D mid]) (simp_all add: weight_def)

lemma weight_ctrl: "pkt_typ p \<noteq> Data \<Longrightarrow> weight T (d, encode p []) = (if pkt_typ p = Resend then T + 2 else 1)"
  by (simp add: weight_def decode_ctrl)

lemma received_sent:
  assumes "receiving cfg key D r R G" "receiver_aligned cfg L (sent_set key ps m) r"
  shows "R \<subseteq> {..<chunks_sent ps m}"
proof (cases "r_incoming r = []")
  case False
  then obtain im where im: "r_incoming r = [(key, im)]" "R = marked im" using assms(1) by (auto simp: receiving_def)
  then have "in_aligned cfg L (sent_set key ps m) key im" using receiver_aligned_entry [OF assms(2), of key im] by simp
  with im(2) show ?thesis by (auto simp: in_aligned_def marked_def sent_set_def)
qed (use assms(1) in \<open>auto simp: receiving_def\<close>)

text \<open>A chunk arrives.\<close>

lemma lossy_chunk:
  assumes n: "linked cfg a b mid D n m R G" and room: "0 < max_incoming cfg" and ord: "iter_order ord"
    and i: "i < length (ss_flight n)" "ss_flight n ! i = (b, chunk_frag (packet_size cfg) D mid j)" "j < chunks_sent (packet_size cfg) m"
  obtains (more) n' G' where "arrive a b n i ord now = Inr (n', [])" "linked cfg a b mid D n' m (insert j R) G'"
      "effort cfg D m G' (ss_flight n') < effort cfg D m G (ss_flight n)" "ss_sender n' = ss_sender n"
      "set (take i (ss_flight n) @ drop (Suc i) (ss_flight n)) \<subseteq> set (ss_flight n')"
  | (last) n' where "arrive a b n i ord now = Inr (n', [((a, mid), D)])" "finished cfg a b mid D n' m"
      "load T (ss_flight n') < load T (ss_flight n)"
proof -
  let ?ps = "packet_size cfg" and ?L = "only (a, mid) D" and ?S = "sent_set (a, mid) (packet_size cfg) m"
  let ?rest = "take i (ss_flight n) @ drop (Suc i) (ss_flight n)"
  have s: "sends_safely cfg (b, mid) D (ss_sender n) m" and rc: "receiving cfg (a, mid) D (ss_receiver n) R G"
    and ra: "receiver_aligned cfg ?L ?S (ss_receiver n)" and fl: "\<forall>x \<in> set (ss_flight n). known cfg a b mid D m x"
    using n by (simp_all add: linked_def)
  note f = sends_facts [OF s]
  have D: "length D < 2 ^ 32" "D \<noteq> []" by (fact f(6), fact f(7))
  have j: "j * ?ps < length D"
    using i(3) f(3) chunk_count_le_iff [OF f(1), of j "om_next_send m" 0] by (simp add: chunks_sent_def)
  obtain pkt payload where d: "decode (chunk_frag ?ps D mid j) = Inr (pkt, payload)" "pkt_typ pkt = Data" "pkt_msg_id pkt = mid"
    "unat (pkt_offset pkt) div ?ps = j" "carries ?ps D pkt payload"
    by (rule decode_chunk [OF f(1) j D(1)])
  have e: "arrive a b n i ord now = bind_res (handle_data ord (ss_receiver n) a pkt payload now) (\<lambda>(r, as).
      Inr (n\<lparr>ss_receiver := r, ss_flight := ?rest @ sends as\<rparr>, delivers as))"
    by (simp add: arrive_def i(2) d(1,2) at_receiver_def)
  have rest: "\<forall>x \<in> set ?rest. known cfg a b mid D m x" using fl subset_without [of i "ss_flight n"] by blast
  have ld: "load T (ss_flight n) = 1 + load T ?rest" for T
    using load_without [OF i(1), of T] weight_chunk [OF f(1) j D(1)] i(2) by simp
  show thesis
  proof (rule receive_chunk [OF rc ord D room d(3,4,5), of now])
    fix r' G' as
    assume h: "handle_data ord (ss_receiver n) a pkt payload now = Inr (r', as)"
      and r: "receiving cfg (a, mid) D r' (insert j R) G'" and dl: "delivers as = []"
      and g: "G < G' \<and> (\<exists>m. sends as = sends [grant_packet (a, mid) m G']) \<or> G' = G \<and> sends as = []"
    let ?n = "n\<lparr>ss_receiver := r', ss_flight := ?rest @ sends as\<rparr>"
    have "?L (a, pkt_msg_id pkt) = Some D" "((a, pkt_msg_id pkt), unat (pkt_offset pkt) div ?ps) \<in> ?S"
      using d i(3) by (simp_all add: only_def sent_set_def)
    note al = handle_data_aligned(1) [OF ra sent_log_ok [OF s] ord this(1) d(5) this(2) h]
    have new: "(\<forall>x \<in> set (sends as). known cfg a b mid D m x) \<and> load T (sends as) = (if G < G' then 1 else 0)" for T
      using g by (auto simp: grant_packet_def known_def safe_ctrl_def load_def weight_ctrl intro!: exI)
    have "linked cfg a b mid D ?n m (insert j R) G'"
      using s r al rest new by (auto simp: linked_def)
    moreover have "effort cfg D m G' (ss_flight ?n) < effort cfg D m G (ss_flight n)"
      using ld new g receiving_le [OF r] by (auto simp: effort_def)
    ultimately show thesis using more [of ?n G'] h dl e by auto
  next
    fix r'
    assume h: "handle_data ord (ss_receiver n) a pkt payload now = Inr (r', [Deliver a mid D])"
      and inc: "r_incoming r' = []" and all: "insert j R = {..<chunk_count ?ps (length D) 0}"
    let ?n = "n\<lparr>ss_receiver := r', ss_flight := ?rest\<rparr>"
    have inv: "recv_inv (ss_receiver n)" using rc by (simp add: receiving_def)
    then have "length (r_completed (ss_receiver n)) \<le> COMPLETED_CACHE" by (simp add: recv_inv_def)
    then have key: "(a, mid) \<in> set (r_completed r')"
      using handle_data_sound [OF inv ord h] cache_push_one by (simp add: sound_step_def)
    have "{..<chunk_count ?ps (length D) 0} \<subseteq> {..<chunks_sent ?ps m}"
      using received_sent [OF rc ra] i(3) unfolding all [symmetric] by simp
    then have "om_next_send m = length D"
      by (intro chunks_sent_all [OF f(1,4,3)]) (simp only: lessThan_subset_iff)
    then have "finished cfg a b mid D ?n m" using s key inc rest by (simp add: finished_def)
    then show thesis using last [of ?n] h e ld by simp
  qed
qed

text \<open>A grant or a request arrives at the sender, before or after the delivery.\<close>

lemma lossy_reply:
  assumes s: "sends_safely cfg (b, mid) D (ss_sender n) m" and ab: "a \<noteq> b"
    and fl: "\<forall>x \<in> set (ss_flight n). known cfg a b mid D m x"
    and i: "i < length (ss_flight n)" "ss_flight n ! i = (a, encode p [])"
    and p: "pkt_msg_id p = mid" "pkt_typ p = Grant \<or> pkt_typ p = Resend"
      "safe_ctrl (packet_size cfg) (only (a, mid) D) (sent_set (a, mid) (packet_size cfg) m) a p"
  obtains n' m' where "arrive a b n i ord now = Inr (n', [])" "sends_safely cfg (b, mid) D (ss_sender n') m'"
    "ss_receiver n' = ss_receiver n" "chunks_sent (packet_size cfg) m \<le> chunks_sent (packet_size cfg) m'"
    "\<forall>x \<in> set (ss_flight n'). known cfg a b mid D m' x"
    "set (take i (ss_flight n) @ drop (Suc i) (ss_flight n)) \<subseteq> set (ss_flight n')"
    "s_out (ss_sender n) \<noteq> [] \<Longrightarrow> s_out (ss_sender n') \<noteq> []"
    "\<And>J. s_out (ss_sender n) \<noteq> [] \<Longrightarrow> covers (packet_size cfg) D J p \<Longrightarrow>
       (b, chunk_frag (packet_size cfg) D mid J) \<in> set (ss_flight n')"
    "chunk_count (packet_size cfg) (length D) 0 - chunks_sent (packet_size cfg) m'
        + load (chunk_count (packet_size cfg) (length D) 0) (ss_flight n')
      < chunk_count (packet_size cfg) (length D) 0 - chunks_sent (packet_size cfg) m
        + load (chunk_count (packet_size cfg) (length D) 0) (ss_flight n)"
proof -
  let ?ps = "packet_size cfg" and ?T = "chunk_count (packet_size cfg) (length D) 0"
  let ?rest = "take i (ss_flight n) @ drop (Suc i) (ss_flight n)"
  obtain s' m' "is" as where h: "at_sender (ss_sender n) b p now = Inr (s', as)" "delivers as = []"
    "sends as = map (\<lambda>i. (b, chunk_frag ?ps D mid i)) is"
    "sends_safely cfg (b, mid) D s' m'" "chunks_sent ?ps m \<le> chunks_sent ?ps m'"
    "\<forall>i \<in> set is. i < chunks_sent ?ps m'"
    "pkt_typ p = Grant \<Longrightarrow> length is = chunks_sent ?ps m' - chunks_sent ?ps m" "length is \<le> ?T"
    "s_out (ss_sender n) \<noteq> [] \<Longrightarrow> s_out s' \<noteq> []"
    "\<And>j. s_out (ss_sender n) \<noteq> [] \<Longrightarrow> pkt_typ p = Resend \<Longrightarrow> min (unat (pkt_offset p)) (length D) \<le> j * ?ps \<Longrightarrow>
       j * ?ps < min (min (unat (pkt_offset p)) (length D) + unat (pkt_length p)) (length D) \<Longrightarrow> j \<in> set is"
    by (rule sender_reply [OF s p, of now]) blast
  let ?new = "map (\<lambda>i. (b, chunk_frag ?ps D mid i)) is"
  let ?n = "n\<lparr>ss_sender := s', ss_flight := ?rest @ ?new\<rparr>"
  have nd: "pkt_typ p \<noteq> Data" using p(2) by auto
  have "arrive a b n i ord now = Inr (?n, [])"
    using h(1-3) ab by (simp add: arrive_def i(2) decode_ctrl [OF nd])
  moreover have "\<forall>x \<in> set (?rest @ ?new). known cfg a b mid D m' x"
  proof -
    have "\<forall>x \<in> set ?rest. known cfg a b mid D m' x" using fl known_mono [OF _ h(5)] subset_without [of i "ss_flight n"] by blast
    moreover have "\<forall>x \<in> set ?new. known cfg a b mid D m' x" using h(6) by (auto simp: known_def)
    ultimately show ?thesis by (simp only: set_append ball_Un)
  qed
  moreover have "(b, chunk_frag ?ps D mid J) \<in> set (?rest @ ?new)" if "s_out (ss_sender n) \<noteq> []" "covers ?ps D J p" for J
    using h(10) [of J] that by (auto simp: covers_def)
  moreover have "?T - chunks_sent ?ps m' + load ?T (?rest @ ?new) < ?T - chunks_sent ?ps m + load ?T (ss_flight n)"
  proof -
    note f = sends_facts [OF h(4)]
    note D = f(6)
    have st: "j * ?ps < length D" if "j \<in> set is" for j
      using h(6) that f(3) chunk_count_le_iff [OF f(1), of j "om_next_send m'" 0] by (auto simp: chunks_sent_def)
    then have "load ?T ?new = length is"
    proof (induction "is")
      case (Cons j js)
      then have "weight ?T (b, chunk_frag ?ps D mid j) = 1" by (intro weight_chunk [OF f(1) _ D]) simp
      with Cons show ?case by (simp add: load_def)
    qed simp
    moreover have "load ?T (ss_flight n) = (if pkt_typ p = Resend then ?T + 2 else 1) + load ?T ?rest"
      using load_without [OF i(1), of ?T] weight_ctrl [OF nd, of ?T a] i(2) by simp
    moreover have "chunks_sent ?ps m' \<le> ?T" by (rule chunks_sent_le [OF f(1,3)])
    ultimately show ?thesis using p(2) h(5,7,8) by (auto split: if_splits)
  qed
  ultimately show thesis using h(4,5,9) by (intro that [of ?n m']) auto
qed

text \<open>Before the delivery: something is used up, and what was coming is coming still or is there.\<close>

lemma coming_rest:
  assumes "coming ps a b mid D J xs" "i < length xs" "set (take i xs @ drop (Suc i) xs) \<subseteq> set ys"
    "xs ! i = (b, chunk_frag ps D mid J) \<Longrightarrow> P" "\<And>p. xs ! i = (a, encode p []) \<Longrightarrow> covers ps D J p \<Longrightarrow> P"
  shows "coming ps a b mid D J ys \<or> P"
proof -
  have "x \<in> set ys \<or> xs ! i = x" if "x \<in> set xs" for x
    using that set_without [OF assms(2)] assms(3) by blast
  with assms(1,4,5) show ?thesis unfolding coming_def by metis
qed

lemma known_cases:
  assumes "\<forall>x \<in> set (ss_flight n). known cfg a b mid D m x" "i < length (ss_flight n)"
  obtains (chunk) j where "ss_flight n ! i = (b, chunk_frag (packet_size cfg) D mid j)" "j < chunks_sent (packet_size cfg) m"
    | (reply) p where "ss_flight n ! i = (a, encode p [])" "pkt_msg_id p = mid" "pkt_typ p = Grant \<or> pkt_typ p = Resend"
        "safe_ctrl (packet_size cfg) (only (a, mid) D) (sent_set (a, mid) (packet_size cfg) m) a p"
proof -
  have "known cfg a b mid D m (ss_flight n ! i)" using assms by simp
  then show thesis unfolding known_def using chunk reply by blast
qed

lemma linked_arrival:
  assumes n: "linked cfg a b mid D n m R G" and ab: "a \<noteq> b" and room: "0 < max_incoming cfg"
    and ord: "iter_order ord" and i: "i < length (ss_flight n)"
  obtains (more) n' m' R' G' where "arrive a b n i ord now = Inr (n', [])" "linked cfg a b mid D n' m' R' G'" "R \<subseteq> R'"
      "effort cfg D m' G' (ss_flight n') < effort cfg D m G (ss_flight n)"
      "s_out (ss_sender n) \<noteq> [] \<Longrightarrow> s_out (ss_sender n') \<noteq> []"
      "\<And>J. s_out (ss_sender n) \<noteq> [] \<Longrightarrow> J * packet_size cfg < length D \<Longrightarrow>
         coming (packet_size cfg) a b mid D J (ss_flight n) \<Longrightarrow>
         coming (packet_size cfg) a b mid D J (ss_flight n') \<or> J \<in> R'"
  | (last) n' m' where "arrive a b n i ord now = Inr (n', [((a, mid), D)])" "finished cfg a b mid D n' m'"
      "load T (ss_flight n') < load T (ss_flight n)"
proof -
  let ?ps = "packet_size cfg"
  have s: "sends_safely cfg (b, mid) D (ss_sender n) m" and rc: "receiving cfg (a, mid) D (ss_receiver n) R G"
    and ra: "receiver_aligned cfg (only (a, mid) D) (sent_set (a, mid) ?ps m) (ss_receiver n)"
    and fl: "\<forall>x \<in> set (ss_flight n). known cfg a b mid D m x"
    using n by (simp_all add: linked_def)
  note f = sends_facts [OF s]
  note D = f(6)
  from fl i show thesis
  proof (cases rule: known_cases)
    case (chunk j)
    have j: "j * ?ps < length D"
      using chunk(2) f(3) chunk_count_le_iff [OF f(1), of j "om_next_send m" 0] by (simp add: chunks_sent_def)
    show thesis
    proof (rule lossy_chunk [OF n room ord i chunk, of now])
      fix n' G'
      assume h: "arrive a b n i ord now = Inr (n', [])" "linked cfg a b mid D n' m (insert j R) G'"
        "effort cfg D m G' (ss_flight n') < effort cfg D m G (ss_flight n)" "ss_sender n' = ss_sender n"
        "set (take i (ss_flight n) @ drop (Suc i) (ss_flight n)) \<subseteq> set (ss_flight n')"
      show thesis
      proof (rule more [OF h(1,2) _ h(3)])
        fix J assume J: "J * ?ps < length D" "coming ?ps a b mid D J (ss_flight n)"
        have "coming ?ps a b mid D J (ss_flight n') \<or> J = j"
          by (rule coming_rest [OF J(2) i h(5)]) (use chunk(1) ab chunk_frag_inj [OF f(1) J(1) D _ j, of mid] in auto)
        then show "coming ?ps a b mid D J (ss_flight n') \<or> J \<in> insert j R" by blast
      qed (use h(4) in auto)
    qed (rule last)
  next
    case (reply p)
    obtain n' m' where h: "arrive a b n i ord now = Inr (n', [])" "sends_safely cfg (b, mid) D (ss_sender n') m'"
      "ss_receiver n' = ss_receiver n" "chunks_sent ?ps m \<le> chunks_sent ?ps m'" "\<forall>x \<in> set (ss_flight n'). known cfg a b mid D m' x"
      "set (take i (ss_flight n) @ drop (Suc i) (ss_flight n)) \<subseteq> set (ss_flight n')"
      "s_out (ss_sender n) \<noteq> [] \<Longrightarrow> s_out (ss_sender n') \<noteq> []"
      "\<And>J. s_out (ss_sender n) \<noteq> [] \<Longrightarrow> covers ?ps D J p \<Longrightarrow> (b, chunk_frag ?ps D mid J) \<in> set (ss_flight n')"
      "chunk_count ?ps (length D) 0 - chunks_sent ?ps m' + load (chunk_count ?ps (length D) 0) (ss_flight n')
        < chunk_count ?ps (length D) 0 - chunks_sent ?ps m + load (chunk_count ?ps (length D) 0) (ss_flight n)"
      by (rule lossy_reply [OF s ab fl i reply]) blast
    have "linked cfg a b mid D n' m' R G"
      using h(2,3,5) rc receiver_aligned_mono [OF ra map_le_refl sent_set_mono [OF h(4)]] by (simp add: linked_def)
    moreover have "effort cfg D m' G (ss_flight n') < effort cfg D m G (ss_flight n)" using h(9) by (simp add: effort_def)
    moreover have "coming ?ps a b mid D J (ss_flight n') \<or> J \<in> R"
      if live: "s_out (ss_sender n) \<noteq> []" and J: "coming ?ps a b mid D J (ss_flight n)" for J
    proof -
      have "p = q" if "ss_flight n ! i = (a, encode q [])" "covers ?ps D J q" for q
      proof -
        have "pkt_typ q \<noteq> Data" using that(2) by (simp add: covers_def)
        with reply(1,3) that(1) show ?thesis using decode_ctrl [of p] decode_ctrl [of q] by auto
      qed
      then have "coming ?ps a b mid D J (ss_flight n') \<or> (b, chunk_frag ?ps D mid J) \<in> set (ss_flight n')"
        by (intro coming_rest [OF J i h(6)]) (use reply(1) ab h(8) [OF live] in auto)
      then show ?thesis by (auto simp: coming_def)
    qed
    ultimately show thesis using h(1,7) by (intro more) auto
  qed
qed

text \<open>After the delivery nothing new is delivered.\<close>

lemma finished_arrival:
  assumes n: "finished cfg a b mid D n m" and ab: "a \<noteq> b" and ord: "iter_order ord" and i: "i < length (ss_flight n)"
  obtains n' m' where "arrive a b n i ord now = Inr (n', [])" "finished cfg a b mid D n' m'"
    "load (chunk_count (packet_size cfg) (length D) 0) (ss_flight n') < load (chunk_count (packet_size cfg) (length D) 0) (ss_flight n)"
proof -
  let ?ps = "packet_size cfg" and ?T = "chunk_count (packet_size cfg) (length D) 0"
  let ?rest = "take i (ss_flight n) @ drop (Suc i) (ss_flight n)"
  have s: "sends_safely cfg (b, mid) D (ss_sender n) m" and all: "om_next_send m = length D"
    and r: "(a, mid) \<in> set (r_completed (ss_receiver n))" "r_incoming (ss_receiver n) = []"
    and fl: "\<forall>x \<in> set (ss_flight n). known cfg a b mid D m x"
    using n by (simp_all add: finished_def)
  note f = sends_facts [OF s]
  note D = f(6)
  from fl i show thesis
  proof (cases rule: known_cases)
    case (chunk j)
    have j: "j * ?ps < length D"
      using chunk(2) f(3) chunk_count_le_iff [OF f(1), of j "om_next_send m" 0] by (simp add: chunks_sent_def)
    obtain pkt payload where d: "decode (chunk_frag ?ps D mid j) = Inr (pkt, payload)" "pkt_typ pkt = Data" "pkt_msg_id pkt = mid"
      by (rule decode_chunk [OF f(1) j D])
    have "arrive a b n i ord now = Inr (n\<lparr>ss_flight := ?rest\<rparr>, [])"
      using r(1) by (simp add: arrive_def chunk(1) d at_receiver_def handle_data_def Let_def)
    moreover have "finished cfg a b mid D (n\<lparr>ss_flight := ?rest\<rparr>) m"
      using n subset_without [of i "ss_flight n"] by (auto simp: finished_def)
    moreover have "load ?T ?rest < load ?T (ss_flight n)" using load_without [OF i] weight_pos by simp
    ultimately show thesis by (intro that [of "n\<lparr>ss_flight := ?rest\<rparr>" m]) (simp_all del: load_append)
  next
    case (reply p)
    obtain n' m' where h: "arrive a b n i ord now = Inr (n', [])" "sends_safely cfg (b, mid) D (ss_sender n') m'"
      "ss_receiver n' = ss_receiver n" "chunks_sent ?ps m \<le> chunks_sent ?ps m'" "\<forall>x \<in> set (ss_flight n'). known cfg a b mid D m' x"
      "?T - chunks_sent ?ps m' + load ?T (ss_flight n') < ?T - chunks_sent ?ps m + load ?T (ss_flight n)"
      by (rule lossy_reply [OF s ab fl i reply]) blast
    have "om_next_send m' = length D"
      by (rule sends_all [OF h(2,4) all])
    moreover have "?T - chunks_sent ?ps m' = ?T - chunks_sent ?ps m"
      using all calculation by (simp add: chunks_sent_def)
    ultimately show thesis using h r by (intro that) (auto simp: finished_def)
  qed
qed

section \<open>The timer\<close>

text \<open>No request is unanswered once the chunk \<open>J\<close> is there, and the last progress is not after \<open>\<tau>\<close>.\<close>

definition recent :: "nat \<Rightarrow> instant \<Rightarrow> receiver_core \<Rightarrow> bool" where
  "recent J \<tau> r \<longleftrightarrow> all_entries (\<lambda>k m. im_last_progress m \<le> \<tau> \<and> (im_unanswered_resends m = 0 \<or> \<not> im_received m ! J)) (r_incoming r)"

lemma recent_stable:
  "grant_stable inc (\<lambda>k m. im_last_progress m \<le> \<tau> \<and> (im_unanswered_resends m = 0 \<or> \<not> im_received m ! J))"
  by (simp add: grant_stable_def)

lemma handle_data_recent:
  assumes h: "handle_data ord r src pkt payload now = Inr (r', as)" and r: "recent J \<tau> r" and now: "now \<le> \<tau>"
  shows "recent J \<tau> r'"
proof -
  let ?P = "\<lambda>(k :: msg_key) m. im_last_progress m \<le> \<tau> \<and> (im_unanswered_resends m = 0 \<or> \<not> im_received m ! J)"
  have e: "all_entries ?P (r_incoming r)" using r by (simp add: recent_def)
  from h show ?thesis
  proof (cases rule: handle_data_Inr)
    case (empty m r1 as1 as2)
    have "all_entries ?P (r_incoming r1)"
      using deliver_incoming [OF empty(5)] all_entries_delete [OF e] by (simp add: delete_update_same)
    then show ?thesis unfolding recent_def by (rule schedule_entries [OF empty(6) _ recent_stable])
  next
    case (stored m m' r1 as1 as2)
    have "?P (src, pkt_msg_id pkt) m"
      using stored(4) e now unfolding entry_of_def
      by (cases "map_of (r_incoming r) (src, pkt_msg_id pkt)")
        (auto simp: new_in_msg_def bind_res_Inr_iff dest: all_entriesD)
    then have "?P (src, pkt_msg_id pkt) m'"
      using stored(5) now by (auto simp: store_chunk_def bind_res_Inr_iff split: if_splits)
    then have "all_entries ?P (r_incoming r1)" using settle_incoming [OF stored(6) e] by simp
    then show ?thesis unfolding recent_def by (rule schedule_entries [OF stored(7) _ recent_stable])
  qed (use r in simp_all)
qed

lemma arrive_recent:
  assumes "arrive a b n i ord now = Inr (n', out)" "recent J \<tau> (ss_receiver n)" "now \<le> \<tau>"
  shows "recent J \<tau> (ss_receiver n')"
  using assms handle_data_recent [OF _ assms(2,3)]
  by (auto simp: arrive_def at_receiver_def bind_res_Inr_iff Let_def split: sum.splits prod.splits if_splits)

text \<open>A message that is not complete has a gap within its window.\<close>

lemma first_false_all: "first_false bs = None \<longleftrightarrow> (\<forall>i < length bs. bs ! i)"
proof (induction bs)
  case (Cons b bs)
  then show ?case by (auto simp: nth_Cons split: nat.split)
qed simp

lemma first_false_before: "first_false bs = Some i \<Longrightarrow> j < i \<Longrightarrow> bs ! j"
proof (induction bs arbitrary: i j)
  case (Cons b bs)
  then show ?case by (cases j) (auto split: if_splits)
qed simp

lemma gap:
  assumes m: "holds (packet_size cfg) D m" "\<not> complete m" "window_open cfg m" "in_msg_ok cfg m"
    and cfg: "0 < packet_size cfg" "2 \<le> grant_increment cfg" and D: "D \<noteq> []"
  obtains J where "first_missing_offset m (packet_size cfg) = Some (J * packet_size cfg)"
    "J * packet_size cfg < im_granted_to m" "\<not> im_received m ! J" "J \<notin> marked m"
proof -
  let ?ps = "packet_size cfg" and ?bs = "im_received m"
  have len: "length ?bs = chunk_count ?ps (length D) 0"
    using bitmap_length [OF cfg(1) m(4)] m(1) D by (simp add: holds_def)
  have total: "im_total_len m = length D" "im_received_bytes m = acct ?ps (length D) ?bs" using m(1) by (simp_all add: holds_def)
  then have "acct ?ps (length D) ?bs \<noteq> length D" using m(2) by (simp add: complete_def)
  then have "first_false ?bs \<noteq> None" using acct_full [OF cfg(1) len] by (simp add: first_false_all)
  then obtain J where J: "first_false ?bs = Some J" by blast
  note b = first_false_Some [OF J]
  then have "J < chunk_count ?ps (length D) 0" using len by simp
  then have st: "J * ?ps < length D" using chunk_count_le_iff [OF cfg(1)] by simp
  have "J * ?ps = min (J * ?ps) (length D)" using st by simp
  also have "\<dots> = (\<Sum>i<J. chunk_len ?ps (length D) i)" by (rule sum_chunk_len [symmetric])
  also have "\<dots> = (\<Sum>i<J. if ?bs ! i then chunk_len ?ps (length D) i else 0)"
    by (rule sum.cong) (use first_false_before [OF J] in auto)
  also have "\<dots> \<le> acct ?ps (length D) ?bs" unfolding acct_def by (rule sum_mono2) (use b in auto)
  finally have "J * ?ps \<le> im_received_bytes m" by (simp add: total)
  moreover have "im_granted_to m = length D \<or> im_received_bytes m < im_granted_to m"
    using m(3) cfg(2) total(1) by (auto simp: window_open_def)
  ultimately have "J * ?ps < im_granted_to m" using st by auto
  with J b show thesis by (intro that [of J]) (simp_all add: first_missing_offset_def marked_def)
qed

text \<open>What the scheduler does after the timer's loop, with one entry.\<close>

lemma schedule_receiving:
  assumes r: "recv_inv r" "r_cfg r = cfg" "key \<notin> set (r_completed r)" "r_incoming r = [(key, m)]" and ord: "iter_order ord"
    and m: "holds (packet_size cfg) D m" "\<not> complete m"
  obtains r' as G' where "schedule ord r now = Inr (r', as)" "receiving cfg key D r' (marked m) G'"
    "\<And>J \<tau>. recent J \<tau> r \<Longrightarrow> recent J \<tau> r'" "as = [] \<or> (\<exists>m. as = [grant_packet key m G'])"
proof -
  have ps: "0 < packet_size cfg" using r recv_inv_ps by auto
  have ok: "in_msg_ok cfg m" using recv_inv_entry [OF r(1), of key m] r(2,4) by simp
  have le: "im_received_bytes m \<le> im_total_len m" by (rule holds_le [OF ps ok m(1)])
  have g: "im_granted_to m \<le> im_total_len m" using ok by (simp add: in_msg_ok_def)
  obtain r' t as where s: "schedule ord r now = Inr (r', as)"
    "r_incoming r' = [(key, m\<lparr>im_granted_to := t, im_last_grant := now\<rparr>)] \<and> im_granted_to m < t \<and> as = [grant_packet key m t]
     \<or> r_incoming r' = [(key, m)] \<and> t = im_granted_to m \<and> as = []"
    "window_open cfg (m\<lparr>im_granted_to := t\<rparr>)"
    using schedule_opens [OF ord r(4) m(2) le g] r(2) by metis
  have "recent J \<tau> r'" if "recent J \<tau> r" for J \<tau>
    using schedule_entries [OF s(1) _ recent_stable] that unfolding recent_def by blast
  moreover have "receiving cfg key D r' (marked m) t"
    using schedule_inv [OF r(1) s(1) ord] s(2,3) m r(2,3) by (auto simp: receiving_def complete_def marked_def window_open_def)
  ultimately show thesis using s(1,2) by (intro that [of r' as t]) auto
qed

text \<open>
  The timer on a receiver that has an entry: nothing, or a request for a gap; at the
  41st request the entry is dropped.
\<close>

lemma resend_covers:
  assumes "J * ps < im_granted_to m" "im_granted_to m \<le> length D" "length D < 2 ^ 32" "0 < grant_increment cfg"
  obtains p where "resend_packet cfg (a, mid) m (J * ps) = Send a (encode p [])" "pkt_msg_id p = mid" "pkt_typ p = Resend" "covers ps D J p"
proof -
  let ?span = "min (im_granted_to m - J * ps) (grant_increment cfg)"
  let ?p = "packet_new Resend (priority_for_len (im_total_len m)) mid 0 (as_u32 (J * ps)) (as_u32 ?span)"
  have u: "unat (as_u32 (J * ps)) = J * ps" "unat (as_u32 ?span) = ?span" using assms by (simp_all only: unat_as_u32)
  have "covers ps D J ?p" unfolding covers_def packet_new_simps u using assms by auto
  then show thesis by (intro that [of ?p]) (simp_all add: resend_packet_def)
qed

text \<open>The datagrams of the receiver's timer.\<close>

definition timer_grams :: "sockaddr \<Rightarrow> u64 \<Rightarrow> datagram list \<Rightarrow> bool" where
  "timer_grams a mid xs \<longleftrightarrow> length xs \<le> 2
     \<and> (\<forall>x \<in> set xs. \<exists>p. x = (a, encode p []) \<and> pkt_msg_id p = mid \<and> (pkt_typ p = Grant \<or> pkt_typ p = Resend))"

lemma timer_grams_resend: "pkt_msg_id p = mid \<Longrightarrow> pkt_typ p = Resend \<Longrightarrow> timer_grams a mid [(a, encode p [])]"
  by (auto simp: timer_grams_def)

lemma receiver_tick_single:
  assumes "r_incoming r = [(key, m)]" "iter_order ord" "recover r key now = (r1, as1)"
  shows "receiver_tick ord ord' r now = bind_res (schedule ord' r1 now) (\<lambda>(r2, as2). Inr (r2, as1 @ as2))"
  using assms by (simp add: receiver_tick_def iter_order_single)

text \<open>The timer keeps the entry, perhaps with a request for the gap at chunk \<open>J\<close>.\<close>

lemma tick_touched:
  assumes r: "recv_inv r" "r_cfg r = cfg" "(a, mid) \<notin> set (r_completed r)" "r_incoming r = [((a, mid), m)]"
    and ord: "iter_order ord" "iter_order ord'" and rec: "recover r (a, mid) now = (r\<lparr>r_incoming := [((a, mid), m1)]\<rparr>, as1)"
    and m1: "holds (packet_size cfg) D m1" "\<not> complete m1"
    and as1: "as1 = [] \<or> as1 = [Send a (encode p [])]" "pkt_msg_id p = mid" "pkt_typ p = Resend"
  obtains r' G' as2 where "receiver_tick ord ord' r now = Inr (r', as1 @ as2)" "receiving cfg (a, mid) D r' (marked m1) G'"
    "delivers (as1 @ as2) = []" "timer_grams a mid (sends (as1 @ as2))"
    "\<And>J. recent J now (r\<lparr>r_incoming := [((a, mid), m1)]\<rparr>) \<Longrightarrow> recent J now r'"
proof -
  let ?r = "r\<lparr>r_incoming := [((a, mid), m1)]\<rparr>" and ?key = "(a, mid)"
  have r1: "recv_inv ?r" "r_cfg ?r = cfg" "?key \<notin> set (r_completed ?r)" "r_incoming ?r = [(?key, m1)]"
    using recover_quiet [OF r(1) rec] r by (simp_all add: quiet_step_def)
  obtain r' as2 G' where s: "schedule ord' ?r now = Inr (r', as2)" "receiving cfg ?key D r' (marked m1) G'"
    "\<And>J \<tau>. recent J \<tau> ?r \<Longrightarrow> recent J \<tau> r'" "as2 = [] \<or> (\<exists>m. as2 = [grant_packet ?key m G'])"
    using schedule_receiving [OF r1 ord(2) m1] by metis
  have "receiver_tick ord ord' r now = Inr (r', as1 @ as2)" using receiver_tick_single [OF r(4) ord(1) rec] s(1) by simp
  moreover have "delivers (as1 @ as2) = []" using s(4) as1(1) by (auto simp: grant_packet_def)
  moreover have "\<exists>q. x = (a, encode q []) \<and> pkt_msg_id q = mid \<and> (pkt_typ q = Grant \<or> pkt_typ q = Resend)"
    if "x \<in> set (sends as1) \<or> x \<in> set (sends as2)" for x
    using that
  proof
    assume "x \<in> set (sends as1)"
    then show ?thesis using as1 by auto
  next
    assume x: "x \<in> set (sends as2)"
    then obtain m where "as2 = [grant_packet ?key m G']" using s(4) by auto
    with x show ?thesis
      by (intro exI [of _ "packet_new Grant (priority_for_len (im_total_len m)) mid 0 (as_u32 G') (as_u32 (G' - im_granted_to m))"])
        (simp add: grant_packet_def)
  qed
  then have "timer_grams a mid (sends (as1 @ as2))"
    using s(4) as1(1) by (auto simp: timer_grams_def grant_packet_def)
  ultimately show thesis using that s(2,3) by blast
qed

text \<open>The timer drops the entry after too many requests.\<close>

lemma tick_dropped:
  assumes r: "recv_inv r" "r_cfg r = cfg" "(a, mid) \<notin> set (r_completed r)" "r_incoming r = [((a, mid), m)]"
    and ord: "iter_order ord" "iter_order ord'"
    and rec: "recover r (a, mid) now = (r\<lparr>r_incoming := [], r_granting := filter (\<lambda>k. k \<noteq> (a, mid)) (r_granting r)\<rparr>, as)"
  defines "r' \<equiv> r\<lparr>r_incoming := [], r_granting := []\<rparr>"
  shows "receiver_tick ord ord' r now = Inr (r', as)"
    "receiving cfg (a, mid) D r' {} (min (unscheduled_bytes cfg) (length D))"
proof -
  let ?r = "r\<lparr>r_incoming := [], r_granting := filter (\<lambda>k. k \<noteq> (a, mid)) (r_granting r)\<rparr>"
  have "recv_inv ?r" using recover_quiet [OF r(1) rec] by (simp add: quiet_step_def)
  then have "recv_inv r'" by (simp add: recv_inv_def r'_def)
  moreover have "schedule ord' ?r now = Inr (r', [])" using schedule_none [OF ord(2), of ?r now] by (simp add: r'_def)
  ultimately show "receiver_tick ord ord' r now = Inr (r', as)"
    "receiving cfg (a, mid) D r' {} (min (unscheduled_bytes cfg) (length D))"
    using receiver_tick_single [OF r(4) ord(1) rec] r(2,3) by (simp_all add: receiving_def r'_def)
qed

text \<open>The timer at a gap that is due.\<close>

lemma tick_due:
  assumes rc: "receiving cfg (a, mid) D r R G" and m: "r_incoming r = [((a, mid), m)]"
    and ord: "iter_order ord" "iter_order ord'" and D: "D \<noteq> []" "length D < 2 ^ 32" and inc: "2 \<le> grant_increment cfg"
    and due: "resend_timeout cfg \<le> now - im_last_progress m"
  obtains r' R' G' as J p where "receiver_tick ord ord' r now = Inr (r', as)" "receiving cfg (a, mid) D r' R' G'" "delivers as = []"
    "timer_grams a mid (sends as)" "im_unanswered_resends m < MAX_UNANSWERED_RESENDS \<Longrightarrow> R' = R"
    "J \<notin> R" "J * packet_size cfg < length D" "recent J now r'" "(a, encode p []) \<in> set (sends as)" "covers (packet_size cfg) D J p"
proof -
  let ?key = "(a, mid)" and ?ps = "packet_size cfg"
  have h: "holds ?ps D m" "\<not> complete m" "R = marked m" "window_open cfg m"
    and inv: "recv_inv r" "r_cfg r = cfg" "?key \<notin> set (r_completed r)" using rc m by (auto simp: receiving_def)
  have ps: "0 < ?ps" using inv recv_inv_ps by auto
  have ok: "in_msg_ok cfg m" using recv_inv_entry [OF inv(1), of ?key m] m inv(2) by simp
  have le: "im_granted_to m \<le> length D" using ok h(1) by (simp add: in_msg_ok_def holds_def)
  have at: "map_of (r_incoming r) ?key = Some m" by (simp add: m)
  obtain J where J: "first_missing_offset m ?ps = Some (J * ?ps)" "J * ?ps < im_granted_to m" "\<not> im_received m ! J" "J \<notin> marked m"
    by (rule gap [OF h(1,2,4) ok ps inc D(1)])
  obtain p where p: "resend_packet cfg ?key m (J * ?ps) = Send a (encode p [])" "pkt_msg_id p = mid" "pkt_typ p = Resend" "covers ?ps D J p"
    using resend_covers [OF J(2) le D(2), of cfg a mid] inc by auto
  have st: "J \<notin> R" "J * ?ps < length D" using J(2,4) le h(3) by simp_all
  have "gap_at ?ps m (J * ?ps)" using J(1,2) by (simp add: gap_at_def)
  note rec = recover_gap [OF at, of "J * ?ps" now, unfolded inv(2), OF this due, unfolded p(1)]
  show thesis
  proof (cases "im_unanswered_resends m < MAX_UNANSWERED_RESENDS")
    case True
    let ?m = "m\<lparr>im_last_progress := now, im_unanswered_resends := im_unanswered_resends m + 1\<rparr>"
    have r1: "recover r ?key now = (r\<lparr>r_incoming := [(?key, ?m)]\<rparr>, [Send a (encode p [])])" using rec True m by simp
    have rt: "recent J now (r\<lparr>r_incoming := [(?key, ?m)]\<rparr>)" using J(3) by (simp add: recent_def all_entries_def)
    have m1: "holds ?ps D ?m" "\<not> complete ?m" "marked ?m = R" using h(1-3) by (simp_all add: complete_def marked_def)
    from tick_touched [OF inv m ord r1 m1(1,2) disjI2 [OF refl] p(2,3)] rt st p(4) m1(3)
    show thesis using that by (metis append_Cons in_sends_iff list.set_intros(1))
  next
    case False
    have "recover r ?key now = (r\<lparr>r_incoming := [], r_granting := filter (\<lambda>k. k \<noteq> ?key) (r_granting r)\<rparr>, [Send a (encode p [])])"
      using rec False m by simp
    from tick_dropped [OF inv m ord this] show thesis
      using False st p by (intro that [OF _ _ _ _ _ st, where p = p]) (auto simp: recent_def timer_grams_def)
  qed
qed

lemma tick_receiving:
  assumes rc: "receiving cfg (a, mid) D r R G" and ord: "iter_order ord" "iter_order ord'"
    and D: "D \<noteq> []" "length D < 2 ^ 32" and inc: "2 \<le> grant_increment cfg"
  obtains r' R' G' as where "receiver_tick ord ord' r now = Inr (r', as)" "receiving cfg (a, mid) D r' R' G'" "delivers as = []"
    "timer_grams a mid (sends as)" "r_incoming r = [] \<Longrightarrow> R' = R \<and> r_incoming r' = []"
    "\<And>m. r_incoming r = [((a, mid), m)] \<Longrightarrow> resend_timeout cfg \<le> now - im_last_progress m \<Longrightarrow>
       (im_unanswered_resends m < MAX_UNANSWERED_RESENDS \<longrightarrow> R' = R)
       \<and> (\<exists>J. J \<notin> R \<and> J * packet_size cfg < length D \<and> recent J now r'
            \<and> (\<exists>p. (a, encode p []) \<in> set (sends as) \<and> covers (packet_size cfg) D J p))"
proof -
  consider (none) "r_incoming r = []"
    | (due) m where "r_incoming r = [((a, mid), m)]" "resend_timeout cfg \<le> now - im_last_progress m"
    | (idle) m where "r_incoming r = [((a, mid), m)]" "\<not> resend_timeout cfg \<le> now - im_last_progress m"
    using rc by (auto simp: receiving_def)
  then show thesis
  proof cases
    case none
    then have "receiver_tick ord ord' r now = Inr (r\<lparr>r_granting := []\<rparr>, [])"
      by (simp add: receiver_tick_def iter_order_Nil [OF ord(1)] schedule_none [OF ord(2)])
    moreover have "receiving cfg (a, mid) D (r\<lparr>r_granting := []\<rparr>) R G"
      using rc none by (auto simp: receiving_def recv_inv_def)
    ultimately show thesis using none by (intro that [of "r\<lparr>r_granting := []\<rparr>" "[]" R G]) (simp_all add: timer_grams_def)
  next
    case due
    show thesis
      by (rule tick_due [OF rc due(1) ord D inc due(2)], rule that) (use due in auto)
  next
    case idle
    have h: "holds (packet_size cfg) D m" "\<not> complete m" "R = marked m"
      and inv: "recv_inv r" "r_cfg r = cfg" "(a, mid) \<notin> set (r_completed r)" using rc idle(1) by (auto simp: receiving_def)
    have rec: "recover r (a, mid) now = (r\<lparr>r_incoming := [((a, mid), m)]\<rparr>, [])" using inv(2) idle by (simp add: recover_def)
    show thesis
      by (rule tick_touched [OF inv idle(1) ord rec h(1,2) disjI1 [OF refl], of "packet_new Resend 0 mid 0 0 0"])
        (use that idle h(3) in auto)
  qed
qed

lemma load_le: "load T xs \<le> (T + 2) * length xs"
proof (induction xs)
  case (Cons x xs)
  have "weight T x \<le> T + 2" by (auto simp: weight_def split: sum.split)
  with Cons show ?case by (simp add: load_def)
qed simp

lemma timer_known:
  assumes g: "timer_grams a mid (sends as)" and al: "list_all (ctrl_act (packet_size cfg) (only (a, mid) D) (sent_set (a, mid) (packet_size cfg) m)) as"
    and x: "x \<in> set (sends as)"
  shows "known cfg a b mid D m x"
proof -
  obtain p where p: "x = (a, encode p [])" "pkt_msg_id p = mid" "pkt_typ p = Grant \<or> pkt_typ p = Resend"
    using g x unfolding timer_grams_def by blast
  have "Send a (encode p []) \<in> set as" using x p(1) in_sends_iff by metis
  then obtain q where q: "encode p [] = encode q []" "safe_ctrl (packet_size cfg) (only (a, mid) D) (sent_set (a, mid) (packet_size cfg) m) a q"
    using al unfolding list_all_iff ctrl_act_def by blast
  have "pkt_typ p \<noteq> Data" "pkt_typ q \<noteq> Data" using p(3) q(2) by (auto simp: safe_ctrl_def)
  then have "p = q" using decode_ctrl [of p] decode_ctrl [of q] unfolding q(1) by simp
  with p q(2) show ?thesis unfolding known_def by blast
qed

lemma linked_tick:
  assumes n: "linked cfg a b mid D n m R G" and ord: "iter_order ord" "iter_order ord'" and inc: "2 \<le> grant_increment cfg"
  obtains n' R' G' where "timer n ord ord' now = Inr (n', [])" "linked cfg a b mid D n' m R' G'"
    "load T (ss_flight n') \<le> load T (ss_flight n) + 2 * (T + 2)"
    "ss_sender n' = ss_sender n" "set (ss_flight n) \<subseteq> set (ss_flight n')"
    "r_incoming (ss_receiver n) = [] \<Longrightarrow> R' = R \<and> r_incoming (ss_receiver n') = []"
    "\<And>im. r_incoming (ss_receiver n) = [((a, mid), im)] \<Longrightarrow> resend_timeout cfg \<le> now - im_last_progress im \<Longrightarrow>
       (im_unanswered_resends im < MAX_UNANSWERED_RESENDS \<longrightarrow> R' = R)
       \<and> (\<exists>J. J \<notin> R \<and> J * packet_size cfg < length D \<and> recent J now (ss_receiver n')
            \<and> coming (packet_size cfg) a b mid D J (ss_flight n'))"
proof -
  let ?ps = "packet_size cfg" and ?L = "only (a, mid) D" and ?S = "sent_set (a, mid) (packet_size cfg) m"
  have s: "sends_safely cfg (b, mid) D (ss_sender n) m" and rc: "receiving cfg (a, mid) D (ss_receiver n) R G"
    and ra: "receiver_aligned cfg ?L ?S (ss_receiver n)" and fl: "\<forall>x \<in> set (ss_flight n). known cfg a b mid D m x"
    using n by (simp_all add: linked_def)
  have D: "D \<noteq> []" "length D < 2 ^ 32" by (fact sends_facts(7) [OF s], fact sends_facts(6) [OF s])
  obtain r' R' G' as where h: "receiver_tick ord ord' (ss_receiver n) now = Inr (r', as)" "receiving cfg (a, mid) D r' R' G'"
    "delivers as = []" "timer_grams a mid (sends as)" "r_incoming (ss_receiver n) = [] \<Longrightarrow> R' = R \<and> r_incoming r' = []"
    "\<And>im. r_incoming (ss_receiver n) = [((a, mid), im)] \<Longrightarrow> resend_timeout cfg \<le> now - im_last_progress im \<Longrightarrow>
       (im_unanswered_resends im < MAX_UNANSWERED_RESENDS \<longrightarrow> R' = R)
       \<and> (\<exists>J. J \<notin> R \<and> J * ?ps < length D \<and> recent J now r' \<and> (\<exists>p. (a, encode p []) \<in> set (sends as) \<and> covers ?ps D J p))"
    by (rule tick_receiving [OF rc ord D inc, of now]) blast
  let ?n = "n\<lparr>ss_receiver := r', ss_flight := ss_flight n @ sends as\<rparr>"
  note al = receiver_tick_aligned [OF ra sent_log_ok [OF s] ord(2) h(1)]
  note known = timer_known [OF h(4) al(2)]
  have ln: "linked cfg a b mid D ?n m R' G'" using s h(2) al(1) fl known by (auto simp: linked_def)
  have ti: "timer n ord ord' now = Inr (?n, [])" using h(1,3) by (simp add: timer_def)
  have "(T + 2) * length (sends as) \<le> (T + 2) * 2" using h(4) unfolding timer_grams_def by (intro mult_le_mono2) simp
  then have ld: "load T (ss_flight ?n) \<le> load T (ss_flight n) + 2 * (T + 2)" using load_le [of T "sends as"] by simp
  have c: "coming ?ps a b mid D J (ss_flight ?n)" if "\<exists>p. (a, encode p []) \<in> set (sends as) \<and> covers ?ps D J p" for J
    using that by (auto simp: coming_def)
  show thesis
  proof (rule that [OF ti ln ld])
    show "ss_sender ?n = ss_sender n" "set (ss_flight n) \<subseteq> set (ss_flight ?n)" by simp_all
    show "R' = R \<and> r_incoming (ss_receiver ?n) = []" if "r_incoming (ss_receiver n) = []" using h(5) [OF that] by simp
  next
    fix im
    assume "r_incoming (ss_receiver n) = [((a, mid), im)]" "resend_timeout cfg \<le> now - im_last_progress im"
    note due = h(6) [OF this]
    then obtain J where J: "J \<notin> R" "J * ?ps < length D" "recent J now r'"
      "\<exists>p. (a, encode p []) \<in> set (sends as) \<and> covers ?ps D J p" by blast
    have "recent J now (ss_receiver ?n)" using J(3) by simp
    with due J(1,2) c [OF J(4)] show "(im_unanswered_resends im < MAX_UNANSWERED_RESENDS \<longrightarrow> R' = R)
       \<and> (\<exists>J. J \<notin> R \<and> J * ?ps < length D \<and> recent J now (ss_receiver ?n) \<and> coming ?ps a b mid D J (ss_flight ?n))"
      by metis
  qed
qed

lemma finished_tick:
  assumes "finished cfg a b mid D n m" "iter_order ord" "iter_order ord'"
  obtains n' where "timer n ord ord' now = Inr (n', [])" "finished cfg a b mid D n' m" "ss_flight n' = ss_flight n"
proof -
  let ?r = "(ss_receiver n)\<lparr>r_granting := []\<rparr>"
  have "r_incoming (ss_receiver n) = []" using assms(1) by (simp add: finished_def)
  then have "timer n ord ord' now = Inr (n\<lparr>ss_receiver := ?r, ss_flight := ss_flight n @ []\<rparr>, [])"
    by (simp add: timer_def receiver_tick_def iter_order_Nil [OF assms(2)] schedule_none [OF assms(3)])
  then show thesis using assms(1) by (intro that [of "n\<lparr>ss_receiver := ?r, ss_flight := ss_flight n @ []\<rparr>"]) (simp_all add: finished_def)
qed

section \<open>The sender's timer\<close>

lemma sender_probe:
  assumes s: "sends_safely cfg (b, mid) D s m" and ord: "iter_order ord"
  obtains s' m' as where "sender_tick ord s now = Inr (s', as)" "delivers as = []" "sends_safely cfg (b, mid) D s' m'"
    "om_next_send m' = om_next_send m" "om_done_at m' = om_done_at m"
    "sends as = [] \<or> (\<exists>i < chunks_sent (packet_size cfg) m. sends as = [(b, chunk_frag (packet_size cfg) D mid i)])"
    "s_out s \<noteq> [] \<Longrightarrow> \<forall>t. om_done_at m = Some t \<longrightarrow> now - t < linger cfg \<Longrightarrow> s_out s' \<noteq> []"
    "s_out s \<noteq> [] \<Longrightarrow> om_done_at m = None \<Longrightarrow> poke_timeout cfg \<le> now - om_last_progress m \<Longrightarrow> sends as \<noteq> []"
proof (cases "s_out s = []")
  case True
  then have "sender_tick ord s now = Inr (s, [])" by (simp add: sender_tick_def expire_def iter_order_Nil [OF ord])
  then show thesis using s True by (intro that [of s "[]" m]) simp_all
next
  case False
  let ?key = "(b, mid)" and ?ps = "packet_size cfg"
  have o: "s_out s = [(?key, m)]" and inv: "sender_inv s" "s_cfg s = cfg" and sm: "out_safely cfg D m"
    using s False by (auto simp: sends_safely_def)
  note f = sends_facts [OF s]
  consider t where "om_done_at m = Some t" "linger cfg \<le> now - t"
    | "\<forall>t. om_done_at m = Some t \<longrightarrow> now - t < linger cfg" "stalled s now m"
    | "\<forall>t. om_done_at m = Some t \<longrightarrow> now - t < linger cfg" "\<not> stalled s now m"
    by (meson not_le)
  then show thesis
  proof cases
    case 1
    let ?s = "s\<lparr>s_out := []\<rparr>"
    have "expire s now = ?s" using 1 o inv(2) by (simp add: expire_def)
    then have "sender_tick ord s now = Inr (?s, [])" by (simp add: sender_tick_def iter_order_Nil [OF ord])
    moreover have "sender_inv ?s" using inv(1) by (simp add: sender_inv_def)
    ultimately show thesis using 1 sm inv(2) by (intro that [of ?s "[]" m]) (auto simp: sends_safely_def)
  next
    case 2
    let ?m = "m\<lparr>om_last_progress := now\<rparr>"
    let ?s = "s\<lparr>s_out := AList.update ?key ?m (s_out s)\<rparr>"
    have e: "expire s now = s" using 2(1) o inv(2) by (cases s) (auto simp: expire_def split: option.splits)
    have "sender_tick ord s now = poke_loop s [?key] now"
      by (simp add: sender_tick_def e o iter_order_single [OF ord])
    then have tick: "sender_tick ord s now = Inr (?s, [probe ?ps ?key m])"
      using poke_loop_step [OF inv(1) _ 2(2), of ?key "[]"] o inv(2) by simp
    have "om_ok ?ps m" using sm by (simp add: out_safely_def)
    then have ok: "om_ok ?ps ?m" by (simp add: om_ok_def)
    have pos: "0 < om_next_send m" and dt: "om_data m = D" using sm by (simp_all add: out_safely_def)
    let ?i = "(om_next_send m - 1) div ?ps"
    have "?i * ?ps \<le> om_next_send m - 1" by simp
    then have "?i * ?ps < om_next_send m" using pos by linarith
    then have i: "?i < chunks_sent ?ps m" by (simp add: chunks_sent_def chunk_count_le_iff [OF f(1)])
    have "probe ?ps ?key m = Send b (chunk_frag ?ps D mid ?i)"
      using probe_chunks [OF pos, of ?ps ?key] dt by (simp add: sends_chunks_def)
    moreover have "sends_safely cfg ?key D ?s ?m"
      using sender_inv_update [OF inv(1), of ?m ?key] ok sm o inv(2) by (simp add: sends_safely_def out_safely_def)
    ultimately show thesis using tick i o by (intro that [of ?s "[probe ?ps ?key m]" ?m]) auto
  next
    case 3
    have e: "expire s now = s" using 3(1) o inv(2) by (cases s) (auto simp: expire_def split: option.splits)
    have "sender_tick ord s now = poke_loop s [?key] now"
      by (simp add: sender_tick_def e o iter_order_single [OF ord])
    also have "\<dots> = Inr (s, [])" using poke_loop_skip [of s ?key now "[]"] 3(2) o by simp
    finally show thesis using s 3 inv(2) False by (intro that [of s "[]" m]) (auto simp: stalled_def)
  qed
qed

lemma lossy_probe:
  assumes s: "sends_safely cfg (b, mid) D (ss_sender n) m" and ord: "iter_order ord"
    and fl: "\<forall>x \<in> set (ss_flight n). known cfg a b mid D m x"
  obtains n' m' where "sender_timer n ord now = Inr (n', [])" "sends_safely cfg (b, mid) D (ss_sender n') m'"
    "ss_receiver n' = ss_receiver n" "om_next_send m' = om_next_send m" "om_done_at m' = om_done_at m"
    "\<forall>x \<in> set (ss_flight n'). known cfg a b mid D m' x" "load T (ss_flight n') \<le> load T (ss_flight n) + 1"
    "s_out (ss_sender n) \<noteq> [] \<Longrightarrow> \<forall>t. om_done_at m = Some t \<longrightarrow> now - t < linger cfg \<Longrightarrow> s_out (ss_sender n') \<noteq> []"
    "s_out (ss_sender n) \<noteq> [] \<Longrightarrow> om_done_at m = None \<Longrightarrow> poke_timeout cfg \<le> now - om_last_progress m \<Longrightarrow>
       \<exists>J. J * packet_size cfg < length D \<and> coming (packet_size cfg) a b mid D J (ss_flight n')"
proof -
  let ?ps = "packet_size cfg"
  obtain s' m' as where h: "sender_tick ord (ss_sender n) now = Inr (s', as)" "delivers as = []" "sends_safely cfg (b, mid) D s' m'"
    "om_next_send m' = om_next_send m" "om_done_at m' = om_done_at m"
    "sends as = [] \<or> (\<exists>i < chunks_sent ?ps m. sends as = [(b, chunk_frag ?ps D mid i)])"
    "s_out (ss_sender n) \<noteq> [] \<Longrightarrow> \<forall>t. om_done_at m = Some t \<longrightarrow> now - t < linger cfg \<Longrightarrow> s_out s' \<noteq> []"
    "s_out (ss_sender n) \<noteq> [] \<Longrightarrow> om_done_at m = None \<Longrightarrow> poke_timeout cfg \<le> now - om_last_progress m \<Longrightarrow> sends as \<noteq> []"
    by (rule sender_probe [OF s ord, of now], rule that) (assumption | simp)+
  note f = sends_facts [OF s]
  let ?n = "n\<lparr>ss_sender := s', ss_flight := ss_flight n @ sends as\<rparr>"
  have cs: "chunks_sent ?ps m' = chunks_sent ?ps m" using h(4) by (simp add: chunks_sent_def)
  have start: "i * ?ps < length D" if "i < chunks_sent ?ps m" for i
    using that f(3) chunk_count_le_iff [OF f(1), of i "om_next_send m" 0] by (simp add: chunks_sent_def)
  have "load T (sends as) \<le> 1" using h(6) start weight_chunk [OF f(1) _ f(6)] by (auto simp: load_def)
  moreover have "\<forall>x \<in> set (sends as). known cfg a b mid D m' x" using h(6) cs by (auto simp: known_def)
  moreover have "\<forall>x \<in> set (ss_flight n). known cfg a b mid D m' x" using fl known_mono cs by (metis order_refl)
  moreover have "\<exists>J. J * ?ps < length D \<and> coming ?ps a b mid D J (ss_flight n @ sends as)"
    if live: "s_out (ss_sender n) \<noteq> []" "om_done_at m = None" "poke_timeout cfg \<le> now - om_last_progress m"
  proof -
    obtain i where "i < chunks_sent ?ps m" "sends as = [(b, chunk_frag ?ps D mid i)]" using h(6) h(8) [OF live] by blast
    then show ?thesis using start by (intro exI [of _ i]) (simp add: coming_def)
  qed
  moreover have "sender_timer n ord now = Inr (?n, [])" using h(1,2) by (simp add: sender_timer_def)
  ultimately show thesis using h(3-5,7) by (intro that [of ?n m']) (simp_all add: ball_Un)
qed

text \<open>Giving up.\<close>

lemma sends_finish:
  assumes "sends_safely cfg key D s m"
  shows "sends_safely cfg key D (finish s b mid) m"
proof -
  have "finish s b mid = s \<or> finish s b mid = s\<lparr>s_out := []\<rparr>"
  proof (cases "s_out s = [((b, mid), m)]")
    case False
    then have "AList.delete (b, mid) (s_out s) = s_out s" using assms by (auto simp: sends_safely_def)
    then show ?thesis by (cases s) (simp add: finish_def)
  qed (simp add: finish_def)
  moreover have "sender_inv (s\<lparr>s_out := []\<rparr>)" using assms by (auto simp: sends_safely_def sender_inv_def)
  ultimately show ?thesis using assms by (auto simp: sends_safely_def)
qed

lemma linked_finish:
  "linked cfg a b mid D n m R G \<Longrightarrow> linked cfg a b mid D (n\<lparr>ss_sender := finish (ss_sender n) b mid'\<rparr>) m R G"
  by (simp add: linked_def sends_finish)

lemma finished_finish:
  "finished cfg a b mid D n m \<Longrightarrow> finished cfg a b mid D (n\<lparr>ss_sender := finish (ss_sender n) b mid'\<rparr>) m"
  by (simp add: finished_def sends_finish)

section \<open>Any run is safe\<close>

text \<open>Loss and repetition bring nothing new.\<close>

lemma network_flight:
  assumes "(\<exists>k. e = Lost k) \<or> (\<exists>k. e = Repeated k)"
  shows "\<exists>fl. lossy_step a b n e = Inr (n\<lparr>ss_flight := fl\<rparr>, []) \<and> set fl \<subseteq> set (ss_flight n)"
proof (cases "\<exists>k. e = Lost k")
  case True
  then obtain k where e: "e = Lost k" by blast
  show ?thesis using subset_without [of "k mod length (ss_flight n)" "ss_flight n"] unfolding e lossy_step.simps Let_def by blast
next
  case False
  then obtain k where e: "e = Repeated k" using assms by blast
  show ?thesis
  proof (cases "ss_flight n = []")
    case False
    then have "ss_flight n ! (k mod length (ss_flight n)) \<in> set (ss_flight n)" by simp
    then show ?thesis unfolding e using False by (auto intro!: exI [of _ "ss_flight n @ [ss_flight n ! (k mod length (ss_flight n))]"])
  qed (auto simp: e intro!: exI [of _ "[]"])
qed

lemma linked_flight:
  "linked cfg a b mid D n m R G \<Longrightarrow> set fl \<subseteq> set (ss_flight n) \<Longrightarrow> linked cfg a b mid D (n\<lparr>ss_flight := fl\<rparr>) m R G"
  by (auto simp: linked_def)

lemma finished_flight:
  "finished cfg a b mid D n m \<Longrightarrow> set fl \<subseteq> set (ss_flight n) \<Longrightarrow> finished cfg a b mid D (n\<lparr>ss_flight := fl\<rparr>) m"
  by (auto simp: finished_def)

lemma lossy_linked:
  assumes n: "linked cfg a b mid D n m R G" and ab: "a \<noteq> b" and cfg: "2 \<le> grant_increment cfg" "0 < max_incoming cfg"
    and e: "lossy_ok e"
  shows "(\<exists>n' m' R' G'. lossy_step a b n e = Inr (n', []) \<and> linked cfg a b mid D n' m' R' G')
    \<or> (\<exists>n' m'. lossy_step a b n e = Inr (n', [((a, mid), D)]) \<and> finished cfg a b mid D n' m')"
proof (cases e)
  case (Arrives k ord now)
  show ?thesis
  proof (cases "ss_flight n = []")
    case True
    with n Arrives show ?thesis by auto
  next
    case False
    then have i: "k mod length (ss_flight n) < length (ss_flight n)" by simp
    have "iter_order ord" using e Arrives by simp
    from linked_arrival [OF n ab cfg(2) this i, of now] show ?thesis using Arrives False by (metis lossy_step.simps(1) session_step.simps)
  qed
next
  case (Ticks ord ord' now)
  then have "iter_order ord" "iter_order ord'" using e by simp_all
  from linked_tick [OF n this cfg(1), of now] show ?thesis using Ticks by (metis lossy_step.simps(4))
next
  case (Probes ord now)
  have s: "sends_safely cfg (b, mid) D (ss_sender n) m" "\<forall>x \<in> set (ss_flight n). known cfg a b mid D m x"
    using n by (simp_all add: linked_def)
  have io: "iter_order ord" using e Probes by simp
  obtain n' m' where h: "sender_timer n ord now = Inr (n', [])" "sends_safely cfg (b, mid) D (ss_sender n') m'"
    "ss_receiver n' = ss_receiver n" "om_next_send m' = om_next_send m" "\<forall>x \<in> set (ss_flight n'). known cfg a b mid D m' x"
    by (rule lossy_probe [OF s(1) io s(2), of now 0]) blast
  then have "linked cfg a b mid D n' m' R G" using n by (simp add: linked_def sent_set_def chunks_sent_def)
  with h(1) Probes show ?thesis by auto
next
  case (GivesUp mid')
  then show ?thesis using linked_finish [OF n, of mid'] by auto
qed (use network_flight [of e a b n] linked_flight [OF n] in \<open>blast+\<close>)

lemma lossy_finished:
  assumes n: "finished cfg a b mid D n m" and ab: "a \<noteq> b" and e: "lossy_ok e"
  shows "\<exists>n' m'. lossy_step a b n e = Inr (n', []) \<and> finished cfg a b mid D n' m'"
proof (cases e)
  case (Arrives k ord now)
  show ?thesis
  proof (cases "ss_flight n = []")
    case True
    with n Arrives show ?thesis by auto
  next
    case False
    then have i: "k mod length (ss_flight n) < length (ss_flight n)" by simp
    have "iter_order ord" using e Arrives by simp
    from finished_arrival [OF n ab this i, of now] show ?thesis using Arrives False by (metis lossy_step.simps(1) session_step.simps)
  qed
next
  case (Ticks ord ord' now)
  then have "iter_order ord" "iter_order ord'" using e by simp_all
  from finished_tick [OF n this, of now] show ?thesis using Ticks by (metis lossy_step.simps(4))
next
  case (Probes ord now)
  have s: "sends_safely cfg (b, mid) D (ss_sender n) m" "\<forall>x \<in> set (ss_flight n). known cfg a b mid D m x"
    using n by (simp_all add: finished_def)
  have io: "iter_order ord" using e Probes by simp
  obtain n' m' where h: "sender_timer n ord now = Inr (n', [])" "sends_safely cfg (b, mid) D (ss_sender n') m'"
    "ss_receiver n' = ss_receiver n" "om_next_send m' = om_next_send m" "\<forall>x \<in> set (ss_flight n'). known cfg a b mid D m' x"
    by (rule lossy_probe [OF s(1) io s(2), of now 0]) blast
  then have "finished cfg a b mid D n' m'" using n by (simp add: finished_def)
  with h(1) Probes show ?thesis by auto
next
  case (GivesUp mid')
  then show ?thesis using finished_finish [OF n, of mid'] by auto
qed (use network_flight [of e a b n] finished_flight [OF n] in \<open>blast+\<close>)

lemma run_finished:
  "finished cfg a b mid D n m \<Longrightarrow> a \<noteq> b \<Longrightarrow> list_all lossy_ok es \<Longrightarrow>
     \<exists>n' m'. run_steps (lossy_step a b) n es = Inr (n', []) \<and> finished cfg a b mid D n' m'"
proof (induction es arbitrary: n m)
  case (Cons e es)
  from Cons.prems(3) have "lossy_ok e" by simp
  from lossy_finished [OF Cons.prems(1,2) this] obtain n' m' where "lossy_step a b n e = Inr (n', [])" "finished cfg a b mid D n' m'"
    by blast
  with Cons.IH [OF this(2) Cons.prems(2)] Cons.prems(3) show ?case by auto
qed auto

lemma run_linked:
  "linked cfg a b mid D n m R G \<Longrightarrow> a \<noteq> b \<Longrightarrow> 2 \<le> grant_increment cfg \<Longrightarrow> 0 < max_incoming cfg \<Longrightarrow> list_all lossy_ok es \<Longrightarrow>
     (\<exists>n' m' R' G'. run_steps (lossy_step a b) n es = Inr (n', []) \<and> linked cfg a b mid D n' m' R' G')
     \<or> (\<exists>n' m'. run_steps (lossy_step a b) n es = Inr (n', [((a, mid), D)]) \<and> finished cfg a b mid D n' m')"
proof (induction es arbitrary: n m R G)
  case (Cons e es)
  have es: "list_all lossy_ok es" "lossy_ok e" using Cons.prems(5) by simp_all
  consider n' m' R' G' where "lossy_step a b n e = Inr (n', [])" "linked cfg a b mid D n' m' R' G'"
    | n' m' where "lossy_step a b n e = Inr (n', [((a, mid), D)])" "finished cfg a b mid D n' m'"
    using lossy_linked [OF Cons.prems(1-4) es(2)] by blast
  then show ?case
  proof cases
    case 1
    with Cons.IH [OF 1(2) Cons.prems(2-4) es(1)] show ?thesis by auto
  next
    case 2
    with run_finished [OF 2(2) Cons.prems(2) es(1)] show ?thesis by auto
  qed
qed auto

end
