(* ===== verification/Recovery.thy ===== *)
theory Recovery
  imports Loss
begin

text \<open>
  Recovery from loss: however much has been lost in the session of \<open>Loss\<close>, each round of timers and
  answers, once the network works, brings a missing chunk, until the message is delivered.
\<close>

section \<open>Rounds\<close>

text \<open>
  A round: the sender's timer at \<open>s\<close>, the receiver's at \<open>t\<close> with the orders of its two iterations, then
  arrivals until \<open>u\<close>. In good rounds from \<open>\<sigma>\<close> on, the receiver's timer is due, the network does not lose or
  repeat but lets at least \<open>N\<close> datagrams through, and the sender's timer does not fire later than the time for
  which a sender lingers after \<open>\<sigma>\<close>.
\<close>

type_synonym round = "(msg_key list \<Rightarrow> msg_key list) \<times> instant \<times> (msg_key list \<Rightarrow> msg_key list) \<times>
  (msg_key list \<Rightarrow> msg_key list) \<times> instant \<times> instant \<times> lossy_event list"

fun round_events :: "round \<Rightarrow> lossy_event list" where
  "round_events (ords, s, ord, ord', t, u, cs) = Probes ords s # Ticks ord ord' t # cs"

fun arrives_within :: "instant \<Rightarrow> instant \<Rightarrow> lossy_event \<Rightarrow> bool" where
  "arrives_within \<sigma> u (Arrives k ord now) = (iter_order ord \<and> \<sigma> \<le> now \<and> now \<le> u)"
| "arrives_within \<sigma> u e = False"

fun good_rounds :: "transport_config \<Rightarrow> nat \<Rightarrow> instant \<Rightarrow> instant \<Rightarrow> round list \<Rightarrow> bool" where
  "good_rounds cfg N \<sigma> \<tau> [] = True"
| "good_rounds cfg N \<sigma> \<tau> ((ords, s, ord, ord', t, u, cs) # rs) =
     (iter_order ords \<and> iter_order ord \<and> iter_order ord' \<and> \<sigma> \<le> s \<and> s < \<sigma> + linger cfg
      \<and> \<tau> + resend_timeout cfg \<le> t \<and> t \<le> u
      \<and> list_all (arrives_within \<sigma> u) cs \<and> N \<le> length cs \<and> good_rounds cfg N \<sigma> u rs)"

lemma arrives_within_ok: "list_all (arrives_within \<sigma> u) cs \<Longrightarrow> list_all lossy_ok cs"
  by (induction cs) (auto elim: arrives_within.elims)

lemma good_rounds_ok: "good_rounds cfg N \<sigma> \<tau> rs \<Longrightarrow> list_all lossy_ok (concat (map round_events rs))"
  by (induction cfg N \<sigma> \<tau> rs rule: good_rounds.induct) (auto simp: arrives_within_ok)

lemma arrive_late_done:
  assumes "arrive a b n i ord now = Inr (n', out)" "done_late \<sigma> (ss_sender n)" "\<sigma> \<le> now"
  shows "done_late \<sigma> (ss_sender n')"
  using assms touched_late [OF at_sender_touched _ assms(3)]
  by (auto simp: arrive_def bind_res_Inr_iff Let_def split: sum.splits prod.splits if_splits)

lemma run_empty: "ss_flight n = [] \<Longrightarrow> list_all (arrives_within \<sigma> u) cs \<Longrightarrow> run_steps (lossy_step a b) n cs = Inr (n, [])"
  by (induction cs) (auto elim!: arrives_within.elims)

lemma drain:
  "linked cfg a b mid D n m R G \<Longrightarrow> a \<noteq> b \<Longrightarrow> 2 \<le> grant_increment cfg \<Longrightarrow> 0 < max_incoming cfg \<Longrightarrow>
     list_all (arrives_within \<sigma> u) cs \<Longrightarrow> effort cfg D m G (ss_flight n) \<le> length cs \<Longrightarrow> J * packet_size cfg < length D \<Longrightarrow>
     coming (packet_size cfg) a b mid D J (ss_flight n) \<or> J \<in> R \<Longrightarrow> recent J u (ss_receiver n) \<Longrightarrow>
     s_out (ss_sender n) \<noteq> [] \<Longrightarrow> done_late \<sigma> (ss_sender n) \<Longrightarrow>
     (\<exists>n' m' R' G'. run_steps (lossy_step a b) n cs = Inr (n', []) \<and> linked cfg a b mid D n' m' R' G'
        \<and> ss_flight n' = [] \<and> insert J R \<subseteq> R' \<and> recent J u (ss_receiver n')
        \<and> s_out (ss_sender n') \<noteq> [] \<and> done_late \<sigma> (ss_sender n'))
     \<or> (\<exists>n' m'. run_steps (lossy_step a b) n cs = Inr (n', [((a, mid), D)]) \<and> finished cfg a b mid D n' m')"
proof (induction cs arbitrary: n m R G)
  case Nil
  have "load (chunk_count (packet_size cfg) (length D) 0) (ss_flight n) = 0" using Nil.prems(6) by (simp add: effort_def)
  then have e: "ss_flight n = []" using load_pos by (metis less_irrefl)
  then have "J \<in> R" using Nil.prems(8) by (simp add: coming_def)
  then show ?case using Nil.prems(1,9-11) e by auto
next
  case (Cons c cs)
  obtain k ord now where c: "c = Arrives k ord now" "iter_order ord" "now \<le> u" "\<sigma> \<le> now" using Cons.prems(5) by (auto elim: arrives_within.elims)
  have cs: "list_all (arrives_within \<sigma> u) cs" using Cons.prems(5) by simp
  show ?case
  proof (cases "ss_flight n = []")
    case True
    then have "J \<in> R" using Cons.prems(8) by (simp add: coming_def)
    then show ?thesis using run_empty [OF True Cons.prems(5)] Cons.prems(1,9-11) True by blast
  next
    case False
    let ?i = "k mod length (ss_flight n)"
    have i: "?i < length (ss_flight n)" using False by simp
    have st: "lossy_step a b n c = arrive a b n ?i ord now" using False by (simp add: c)
    show ?thesis
    proof (rule linked_arrival [OF Cons.prems(1,2,4) c(2) i, of now])
      fix n' m' R' G'
      assume h: "arrive a b n ?i ord now = Inr (n', [])" "linked cfg a b mid D n' m' R' G'" "R \<subseteq> R'"
        "effort cfg D m' G' (ss_flight n') < effort cfg D m G (ss_flight n)"
        "s_out (ss_sender n) \<noteq> [] \<Longrightarrow> s_out (ss_sender n') \<noteq> []"
        "\<And>J. s_out (ss_sender n) \<noteq> [] \<Longrightarrow> J * packet_size cfg < length D \<Longrightarrow>
           coming (packet_size cfg) a b mid D J (ss_flight n) \<Longrightarrow>
           coming (packet_size cfg) a b mid D J (ss_flight n') \<or> J \<in> R'"
      have "effort cfg D m' G' (ss_flight n') \<le> length cs" using h(4) Cons.prems(6) by simp
      moreover have "coming (packet_size cfg) a b mid D J (ss_flight n') \<or> J \<in> R'" using h(3) h(6) [OF Cons.prems(10,7)] Cons.prems(8) by blast
      moreover have "recent J u (ss_receiver n')" by (rule arrive_recent [OF h(1) Cons.prems(9) c(3)])
      moreover note h(5) [OF Cons.prems(10)]
      moreover have "done_late \<sigma> (ss_sender n')" by (rule arrive_late_done [OF h(1) Cons.prems(11) c(4)])
      ultimately show ?thesis using Cons.IH [OF h(2) Cons.prems(2-4) cs _ Cons.prems(7)] h(1,3) st by fastforce
    next
      fix n' m'
      assume h: "arrive a b n ?i ord now = Inr (n', [((a, mid), D)])" "finished cfg a b mid D n' m'"
      from run_finished [OF h(2) Cons.prems(2) arrives_within_ok [OF cs]] h(1) st show ?thesis by auto
    qed
  qed
qed

text \<open>A round brings a chunk that was missing.\<close>

lemma linked_entry:
  assumes "linked cfg a b mid D n m R G" "R \<noteq> {}"
  obtains im where "r_incoming (ss_receiver n) = [((a, mid), im)]" "R = marked im"
  using assms by (auto simp: linked_def receiving_def)

lemma linked_marked:
  assumes "linked cfg a b mid D n m R G"
  shows "R \<subset> {..<chunk_count (packet_size cfg) (length D) 0}"
proof -
  let ?T = "chunk_count (packet_size cfg) (length D) 0"
  have rc: "receiving cfg (a, mid) D (ss_receiver n) R G" and s: "sends_safely cfg (b, mid) D (ss_sender n) m"
    using assms by (simp_all add: linked_def)
  note ps = sends_facts(1) [OF s] and D = sends_facts(7) [OF s]
  show ?thesis
  proof (cases "R = {}")
    case True
    then show ?thesis using chunk_count_pos [OF ps, of "length D"] D by auto
  next
    case False
    obtain im where im: "r_incoming (ss_receiver n) = [((a, mid), im)]" "R = marked im"
      by (rule linked_entry [OF assms False])
    then have h: "holds (packet_size cfg) D im" "\<not> complete im" "recv_inv (ss_receiver n)" "r_cfg (ss_receiver n) = cfg"
      using rc by (auto simp: receiving_def)
    have "in_msg_ok cfg im" using recv_inv_entry [OF h(3), of "(a, mid)" im] im(1) h(4) by simp
    from marked_all [OF ps this h(1) D] h(2) im(2) show ?thesis by blast
  qed
qed

lemma effort_bound:
  assumes "load (chunk_count (packet_size cfg) (length D) 0) xs \<le> (chunk_count (packet_size cfg) (length D) 0 + 2) * F"
    "0 < packet_size cfg"
    "load (chunk_count (packet_size cfg) (length D) 0) ys \<le> load (chunk_count (packet_size cfg) (length D) 0) xs
       + 1 + 2 * (chunk_count (packet_size cfg) (length D) 0 + 2)"
  shows "effort cfg D m G ys \<le> (length D + 3) * (F + 4)"
proof -
  let ?T = "chunk_count (packet_size cfg) (length D) 0"
  have T: "?T \<le> length D" using assms(2)
    by (metis chunk_count_le_iff add_0 le_less_linear less_irrefl less_le_trans mult.right_neutral mult_le_mono2 Suc_leI One_nat_def)
  then have "(?T + 2) * F \<le> (length D + 2) * F" by (intro mult_le_mono1) simp
  moreover have "2 * (?T + 2) \<le> 2 * (length D + 2)" using T by simp
  ultimately have "load ?T ys \<le> (length D + 2) * F + 1 + 2 * (length D + 2)"
    using assms(1,3) by (meson add_mono le_refl le_trans)
  moreover have "length D - G \<le> length D" "?T - chunks_sent (packet_size cfg) m \<le> length D" using T by simp_all
  ultimately have "effort cfg D m G ys \<le> length D + length D + ((length D + 2) * F + 1 + 2 * (length D + 2))"
    unfolding effort_def by (intro add_mono)
  also have "\<dots> \<le> (length D + 3) * (F + 4)" by (simp add: algebra_simps)
  finally show ?thesis .
qed

text \<open>Both timers: a chunk or a request for one is in flight then.\<close>

lemma both_timers:
  assumes n: "linked cfg a b mid D n m R G" and cfg: "2 \<le> grant_increment cfg"
    and live: "s_out (ss_sender n) \<noteq> []" "done_late \<sigma> (ss_sender n)"
    and prog: "r_incoming (ss_receiver n) = [] \<Longrightarrow> om_done_at m = None \<and> om_last_progress m + poke_timeout cfg \<le> \<sigma>"
    and last: "\<And>im. r_incoming (ss_receiver n) = [((a, mid), im)] \<Longrightarrow> im_last_progress im \<le> \<tau>"
    and ok: "iter_order ords" "iter_order ord" "iter_order ord'" "\<sigma> \<le> s" "s < \<sigma> + linger cfg" "\<tau> + resend_timeout cfg \<le> t"
  obtains n' m' R' G' J where "run_steps (lossy_step a b) n [Probes ords s, Ticks ord ord' t] = Inr (n', [])"
    "linked cfg a b mid D n' m' R' G'" "s_out (ss_sender n') \<noteq> []" "done_late \<sigma> (ss_sender n')"
    "load T (ss_flight n') \<le> load T (ss_flight n) + 1 + 2 * (T + 2)"
    "J * packet_size cfg < length D" "recent J t (ss_receiver n')" "coming (packet_size cfg) a b mid D J (ss_flight n')"
    "\<And>im. r_incoming (ss_receiver n) = [((a, mid), im)] \<Longrightarrow> im_unanswered_resends im < MAX_UNANSWERED_RESENDS \<Longrightarrow>
       R' = R \<and> J \<notin> R"
proof -
  let ?ps = "packet_size cfg"
  have s: "sends_safely cfg (b, mid) D (ss_sender n) m" and fl: "\<forall>x \<in> set (ss_flight n). known cfg a b mid D m x"
    and rc: "receiving cfg (a, mid) D (ss_receiver n) R G"
    using n by (simp_all add: linked_def)
  have o: "s_out (ss_sender n) = [((b, mid), m)]" using s live(1) by (simp add: sends_safely_def)
  have lg: "\<forall>t. om_done_at m = Some t \<longrightarrow> s - t < linger cfg"
    using all_entriesD [OF live(2) [unfolded done_late_def], of "(b, mid)" m] o ok(4,5) by fastforce
  obtain n1 m1 where h: "sender_timer n ords s = Inr (n1, [])" "sends_safely cfg (b, mid) D (ss_sender n1) m1"
    "ss_receiver n1 = ss_receiver n" "om_next_send m1 = om_next_send m" "om_done_at m1 = om_done_at m"
    "\<forall>x \<in> set (ss_flight n1). known cfg a b mid D m1 x" "load T (ss_flight n1) \<le> load T (ss_flight n) + 1"
    "s_out (ss_sender n) \<noteq> [] \<Longrightarrow> \<forall>t. om_done_at m = Some t \<longrightarrow> s - t < linger cfg \<Longrightarrow> s_out (ss_sender n1) \<noteq> []"
    "s_out (ss_sender n) \<noteq> [] \<Longrightarrow> om_done_at m = None \<Longrightarrow> poke_timeout cfg \<le> s - om_last_progress m \<Longrightarrow>
       \<exists>J. J * ?ps < length D \<and> coming ?ps a b mid D J (ss_flight n1)"
    by (rule lossy_probe [OF s ok(1) fl, of s T], rule that) (assumption | simp)+
  have l1: "linked cfg a b mid D n1 m1 R G" using n h(2-6) by (simp add: linked_def sent_set_def chunks_sent_def)
  have o1: "s_out (ss_sender n1) = [((b, mid), m1)]" using h(2) h(8) [OF live(1) lg] by (simp add: sends_safely_def)
  have d1: "done_late \<sigma> (ss_sender n1)" using live(2) o o1 h(5) by (simp add: done_late_def all_entries_single)
  obtain n2 R2 G2 where k: "timer n1 ord ord' t = Inr (n2, [])" "linked cfg a b mid D n2 m1 R2 G2"
    "load T (ss_flight n2) \<le> load T (ss_flight n1) + 2 * (T + 2)" "ss_sender n2 = ss_sender n1"
    "set (ss_flight n1) \<subseteq> set (ss_flight n2)"
    "r_incoming (ss_receiver n1) = [] \<Longrightarrow> R2 = R \<and> r_incoming (ss_receiver n2) = []"
    "\<And>im. r_incoming (ss_receiver n1) = [((a, mid), im)] \<Longrightarrow> resend_timeout cfg \<le> t - im_last_progress im \<Longrightarrow>
       (im_unanswered_resends im < MAX_UNANSWERED_RESENDS \<longrightarrow> R2 = R)
       \<and> (\<exists>J. J \<notin> R \<and> J * ?ps < length D \<and> recent J t (ss_receiver n2) \<and> coming ?ps a b mid D J (ss_flight n2))"
    by (rule linked_tick [OF l1 ok(2,3) cfg, of t T], rule that) (assumption | simp)+
  have run: "run_steps (lossy_step a b) n [Probes ords s, Ticks ord ord' t] = Inr (n2, [])" using h(1) k(1) by simp
  have ld: "load T (ss_flight n2) \<le> load T (ss_flight n) + 1 + 2 * (T + 2)" using h(7) k(3) by simp
  have live2: "s_out (ss_sender n2) \<noteq> []" "done_late \<sigma> (ss_sender n2)" using o1 d1 k(4) by simp_all
  show thesis
  proof (cases "r_incoming (ss_receiver n) = []")
    case True
    have "poke_timeout cfg \<le> s - om_last_progress m" using conjunct2 [OF prog [OF True]] ok(4) by linarith
    then obtain J where J: "J * ?ps < length D" "coming ?ps a b mid D J (ss_flight n1)"
      using h(9) [OF live(1) conjunct1 [OF prog [OF True]]] by blast
    have "coming ?ps a b mid D J (ss_flight n2)" using J(2) k(5) by (auto simp: coming_def)
    moreover have "recent J t (ss_receiver n2)" using k(6) h(3) True by (simp add: recent_def)
    ultimately show thesis using True by (intro that [OF run k(2) live2 ld J(1)]) auto
  next
    case False
    then obtain im where im: "r_incoming (ss_receiver n) = [((a, mid), im)]" using rc by (auto simp: receiving_def)
    have due: "resend_timeout cfg \<le> t - im_last_progress im" using last [OF im] ok(6) by simp
    note c = k(7) [unfolded h(3), OF im due]
    then obtain J where J: "J \<notin> R" "J * ?ps < length D" "recent J t (ss_receiver n2)" "coming ?ps a b mid D J (ss_flight n2)" by blast
    show thesis by (rule that [OF run k(2) live2 ld J(2-4)]) (use c im J(1) in auto)
  qed
qed

lemma one_round:
  assumes n: "linked cfg a b mid D n m R G" and ab: "a \<noteq> b" and cfg: "2 \<le> grant_increment cfg" "0 < max_incoming cfg"
    and live: "s_out (ss_sender n) \<noteq> []" "done_late \<sigma> (ss_sender n)"
    and prog: "r_incoming (ss_receiver n) = [] \<Longrightarrow> om_done_at m = None \<and> om_last_progress m + poke_timeout cfg \<le> \<sigma>"
    and last: "\<And>im. r_incoming (ss_receiver n) = [((a, mid), im)] \<Longrightarrow> im_last_progress im \<le> \<tau>"
    and fl: "load (chunk_count (packet_size cfg) (length D) 0) (ss_flight n) \<le> (chunk_count (packet_size cfg) (length D) 0 + 2) * F"
    and rd: "good_rounds cfg ((length D + 3) * (F + 4)) \<sigma> \<tau> [(ords, s, ord, ord', t, u, cs)]"
  shows "(\<exists>n' m' R' G' im'. run_steps (lossy_step a b) n (round_events (ords, s, ord, ord', t, u, cs)) = Inr (n', [])
        \<and> linked cfg a b mid D n' m' R' G' \<and> ss_flight n' = [] \<and> s_out (ss_sender n') \<noteq> [] \<and> done_late \<sigma> (ss_sender n')
        \<and> r_incoming (ss_receiver n') = [((a, mid), im')]
        \<and> im_last_progress im' \<le> u \<and> im_unanswered_resends im' = 0 \<and> R' \<noteq> {}
        \<and> (\<forall>im. r_incoming (ss_receiver n) = [((a, mid), im)] \<longrightarrow> im_unanswered_resends im < MAX_UNANSWERED_RESENDS \<longrightarrow>
             card R < card R'))
    \<or> (\<exists>n' m'. run_steps (lossy_step a b) n (round_events (ords, s, ord, ord', t, u, cs)) = Inr (n', [((a, mid), D)])
        \<and> finished cfg a b mid D n' m')"
proof -
  let ?ps = "packet_size cfg" and ?T = "chunk_count (packet_size cfg) (length D) 0"
  have ok: "iter_order ords" "iter_order ord" "iter_order ord'" "\<sigma> \<le> s" "s < \<sigma> + linger cfg" "\<tau> + resend_timeout cfg \<le> t"
    and cs: "t \<le> u" "list_all (arrives_within \<sigma> u) cs" "(length D + 3) * (F + 4) \<le> length cs"
    using rd by auto
  have ps: "0 < ?ps" using n sends_facts(1) by (auto simp: linked_def)
  obtain n1 m1 R1 G1 J where h: "run_steps (lossy_step a b) n [Probes ords s, Ticks ord ord' t] = Inr (n1, [])"
    "linked cfg a b mid D n1 m1 R1 G1" "s_out (ss_sender n1) \<noteq> []" "done_late \<sigma> (ss_sender n1)"
    "load ?T (ss_flight n1) \<le> load ?T (ss_flight n) + 1 + 2 * (?T + 2)"
    "J * ?ps < length D" "recent J t (ss_receiver n1)" "coming ?ps a b mid D J (ss_flight n1)"
    "\<And>im. r_incoming (ss_receiver n) = [((a, mid), im)] \<Longrightarrow> im_unanswered_resends im < MAX_UNANSWERED_RESENDS \<Longrightarrow>
       R1 = R \<and> J \<notin> R"
    by (rule both_timers [OF n cfg(1) live prog last ok, of ?T]) blast+
  have split: "run_steps (lossy_step a b) n (round_events (ords, s, ord, ord', t, u, cs)) = run_steps (lossy_step a b) n1 cs"
    using run_steps_append [of "lossy_step a b" n "[Probes ords s, Ticks ord ord' t]" cs] h(1)
    by (cases "run_steps (lossy_step a b) n1 cs") auto
  have "recent J u (ss_receiver n1)" using h(7) cs(1) by (fastforce simp: recent_def all_entries_def)
  moreover have "effort cfg D m1 G1 (ss_flight n1) \<le> length cs"
    using effort_bound [OF fl ps h(5)] cs(3) le_trans by blast
  ultimately consider n' m' R' G' where "run_steps (lossy_step a b) n1 cs = Inr (n', [])" "linked cfg a b mid D n' m' R' G'"
      "ss_flight n' = []" "insert J R1 \<subseteq> R'" "recent J u (ss_receiver n')" "s_out (ss_sender n') \<noteq> []" "done_late \<sigma> (ss_sender n')"
    | n' m' where "run_steps (lossy_step a b) n1 cs = Inr (n', [((a, mid), D)])" "finished cfg a b mid D n' m'"
    using drain [OF h(2) ab cfg cs(2) _ h(6) _ _ h(3,4)] h(8) by blast
  then show ?thesis
  proof cases
    case 1
    then have ne: "R' \<noteq> {}" by blast
    obtain im' where im': "r_incoming (ss_receiver n') = [((a, mid), im')]" "R' = marked im'"
      by (rule linked_entry [OF 1(2) ne])
    have "im_received im' ! J" using 1(4) im'(2) by (auto simp: marked_def)
    moreover have "im_last_progress im' \<le> u \<and> (im_unanswered_resends im' = 0 \<or> \<not> im_received im' ! J)"
      using all_entriesD [OF 1(5) [unfolded recent_def], of "(a, mid)" im'] im'(1) by simp
    ultimately have "im_last_progress im' \<le> u \<and> im_unanswered_resends im' = 0" by blast
    moreover have "card R < card R'"
      if "r_incoming (ss_receiver n) = [((a, mid), im)]" "im_unanswered_resends im < MAX_UNANSWERED_RESENDS" for im
    proof (rule psubset_card_mono)
      show "finite R'" using linked_marked [OF 1(2)] by (meson finite_lessThan finite_subset psubset_imp_subset)
      show "R \<subset> R'" using h(9) [OF that] 1(4) by blast
    qed
    ultimately show ?thesis unfolding split using 1(1-3,6,7) im'(1) ne by blast
  qed (use split in auto)
qed

lemma good_rounds_Cons:
  "good_rounds cfg N \<sigma> \<tau> (rd # rs) \<Longrightarrow> \<exists>ords s ord ord' t u cs. rd = (ords, s, ord, ord', t, u, cs)
     \<and> good_rounds cfg N \<sigma> \<tau> [(ords, s, ord, ord', t, u, cs)] \<and> good_rounds cfg N \<sigma> u rs"
  by (cases rd) auto

text \<open>Later rounds: every one brings a chunk.\<close>

lemma later_rounds:
  "linked cfg a b mid D n m R G \<Longrightarrow> a \<noteq> b \<Longrightarrow> 2 \<le> grant_increment cfg \<Longrightarrow> 0 < max_incoming cfg \<Longrightarrow>
     s_out (ss_sender n) \<noteq> [] \<Longrightarrow> done_late \<sigma> (ss_sender n) \<Longrightarrow>
     r_incoming (ss_receiver n) = [((a, mid), im)] \<Longrightarrow> im_last_progress im \<le> \<tau> \<Longrightarrow> im_unanswered_resends im = 0 \<Longrightarrow>
     ss_flight n = [] \<Longrightarrow> good_rounds cfg ((length D + 3) * (F + 4)) \<sigma> \<tau> rs \<Longrightarrow>
     chunk_count (packet_size cfg) (length D) 0 \<le> card R + length rs \<Longrightarrow>
     \<exists>n' m'. run_steps (lossy_step a b) n (concat (map round_events rs)) = Inr (n', [((a, mid), D)]) \<and> finished cfg a b mid D n' m'"
proof (induction rs arbitrary: n m R G im \<tau>)
  case Nil
  from psubset_card_mono [OF _ linked_marked [OF Nil.prems(1)]] Nil.prems(12) show ?case by simp
next
  case (Cons rd rs)
  obtain ords s ord ord' t u cs where rd: "rd = (ords, s, ord, ord', t, u, cs)"
    "good_rounds cfg ((length D + 3) * (F + 4)) \<sigma> \<tau> [(ords, s, ord, ord', t, u, cs)]"
    "good_rounds cfg ((length D + 3) * (F + 4)) \<sigma> u rs"
    using good_rounds_Cons [OF Cons.prems(11)] by blast
  have few: "im_unanswered_resends im < MAX_UNANSWERED_RESENDS" using Cons.prems(9) by (simp add: MAX_UNANSWERED_RESENDS_def)
  have fl: "load (chunk_count (packet_size cfg) (length D) 0) (ss_flight n) \<le> (chunk_count (packet_size cfg) (length D) 0 + 2) * F"
    using Cons.prems(10) by simp
  have prog: "r_incoming (ss_receiver n) = [] \<Longrightarrow> om_done_at m = None \<and> om_last_progress m + poke_timeout cfg \<le> \<sigma>"
    and last: "\<And>im'. r_incoming (ss_receiver n) = [((a, mid), im')] \<Longrightarrow> im_last_progress im' \<le> \<tau>"
    using Cons.prems(7,8) by simp_all
  consider n' m' R' G' im' where "run_steps (lossy_step a b) n (round_events rd) = Inr (n', [])" "linked cfg a b mid D n' m' R' G'"
      "ss_flight n' = []" "s_out (ss_sender n') \<noteq> []" "done_late \<sigma> (ss_sender n')"
      "r_incoming (ss_receiver n') = [((a, mid), im')]" "im_last_progress im' \<le> u"
      "im_unanswered_resends im' = 0" "card R < card R'"
    | n' m' where "run_steps (lossy_step a b) n (round_events rd) = Inr (n', [((a, mid), D)])" "finished cfg a b mid D n' m'"
    using one_round [OF Cons.prems(1-6) prog last fl rd(2)] few rd(1) Cons.prems(7) by blast
  then show ?case
  proof cases
    case 1
    have "chunk_count (packet_size cfg) (length D) 0 \<le> card R' + length rs" using 1(9) Cons.prems(12) by simp
    from Cons.IH [OF 1(2) Cons.prems(2-4) 1(4-8,3) rd(3) this] 1(1) show ?thesis by (auto simp: run_steps_append)
  next
    case 2
    from run_finished [OF 2(2) Cons.prems(2) good_rounds_ok [OF rd(3)]] 2(1) show ?thesis by (auto simp: run_steps_append)
  qed
qed

text \<open>
  A message can be recovered from \<open>\<sigma>\<close> on: the sender has it and was not done before \<open>\<sigma>\<close>, and either
  the receiver has an entry, or the sender is not done and its timer is due.
\<close>

fun can_recover :: "transport_config \<Rightarrow> session \<Rightarrow> instant \<Rightarrow> instant \<Rightarrow> bool" where
  "can_recover cfg n \<sigma> \<tau> =
     (case s_out (ss_sender n) of
        [(k, m)] \<Rightarrow> (case om_done_at m of None \<Rightarrow> True | Some t \<Rightarrow> \<sigma> \<le> t)
          \<and> (if r_incoming (ss_receiver n) = [] then om_done_at m = None \<and> om_last_progress m + poke_timeout cfg \<le> \<sigma>
             else list_all (\<lambda>(k, im). im_last_progress im \<le> \<tau>) (r_incoming (ss_receiver n)))
      | _ \<Rightarrow> False)"

text \<open>The first round also uses up what is in flight; the entry may be dropped and made anew in it.\<close>

lemma all_rounds:
  assumes n: "linked cfg a b mid D n m R G" and ab: "a \<noteq> b" and cfg: "2 \<le> grant_increment cfg" "0 < max_incoming cfg"
    and rec: "can_recover cfg n \<sigma> \<tau>"
    and rs: "good_rounds cfg ((length D + 3) * (length (ss_flight n) + 4)) \<sigma> \<tau> rs"
    and len: "chunk_count (packet_size cfg) (length D) 0 \<le> length rs"
  shows "\<exists>n' m'. run_steps (lossy_step a b) n (concat (map round_events rs)) = Inr (n', [((a, mid), D)]) \<and> finished cfg a b mid D n' m'"
proof (cases rs)
  case Nil
  have "card R < chunk_count (packet_size cfg) (length D) 0"
    using psubset_card_mono [OF _ linked_marked [OF n]] by simp
  with len Nil show ?thesis by simp
next
  case (Cons rd rds)
  let ?F = "length (ss_flight n)"
  have "s_out (ss_sender n) = [((b, mid), m)] \<or> s_out (ss_sender n) = []" using n by (simp add: linked_def sends_safely_def)
  then have o: "s_out (ss_sender n) = [((b, mid), m)]" using rec by auto
  have live: "s_out (ss_sender n) \<noteq> []" "done_late \<sigma> (ss_sender n)"
    using rec o by (auto simp: done_late_def all_entries_single split: option.splits)
  have prog: "r_incoming (ss_receiver n) = [] \<Longrightarrow> om_done_at m = None \<and> om_last_progress m + poke_timeout cfg \<le> \<sigma>"
    and last: "\<And>im. r_incoming (ss_receiver n) = [((a, mid), im)] \<Longrightarrow> im_last_progress im \<le> \<tau>"
    using rec o by simp_all
  obtain ords s ord ord' t u cs where rd: "rd = (ords, s, ord, ord', t, u, cs)"
    "good_rounds cfg ((length D + 3) * (?F + 4)) \<sigma> \<tau> [(ords, s, ord, ord', t, u, cs)]"
    "good_rounds cfg ((length D + 3) * (?F + 4)) \<sigma> u rds"
    using good_rounds_Cons rs Cons by blast
  consider n' m' R' G' im' where "run_steps (lossy_step a b) n (round_events rd) = Inr (n', [])" "linked cfg a b mid D n' m' R' G'"
      "ss_flight n' = []" "s_out (ss_sender n') \<noteq> []" "done_late \<sigma> (ss_sender n')"
      "r_incoming (ss_receiver n') = [((a, mid), im')]" "im_last_progress im' \<le> u"
      "im_unanswered_resends im' = 0" "R' \<noteq> {}"
    | n' m' where "run_steps (lossy_step a b) n (round_events rd) = Inr (n', [((a, mid), D)])" "finished cfg a b mid D n' m'"
    using one_round [OF n ab cfg live prog last load_le rd(2)] rd(1) by blast
  then show ?thesis
  proof cases
    case 1
    have "finite R'" using linked_marked [OF 1(2)] by (meson finite_lessThan finite_subset psubset_imp_subset)
    then have "0 < card R'" using 1(9) by (simp add: card_gt_0_iff)
    then have "chunk_count (packet_size cfg) (length D) 0 \<le> card R' + length rds" using len Cons by simp
    from later_rounds [OF 1(2) ab cfg 1(4-8,3) rd(3) this] 1(1) Cons show ?thesis by (auto simp: run_steps_append)
  next
    case 2
    from run_finished [OF 2(2) ab good_rounds_ok [OF rd(3)]] 2(1) Cons show ?thesis by (auto simp: run_steps_append)
  qed
qed

section \<open>The end of recovery\<close>

text \<open>Nothing is in flight, the receiver has no entry, and the sender has nothing that is not done.\<close>

definition silent :: "session \<Rightarrow> bool" where
  "silent n \<longleftrightarrow> ss_flight n = [] \<and> r_incoming (ss_receiver n) = [] \<and> list_all (\<lambda>(k, m). om_done_at m \<noteq> None) (s_out (ss_sender n))"

lemma poke_loop_silent:
  "list_all (\<lambda>(k, m). om_done_at m \<noteq> None) (s_out s) \<Longrightarrow> poke_loop s keys now = Inr (s, [])"
proof (induction keys)
  case (Cons key keys)
  have "om_done_at m \<noteq> None" if "map_of (s_out s) key = Some m" for m
    using Cons.prems map_of_SomeD [OF that] by (auto simp: list_all_iff)
  then show ?case using Cons by (auto split: option.split)
qed simp

lemma silent_step:
  assumes "silent n" "lossy_ok e"
  shows "\<exists>n'. lossy_step a b n e = Inr (n', []) \<and> silent n'"
proof (cases e)
  case (Ticks ord ord' now)
  then show ?thesis using assms
    by (simp add: timer_def receiver_tick_def silent_def iter_order_Nil schedule_none)
next
  case (Probes ord now)
  have "list_all (\<lambda>(k, m). om_done_at m \<noteq> None) (s_out (expire (ss_sender n) now))"
    using assms(1) by (auto simp: silent_def expire_def list_all_iff)
  from poke_loop_silent [OF this] show ?thesis
    using Probes assms(1) \<open>list_all _ (s_out (expire _ _))\<close> by (simp add: sender_timer_def sender_tick_def silent_def)
next
  case (GivesUp mid)
  have "list_all (\<lambda>(k, m). om_done_at m \<noteq> None) (s_out (finish (ss_sender n) b mid))"
    using assms(1) by (auto simp: silent_def finish_def list_all_iff AList.delete_eq)
  then show ?thesis using GivesUp assms(1) by (simp add: silent_def)
qed (use assms in \<open>simp_all add: silent_def Let_def\<close>)

text \<open>The session that \<open>start\<close> begins.\<close>

lemma start_linked:
  assumes s: "sender_inv s" "s_cfg s = cfg" "s_out s = []" and r: "recv_inv r" "r_cfg r = cfg" "r_incoming r = []" "(a, mid) \<notin> set (r_completed r)"
    and D: "safe_msg cfg D" "D \<noteq> []" and st: "start s b mid D now = Inr (s1, as)"
  obtains m G where "linked cfg a b mid D \<lparr>ss_sender = s1, ss_receiver = r, ss_flight = sends as\<rparr> m {} G"
proof -
  let ?ps = "packet_size cfg" and ?u = "min (unscheduled_bytes cfg) (length D)"
  obtain m where n: "sending cfg a b mid D \<lparr>ss_sender = s1, ss_receiver = r, ss_flight = sends as\<rparr> m
      (map Chunk [0..<chunks_sent ?ps m]) {} ?u"
    by (rule start_sending [OF s(1,2) r st])
  have sa: "sender_at cfg (b, mid) D s1 m" and rc: "receiving cfg (a, mid) D r {} ?u"
    and gr: "list_all2 (gram ?ps a b mid D) (sends as) (map Chunk [0..<chunks_sent ?ps m])"
    and g: "om_next_send m \<noteq> length D \<longrightarrow> ?u \<le> om_granted_to m"
    using n by (auto simp: sending_def)
  note f = sender_at_facts [OF sa]
  have "om_next_send m = length D" if "fits_window cfg D"
  proof (rule ccontr)
    assume "om_next_send m \<noteq> length D"
    moreover have "?u = length D" using that by (simp add: fits_window_def)
    ultimately show False using g f(2,3) by simp
  qed
  moreover have "om_ok ?ps m" using sender_inv_om [of s1 "(b, mid)" m] sa by (simp add: sender_at_def)
  moreover have o: "s_out s1 = [((b, mid), m)]"
    using start_eq [of s b mid D now] f(1) s st sa by (auto simp: sender_at_def)
  moreover have "0 < om_next_send m"
  proof -
    have "0 < length D" using D(2) by simp
    then have "0 < unscheduled_bytes cfg"
      using D(1) less_le_trans [of 0 "length D"] unfolding safe_msg_def fits_window_def aligned_windows_def by blast
    then have "0 < om_granted_to m"
      using start_eq [of s b mid D now] f(1) s st sa D(2) by (auto simp: sender_at_def om_started_def Let_def)
    with f(2) show ?thesis by simp
  qed
  ultimately have "sends_safely cfg (b, mid) D s1 m" using sa D f by (simp add: sends_safely_def out_safely_def sender_at_def)
  moreover have "receiver_aligned cfg (only (a, mid) D) (sent_set (a, mid) ?ps m) r"
    using receiving_reasm [OF rc] r by (simp add: receiver_aligned_def)
  moreover have "\<forall>x \<in> set (sends as). known cfg a b mid D m x"
  proof
    fix x assume "x \<in> set (sends as)"
    then obtain i where "i < chunks_sent ?ps m" "x = (b, chunk_frag ?ps D mid i)"
      using gr by (auto simp: list_all2_conv_all_nth in_set_conv_nth)
    then show "known cfg a b mid D m x" unfolding known_def by blast
  qed
  ultimately show thesis using rc by (intro that) (simp add: linked_def)
qed

lemma finished_done:
  assumes "finished cfg a b mid D n m"
  shows "is_done (ss_sender n) b mid"
proof -
  have s: "sends_safely cfg (b, mid) D (ss_sender n) m" "om_next_send m = length D" using assms by (simp_all add: finished_def)
  then have "om_done_at m \<noteq> None" using sends_facts(5) [OF s(1)] by simp
  then show ?thesis using s(1) by (auto simp: sends_safely_def is_done_def)
qed

lemma finished_recovered:
  assumes "finished cfg a b mid D n m"
  shows "\<not> can_recover cfg n \<sigma> \<tau>"
proof -
  have s: "sends_safely cfg (b, mid) D (ss_sender n) m" "om_next_send m = length D" "r_incoming (ss_receiver n) = []"
    using assms by (simp_all add: finished_def)
  then have "om_done_at m \<noteq> None" using sends_facts(5) [OF s(1)] by simp
  then show ?thesis using s(1,3) by (auto simp: sends_safely_def)
qed

section \<open>An example\<close>

definition lossy_config :: transport_config where
  "lossy_config = small_config\<lparr>unscheduled_bytes := 8, grant_increment := 12\<rparr>"

definition lossy_message :: bytes where
  "lossy_message = map word_of_nat [1..<21]"

definition lossy_sender :: sender_core where
  "lossy_sender = fst (projr (start (sender_new lossy_config) (localhost 2) 1 lossy_message 0))"

definition lossy_sent :: "action list" where
  "lossy_sent = snd (projr (start (sender_new lossy_config) (localhost 2) 1 lossy_message 0))"

definition lossy_start :: "datagram list" where
  "lossy_start = sends lossy_sent"

definition lossy_example :: "lossy_event list" where
  "lossy_example = [Lost 0, Lost 0, Ticks rev rev (from_millis 900)]"

definition lossy_round :: "nat \<Rightarrow> round" where
  "lossy_round k = (let t = from_millis (900 + 20 * k) in (rev, t, rev, rev, t, t, replicate 92 (Arrives k rev t)))"

definition lossy_rounds :: "round list" where
  "lossy_rounds = map lossy_round [1, 2, 3, 4, 5]"

lemma lossy_started: "start (sender_new lossy_config) (localhost 2) 1 lossy_message 0 = Inr (lossy_sender, lossy_sent)"
proof -
  have "\<exists>x. start (sender_new lossy_config) (localhost 2) 1 lossy_message 0 = Inr x"
    using start_eq [of "sender_new lossy_config"] by (simp add: sender_new_def lossy_config_def)
  then show ?thesis by (auto simp: lossy_sender_def lossy_sent_def)
qed

lemma lossy_example_result:
  "map_sum id (\<lambda>(n, out). (can_recover lossy_config n (from_millis 900) (from_millis 900), length (ss_flight n)))
     (run_steps (lossy_step (localhost 1) (localhost 2))
        \<lparr>ss_sender = lossy_sender, ss_receiver = receiver_new lossy_config, ss_flight = lossy_start\<rparr> lossy_example)
   = Inr (True, 0)"
  by code_simp

section \<open>Property\<close>

text \<open>
  C5: Loss is recovered from. Let sender and receiver have the same configuration, with an increment of at least 2 and
  room for at least one message; let both be idle and the receiver not have completed this key lately; and let the message be nonempty,
  shorter than 4 GiB and safe: it fits the unscheduled window or the windows are multiples of the packet size
  (for others, see \<open>unaligned_resend_corrupts\<close>). From the start of it, in any run in which the
  network loses, repeats and reorders datagrams as it likes, the timers of both sides fire at any
  times and the sender may give up, no step fails, and nothing but the message is delivered, at most
  once. And if after such a run the sender has the message and either the receiver has begun to receive it
  or the sender has more to send: if from then on there are as many rounds as the message has chunks, each
  of both timers and enough arrivals without further loss, within the time for which the sender lingers, the
  message is delivered, exactly once and byte for byte, and the sender is done. This is so no matter how
  much was lost before, and also when the receiver drops its entry in the first round.
\<close>

theorem recovery_completes:
  assumes "sender_inv s" "s_cfg s = cfg" "s_out s = []"
    "recv_inv r" "r_cfg r = cfg" "r_incoming r = []" "(a, mid) \<notin> set (r_completed r)"
    "D \<noteq> []" "safe_msg cfg D" "a \<noteq> b" "2 \<le> grant_increment cfg" "0 < max_incoming cfg"
    "start s b mid D now = Inr (s1, as)" "list_all lossy_ok es"
  shows "\<exists>n out. run_steps (lossy_step a b) \<lparr>ss_sender = s1, ss_receiver = r, ss_flight = sends as\<rparr> es = Inr (n, out)
    \<and> (out = [] \<or> out = [((a, mid), D)])
    \<and> (\<forall>\<sigma> \<tau> rs. can_recover cfg n \<sigma> \<tau>
         \<longrightarrow> good_rounds cfg ((length D + 3) * (length (ss_flight n) + 4)) \<sigma> \<tau> rs
         \<longrightarrow> chunk_count (packet_size cfg) (length D) 0 \<le> length rs
         \<longrightarrow> (\<exists>n'. out = [] \<and> run_steps (lossy_step a b) n (concat (map round_events rs)) = Inr (n', [((a, mid), D)])
               \<and> is_done (ss_sender n') b mid))"
proof -
  let ?n0 = "\<lparr>ss_sender = s1, ss_receiver = r, ss_flight = sends as\<rparr>"
  obtain m G where "linked cfg a b mid D ?n0 m {} G" by (rule start_linked [OF assms(1-7,9,8,13)])
  from run_linked [OF this assms(10-12,14)] consider
    n m R G where "run_steps (lossy_step a b) ?n0 es = Inr (n, [])" "linked cfg a b mid D n m R G"
    | n m where "run_steps (lossy_step a b) ?n0 es = Inr (n, [((a, mid), D)])" "finished cfg a b mid D n m"
    by blast
  then show ?thesis
  proof cases
    case 1
    with all_rounds [OF 1(2) assms(10-12)] finished_done show ?thesis by blast
  next
    case 2
    note finished_recovered [OF 2(2)]
    with 2(1) show ?thesis by blast
  qed
qed

text \<open>Everything that \<open>start\<close> sent is lost; then five good rounds.\<close>

theorem recovery_completes_witness:
  "let a = localhost 1; b = localhost 2; n0 = \<lparr>ss_sender = lossy_sender, ss_receiver = receiver_new lossy_config, ss_flight = lossy_start\<rparr>
   in \<exists>n n'. run_steps (lossy_step a b) n0 lossy_example = Inr (n, [])
     \<and> run_steps (lossy_step a b) n (concat (map round_events lossy_rounds)) = Inr (n', [((a, 1), lossy_message)])
     \<and> is_done (ss_sender n') b 1"
proof -
  let ?cfg = lossy_config and ?n0 = "\<lparr>ss_sender = lossy_sender, ss_receiver = receiver_new lossy_config, ss_flight = lossy_start\<rparr>"
  have c: "packet_size ?cfg = 4" "unscheduled_bytes ?cfg = 8" "grant_increment ?cfg = 12" "max_incoming ?cfg = 2"
    "resend_timeout ?cfg = from_millis 20" "linger ?cfg = from_secs 5"
    by (simp_all add: lossy_config_def) (simp_all add: small_config_def default_config_def)
  have s: "sender_inv (sender_new ?cfg)" "s_cfg (sender_new ?cfg) = ?cfg" "s_out (sender_new ?cfg) = []"
    using sender_inv_new [of ?cfg] c by (simp_all add: sender_new_def)
  have r: "recv_inv (receiver_new ?cfg)" "r_cfg (receiver_new ?cfg) = ?cfg" "r_incoming (receiver_new ?cfg) = []"
    "(localhost 1, 1) \<notin> set (r_completed (receiver_new ?cfg))"
    using recv_inv_new [of ?cfg] c by (simp_all add: receiver_new_def)
  have D: "lossy_message \<noteq> []" "safe_msg ?cfg lossy_message"
    using c by (simp_all add: lossy_message_def safe_msg_def aligned_windows_def)
  have ab: "localhost 1 \<noteq> localhost 2" by simp
  have w: "2 \<le> grant_increment ?cfg" "0 < max_incoming ?cfg" using c by simp_all
  have st: "start (sender_new ?cfg) (localhost 2) 1 lossy_message 0 = Inr (lossy_sender, lossy_sent)" by (rule lossy_started)
  have es: "list_all lossy_ok lossy_example" by (simp add: lossy_example_def)
  obtain n out where n: "run_steps (lossy_step (localhost 1) (localhost 2)) ?n0 lossy_example = Inr (n, out)"
    "\<And>\<sigma> \<tau> rs. can_recover ?cfg n \<sigma> \<tau> \<Longrightarrow>
       good_rounds ?cfg ((length lossy_message + 3) * (length (ss_flight n) + 4)) \<sigma> \<tau> rs \<Longrightarrow>
       chunk_count (packet_size ?cfg) (length lossy_message) 0 \<le> length rs \<Longrightarrow>
       \<exists>n'. out = [] \<and> run_steps (lossy_step (localhost 1) (localhost 2)) n (concat (map round_events rs))
           = Inr (n', [((localhost 1, 1), lossy_message)]) \<and> is_done (ss_sender n') (localhost 2) 1"
    using recovery_completes [OF s r D ab w st es] unfolding lossy_start_def by metis
  have rec: "can_recover ?cfg n (from_millis 900) (from_millis 900)" and fl: "length (ss_flight n) = 0"
    using lossy_example_result n(1) by (simp_all del: can_recover.simps)
  have "good_rounds ?cfg ((length lossy_message + 3) * (length (ss_flight n) + 4)) (from_millis 900) (from_millis 900) lossy_rounds"
    by (simp add: fl lossy_rounds_def lossy_round_def c lossy_message_def from_millis_def from_secs_def list_all_iff)
  moreover have "chunk_count (packet_size ?cfg) (length lossy_message) 0 \<le> length lossy_rounds"
    by (simp add: c lossy_message_def lossy_rounds_def chunk_count_def)
  ultimately have "\<exists>n'. out = [] \<and> run_steps (lossy_step (localhost 1) (localhost 2)) n (concat (map round_events lossy_rounds))
           = Inr (n', [((localhost 1, 1), lossy_message)]) \<and> is_done (ss_sender n') (localhost 2) 1"
    by (rule n(2) [OF rec])
  then show ?thesis using n(1) unfolding Let_def by blast
qed

text \<open>
  C10: And otherwise it is not. When nothing is in flight, the receiver has no entry and the sender has
  nothing left that is not done, then whatever the timers do and whenever, nothing is sent or delivered
  any more. This is where a message that fits into the unscheduled window ends when all of its
  datagrams are lost: it is done as soon as it is started.
\<close>

theorem silence_is_final:
  assumes "silent n" "list_all lossy_ok es"
  shows "\<exists>n'. run_steps (lossy_step a b) n es = Inr (n', []) \<and> silent n'"
  using assms
proof (induction es arbitrary: n)
  case (Cons e es)
  then obtain n1 where "lossy_step a b n e = Inr (n1, [])" "silent n1" using silent_step [of n e a b] by auto
  with Cons.IH [of n1] Cons.prems(2) show ?case by auto
qed simp

text \<open>A message of 5 bytes, the loss of both its datagrams, and timers for a second after.\<close>

theorem silence_is_final_witness:
  "let n0 = \<lparr>ss_sender = fst (projr (start (sender_new small_config) (localhost 2) 1 [1, 2, 3, 4, 5] 0)),
             ss_receiver = receiver_new small_config,
             ss_flight = sends (snd (projr (start (sender_new small_config) (localhost 2) 1 [1, 2, 3, 4, 5] 0)))\<rparr>;
       n1 = fst (projr (run_steps (lossy_step (localhost 1) (localhost 2)) n0 [Lost 0, Lost 0]));
       timers = concat (map (\<lambda>k. [Probes rev (from_millis k), Ticks rev rev (from_millis k)]) [1..<1000])
   in length (ss_flight n0) = 2 \<and> is_done (ss_sender n0) (localhost 2) 1
     \<and> (\<exists>n'. run_steps (lossy_step (localhost 1) (localhost 2)) n1 timers = Inr (n', []) \<and> silent n')"
proof -
  let ?n0 = "\<lparr>ss_sender = fst (projr (start (sender_new small_config) (localhost 2) 1 [1, 2, 3, 4, 5] 0)),
             ss_receiver = receiver_new small_config,
             ss_flight = sends (snd (projr (start (sender_new small_config) (localhost 2) 1 [1, 2, 3, 4, 5] 0)))\<rparr>"
  let ?n1 = "fst (projr (run_steps (lossy_step (localhost 1) (localhost 2)) ?n0 [Lost 0, Lost 0]))"
  let ?timers = "concat (map (\<lambda>k. [Probes rev (from_millis k), Ticks rev rev (from_millis k)]) [1..<1000])"
  have n0: "length (ss_flight ?n0) = 2 \<and> is_done (ss_sender ?n0) (localhost 2) 1" by code_simp
  have n1: "silent ?n1" by code_simp
  have ok: "list_all lossy_ok ?timers" by (simp add: list_all_iff)
  from n0 silence_is_final [OF n1 ok, of "localhost 1" "localhost 2"] show ?thesis unfolding Let_def by blast
qed

end
