(* ===== verification/Lifecycle.thy ===== *)
theory Lifecycle
  imports Threads Transport
begin

text \<open>
  A \<open>Transport\<close> of \<^verbatim>\<open>src/transport/mod.rs\<close> from \<open>bind\<close> to \<open>drop\<close>: the mutex with its poisoning, the
  shutdown flag, and the IO thread with the positions it can be in. A step is finer than one of
  \<open>transport_step\<close>: the IO thread handles a datagram in one critical section and runs the timer in
  another, and calls of other threads may come between them.
\<close>

section \<open>Binding\<close>

text \<open>
  What the operating system answers to the calls of \<open>bind\<close>: the error of each, if it fails. \<open>parse_addr\<close>
  below is the standard library's parser of socket addresses.
\<close>

record os_answers =
  os_socket :: "io_error option"
  os_recv_buffer :: "nat \<Rightarrow> io_error option"
  os_send_buffer :: "nat \<Rightarrow> io_error option"
  os_bind :: "sockaddr \<Rightarrow> io_error option"
  os_read_timeout :: "duration \<Rightarrow> io_error option"
  os_thread :: "string \<Rightarrow> io_error option"
  os_local_addr :: "io_error + sockaddr"

text \<open>The operator \<open>?\<close> on a call that returns nothing but possibly an error.\<close>

fun attempt :: "io_error option \<Rightarrow> io_error + 'a \<Rightarrow> io_error + 'a" where
  "attempt None r = r"
| "attempt (Some e) r = Inl e"

lemma attempt_Inr_iff [simp]: "attempt a r = Inr x \<longleftrightarrow> a = None \<and> r = Inr x"
  by (cases a) auto

text \<open>
  The mutex of \<open>State\<close>. A thread that panics while it holds the lock poisons it; one that loops for
  ever while it holds the lock never gives it back.
\<close>

datatype mutex = Unlocked | Poisoned | Held

text \<open>
  Where the IO thread is: before it reads the flag; in \<open>recv_from\<close>; before it looks at the clock; out of
  its loop; or dead by a panic.
\<close>

datatype io_pos = IoHead | IoRecv | IoTimer | IoExited | IoPanicked

text \<open>\<open>pr_panicked\<close> lists the calls of \<open>send_to\<close> whose thread has panicked.\<close>

record process =
  pr_transport :: transport
  pr_mutex :: mutex
  pr_shutdown :: bool
  pr_io :: io_pos
  pr_panicked :: "nat list"

definition process_new :: "transport_config \<Rightarrow> instant \<Rightarrow> process" where
  "process_new cfg now =
     \<lparr>pr_transport = transport_new cfg now, pr_mutex = Unlocked, pr_shutdown = False, pr_io = IoHead, pr_panicked = []\<rparr>"

definition transport_bind ::
  "os_answers \<Rightarrow> (string \<Rightarrow> sockaddr option) \<Rightarrow> string \<Rightarrow> transport_config \<Rightarrow> instant \<Rightarrow> io_error + process" where
  "transport_bind os parse_addr addr cfg now =
     attempt (os_socket os)
    (attempt (os_recv_buffer os (socket_buf cfg))
    (attempt (os_send_buffer os (socket_buf cfg))
    (case parse_addr addr of
       None \<Rightarrow> Inl (IoError InvalidInput ''invalid socket address syntax'')
     | Some a \<Rightarrow>
         attempt (os_bind os a)
        (attempt (os_read_timeout os (from_millis 5))
        (attempt (os_thread os ''homa-io'')
          (Inr (process_new cfg now)))))))"

section \<open>Steps\<close>

datatype process_effect = Did effect | SendPanics nat | RecvPanics

text \<open>
  A critical section. \<open>r\<close> is its outcome when the lock can be taken; \<open>panic\<close> is what becomes of the
  thread when \<open>lock().unwrap()\<close> or the section itself panics. Nothing reads the state again once the
  mutex is poisoned, so it is left as it was before the section.
\<close>

definition with_lock ::
  "process \<Rightarrow> fault + (process \<times> effect list) \<Rightarrow> (process \<Rightarrow> process \<times> process_effect list) \<Rightarrow> process \<times> process_effect list" where
  "with_lock p r panic =
     (case pr_mutex p of
        Held \<Rightarrow> (p, [])
      | Poisoned \<Rightarrow> panic p
      | Unlocked \<Rightarrow>
          (case r of
             Inr (p', out) \<Rightarrow> (p', map Did out)
           | Inl f \<Rightarrow> if f = No_return then (p\<lparr>pr_mutex := Held\<rparr>, []) else panic (p\<lparr>pr_mutex := Poisoned\<rparr>)))"

abbreviation set_state :: "state \<Rightarrow> process \<Rightarrow> process" where
  "set_state st p \<equiv> p\<lparr>pr_transport := (pr_transport p)\<lparr>t_state := st\<rparr>\<rparr>"

definition io_dies :: "process \<Rightarrow> process \<times> process_effect list" where
  "io_dies p = (p\<lparr>pr_io := IoPanicked\<rparr>, [])"

text \<open>
  The next step of the IO thread: the test of the \<open>while\<close>; what is done with the result of
  \<open>recv_from\<close>; the timer. \<open>now\<close> is the reading of the clock in the last two.
\<close>

definition io_thread ::
  "process \<Rightarrow> (msg_key list \<Rightarrow> msg_key list) \<Rightarrow> orders \<Rightarrow> recv_result \<Rightarrow> instant \<Rightarrow> process \<times> process_effect list" where
  "io_thread p ord ords res now =
     (let t = pr_transport p
      in case pr_io p of
           IoHead \<Rightarrow> (p\<lparr>pr_io := (if pr_shutdown p then IoExited else IoRecv)\<rparr>, [])
         | IoRecv \<Rightarrow>
             (case res of
                Received buf src \<Rightarrow>
                  (case decode buf of
                     Inl e \<Rightarrow> (p\<lparr>pr_io := IoHead\<rparr>, [])
                   | Inr (pkt, payload) \<Rightarrow>
                       with_lock p
                         (bind_res (io_packet ord (t_state t) src pkt payload now) (\<lambda>(st, out).
                            Inr ((set_state st p)\<lparr>pr_io := IoTimer\<rparr>, out)))
                         io_dies)
              | RecvTimeout \<Rightarrow> (p\<lparr>pr_io := IoTimer\<rparr>, [])
              | RecvError \<Rightarrow> (p\<lparr>pr_io := (if pr_shutdown p then IoExited else IoTimer)\<rparr>, []))
         | IoTimer \<Rightarrow>
             if TICK_INTERVAL \<le> now - t_last_tick t
             then with_lock p
                    (bind_res (io_tick ords (t_state t) now) (\<lambda>(st, out).
                       Inr (p\<lparr>pr_transport := t\<lparr>t_state := st, t_last_tick := now\<rparr>, pr_io := IoHead\<rparr>, out)))
                    io_dies
             else (p\<lparr>pr_io := IoHead\<rparr>, [])
         | IoExited \<Rightarrow> (p, [])
         | IoPanicked \<Rightarrow> (p, []))"

text \<open>The next critical section of the \<open>n\<close>-th call of \<open>send_to\<close>.\<close>

definition proceed_send :: "process \<Rightarrow> nat \<Rightarrow> instant \<Rightarrow> process \<times> process_effect list" where
  "proceed_send p n now =
     (let t = pr_transport p
      in if length (t_calls t) \<le> n \<or> n \<in> set (pr_panicked p) then (p, [])
         else case t_calls t ! n of
                Returned i \<Rightarrow> (p, [])
              | _ \<Rightarrow>
                  with_lock p
                    (bind_res (send_call_step (t_timeout t) (t_state t) (t_calls t ! n) now) (\<lambda>((st, c), out).
                       Inr (p\<lparr>pr_transport := t\<lparr>t_state := st, t_calls := (t_calls t)[n := c]\<rparr>\<rparr>, out)))
                    (\<lambda>p. (p\<lparr>pr_panicked := n # pr_panicked p\<rparr>, [SendPanics n])))"

text \<open>\<open>PShutdown\<close> is \<open>Transport::shutdown\<close>, and the first statement of \<open>drop\<close>.\<close>

datatype process_event =
    PIo "msg_key list \<Rightarrow> msg_key list" orders recv_result instant
  | PSend sockaddr bytes instant
  | PCall nat instant
  | PPoll instant instant
  | PShutdown

fun process_step :: "process \<Rightarrow> process_event \<Rightarrow> fault + (process \<times> process_effect list)" where
  "process_step p (PIo ord ords res now) = Inr (io_thread p ord ords res now)"
| "process_step p (PSend dest data now) =
     (let t = pr_transport p
      in Inr (p\<lparr>pr_transport := t\<lparr>t_counter := t_counter t + 1,
                  t_calls := t_calls t @ [Called (t_counter t) dest data now]\<rparr>\<rparr>, []))"
| "process_step p (PCall n now) = Inr (proceed_send p n now)"
| "process_step p (PPoll deadline now) =
     Inr (with_lock p (let (st, out) = recv_poll (t_state (pr_transport p)) deadline now in Inr (set_state st p, out))
            (\<lambda>p. (p, [RecvPanics])))"
| "process_step p PShutdown = Inr (p\<lparr>pr_shutdown := True\<rparr>, [])"

text \<open>\<open>drop\<close> returns from \<open>join\<close> when the thread is gone, one way or the other.\<close>

definition joined :: "process \<Rightarrow> bool" where
  "joined p \<longleftrightarrow> pr_io p = IoExited \<or> pr_io p = IoPanicked"

fun did :: "process_effect list \<Rightarrow> effect list" where
  "did [] = []"
| "did (Did x # os) = x # did os"
| "did (SendPanics n # os) = did os"
| "did (RecvPanics # os) = did os"

lemma did_append [simp]: "did (os @ os') = did os @ did os'"
  by (induction os rule: did.induct) auto

lemma did_map [simp]: "did (map Did out) = out"
  by (induction out) auto

lemma process_runs: "\<exists>p' out. run_steps process_step p es = Inr (p', out)"
proof (rule steps_run)
  fix p e
  show "\<exists>r. process_step p e = Inr r" by (cases e) (auto simp: Let_def split: prod.splits)
qed

lemma with_lock_cases:
  obtains (held) "pr_mutex p = Held" "with_lock p r panic = (p, [])"
  | (poisoned) "pr_mutex p = Poisoned" "with_lock p r panic = panic p"
  | (runs) p' out where "pr_mutex p = Unlocked" "r = Inr (p', out)" "with_lock p r panic = (p', map Did out)"
  | (hangs) "pr_mutex p = Unlocked" "r = Inl No_return" "with_lock p r panic = (p\<lparr>pr_mutex := Held\<rparr>, [])"
  | (panics) f where "pr_mutex p = Unlocked" "r = Inl f" "f \<noteq> No_return" "with_lock p r panic = panic (p\<lparr>pr_mutex := Poisoned\<rparr>)"
  by (cases "pr_mutex p"; cases r) (auto simp: with_lock_def split: if_splits)


section \<open>The threads over the transport\<close>

text \<open>What an event of the transport has in common with the event of the process it stands for.\<close>

fun lifts :: "process_event \<Rightarrow> transport_event \<Rightarrow> bool" where
  "lifts (PIo ord ords res now) f \<longleftrightarrow> (\<exists>n1 n2. f = TIo ord ords res n1 n2 \<or> f = TIo ord ords RecvTimeout n1 n2)"
| "lifts (PSend dest data now) f \<longleftrightarrow> f = TSend dest data now"
| "lifts (PCall n now) f \<longleftrightarrow> f = TCall n now"
| "lifts (PPoll deadline now) f \<longleftrightarrow> f = TRecv deadline now"
| "lifts PShutdown f \<longleftrightarrow> False"

text \<open>A step of the process that is one step of the transport, or none.\<close>

definition simulated :: "process \<Rightarrow> process_event \<Rightarrow> process \<times> process_effect list \<Rightarrow> bool" where
  "simulated p e r \<longleftrightarrow> (pr_transport (fst r) = pr_transport p \<and> did (snd r) = [])
     \<or> (\<exists>f. transport_step (pr_transport p) f = Inr (pr_transport (fst r), did (snd r)) \<and> lifts e f)"

lemma simulatedI:
  "transport_step (pr_transport p) f = Inr (pr_transport p', out) \<Longrightarrow> lifts e f \<Longrightarrow> simulated p e (p', map Did out)"
  unfolding simulated_def by auto

lemma simulated_run:
  assumes "simulated p e (p', os)"
  shows "\<exists>fs. run_steps transport_step (pr_transport p) fs = Inr (pr_transport p', did os) \<and> (\<forall>f \<in> set fs. lifts e f)"
  by (rule one_or_none) (use assms in \<open>auto simp: simulated_def\<close>)

lemma with_lock_simulated:
  assumes r: "\<And>p' out. r = Inr (p', out) \<Longrightarrow> simulated p e (p', map Did out)"
    and panic: "\<And>q. pr_transport q = pr_transport p \<Longrightarrow> simulated p e (panic q)"
  shows "simulated p e (with_lock p r panic)"
  by (rule with_lock_cases [where p = p and r = r and panic = panic])
    (simp_all add: r panic, simp_all add: simulated_def)

lemma io_thread_simulated: "simulated p (PIo ord ords res now) (io_thread p ord ords res now)"
proof -
  have dead: "simulated p e (io_dies q)" if "pr_transport q = pr_transport p" for e q
    using that by (simp add: simulated_def io_dies_def)
  show ?thesis
  proof (cases "pr_io p")
    case IoRecv
    show ?thesis
    proof (cases res)
      case (Received buf src)
      show ?thesis
      proof (cases "decode buf")
        case (Inr x)
        obtain pkt payload where x: "x = (pkt, payload)" by (cases x)
        show ?thesis unfolding io_thread_def Let_def IoRecv Received io_pos.case recv_result.case Inr x sum.case prod.case
        proof (rule with_lock_simulated)
          fix p' out
          assume "bind_res (io_packet ord (t_state (pr_transport p)) src pkt payload now)
            (\<lambda>(st, out). Inr ((set_state st p)\<lparr>pr_io := IoTimer\<rparr>, out)) = Inr (p', out)"
          then obtain st where io: "io_packet ord (t_state (pr_transport p)) src pkt payload now = Inr (st, out)"
            and p': "p' = (set_state st p)\<lparr>pr_io := IoTimer\<rparr>" by (auto simp: bind_res_Inr_iff)
          then have "transport_step (pr_transport p) (TIo ord ords res now (t_last_tick (pr_transport p))) = Inr (pr_transport p', out)"
            by (simp add: io_iter_def Received Inr x tick_if_due_def TICK_INTERVAL_def from_millis_def)
          then show "simulated p (PIo ord ords (Received buf src) now) (p', map Did out)"
            by (rule simulatedI) (simp add: Received)
        qed (rule dead)
      qed (simp add: io_thread_def IoRecv Received Let_def simulated_def)
    qed (simp_all add: io_thread_def IoRecv simulated_def Let_def)
  next
    case IoTimer
    let ?t = "pr_transport p"
    show ?thesis
    proof (cases "TICK_INTERVAL \<le> now - t_last_tick ?t")
      case True
      show ?thesis unfolding io_thread_def Let_def IoTimer io_pos.case if_P [OF True]
      proof (rule with_lock_simulated)
        fix p' out
        assume "bind_res (io_tick ords (t_state ?t) now)
            (\<lambda>(st, out). Inr (p\<lparr>pr_transport := ?t\<lparr>t_state := st, t_last_tick := now\<rparr>, pr_io := IoHead\<rparr>, out)) = Inr (p', out)"
        then obtain st where io: "io_tick ords (t_state ?t) now = Inr (st, out)"
          and p': "p' = p\<lparr>pr_transport := ?t\<lparr>t_state := st, t_last_tick := now\<rparr>, pr_io := IoHead\<rparr>"
          by (auto simp: bind_res_Inr_iff)
        then have "transport_step ?t (TIo ord ords RecvTimeout now now) = Inr (pr_transport p', out)"
          using True by (simp add: io_iter_def tick_if_due_def)
        then show "simulated p (PIo ord ords res now) (p', map Did out)" by (rule simulatedI) auto
      qed (rule dead)
    qed (simp add: io_thread_def IoTimer Let_def simulated_def)
  qed (simp_all add: io_thread_def simulated_def Let_def)
qed

lemma proceed_send_simulated: "simulated p (PCall n now) (proceed_send p n now)"
proof -
  let ?t = "pr_transport p"
  let ?r = "bind_res (send_call_step (t_timeout ?t) (t_state ?t) (t_calls ?t ! n) now) (\<lambda>((st, c), out).
      Inr (p\<lparr>pr_transport := ?t\<lparr>t_state := st, t_calls := (t_calls ?t)[n := c]\<rparr>\<rparr>, out))"
  have lock: "simulated p (PCall n now) (with_lock p ?r (\<lambda>p. (p\<lparr>pr_panicked := n # pr_panicked p\<rparr>, [SendPanics n])))"
    if "n < length (t_calls ?t)"
  proof (rule with_lock_simulated)
    fix p' out
    assume "?r = Inr (p', out)"
    then obtain st c where "send_call_step (t_timeout ?t) (t_state ?t) (t_calls ?t ! n) now = Inr ((st, c), out)"
      "p' = p\<lparr>pr_transport := ?t\<lparr>t_state := st, t_calls := (t_calls ?t)[n := c]\<rparr>\<rparr>" by (auto simp: bind_res_Inr_iff)
    then have "transport_step ?t (TCall n now) = Inr (pr_transport p', out)" using that by simp
    then show "simulated p (PCall n now) (p', map Did out)" by (rule simulatedI) simp
  qed (simp add: simulated_def)
  show ?thesis
  proof (cases "n < length (t_calls ?t) \<and> n \<notin> set (pr_panicked p)")
    case True
    then show ?thesis using lock
      by (cases "t_calls ?t ! n") (simp_all add: proceed_send_def Let_def, simp add: simulated_def)
  qed (auto simp: proceed_send_def Let_def simulated_def)
qed

lemma process_step_simulated: "process_step p e = Inr (p', os) \<Longrightarrow> simulated p e (p', os)"
proof (cases e)
  case (PIo ord ords res now)
  moreover assume "process_step p e = Inr (p', os)"
  ultimately show ?thesis using io_thread_simulated [of p ord ords res now] by simp
next
  case (PSend dest data now)
  moreover assume "process_step p e = Inr (p', os)"
  ultimately show ?thesis using simulatedI [of p "TSend dest data now" p' "[]" e] by (auto simp: Let_def)
next
  case (PCall n now)
  moreover assume "process_step p e = Inr (p', os)"
  ultimately show ?thesis using proceed_send_simulated [of p n now] by simp
next
  case (PPoll deadline now)
  obtain st out where r: "recv_poll (t_state (pr_transport p)) deadline now = (st, out)" by force
  have "simulated p e (with_lock p (Inr (set_state st p, out)) (\<lambda>p. (p, [RecvPanics])))"
  proof (rule with_lock_simulated)
    fix p' out'
    assume "Inr (set_state st p, out) = (Inr (p', out') :: fault + _)"
    then have "transport_step (pr_transport p) (TRecv deadline now) = Inr (pr_transport p', out')" using r by auto
    then show "simulated p e (p', map Did out')" by (rule simulatedI) (simp add: PPoll)
  qed (simp add: simulated_def)
  moreover assume "process_step p e = Inr (p', os)"
  ultimately show ?thesis using PPoll r by simp
next
  case PShutdown
  moreover assume "process_step p e = Inr (p', os)"
  ultimately show ?thesis by (auto simp: simulated_def)
qed

interpretation proc: simulation process_step transport_step "\<lambda>p. True" pr_transport did lifts
  by unfold_locales (simp_all add: simulated_run process_step_simulated)


section \<open>Nothing panics on admissible traffic\<close>

fun process_adm :: "nat \<Rightarrow> (sockaddr \<Rightarrow> bytes \<Rightarrow> bool) \<Rightarrow> (msg_key \<Rightarrow> bytes option) \<Rightarrow> process_event \<Rightarrow> bool" where
  "process_adm ps sent log (PIo ord ords res now) = (iter_order ord \<and> iter_orders ords \<and> recv_adm ps log res)"
| "process_adm ps sent log (PSend dest data now) = sent dest data"
| "process_adm ps sent log (PCall n now) = True"
| "process_adm ps sent log (PPoll deadline now) = True"
| "process_adm ps sent log PShutdown = True"

lemma lifts_adm: "lifts e f \<Longrightarrow> process_adm ps sent log e \<Longrightarrow> transport_adm ps sent log f"
  by (cases e) (auto simp: recv_adm_def)

text \<open>All threads are well, and the mutex can be taken.\<close>

definition healthy :: "process \<Rightarrow> bool" where
  "healthy p \<longleftrightarrow> pr_mutex p = Unlocked \<and> pr_io p \<noteq> IoPanicked \<and> pr_panicked p = []"

fun calm :: "process_effect \<Rightarrow> bool" where
  "calm (Did x) = True"
| "calm (SendPanics n) = False"
| "calm RecvPanics = False"

definition process_ok :: "nat \<Rightarrow> (sockaddr \<Rightarrow> bytes \<Rightarrow> bool) \<Rightarrow> (msg_key \<Rightarrow> bytes option) \<Rightarrow> process \<Rightarrow> bool" where
  "process_ok ps sent log p \<longleftrightarrow> transport_ok ps sent log (pr_transport p) \<and> healthy p"

lemma all_calm [simp]: "list_all calm (map Did out)"
  by (induction out) auto

lemma healthy_lock:
  "healthy p \<Longrightarrow> with_lock p (Inr (p', out)) panic = (p', map Did out)"
  by (simp add: healthy_def with_lock_def)

lemma io_thread_healthy:
  assumes p: "process_ok ps sent log p" and e: "process_adm ps sent log (PIo ord ords res now)"
    and s: "io_thread p ord ords res now = (p', os)"
  shows "healthy p' \<and> list_all calm os"
proof -
  have h: "healthy p" and st: "state_ok ps sent log (t_state (pr_transport p))"
    using p by (simp_all add: process_ok_def transport_ok_def)
  have o: "iter_order ord" "iter_orders ords" "recv_adm ps log res" using e by simp_all
  show ?thesis
  proof (cases "pr_io p")
    case IoRecv
    show ?thesis
    proof (cases "\<exists>buf src pkt payload. res = Received buf src \<and> decode buf = Inr (pkt, payload)")
      case True
      then obtain buf src pkt payload where r: "res = Received buf src" "decode buf = Inr (pkt, payload)" by blast
      then have "packet_adm ps log src pkt payload" using o(3) by (simp add: recv_adm_def)
      from io_packet_sound [OF st o(1) this, of now] obtain st' out where
        io: "io_packet ord (t_state (pr_transport p)) src pkt payload now = Inr (st', out)" by blast
      with s r IoRecv h have "p' = (set_state st' p)\<lparr>pr_io := IoTimer\<rparr>" "os = map Did out"
        by (simp_all add: io_thread_def Let_def healthy_lock)
      with h show ?thesis by (simp add: healthy_def)
    next
      case False
      with s IoRecv h show ?thesis
        by (auto simp: io_thread_def Let_def healthy_def split: recv_result.splits sum.splits if_splits)
    qed
  next
    case IoTimer
    from io_tick_sound [OF st o(2), of now] obtain st' out where
      "io_tick ords (t_state (pr_transport p)) now = Inr (st', out)" by blast
    with s IoTimer h show ?thesis
      by (auto simp: io_thread_def Let_def healthy_lock split: if_splits) (simp_all add: healthy_def)
  qed (use s h in \<open>auto simp: io_thread_def Let_def healthy_def split: if_splits\<close>)
qed

lemma proceed_send_healthy:
  assumes p: "process_ok ps sent log p" and s: "proceed_send p n now = (p', os)"
  shows "healthy p' \<and> list_all calm os"
proof -
  let ?t = "pr_transport p"
  have h: "healthy p" and st: "state_ok ps sent log (t_state ?t)" "list_all (call_ok ps sent) (t_calls ?t)"
    using p by (simp_all add: process_ok_def transport_ok_def)
  show ?thesis
  proof (cases "n < length (t_calls ?t) \<and> (\<forall>i. t_calls ?t ! n \<noteq> Returned i)")
    case True
    then have "call_ok ps sent (t_calls ?t ! n)" using st(2) by (simp add: list_all_length)
    from send_call_sound [OF st(1) this, of "t_timeout ?t" now] obtain st' c out where
      "send_call_step (t_timeout ?t) (t_state ?t) (t_calls ?t ! n) now = Inr ((st', c), out)" by blast
    then have "proceed_send p n now = (p\<lparr>pr_transport := ?t\<lparr>t_state := st', t_calls := (t_calls ?t)[n := c]\<rparr>\<rparr>, map Did out)"
      using True h healthy_lock [OF h] by (cases "t_calls ?t ! n") (simp_all add: proceed_send_def Let_def healthy_def)
    with s h show ?thesis by (auto simp: healthy_def)
  next
    case False
    with s h show ?thesis by (auto simp: proceed_send_def Let_def split: if_splits)
  qed
qed

lemma process_step_healthy:
  assumes p: "process_ok ps sent log p" and e: "process_adm ps sent log e" and s: "process_step p e = Inr (p', os)"
  shows "healthy p' \<and> list_all calm os"
proof (cases e)
  case (PPoll deadline now)
  obtain st out where "recv_poll (t_state (pr_transport p)) deadline now = (st, out)" by force
  with p s PPoll show ?thesis by (auto simp: process_ok_def healthy_lock) (auto simp: healthy_def)
next
  case (PIo ord ords res now)
  with p e s io_thread_healthy show ?thesis by (metis Inr_inject process_step.simps(1))
next
  case (PCall n now)
  with p s proceed_send_healthy show ?thesis by (metis Inr_inject process_step.simps(3))
qed (use p s in \<open>auto simp: process_ok_def healthy_def Let_def\<close>)

lemma process_step_ok:
  assumes p: "process_ok ps sent log p" and e: "process_adm ps sent log e" and s: "process_step p e = Inr (p', os)"
  shows "process_ok ps sent log p'"
proof -
  from proc.step_sim [OF _ s] obtain fs where
    r: "run_steps transport_step (pr_transport p) fs = Inr (pr_transport p', did os)" "\<forall>f \<in> set fs. lifts e f" by blast
  then have "list_all (transport_adm ps sent log) fs" using lifts_adm e by (auto simp: list_all_iff)
  then have "transport_ok ps sent log (pr_transport p')" using tr.run_inv_good [OF _ _ r(1)] p by (simp add: process_ok_def)
  with process_step_healthy [OF p e s] show ?thesis by (simp add: process_ok_def)
qed

interpretation proc_ok: machine process_step "process_ok ps sent log" "process_adm ps sent log" calm for ps sent log
  by unfold_locales (use process_step_ok process_step_healthy in blast)+

lemma process_ok_new: "0 < packet_size cfg \<Longrightarrow> process_ok (packet_size cfg) sent log (process_new cfg now)"
  by (simp add: process_ok_def process_new_def healthy_def transport_ok_new)

section \<open>The end of the IO thread\<close>

text \<open>How many steps the thread has left once the flag is set.\<close>

fun io_left :: "io_pos \<Rightarrow> nat" where
  "io_left IoHead = 1"
| "io_left IoTimer = 2"
| "io_left IoRecv = 3"
| "io_left IoExited = 0"
| "io_left IoPanicked = 0"

lemma io_left_0: "io_left x = 0 \<longleftrightarrow> x = IoExited \<or> x = IoPanicked"
  by (cases x) auto

fun is_io :: "process_event \<Rightarrow> bool" where
  "is_io (PIo ord ords res now) = True"
| "is_io _ = False"

lemma io_lock_left:
  assumes "pr_mutex (fst (with_lock p r io_dies)) \<noteq> Held" "\<And>p' out. r = Inr (p', out) \<Longrightarrow> io_left (pr_io p') \<le> n"
  shows "io_left (pr_io (fst (with_lock p r io_dies))) \<le> n"
  by (rule with_lock_cases [where p = p and r = r and panic = io_dies]) (use assms in \<open>auto simp: io_dies_def\<close>)

lemma io_thread_left:
  assumes "pr_shutdown p" "pr_mutex (fst (io_thread p ord ords res now)) \<noteq> Held"
  shows "io_left (pr_io (fst (io_thread p ord ords res now))) \<le> io_left (pr_io p) - 1"
  using assms
  by (cases "pr_io p")
    (auto simp: io_thread_def Let_def bind_res_Inr_iff intro!: io_lock_left split: recv_result.splits sum.splits)

text \<open>Steps of the process keep the flag, a held lock, and, unless they are the thread's own, its position.\<close>

lemma with_lock_keeps:
  assumes "\<And>p' out. r = Inr (p', out) \<Longrightarrow> f p' = f p" "\<And>m. f (p\<lparr>pr_mutex := m\<rparr>) = f p"
    "\<And>q. f (fst (panic q)) = f q"
  shows "f (fst (with_lock p r panic)) = f p"
  by (rule with_lock_cases [where p = p and r = r and panic = panic]) (simp_all add: assms)

lemmas with_lock_io = with_lock_keeps [where f = pr_io]

lemma with_lock_shutdown:
  assumes "pr_shutdown p" "\<And>p' out. r = Inr (p', out) \<Longrightarrow> pr_shutdown p'" "\<And>q. pr_shutdown q \<Longrightarrow> pr_shutdown (fst (panic q))"
  shows "pr_shutdown (fst (with_lock p r panic))"
  by (rule with_lock_cases [where p = p and r = r and panic = panic]) (simp_all add: assms)

lemma io_thread_shutdown: "pr_shutdown p \<Longrightarrow> pr_shutdown (fst (io_thread p ord ords res now))"
  by (cases "pr_io p")
    (auto simp: io_thread_def Let_def bind_res_Inr_iff io_dies_def intro!: with_lock_shutdown
      split: recv_result.splits sum.splits)

lemma proceed_send_keeps:
  "pr_shutdown p \<Longrightarrow> pr_shutdown (fst (proceed_send p n now))" "pr_io (fst (proceed_send p n now)) = pr_io p"
  by (auto simp: proceed_send_def Let_def bind_res_Inr_iff intro!: with_lock_shutdown with_lock_io split: send_call.splits)

lemma poll_keeps:
  "pr_shutdown p \<Longrightarrow> pr_shutdown (fst (with_lock p (Inr (set_state st p, out)) (\<lambda>p. (p, [RecvPanics]))))"
  "pr_io (fst (with_lock p (Inr (set_state st p, out)) (\<lambda>p. (p, [RecvPanics])))) = pr_io p"
  by (auto intro!: with_lock_shutdown with_lock_io)

lemma process_step_shutdown: "pr_shutdown p \<Longrightarrow> process_step p e = Inr (p', os) \<Longrightarrow> pr_shutdown p'"
proof (cases e)
  case (PIo ord ords res now)
  then show "pr_shutdown p \<Longrightarrow> process_step p e = Inr (p', os) \<Longrightarrow> pr_shutdown p'"
    using io_thread_shutdown [of p ord ords res now] by simp
next
  case (PCall n now)
  then show "pr_shutdown p \<Longrightarrow> process_step p e = Inr (p', os) \<Longrightarrow> pr_shutdown p'"
    using proceed_send_keeps(1) [of p n now] by simp
next
  case (PPoll deadline now)
  then show "pr_shutdown p \<Longrightarrow> process_step p e = Inr (p', os) \<Longrightarrow> pr_shutdown p'"
    using poll_keeps(1) [of p] by (auto split: prod.splits) (metis fst_conv)
qed (auto simp: Let_def)

lemma process_step_io: "\<not> is_io e \<Longrightarrow> process_step p e = Inr (p', os) \<Longrightarrow> pr_io p' = pr_io p"
proof (cases e)
  case (PCall n now)
  then show "\<not> is_io e \<Longrightarrow> process_step p e = Inr (p', os) \<Longrightarrow> pr_io p' = pr_io p"
    using proceed_send_keeps(2) [of p n now] by simp
next
  case (PPoll deadline now)
  then show "\<not> is_io e \<Longrightarrow> process_step p e = Inr (p', os) \<Longrightarrow> pr_io p' = pr_io p"
    using poll_keeps(2) [of p] by (auto split: prod.splits) (metis fst_conv)
qed (auto simp: Let_def)

lemma process_step_held: "pr_mutex p = Held \<Longrightarrow> process_step p e = Inr (p', os) \<Longrightarrow> pr_mutex p' = Held"
  by (cases e)
    (auto simp: io_thread_def proceed_send_def with_lock_def Let_def split: io_pos.splits recv_result.splits sum.splits
      if_splits send_call.splits prod.splits)

interpretation io: flagged_loop process_step is_io pr_shutdown "\<lambda>p. pr_mutex p = Held" "\<lambda>p. io_left (pr_io p)"
proof unfold_locales
  fix p e p' os
  assume h: "pr_shutdown p" "is_io e" "process_step p e = Inr (p', os)" "pr_mutex p' \<noteq> Held"
  then obtain ord ords res now where "e = PIo ord ords res now" by (cases e) auto
  with h io_thread_left [of p ord ords res now] show "io_left (pr_io p') \<le> io_left (pr_io p) - 1" by simp
qed (use process_step_shutdown process_step_held process_step_io in \<open>auto dest: process_step_io\<close>)


section \<open>After a panic\<close>

fun is_poll :: "process_event \<Rightarrow> bool" where
  "is_poll (PPoll deadline now) = True"
| "is_poll _ = False"

definition still_open :: "process \<Rightarrow> nat \<Rightarrow> bool" where
  "still_open p n \<longleftrightarrow> n < length (t_calls (pr_transport p)) \<and> (\<forall>i. t_calls (pr_transport p) ! n \<noteq> Returned i)"

text \<open>What a step does once the mutex is poisoned.\<close>

lemma poisoned_step:
  assumes "pr_mutex p = Poisoned" "process_step p e = Inr (p', os)"
  shows "pr_mutex p' = Poisoned" "t_state (pr_transport p') = t_state (pr_transport p)" "did os = []"
    "length (filter (\<lambda>x. x = RecvPanics) os) = (if is_poll e then 1 else 0)"
    "joined p \<Longrightarrow> joined p'"
    "still_open p n \<Longrightarrow> still_open p' n"
    "still_open p n \<Longrightarrow> n \<in> set (pr_panicked p') \<longleftrightarrow> n \<in> set (pr_panicked p) \<or> SendPanics n \<in> set os"
    "still_open p n \<Longrightarrow> e = PCall n now \<Longrightarrow> n \<in> set (pr_panicked p')"
  using assms
  by (cases e; auto simp: io_thread_def proceed_send_def with_lock_def io_dies_def joined_def still_open_def Let_def nth_append
        split: io_pos.splits recv_result.splits sum.splits if_splits send_call.splits prod.splits; fail)+

lemma poisoned_run:
  assumes "pr_mutex p = Poisoned" "run_steps process_step p es = Inr (p', os)"
  shows "pr_mutex p' = Poisoned \<and> t_state (pr_transport p') = t_state (pr_transport p) \<and> did os = []
    \<and> length (filter (\<lambda>x. x = RecvPanics) os) = length (filter is_poll es) \<and> (joined p \<longrightarrow> joined p')
    \<and> (\<forall>n now. still_open p n \<and> PCall n now \<in> set es \<longrightarrow> n \<in> set (pr_panicked p) \<or> SendPanics n \<in> set os)"
  using assms
proof (induction es arbitrary: p os)
  case (Cons e es)
  from Cons.prems(2) obtain q os1 os2 where s: "process_step p e = Inr (q, os1)"
    "run_steps process_step q es = Inr (p', os2)" "os = os1 @ os2"
    by (auto simp: bind_res_Inr_iff)
  note st = poisoned_step [OF Cons.prems(1) s(1)]
  note run = Cons.IH [OF st(1) s(2)]
  have "n \<in> set (pr_panicked p) \<or> SendPanics n \<in> set os" if "still_open p n" "PCall n now \<in> set (e # es)" for n now
    using st(6,7,8) [OF that(1)] run that(2) s(3) by auto
  with st(2-5) run s(3) show ?case by auto
qed simp


section \<open>Properties\<close>

text \<open>
  C6: The threads of a bound transport refine the transport: every run of them, with critical
  sections interleaved in any way, shutdown and panics included, and for any datagrams, is a run of
  \<open>transport_step\<close> on the same calls and datagrams, with the same state and the same effects; and a run
  without datagrams that are no chunks of their messages panics nowhere.
\<close>

theorem process_refines_transport:
  assumes "transport_bind os parse_addr addr cfg now = Inr p0" "run_steps process_step p0 es = Inr (p, out)"
  shows "(\<exists>fs. run_steps transport_step (transport_new cfg now) fs = Inr (pr_transport p, did out)
      \<and> (\<forall>f \<in> set fs. \<exists>e \<in> set es. lifts e f))
    \<and> (0 < packet_size cfg \<and> list_all (process_adm (packet_size cfg) sent log) es \<longrightarrow>
        pr_mutex p = Unlocked \<and> pr_io p \<noteq> IoPanicked \<and> pr_panicked p = [] \<and> out = map Did (did out))"
proof (intro conjI impI)
  have p0: "p0 = process_new cfg now" using assms(1) by (auto simp: transport_bind_def split: option.splits)
  show "\<exists>fs. run_steps transport_step (transport_new cfg now) fs = Inr (pr_transport p, did out)
      \<and> (\<forall>f \<in> set fs. \<exists>e \<in> set es. lifts e f)"
    using proc.run_sim [OF _ assms(2)] by (simp add: p0 process_new_def)
  assume h: "0 < packet_size cfg \<and> list_all (process_adm (packet_size cfg) sent log) es"
  have r: "process_ok (packet_size cfg) sent log p \<and> list_all calm out"
    by (rule proc_ok.run_inv_good [OF process_ok_new [of cfg sent log now] _ assms(2) [unfolded p0]]) (use h in simp_all)
  then show "pr_mutex p = Unlocked" "pr_io p \<noteq> IoPanicked" "pr_panicked p = []"
    by (simp_all add: process_ok_def healthy_def)
  have "list_all calm xs \<Longrightarrow> xs = map Did (did xs)" for xs by (induction xs rule: did.induct) auto
  with r show "out = map Did (did out)" by blast
qed

definition example_os :: os_answers where
  "example_os = \<lparr>os_socket = None, os_recv_buffer = (\<lambda>n. None), os_send_buffer = (\<lambda>n. None),
     os_bind = (\<lambda>a. None), os_read_timeout = (\<lambda>d. None), os_thread = (\<lambda>n. None),
     os_local_addr = Inr (localhost 7)\<rparr>"

definition example_process :: "process_event list" where
  "example_process =
     (let io = (\<lambda>i. PIo rev (rev, rev, rev) (Received (encode (example_packet i) (example_payload i)) (localhost 7)) (6000000 * i))
      in [PSend (localhost 9) [1, 2, 3] 0, io 0, io 0, PCall 0 0, io 0, io 1, io 1, PCall 0 0, io 1, io 2, io 2, io 2,
          PCall 0 1, io 3, PShutdown, io 3, io 3, io 3, PPoll 5 0])"

lemma example_process_adm:
  "list_all (process_adm 4 (\<lambda>d x. x = [1, 2, 3]) example_log) example_process"
proof -
  have "recv_adm 4 example_log (Received (encode (example_packet i) (example_payload i)) (localhost 7))"
    if "i \<in> {0, 1, 2, 3}" for i
    using example_decode [OF that] example_carries that
    by (auto simp: recv_adm_def packet_adm_def example_id example_log_def)
  then show ?thesis by (simp add: example_process_def iter_orders_def Let_def)
qed

lemma example_bind:
  "transport_bind example_os (\<lambda>a. Some (localhost 7)) ''127.0.0.1:7'' small_config 0 = Inr (process_new small_config 0)"
  by (simp add: transport_bind_def example_os_def)

theorem process_refines_transport_witness:
  "\<exists>p out. run_steps process_step (process_new small_config 0) example_process = Inr (p, out)
    \<and> (\<exists>fs. run_steps transport_step (transport_new small_config 0) fs = Inr (pr_transport p, did out)
          \<and> (\<forall>f \<in> set fs. \<exists>e \<in> set example_process. lifts e f))
    \<and> pr_mutex p = Unlocked \<and> out = map Did (did out)"
proof -
  obtain p out where r: "run_steps process_step (process_new small_config 0) example_process = Inr (p, out)"
    using process_runs by blast
  have "0 < packet_size small_config
      \<and> list_all (process_adm (packet_size small_config) (\<lambda>d x. x = [1, 2, 3]) example_log) example_process"
    using example_process_adm by simp
  with process_refines_transport [OF example_bind r, of "\<lambda>d x. x = [1, 2, 3]" example_log] r show ?thesis by blast
qed

text \<open>
  C22: Shutdown: once the flag is set, the IO thread is out of its loop within three of its steps,
  so with at most one more datagram handled, whatever arrives and whatever other threads do; \<open>drop\<close> returns
  from its \<open>join\<close>, unless a thread loops for ever with the lock held.
\<close>

theorem shutdown_ends_io_thread:
  assumes "pr_shutdown p" "run_steps process_step p es = Inr (p', out)" "3 \<le> length (filter is_io es)"
    "pr_mutex p' \<noteq> Held"
  shows "joined p' \<and> (\<forall>fs p'' out'. list_all is_io fs \<longrightarrow> run_steps process_step p' fs = Inr (p'', out') \<longrightarrow> p'' = p' \<and> out' = [])"
proof -
  have "io_left (pr_io p) \<le> 3" by (cases "pr_io p") simp_all
  then have "io_left (pr_io p') = 0" using io.run_ends [OF assms(1,2,4)] assms(3) by simp
  then have j: "pr_io p' = IoExited \<or> pr_io p' = IoPanicked" by (simp add: io_left_0)
  have "process_step p' e = Inr (p', [])" if "is_io e" for e
    using j that by (cases e) (auto simp: io_thread_def Let_def)
  then have "run_steps process_step p' fs = Inr (p', [])" if "list_all is_io fs" for fs
    using that by (induction fs) auto
  with j show ?thesis by (auto simp: joined_def)
qed

theorem shutdown_ends_io_thread_witness:
  "let io = PIo rev (rev, rev, rev) RecvTimeout 9000000; p = (process_new small_config 0)\<lparr>pr_shutdown := True, pr_io := IoRecv\<rparr>
   in \<exists>p' out. run_steps process_step p [io, PSend (localhost 9) [1] 0, io, PCall 0 0, io] = Inr (p', out) \<and> joined p'"
proof -
  let ?io = "PIo rev (rev, rev, rev) RecvTimeout 9000000"
  let ?p = "(process_new small_config 0)\<lparr>pr_shutdown := True, pr_io := IoRecv\<rparr>"
  let ?es = "[?io, PSend (localhost 9) [1] 0, ?io, PCall 0 0, ?io]"
  obtain p' out where r: "run_steps process_step ?p ?es = Inr (p', out)" using process_runs by blast
  have "pr_mutex (fst (projr (run_steps process_step ?p ?es))) \<noteq> Held" by code_simp
  then have "pr_mutex p' \<noteq> Held" using r by simp
  from shutdown_ends_io_thread [OF _ r _ this] r show ?thesis unfolding Let_def by simp
qed

text \<open>
  C12: One datagram disables a transport for good: when the handling of a datagram panics, the IO
  thread is dead and the mutex poisoned, so nothing is ever sent or received again and the state never
  changes; every call of \<open>recv\<close> panics, and so does every call of \<open>send_to\<close> that had not returned, as
  soon as it takes its next step.
\<close>

theorem panic_disables_transport:
  assumes "pr_mutex p = Unlocked" "pr_io p = IoRecv" "decode buf = Inr (pkt, payload)"
    "io_packet ord (t_state (pr_transport p)) src pkt payload now0 = Inl f" "f \<noteq> No_return"
    "run_steps process_step p (PIo ord ords (Received buf src) now0 # es) = Inr (p', out)"
  shows "joined p' \<and> did out = [] \<and> t_state (pr_transport p') = t_state (pr_transport p)
    \<and> length (filter (\<lambda>x. x = RecvPanics) out) = length (filter is_poll es)
    \<and> (\<forall>n now. n < length (t_calls (pr_transport p)) \<and> (\<forall>i. t_calls (pr_transport p) ! n \<noteq> Returned i)
          \<and> n \<notin> set (pr_panicked p) \<and> PCall n now \<in> set es \<longrightarrow> SendPanics n \<in> set out)"
proof -
  let ?q = "p\<lparr>pr_mutex := Poisoned, pr_io := IoPanicked\<rparr>"
  have "process_step p (PIo ord ords (Received buf src) now0) = Inr (?q, [])"
    using assms(1-5) by (simp add: io_thread_def with_lock_def io_dies_def)
  then have r: "run_steps process_step ?q es = Inr (p', out)" using assms(6) by (auto simp: bind_res_Inr_iff)
  have "pr_mutex ?q = Poisoned" "joined ?q" by (simp_all add: joined_def)
  with poisoned_run [OF _ r] show ?thesis by (auto simp: still_open_def)
qed

theorem panic_disables_transport_witness:
  "let small = encode (packet_new Data 0 9 5 0 1) [1]; large = encode (packet_new Data 0 9 100 4 4) [1, 2, 3, 4];
       io = (\<lambda>b. PIo rev (rev, rev, rev) (Received b (localhost 7)) 0);
       p = fst (projr (run_steps process_step (process_new small_config 0) [PSend (localhost 9) [1] 0, io small, io small, io small, io small]))
   in \<exists>p' out. run_steps process_step p [io large, PPoll 5 0, PCall 0 0] = Inr (p', out)
     \<and> joined p' \<and> length (filter (\<lambda>x. x = RecvPanics) out) = 1 \<and> SendPanics 0 \<in> set out"
proof -
  let ?small = "encode (packet_new Data 0 9 5 0 1) [1]" and ?large = "encode (packet_new Data 0 9 100 4 4) [1, 2, 3, 4]"
  let ?io = "\<lambda>b. PIo rev (rev, rev, rev) (Received b (localhost 7)) 0"
  let ?p = "fst (projr (run_steps process_step (process_new small_config 0)
    [PSend (localhost 9) [1] 0, ?io ?small, ?io ?small, ?io ?small, ?io ?small]))"
  obtain p' out where r: "run_steps process_step ?p [?io ?large, PPoll 5 0, PCall 0 0] = Inr (p', out)"
    using process_runs by blast
  have d: "decode ?large = Inr (packet_new Data 0 9 100 4 4, [1, 2, 3, 4])" by code_simp
  have "length (t_calls (pr_transport ?p)) = 1 \<and> t_calls (pr_transport ?p) ! 0 = Called 1 (localhost 9) [1] 0 \<and> pr_panicked ?p = []"
    by code_simp
  moreover have "pr_mutex ?p = Unlocked" "pr_io ?p = IoRecv"
    "io_packet rev (t_state (pr_transport ?p)) (localhost 7) (packet_new Data 0 9 100 4 4) [1, 2, 3, 4] 0 = Inl Slice_range"
    by code_simp+
  note panic_disables_transport [OF this(1,2) d this(3) _ r]
  ultimately show ?thesis using r unfolding Let_def by simp
qed

lemma delivers_map: "delivers (map (\<lambda>i. Send (f i) (g i)) xs) = []"
  by (induction xs) auto

lemma sends_map: "sends (map (\<lambda>i. Send (f i) (g i)) xs) = map (\<lambda>i. (f i, g i)) xs"
  by (induction xs) auto

lemma frag_is_data: "is_data (frag data i s e)"
  by (simp add: frag_def encode_def is_data_def packet_new_def)

text \<open>
  C17: \<open>send_to\<close> may return success while part of the message has not left the host, and a transport that
  is dropped then loses it: when a message within the window has more chunks than the flush budget, the
  call returns its id with all further chunks still queued, and after shutdown nothing sends them.
\<close>

theorem dropped_transport_loses_backlog:
  assumes "0 < packet_size cfg" "length data \<le> unscheduled_bytes cfg" "FLUSH_BUDGET * packet_size cfg < length data"
  shows "\<exists>p out. run_steps process_step (process_new cfg now)
      [PSend dest data now, PCall 0 now, PCall 0 now, PCall 0 now, PShutdown, PIo ord ords res now] = Inr (p, out)
    \<and> Did (SendReturned 1 (Inr 1)) \<in> set out \<and> joined p
    \<and> backlog (st_tx (t_state (pr_transport p))) = chunk_count (packet_size cfg) (length data) 0 - FLUSH_BUDGET
    \<and> FLUSH_BUDGET < chunk_count (packet_size cfg) (length data) 0
    \<and> (\<forall>es p' out'. list_all is_io es \<longrightarrow> run_steps process_step p es = Inr (p', out') \<longrightarrow> p' = p \<and> out' = [])"
proof -
  let ?ps = "packet_size cfg" and ?n = "chunk_count (packet_size cfg) (length data) 0"
  let ?s = "(sender_new cfg)\<lparr>s_out := [((dest, 1), om_started cfg data now)]\<rparr>"
  let ?fr = "pump_frags ?ps dest 1 data (length data) 0"
  have cfg: "s_cfg (sender_new cfg) = cfg" "s_out (sender_new cfg) = []" by (simp_all add: sender_new_def)
  have st: "start (sender_new cfg) dest 1 data now = Inr (?s, ?fr)"
    using start_eq [of "sender_new cfg" dest 1 data now] assms(1,2) by (simp add: cfg)
  have "length data \<le> pump_end ?ps (length data) (length data) 0"
    using pump_end_bounds(2) [OF assms(1), of "length data" "length data" 0] by simp
  then have dn: "is_done ?s dest 1" using assms(2) by (simp add: is_done_def om_started_def Let_def)
  have fr: "delivers ?fr = []" "\<forall>x \<in> set (sends ?fr). is_data (snd x)" "length (sends ?fr) = ?n"
    by (auto simp: pump_frags_def delivers_map sends_map frag_is_data)
  obtain st' out where dr: "drain ((state_new cfg)\<lparr>st_sender := ?s\<rparr>) ?fr = (st', out)" by force
  let ?q = "enqueue (sends ?fr) txq_new"
  have st': "st_sender st' = ?s" "st_tx st' = fst (pop_batch ?q FLUSH_BUDGET)"
    using dr by (auto simp: drain_eq state_new_def)
  have "filter (\<lambda>x. \<not> is_data (snd x)) (sends ?fr) = []" using fr(2) by (simp add: filter_empty_conv)
  then have "mset (contents ?q) = mset (sends ?fr)" using enqueue_mset [OF txq_ok_new, of "sends ?fr"] by simp
  then have "length (contents ?q) = ?n" using fr(3) by (metis size_mset)
  then have bl: "backlog (st_tx st') = ?n - FLUSH_BUDGET"
    using pop_batch_take [of ?q FLUSH_BUDGET] by (simp add: st'(2) backlog_contents)
  have more: "FLUSH_BUDGET < ?n" using chunk_count_le_iff [OF assms(1), of FLUSH_BUDGET "length data" 0] assms(3) by simp
  let ?t = "\<lparr>t_state = st', t_last_tick = now, t_counter = 2, t_timeout = send_timeout cfg, t_calls = [Returned 1]\<rparr>"
  let ?p = "\<lparr>pr_transport = ?t, pr_mutex = Unlocked, pr_shutdown = True, pr_io = IoExited, pr_panicked = []\<rparr>"
  have new: "state_new cfg = \<lparr>st_sender = sender_new cfg, st_receiver = receiver_new cfg, st_completed = [], st_tx = txq_new\<rparr>"
    by (simp add: state_new_def)
  have run: "run_steps process_step (process_new cfg now)
      [PSend dest data now, PCall 0 now, PCall 0 now, PCall 0 now, PShutdown, PIo ord ords res now]
    = Inr (?p, map Did out @ [Did (SendReturned 1 (Inr 1))])"
    using st dr dn st'(1) by (simp add: process_new_def transport_new_def new proceed_send_def send_call_step_def
        with_lock_def io_thread_def Let_def)
  have "process_step ?p e = Inr (?p, [])" if "is_io e" for e
    using that by (cases e) (auto simp: io_thread_def Let_def)
  then have "run_steps process_step ?p fs = Inr (?p, [])" if "list_all is_io fs" for fs
    using that by (induction fs) auto
  with run bl more show ?thesis by (auto simp: joined_def)
qed

theorem dropped_transport_loses_backlog_witness:
  "let cfg = small_config\<lparr>unscheduled_bytes := 4096\<rparr>; data = replicate 2000 0
   in \<exists>p out. run_steps process_step (process_new cfg 0)
      [PSend (localhost 9) data 0, PCall 0 0, PCall 0 0, PCall 0 0, PShutdown, PIo rev (rev, rev, rev) RecvTimeout 0] = Inr (p, out)
    \<and> Did (SendReturned 1 (Inr 1)) \<in> set out \<and> joined p \<and> backlog (st_tx (t_state (pr_transport p))) = 244"
proof -
  let ?cfg = "small_config\<lparr>unscheduled_bytes := 4096\<rparr>" and ?data = "replicate 2000 (0 :: u8)"
  have "0 < packet_size ?cfg" "length ?data \<le> unscheduled_bytes ?cfg" "FLUSH_BUDGET * packet_size ?cfg < length ?data"
    by (simp_all add: FLUSH_BUDGET_def)
  moreover have "chunk_count (packet_size ?cfg) (length ?data) 0 - FLUSH_BUDGET = 244"
    by (simp add: chunk_count_def FLUSH_BUDGET_def)
  ultimately show ?thesis
    using dropped_transport_loses_backlog [of ?cfg ?data 0 "localhost 9" rev "(rev, rev, rev)" RecvTimeout]
    unfolding Let_def by (metis (no_types, lifting))
qed

end
