(* ===== verification/RpcThreads.thy ===== *)
theory RpcThreads
  imports Lifecycle Rpc
begin

text \<open>
  The threads of \<^verbatim>\<open>src/rpc/mod.rs\<close>: \<open>RpcServer\<close> with its receiving loop and \<open>RpcClient\<close> with its
  dispatcher, from \<open>spawn\<close> and \<open>new\<close> to \<open>drop\<close>, around the steps of \<open>Rpc\<close>.
\<close>

section \<open>The server\<close>

text \<open>
  What \<open>recv\<close> of the transport gives the loop: a message, an error, or a panic because the mutex of
  the transport is poisoned.
\<close>

datatype rpc_recv = Message sockaddr bytes | NoMessage | RecvPanicked

record rpc_server =
  rs_server :: server
  rs_shutdown :: bool
  rs_loop :: loop_pos

text \<open>\<open>RpcServer::spawn\<close>: the address, the transport and the server that it starts with.\<close>

definition rpc_server_spawn ::
  "os_answers \<Rightarrow> (string \<Rightarrow> sockaddr option) \<Rightarrow> string \<Rightarrow> instant \<Rightarrow> io_error + (sockaddr \<times> process \<times> rpc_server)" where
  "rpc_server_spawn os parse_addr bind now =
     (case transport_bind os parse_addr bind default_config now of
        Inl e \<Rightarrow> Inl e
      | Inr transport \<Rightarrow>
          (case os_local_addr os of
             Inl e \<Rightarrow> Inl e
           | Inr addr \<Rightarrow>
               attempt (os_thread os ''homa-rpc-server'')
                 (Inr (addr, transport, \<lparr>rs_server = server_new, rs_shutdown = False, rs_loop = LoopHead\<rparr>))))"

text \<open>The next step of the receiving loop: the test of the \<open>while\<close>, or a round with what \<open>recv\<close> gave.\<close>

definition server_loop :: "rpc_server \<Rightarrow> rpc_recv \<Rightarrow> rpc_server" where
  "server_loop s r =
     (case rs_loop s of
        LoopHead \<Rightarrow> s\<lparr>rs_loop := (if rs_shutdown s then LoopEnded else LoopBody)\<rparr>
      | LoopBody \<Rightarrow>
          (case r of
             Message src frame \<Rightarrow> s\<lparr>rs_server := serve (rs_server s) src frame, rs_loop := LoopHead\<rparr>
           | NoMessage \<Rightarrow> s\<lparr>rs_loop := LoopHead\<rparr>
           | RecvPanicked \<Rightarrow> s\<lparr>rs_loop := LoopPanicked\<rparr>)
      | LoopEnded \<Rightarrow> s
      | LoopPanicked \<Rightarrow> s)"

text \<open>\<open>RsDrop\<close> is the first statement of \<open>drop\<close>; the threads of the workers are not joined by it.\<close>

datatype rpc_server_event = RsLoop rpc_recv | RsWorker nat "bytes option" | RsDrop

fun rpc_server_step :: "rpc_server \<Rightarrow> rpc_server_event \<Rightarrow> fault + (rpc_server \<times> server_effect list)" where
  "rpc_server_step s (RsLoop r) = Inr (server_loop s r, [])"
| "rpc_server_step s (RsWorker n resp_body) =
     (if n < length (sv_workers (rs_server s))
      then let (sv, out) = work (rs_server s) n resp_body in Inr (s\<lparr>rs_server := sv\<rparr>, out)
      else Inr (s, []))"
| "rpc_server_step s RsDrop = Inr (s\<lparr>rs_shutdown := True\<rparr>, [])"

fun serves :: "rpc_server_event \<Rightarrow> server_event \<Rightarrow> bool" where
  "serves (RsLoop r) f \<longleftrightarrow> (\<exists>src frame. r = Message src frame \<and> f = SRequest src frame)"
| "serves (RsWorker n rb) f \<longleftrightarrow> f = SWorker n rb"
| "serves RsDrop f \<longleftrightarrow> False"

text \<open>A step of the threads is one step of the server's model, or none.\<close>

lemma rpc_server_one:
  assumes "rpc_server_step s e = Inr (s', os)"
  shows "(rs_server s' = rs_server s \<and> os = [])
    \<or> (\<exists>f. server_step (rs_server s) f = Inr (rs_server s', os) \<and> serves e f
          \<and> (\<forall>k r. f = SWorker k r \<longrightarrow> k < length (sv_workers (rs_server s))))"
proof (cases e)
  case (RsLoop r)
  show ?thesis
  proof (cases "\<exists>src frame. r = Message src frame \<and> rs_loop s = LoopBody")
    case True
    then obtain src frame where "r = Message src frame" "rs_loop s = LoopBody" by blast
    with assms RsLoop show ?thesis by (intro disjI2 exI [of _ "SRequest src frame"]) (auto simp: server_loop_def)
  qed (use assms RsLoop in \<open>auto simp: server_loop_def split: loop_pos.splits rpc_recv.splits\<close>)
next
  case (RsWorker n rb)
  show ?thesis
  proof (cases "n < length (sv_workers (rs_server s))")
    case True
    with assms RsWorker show ?thesis by (intro disjI2 exI [of _ "SWorker n rb"]) (auto split: prod.splits)
  qed (use assms RsWorker in auto)
qed (use assms in auto)

lemma rpc_server_sim:
  assumes "rpc_server_step s e = Inr (s', os)"
  shows "\<exists>fs. run_steps server_step (rs_server s) fs = Inr (rs_server s', os) \<and> (\<forall>f \<in> set fs. serves e f)"
  by (rule one_or_none) (use rpc_server_one [OF assms] in blast)

interpretation rs: simulation rpc_server_step server_step "\<lambda>s. True" rs_server "\<lambda>os. os" serves
  by unfold_locales (simp_all add: rpc_server_sim)

fun is_loop :: "rpc_server_event \<Rightarrow> bool" where
  "is_loop (RsLoop r) = True"
| "is_loop _ = False"

interpretation rs_loop: flagged_loop rpc_server_step is_loop rs_shutdown "\<lambda>s. False" "\<lambda>s. loop_left (rs_loop s)"
proof unfold_locales
  fix s e s' os
  assume "rs_shutdown s" "rpc_server_step s e = Inr (s', os)"
  then show "rs_shutdown s'"
    by (cases e) (auto simp: server_loop_def Let_def split: loop_pos.splits rpc_recv.splits if_splits prod.splits)
next
  fix s e s' os
  assume "rs_shutdown s" "is_loop e" "rpc_server_step s e = Inr (s', os)"
  then show "loop_left (rs_loop s') \<le> loop_left (rs_loop s) - 1"
    by (cases e) (auto simp: server_loop_def split: loop_pos.splits rpc_recv.splits)
next
  fix s e s' os
  assume "rs_shutdown s" "\<not> is_loop e" "rpc_server_step s e = Inr (s', os)"
  then show "loop_left (rs_loop s') \<le> loop_left (rs_loop s)"
    by (cases e) (auto split: if_splits prod.splits)
qed simp

section \<open>An accepted request is answered\<close>

fun is_worker :: "nat \<Rightarrow> rpc_server_event \<Rightarrow> bool" where
  "is_worker n (RsWorker m rb) = (m = n)"
| "is_worker n _ = False"

text \<open>
  How far the \<open>n\<close>-th worker, which had taken the request \<open>body\<close> under the key \<open>(src, i)\<close>, has come after
  \<open>k\<close> steps, with the effects \<open>os\<close> since then.
\<close>

definition worker_at :: "nat \<Rightarrow> sockaddr \<Rightarrow> u64 \<Rightarrow> bytes \<Rightarrow> nat \<Rightarrow> server \<Rightarrow> server_effect list \<Rightarrow> bool" where
  "worker_at n src i body k sv os \<longleftrightarrow> n < length (sv_workers sv) \<and>
     (if k = 0 then sv_workers sv ! n = Working src i body
      else \<exists>rb. Invoked src i body rb \<in> set os \<and>
        (if k = 1 then sv_workers sv ! n = Responding src i (encode_frame i rb)
         else SendTo src (encode_frame i rb) \<in> set os \<and>
           (if k = 2 then sv_workers sv ! n = Storing src i (encode_frame i rb)
            else sv_workers sv ! n = Ended \<and> (\<exists>r. map_of (sv_dedup sv) (src, i) = Some (Some r)))))"

text \<open>Other steps keep a worker and a stored response.\<close>

lemma serve_keeps:
  "n < length (sv_workers sv) \<Longrightarrow> sv_workers (serve sv src frame) ! n = sv_workers sv ! n"
  "length (sv_workers sv) \<le> length (sv_workers (serve sv src frame))"
  "length (sv_workers (serve sv src frame)) \<le> Suc (length (sv_workers sv))"
  "map_of (sv_dedup sv) k = Some (Some r) \<Longrightarrow> map_of (sv_dedup (serve sv src frame)) k = Some (Some r)"
  by (auto simp: serve_def nth_append update_conv' split: option.splits)

lemma work_keeps:
  "work sv m rb = (sv', os) \<Longrightarrow> m \<noteq> n \<Longrightarrow> sv_workers sv' ! n = sv_workers sv ! n"
  "work sv m rb = (sv', os) \<Longrightarrow> length (sv_workers sv') = length (sv_workers sv)"
  "work sv m rb = (sv', os) \<Longrightarrow> map_of (sv_dedup sv) k = Some (Some r) \<Longrightarrow> \<exists>r'. map_of (sv_dedup sv') k = Some (Some r')"
  by (auto simp: work_def update_conv' split: worker.splits option.splits)

lemma server_loop_keeps:
  "n < length (sv_workers (rs_server s)) \<Longrightarrow> sv_workers (rs_server (server_loop s r)) ! n = sv_workers (rs_server s) ! n"
  "length (sv_workers (rs_server s)) \<le> length (sv_workers (rs_server (server_loop s r)))"
  "map_of (sv_dedup (rs_server s)) k = Some (Some resp) \<Longrightarrow> map_of (sv_dedup (rs_server (server_loop s r))) k = Some (Some resp)"
  by (auto simp: server_loop_def serve_keeps split: loop_pos.splits rpc_recv.splits)

lemma worker_at_more: "worker_at n src i body k sv os \<Longrightarrow> worker_at n src i body k sv (os @ os')"
  by (auto simp: worker_at_def split: if_splits)

lemma worker_at_work:
  assumes "worker_at n src i body k sv os" "work sv n (Some x) = (sv', out)" "k \<le> 3"
  shows "worker_at n src i body (min 3 (Suc k)) sv' (os @ out)"
proof -
  consider "k = 0" | "k = 1" | "k = 2" | "k = 3" using assms(3) by linarith
  then show ?thesis
  proof cases
    case 1
    with assms(1,2) show ?thesis by (auto simp: worker_at_def work_def)
  next
    case 2
    with assms(1) obtain rb where w: "n < length (sv_workers sv)" "Invoked src i body rb \<in> set os"
      "sv_workers sv ! n = Responding src i (encode_frame i rb)" by (auto simp: worker_at_def)
    then have "sv' = sv\<lparr>sv_workers := (sv_workers sv)[n := Storing src i (encode_frame i rb)]\<rparr>"
      "out = [SendTo src (encode_frame i rb)]" using assms(2) by (simp_all add: work_def)
    with 2 w show ?thesis by (auto simp: worker_at_def)
  next
    case 3
    with assms(1) obtain rb where w: "n < length (sv_workers sv)" "Invoked src i body rb \<in> set os"
      "SendTo src (encode_frame i rb) \<in> set os" "sv_workers sv ! n = Storing src i (encode_frame i rb)"
      by (auto simp: worker_at_def)
    then have "sv' = sv\<lparr>sv_workers := (sv_workers sv)[n := Ended],
        sv_dedup := AList.update (src, i) (Some (encode_frame i rb)) (sv_dedup sv)\<rparr>"
      "out = []" using assms(2) by (simp_all add: work_def)
    with 3 w show ?thesis by (auto simp: worker_at_def update_conv')
  next
    case 4
    with assms(1,2) show ?thesis by (auto simp: worker_at_def work_def)
  qed
qed

lemma worker_at_step:
  assumes w: "worker_at n src i body k (rs_server s) os" and st: "rpc_server_step s e = Inr (s', os')"
    and live: "e \<noteq> RsWorker n None" and k: "k \<le> 3"
  shows "worker_at n src i body (min 3 (if is_worker n e then Suc k else k)) (rs_server s') (os @ os')"
proof (cases e)
  case (RsLoop r)
  have "worker_at n src i body k (rs_server s') os"
    using w st RsLoop server_loop_keeps(1,2) [where s = s and r = r] server_loop_keeps(3) [where s = s and k = "(src, i)" and r = r]
    by (auto simp: worker_at_def split: if_splits)
  then show ?thesis using worker_at_more k RsLoop by simp
next
  case (RsWorker m rb)
  show ?thesis
  proof (cases "m < length (sv_workers (rs_server s))")
    case False
    then have "m \<noteq> n" using w by (auto simp: worker_at_def)
    with False w st RsWorker k show ?thesis by simp
  next
    case True
    obtain sv out where wk: "work (rs_server s) m rb = (sv, out)" by force
    then have s': "rs_server s' = sv" "os' = out" using st RsWorker True by auto
    show ?thesis
    proof (cases "m = n")
      case False
      have "worker_at n src i body k sv os"
        using w work_keeps(1,2) [OF wk] False work_keeps(3) [OF wk, of "(src, i)"]
        by (auto simp: worker_at_def split: if_splits)
      then show ?thesis using worker_at_more k RsWorker False s' by simp
    next
      case n: True
      obtain x where rb: "rb = Some x" using live RsWorker n by (cases rb) auto
      have "work (rs_server s) n (Some x) = (sv, out)" using wk rb n by simp
      from worker_at_work [OF w this k] show ?thesis using RsWorker n s' by simp
    qed
  qed
next
  case RsDrop
  with st w k show ?thesis by auto
qed

lemma worker_at_run:
  "worker_at n src i body k (rs_server s) os0 \<Longrightarrow> run_steps rpc_server_step s es = Inr (s', os) \<Longrightarrow>
     RsWorker n None \<notin> set es \<Longrightarrow> k \<le> 3 \<Longrightarrow>
     worker_at n src i body (min 3 (k + length (filter (is_worker n) es))) (rs_server s') (os0 @ os)"
proof (induction es arbitrary: s k os0 os)
  case (Cons e es)
  from Cons.prems(2) obtain t os1 os2 where st: "rpc_server_step s e = Inr (t, os1)"
    and run: "run_steps rpc_server_step t es = Inr (s', os2)" and os: "os = os1 @ os2"
    by (auto simp: bind_res_Inr_iff)
  let ?k = "min 3 (if is_worker n e then Suc k else k)"
  have "worker_at n src i body ?k (rs_server t) (os0 @ os1)"
    using worker_at_step [OF Cons.prems(1) st _ Cons.prems(4)] Cons.prems(3) by auto
  from Cons.IH [OF this run] Cons.prems(3) os
  have "worker_at n src i body (min 3 (?k + length (filter (is_worker n) es))) (rs_server s') (os0 @ os)" by simp
  moreover have "min 3 (?k + length (filter (is_worker n) es)) = min 3 (k + length (filter (is_worker n) (e # es)))"
    by (simp add: min_def)
  ultimately show ?case by simp
qed (simp add: min_def)


section \<open>The client\<close>

text \<open>
  The dispatcher has one more position than the other loops: it holds a body that is not in its
  channel yet. \<open>rc_transport_shutdown\<close> is the flag of the client's transport.
\<close>

datatype dispatcher_pos = DispHead | DispRecv | DispSend | DispEnded | DispPanicked

record rpc_client =
  rc_client :: client
  rc_shutdown :: bool
  rc_transport_shutdown :: bool
  rc_dispatcher :: dispatcher_pos

definition rpc_client_new ::
  "os_answers \<Rightarrow> (string \<Rightarrow> sockaddr option) \<Rightarrow> string \<Rightarrow> instant \<Rightarrow> io_error + (process \<times> rpc_client)" where
  "rpc_client_new os parse_addr bind now =
     (case transport_bind os parse_addr bind default_config now of
        Inl e \<Rightarrow> Inl e
      | Inr transport \<Rightarrow>
          attempt (os_thread os ''homa-rpc-dispatch'')
            (Inr (transport, \<lparr>rc_client = client_new, rc_shutdown = False, rc_transport_shutdown = False, rc_dispatcher = DispHead\<rparr>)))"

text \<open>The next step of the dispatcher.\<close>

definition dispatcher :: "rpc_client \<Rightarrow> rpc_recv \<Rightarrow> rpc_client" where
  "dispatcher c r =
     (case rc_dispatcher c of
        DispHead \<Rightarrow> c\<lparr>rc_dispatcher := (if rc_shutdown c then DispEnded else DispRecv)\<rparr>
      | DispRecv \<Rightarrow>
          (case r of
             Message src frame \<Rightarrow>
               let cl = dispatch_take (rc_client c) src frame
               in c\<lparr>rc_client := cl, rc_dispatcher := (if cl_hand cl = None then DispHead else DispSend)\<rparr>
           | NoMessage \<Rightarrow> c\<lparr>rc_dispatcher := DispHead\<rparr>
           | RecvPanicked \<Rightarrow> c\<lparr>rc_dispatcher := DispPanicked\<rparr>)
      | DispSend \<Rightarrow> c\<lparr>rc_client := dispatch_put (rc_client c), rc_dispatcher := DispHead\<rparr>
      | DispEnded \<Rightarrow> c
      | DispPanicked \<Rightarrow> c)"

text \<open>
  \<open>RcCall\<close> is \<open>call_with_timeout\<close>, and \<open>call\<close> with the client's own number of attempts; \<open>RcDrop\<close> is the first
  two statements of \<open>drop\<close>.
\<close>

datatype rpc_client_event = RcDispatcher rpc_recv | RcCall sockaddr bytes nat | RcProceed nat send_answer | RcDrop

definition DEFAULT_ATTEMPT_TIMEOUT :: duration where
  "DEFAULT_ATTEMPT_TIMEOUT = from_millis 500"

definition DEFAULT_MAX_ATTEMPTS :: nat where
  "DEFAULT_MAX_ATTEMPTS = 5"

fun rpc_client_step :: "rpc_client \<Rightarrow> rpc_client_event \<Rightarrow> fault + (rpc_client \<times> client_effect list)" where
  "rpc_client_step c (RcDispatcher r) = Inr (dispatcher c r, [])"
| "rpc_client_step c (RcCall server payload max_attempts) =
     Inr (c\<lparr>rc_client := call_begin (rc_client c) server payload max_attempts\<rparr>, [])"
| "rpc_client_step c (RcProceed n sent) =
     (if n < length (cl_calls (rc_client c))
      then let (cl, out) = call_step (rc_client c) n sent in Inr (c\<lparr>rc_client := cl\<rparr>, out)
      else Inr (c, []))"
| "rpc_client_step c RcDrop = Inr (c\<lparr>rc_shutdown := True, rc_transport_shutdown := True\<rparr>, [])"

text \<open>The dispatcher holds a body exactly in the position between its two locks.\<close>

definition hand_ok :: "rpc_client \<Rightarrow> bool" where
  "hand_ok c \<longleftrightarrow> (cl_hand (rc_client c) \<noteq> None \<longleftrightarrow> rc_dispatcher c = DispSend)"

lemma call_step_hand: "call_step cl n sent = (cl', out) \<Longrightarrow> cl_hand cl' = cl_hand cl"
  by (auto simp: call_step_def Let_def split: stage.splits send_answer.splits list.splits if_splits)

lemma dispatch_put_hand: "cl_hand (dispatch_put cl) = None"
  by (auto simp: dispatch_put_def split: option.splits)

lemma rpc_client_hand: "hand_ok c \<Longrightarrow> rpc_client_step c e = Inr (c', os) \<Longrightarrow> hand_ok c'"
  by (cases e)
    (auto simp: hand_ok_def dispatcher_def Let_def call_begin_def dispatch_put_hand dest: call_step_hand
      split: dispatcher_pos.splits rpc_recv.splits if_splits prod.splits)

fun calls :: "rpc_client_event \<Rightarrow> client_event \<Rightarrow> bool" where
  "calls (RcDispatcher r) f \<longleftrightarrow> (\<exists>src frame. r = Message src frame \<and> f = CFrame src frame) \<or> f = CPut"
| "calls (RcCall server payload mx) f \<longleftrightarrow> f = CCall server payload mx"
| "calls (RcProceed n sent) f \<longleftrightarrow> f = CProceed n sent"
| "calls RcDrop f \<longleftrightarrow> False"

text \<open>The part of the state that the client's model has, where the dispatcher's hand is in order.\<close>

lemma rpc_client_one:
  assumes "hand_ok c" "rpc_client_step c e = Inr (c', os)"
  shows "(rc_client c' = rc_client c \<and> os = [])
    \<or> (\<exists>f. client_step (rc_client c) f = Inr (rc_client c', os) \<and> calls e f)"
proof (cases e)
  case (RcDispatcher r)
  show ?thesis
  proof (cases "rc_dispatcher c")
    case DispRecv
    then have hand: "cl_hand (rc_client c) = None" using assms(1) by (simp add: hand_ok_def)
    show ?thesis
    proof (cases r)
      case (Message src frame)
      with DispRecv RcDispatcher assms(2) hand show ?thesis
        by (intro disjI2 exI [of _ "CFrame src frame"]) (auto simp: dispatcher_def Let_def)
    qed (use DispRecv RcDispatcher assms(2) in \<open>auto simp: dispatcher_def\<close>)
  next
    case DispSend
    with RcDispatcher assms(2) show ?thesis by (intro disjI2 exI [of _ CPut]) (auto simp: dispatcher_def)
  qed (use RcDispatcher assms(2) in \<open>auto simp: dispatcher_def\<close>)
next
  case (RcCall server payload mx)
  with assms(2) show ?thesis by (intro disjI2 exI [of _ "CCall server payload mx"]) auto
next
  case (RcProceed n sent)
  with assms(2) show ?thesis by (intro disjI2 exI [of _ "CProceed n sent"]) (auto split: if_splits prod.splits)
qed (use assms(2) in auto)

lemma rpc_client_sim:
  assumes "hand_ok c" "rpc_client_step c e = Inr (c', os)"
  shows "\<exists>fs. run_steps client_step (rc_client c) fs = Inr (rc_client c', os) \<and> (\<forall>f \<in> set fs. calls e f)"
  by (rule one_or_none) (use rpc_client_one [OF assms] in blast)

interpretation rc: simulation rpc_client_step client_step hand_ok rc_client "\<lambda>os. os" calls
  by unfold_locales (simp_all add: rpc_client_sim rpc_client_hand)

fun disp_left :: "dispatcher_pos \<Rightarrow> nat" where
  "disp_left DispHead = 1"
| "disp_left DispSend = 2"
| "disp_left DispRecv = 3"
| "disp_left DispEnded = 0"
| "disp_left DispPanicked = 0"

lemma disp_left_0: "disp_left x = 0 \<longleftrightarrow> x = DispEnded \<or> x = DispPanicked"
  by (cases x) auto

fun is_dispatcher :: "rpc_client_event \<Rightarrow> bool" where
  "is_dispatcher (RcDispatcher r) = True"
| "is_dispatcher _ = False"

interpretation rc_loop: flagged_loop rpc_client_step is_dispatcher rc_shutdown "\<lambda>c. False" "\<lambda>c. disp_left (rc_dispatcher c)"
proof unfold_locales
  fix c e c' os
  assume "rc_shutdown c" "rpc_client_step c e = Inr (c', os)"
  then show "rc_shutdown c'"
    by (cases e) (auto simp: dispatcher_def Let_def split: dispatcher_pos.splits rpc_recv.splits if_splits prod.splits)
next
  fix c e c' os
  assume "rc_shutdown c" "is_dispatcher e" "rpc_client_step c e = Inr (c', os)"
  then show "disp_left (rc_dispatcher c') \<le> disp_left (rc_dispatcher c) - 1"
    by (cases e) (auto simp: dispatcher_def Let_def split: dispatcher_pos.splits rpc_recv.splits)
next
  fix c e c' os
  assume "rc_shutdown c" "\<not> is_dispatcher e" "rpc_client_step c e = Inr (c', os)"
  then show "disp_left (rc_dispatcher c') \<le> disp_left (rc_dispatcher c)"
    by (cases e) (auto split: if_splits prod.splits)
qed simp


section \<open>Nothing new after shutdown\<close>

text \<open>The requests taken so far, and the one that the loop may still take in this round.\<close>

definition may_take :: "rpc_server \<Rightarrow> nat" where
  "may_take s = length (sv_workers (rs_server s)) + (if rs_loop s = LoopBody then 1 else 0)"

lemma may_take_step: "rs_shutdown s \<Longrightarrow> rpc_server_step s e = Inr (s', os) \<Longrightarrow> may_take s' \<le> may_take s"
  using work_keeps(2) serve_keeps(3)
  by (cases e)
    (force simp: may_take_def server_loop_def Let_def split: loop_pos.splits rpc_recv.splits if_splits prod.splits)+

lemma may_take_run: "rs_shutdown s \<Longrightarrow> run_steps rpc_server_step s es = Inr (s', os) \<Longrightarrow> may_take s' \<le> may_take s"
proof (induction es arbitrary: s os)
  case (Cons e es)
  from Cons.prems(2) obtain t os1 os2 where st: "rpc_server_step s e = Inr (t, os1)"
    and run: "run_steps rpc_server_step t es = Inr (s', os2)"
    by (auto simp: bind_res_Inr_iff)
  from Cons.IH [OF rs_loop.flag_stays [OF Cons.prems(1) st] run] may_take_step [OF Cons.prems(1) st]
  show ?case by simp
qed simp

lemma rpc_server_runs: "\<exists>s' os. run_steps rpc_server_step s es = Inr (s', os)"
proof (rule steps_run)
  fix s e
  show "\<exists>r. rpc_server_step s e = Inr r" by (cases e) (auto split: prod.splits)
qed

lemma rpc_client_runs: "\<exists>c' os. run_steps rpc_client_step c es = Inr (c', os)"
proof (rule steps_run)
  fix c e
  show "\<exists>r. rpc_client_step c e = Inr r" by (cases e) (auto split: prod.splits)
qed

text \<open>Shutdown of the client ends its dispatcher, and reaches the transport below.\<close>

lemma client_drop_ends_dispatcher:
  assumes "run_steps rpc_client_step c (RcDrop # es) = Inr (c', os)" "3 \<le> length (filter is_dispatcher es)"
  shows "rc_dispatcher c' = DispEnded \<or> rc_dispatcher c' = DispPanicked"
proof -
  have r: "run_steps rpc_client_step (c\<lparr>rc_shutdown := True, rc_transport_shutdown := True\<rparr>) es = Inr (c', os)"
    using assms(1) by (auto simp: bind_res_Inr_iff)
  have "disp_left (rc_dispatcher c) \<le> 3" by (cases "rc_dispatcher c") simp_all
  then have "disp_left (rc_dispatcher c') = 0" using rc_loop.run_ends [OF _ r] assms(2) by simp
  then show ?thesis by (simp add: disp_left_0)
qed

section \<open>Properties\<close>

text \<open>
  The threads of the RPC layer refine it: every run of the server's loop, workers and shutdown
  is a run of the server on the messages that \<open>recv\<close> returned, and every run of the client's dispatcher,
  calls and shutdown is a run of the client, with the same effects.
\<close>

lemma rpc_threads_refine:
  assumes "rpc_server_spawn os parse_addr bind now = Inr (addr, transport, s0)" "run_steps rpc_server_step s0 es = Inr (s, out)"
    "rpc_client_new os' parse_addr bind' now' = Inr (transport', c0)" "run_steps rpc_client_step c0 es' = Inr (c, out')"
  shows "(\<exists>fs. run_steps server_step server_new fs = Inr (rs_server s, out) \<and> (\<forall>f \<in> set fs. \<exists>e \<in> set es. serves e f))
    \<and> (\<exists>fs. run_steps client_step client_new fs = Inr (rc_client c, out') \<and> (\<forall>f \<in> set fs. \<exists>e \<in> set es'. calls e f))"
proof (intro conjI)
  have s0: "rs_server s0 = server_new" using assms(1) by (auto simp: rpc_server_spawn_def split: sum.splits)
  have c0: "rc_client c0 = client_new" "hand_ok c0"
    using assms(3) by (auto simp: rpc_client_new_def hand_ok_def client_new_def split: sum.splits)
  show "\<exists>fs. run_steps server_step server_new fs = Inr (rs_server s, out) \<and> (\<forall>f \<in> set fs. \<exists>e \<in> set es. serves e f)"
    using rs.run_sim [OF _ assms(2)] by (simp add: s0)
  show "\<exists>fs. run_steps client_step client_new fs = Inr (rc_client c, out') \<and> (\<forall>f \<in> set fs. \<exists>e \<in> set es'. calls e f)"
    using rc.run_sim [OF c0(2) assms(4)] by (simp add: c0(1))
qed

text \<open>A server that takes one request and is dropped while its worker computes; a client with one call.\<close>

definition example_server_run :: "rpc_server_event list" where
  "example_server_run = [RsLoop NoMessage, RsLoop (Message (localhost 5) (encode_frame 1 [7])), RsDrop, RsWorker 0 (Some [8]),
     RsLoop NoMessage, RsWorker 0 (Some []), RsLoop NoMessage, RsWorker 0 (Some [])]"

definition example_client_run :: "rpc_client_event list" where
  "example_client_run = [RcCall (localhost 6) [7] 2, RcProceed 0 Sent, RcProceed 0 Sent, RcDispatcher NoMessage,
     RcDispatcher (Message (localhost 6) (encode_frame 1 [8])), RcDispatcher NoMessage, RcProceed 0 Sent, RcDrop,
     RcDispatcher NoMessage]"

abbreviation example_server :: rpc_server where
  "example_server \<equiv> \<lparr>rs_server = server_new, rs_shutdown = False, rs_loop = LoopHead\<rparr>"

abbreviation example_client :: rpc_client where
  "example_client \<equiv> \<lparr>rc_client = client_new, rc_shutdown = False, rc_transport_shutdown = False, rc_dispatcher = DispHead\<rparr>"

lemma example_spawn:
  "rpc_server_spawn example_os (\<lambda>a. Some (localhost 6)) ''127.0.0.1:6'' 0 = Inr (localhost 7, process_new default_config 0, example_server)"
  "rpc_client_new example_os (\<lambda>a. Some (localhost 6)) ''127.0.0.1:5'' 0 = Inr (process_new default_config 0, example_client)"
  by (simp_all add: rpc_server_spawn_def rpc_client_new_def transport_bind_def example_os_def)

lemma rpc_threads_refine_witness:
  "\<exists>s out c out'. run_steps rpc_server_step example_server example_server_run = Inr (s, out)
    \<and> run_steps rpc_client_step example_client example_client_run = Inr (c, out')
    \<and> SendTo (localhost 5) (encode_frame 1 [8]) \<in> set out \<and> CallReturned 0 1 (Inr [8]) \<in> set out'
    \<and> (\<exists>fs. run_steps server_step server_new fs = Inr (rs_server s, out) \<and> (\<forall>f \<in> set fs. \<exists>e \<in> set example_server_run. serves e f))
    \<and> (\<exists>fs. run_steps client_step client_new fs = Inr (rc_client c, out') \<and> (\<forall>f \<in> set fs. \<exists>e \<in> set example_client_run. calls e f))"
proof -
  obtain s out where s: "run_steps rpc_server_step example_server example_server_run = Inr (s, out)" using rpc_server_runs by blast
  obtain c out' where c: "run_steps rpc_client_step example_client example_client_run = Inr (c, out')" using rpc_client_runs by blast
  have "SendTo (localhost 5) (encode_frame 1 [8]) \<in> set (snd (projr (run_steps rpc_server_step example_server example_server_run)))"
    "CallReturned 0 1 (Inr [8]) \<in> set (snd (projr (run_steps rpc_client_step example_client example_client_run)))"
    by code_simp+
  then have "SendTo (localhost 5) (encode_frame 1 [8]) \<in> set out" "CallReturned 0 1 (Inr [8]) \<in> set out'" using s c by simp_all
  with rpc_threads_refine [OF example_spawn(1) s example_spawn(2) c] s c show ?thesis by blast
qed

text \<open>
  C23: A request that a worker has taken is answered, provided that neither the handler nor \<open>send_to\<close> panics in
  this worker's thread (which \<open>RsWorker n None\<close> would be; then the request stays unanswered for good): after three steps
  of its thread, however these interleave with other threads, which may panic, and even if the server is dropped meanwhile, the handler has run
  for it, its response was given to \<open>send_to\<close>, and repetitions of the request find a response stored.
\<close>

theorem accepted_request_is_answered:
  assumes "n < length (sv_workers (rs_server s))" "sv_workers (rs_server s) ! n = Working src i body"
    "run_steps rpc_server_step s es = Inr (s', out)" "RsWorker n None \<notin> set es" "3 \<le> length (filter (is_worker n) es)"
  shows "\<exists>rb. Invoked src i body rb \<in> set out \<and> SendTo src (encode_frame i rb) \<in> set out
    \<and> (\<exists>resp. map_of (sv_dedup (rs_server s')) (src, i) = Some (Some resp))"
proof -
  have "worker_at n src i body 0 (rs_server s) []" using assms(1,2) by (simp add: worker_at_def)
  from worker_at_run [OF this assms(3,4)] assms(5)
  have "worker_at n src i body 3 (rs_server s') out" by (simp add: min_def split: if_splits)
  then show ?thesis by (auto simp: worker_at_def)
qed

theorem accepted_request_is_answered_witness:
  "let s = fst (projr (run_steps rpc_server_step example_server (take 2 example_server_run)))
   in \<exists>s' out rb. run_steps rpc_server_step s (drop 2 example_server_run) = Inr (s', out)
     \<and> Invoked (localhost 5) 1 [7] rb \<in> set out \<and> SendTo (localhost 5) (encode_frame 1 rb) \<in> set out"
proof -
  let ?s = "fst (projr (run_steps rpc_server_step example_server (take 2 example_server_run)))"
  obtain s' out where r: "run_steps rpc_server_step ?s (drop 2 example_server_run) = Inr (s', out)" using rpc_server_runs by blast
  have w: "0 < length (sv_workers (rs_server ?s))" "sv_workers (rs_server ?s) ! 0 = Working (localhost 5) 1 [7]" by code_simp+
  have e: "RsWorker 0 None \<notin> set (drop 2 example_server_run)" "3 \<le> length (filter (is_worker 0) (drop 2 example_server_run))"
    by (simp_all add: example_server_run_def)
  from accepted_request_is_answered [OF w r e] r show ?thesis unfolding Let_def by blast
qed

text \<open>
  A server that is dropped stops: its loop is over within two of its steps, and it takes at
  most one more request, the one it was receiving.
\<close>

lemma dropped_server_stops:
  assumes "run_steps rpc_server_step s (RsDrop # es) = Inr (s', out)" "2 \<le> length (filter is_loop es)"
  shows "(rs_loop s' = LoopEnded \<or> rs_loop s' = LoopPanicked)
    \<and> length (sv_workers (rs_server s')) \<le> length (sv_workers (rs_server s)) + (if rs_loop s = LoopBody then 1 else 0)"
proof -
  let ?s = "s\<lparr>rs_shutdown := True\<rparr>"
  have r: "run_steps rpc_server_step ?s es = Inr (s', out)" using assms(1) by (auto simp: bind_res_Inr_iff)
  have "loop_left (rs_loop s') = 0" using rs_loop.run_ends [OF _ r] loop_left_le [of "rs_loop s"] assms(2) by simp
  moreover have "may_take s' \<le> may_take ?s" using may_take_run [OF _ r] by simp
  ultimately show ?thesis by (auto simp: may_take_def loop_left_0)
qed

lemma dropped_server_stops_witness:
  "let m = RsLoop (Message (localhost 5) (encode_frame 1 [7])); s = example_server\<lparr>rs_loop := LoopBody\<rparr>
   in \<exists>s' out. run_steps rpc_server_step s (RsDrop # [m, m, m]) = Inr (s', out) \<and> (rs_loop s' = LoopEnded \<or> rs_loop s' = LoopPanicked)
     \<and> length (sv_workers (rs_server s')) \<le> 1"
proof -
  let ?m = "RsLoop (Message (localhost 5) (encode_frame 1 [7]))" and ?s = "example_server\<lparr>rs_loop := LoopBody\<rparr>"
  obtain s' out where r: "run_steps rpc_server_step ?s (RsDrop # [?m, ?m, ?m]) = Inr (s', out)" using rpc_server_runs by blast
  from dropped_server_stops [OF r] r show ?thesis unfolding Let_def by (simp add: server_new_def)
qed

end
