(* ===== verification/CallProgress.thy ===== *)
theory CallProgress
  imports RpcThreads
begin

text \<open>
  That calls make progress: each one returns after a bounded number of its own steps, whatever the
  dispatcher, other calls and the network do, and a response that the dispatcher has taken from the transport
  in time is what it returns.
\<close>

section \<open>Every call returns\<close>

text \<open>How many steps of its own a call has left at most.\<close>

fun stage_left :: "nat \<Rightarrow> stage \<Rightarrow> nat" where
  "stage_left left Attempting = 3 * left"
| "stage_left left (Registered ch) = 3 * left - 1"
| "stage_left left (Awaiting ch) = 3 * left - 2"
| "stage_left left Done = 0"

definition call_left :: "nat \<Rightarrow> rpc_client \<Rightarrow> nat" where
  "call_left n c = (let call = cl_calls (rc_client c) ! n in stage_left (rc_left call) (rc_stage call))"

fun is_step_of :: "nat \<Rightarrow> rpc_client_event \<Rightarrow> bool" where
  "is_step_of n (RcProceed m sent) = (m = n)"
| "is_step_of n _ = False"

text \<open>The dispatcher touches no call, and a step of a call no other call.\<close>

lemma dispatcher_calls: "cl_calls (rc_client (dispatcher c r)) = cl_calls (rc_client c)"
  by (auto simp: dispatcher_def dispatch_take_def dispatch_put_def Let_def
      split: dispatcher_pos.splits rpc_recv.splits option.splits)

lemma call_step_calls:
  assumes "call_step cl n sent = (cl', out)"
  obtains c where "cl_calls cl' = (cl_calls cl)[n := c]"
    "stage_left (rc_left c) (rc_stage c) \<le> stage_left (rc_left (cl_calls cl ! n)) (rc_stage (cl_calls cl ! n)) - 1"
    "rc_id c = rc_id (cl_calls cl ! n)"
proof -
  let ?c = "cl_calls cl ! n"
  have "\<exists>c. cl_calls cl' = (cl_calls cl)[n := c] \<and> stage_left (rc_left c) (rc_stage c) \<le> stage_left (rc_left ?c) (rc_stage ?c) - 1
      \<and> rc_id c = rc_id ?c"
  proof (cases "rc_stage ?c")
    case Attempting
    then show ?thesis using assms by (auto simp: call_step_def Let_def intro!: exI [of _ "?c\<lparr>rc_stage := Registered (length (cl_chans cl))\<rparr>"])
  next
    case (Registered ch)
    then show ?thesis using assms
      by (cases sent) (auto simp: call_step_def Let_def intro: exI [of _ "?c\<lparr>rc_stage := Awaiting ch\<rparr>"] exI [of _ "?c\<lparr>rc_stage := Done\<rparr>"])
  next
    case (Awaiting ch)
    show ?thesis
    proof (cases "cl_chans cl ! ch")
      case Nil
      let ?d = "?c\<lparr>rc_left := rc_left ?c - 1, rc_stage := (if rc_left ?c - 1 = 0 then Done else Attempting)\<rparr>"
      have "cl_calls cl' = (cl_calls cl)[n := ?d]" using assms Awaiting Nil by (auto simp: call_step_def Let_def split: if_splits)
      then show ?thesis using Awaiting by (intro exI [of _ ?d]) auto
    next
      case (Cons body rest)
      then show ?thesis using assms Awaiting by (auto simp: call_step_def Let_def intro: exI [of _ "?c\<lparr>rc_stage := Done\<rparr>"])
    qed
  next
    case Done
    then show ?thesis using assms by (auto simp: call_step_def intro: exI [of _ ?c])
  qed
  then show thesis using that by blast
qed

text \<open>The loop of \<open>call_with_timeout\<close> as a loop that is always told to end: by its number of attempts.\<close>

lemma call_left_step:
  assumes n: "n < length (cl_calls (rc_client c))" and st: "rpc_client_step c e = Inr (c', os)"
  shows "n < length (cl_calls (rc_client c'))"
    "call_left n c' \<le> (if is_step_of n e then call_left n c - 1 else call_left n c)"
proof -
  have "n < length (cl_calls (rc_client c')) \<and> call_left n c' \<le> (if is_step_of n e then call_left n c - 1 else call_left n c)"
  proof (cases e)
    case (RcDispatcher r)
    with st n show ?thesis by (auto simp: call_left_def dispatcher_calls)
  next
    case (RcCall server payload mx)
    with st n show ?thesis by (auto simp: call_left_def call_begin_def Let_def nth_append)
  next
    case (RcProceed m sent)
    show ?thesis
    proof (cases "m < length (cl_calls (rc_client c))")
      case True
      obtain cl out where s: "call_step (rc_client c) m sent = (cl, out)" by force
      from call_step_calls [OF s] obtain d where d: "cl_calls cl = (cl_calls (rc_client c))[m := d]"
        "stage_left (rc_left d) (rc_stage d)
          \<le> stage_left (rc_left (cl_calls (rc_client c) ! m)) (rc_stage (cl_calls (rc_client c) ! m)) - 1" by metis
      with s st RcProceed True n show ?thesis by (cases "m = n") (auto simp: call_left_def Let_def)
    qed (use st n RcProceed in auto)
  next
    case RcDrop
    with st n show ?thesis by (auto simp: call_left_def)
  qed
  then show "n < length (cl_calls (rc_client c'))"
    "call_left n c' \<le> (if is_step_of n e then call_left n c - 1 else call_left n c)" by blast+
qed

lemma call_left_own:
  "n < length (cl_calls (rc_client c)) \<Longrightarrow> is_step_of n e \<Longrightarrow> rpc_client_step c e = Inr (c', os) \<Longrightarrow> call_left n c' \<le> call_left n c - 1"
  "n < length (cl_calls (rc_client c)) \<Longrightarrow> \<not> is_step_of n e \<Longrightarrow> rpc_client_step c e = Inr (c', os) \<Longrightarrow> call_left n c' \<le> call_left n c"
  using call_left_step(2) [of n c e c' os] by simp_all

interpretation rc_call: flagged_loop rpc_client_step "is_step_of n" "\<lambda>c. n < length (cl_calls (rc_client c))" "\<lambda>c. False" "call_left n" for n
  by unfold_locales (erule call_left_step call_left_own, assumption+ | simp)+

lemma stage_left_0: "stage_left left stage = 0 \<Longrightarrow> 0 < left \<or> stage = Done \<Longrightarrow> stage = Done"
  by (cases stage) auto

text \<open>The number of a call is the number of calls before it.\<close>

fun is_call :: "rpc_client_event \<Rightarrow> bool" where
  "is_call (RcCall server payload mx) = True"
| "is_call _ = False"

lemma calls_counted:
  "run_steps rpc_client_step c es = Inr (c', os) \<Longrightarrow>
     length (cl_calls (rc_client c')) = length (cl_calls (rc_client c)) + length (filter is_call es)"
proof (induction es arbitrary: c os)
  case (Cons e es)
  from Cons.prems obtain d os1 os2 where st: "rpc_client_step c e = Inr (d, os1)"
    and run: "run_steps rpc_client_step d es = Inr (c', os2)" by (auto simp: bind_res_Inr_iff)
  have "length (cl_calls (rc_client d)) = length (cl_calls (rc_client c)) + (if is_call e then 1 else 0)"
    using st by (cases e) (auto simp: dispatcher_calls call_begin_def Let_def split: if_splits prod.splits elim: call_step_calls)
  with Cons.IH [OF run] show ?case by simp
qed simp

lemma rpc_client_new_client: "rpc_client_new os parse_addr bind now = Inr (t, c) \<Longrightarrow>
    rc_client c = client_new \<and> hand_ok c \<and> rc_dispatcher c = DispHead"
  by (auto simp: rpc_client_new_def hand_ok_def client_new_def split: sum.splits)

lemma rpc_client_hist:
  assumes "rpc_client_new os parse_addr bind now = Inr (t, c0)" "run_steps rpc_client_step c0 es = Inr (c, out)"
  obtains fs where "client_hist (rc_client c) fs out" "\<forall>f \<in> set fs. \<exists>e \<in> set es. calls e f"
proof -
  note c0 = rpc_client_new_client [OF assms(1)]
  from rc.run_sim [OF _ assms(2)] c0 obtain fs where
    f: "run_steps client_step client_new fs = Inr (rc_client c, out)" "\<forall>f \<in> set fs. \<exists>e \<in> set es. calls e f" by auto
  from cli.run_hist [OF client_hist_new f(1)] f(2) that show thesis by simp
qed

text \<open>
  C24: Every call comes to its end, exactly once, within three of its own steps per attempt: whatever
  arrives, whether or not the dispatcher is alive, and however other calls interleave. It returns, unless
  its \<open>send_to\<close> panics, as it does when a packet has poisoned the mutex of the transport; then
  the panic unwinds the call.
\<close>

theorem every_call_returns:
  assumes "rpc_client_new os parse_addr bind now = Inr (t, c0)"
    "run_steps rpc_client_step c0 (es @ RcCall server payload mx # fs) = Inr (c, out)"
    "n = length (filter is_call es)" "3 * max mx 1 \<le> length (filter (is_step_of n) fs)"
  shows "returns_of n out + panics_of n out = 1
    \<and> (returns_of n out = 1 \<or> RcProceed n SendPanicked \<in> set (es @ fs))"
proof -
  note c0 = rpc_client_new_client [OF assms(1)]
  from assms(2) obtain c1 o1 o2 c2 where r: "run_steps rpc_client_step c0 es = Inr (c1, o1)"
    "rpc_client_step c1 (RcCall server payload mx) = Inr (c2, [])" "run_steps rpc_client_step c2 fs = Inr (c, o2)"
    by (auto simp: run_steps_append bind_res_Inr_iff)
  have n: "length (cl_calls (rc_client c1)) = n" using calls_counted [OF r(1)] c0 assms(3) by (simp add: client_new_def)
  have c2: "n < length (cl_calls (rc_client c2))" "call_left n c2 = 3 * max mx 1"
    using r(2) n by (auto simp: call_begin_def Let_def call_left_def nth_append)
  have "call_left n c = 0" by (rule rc_call.run_ends [OF c2(1) r(3)]) (use c2 assms(4) in simp_all)
  moreover have l: "n < length (cl_calls (rc_client c))" using rc_call.run_rank [OF c2(1) r(3)] by simp
  obtain gs where g: "client_hist (rc_client c) gs out"
    "\<forall>g \<in> set gs. \<exists>e \<in> set (es @ RcCall server payload mx # fs). calls e g" by (rule rpc_client_hist [OF assms(1,2)])
  then obtain own where own: "client_own own (rc_client c) gs out" by (auto simp: client_hist_def)
  then have "rpc_call_ok own (length (cl_chans (rc_client c))) gs out n (cl_calls (rc_client c) ! n)"
    using l by (simp add: client_own_def)
  ultimately have one: "returns_of n out + panics_of n out = 1"
    by (cases "rc_stage (cl_calls (rc_client c) ! n)") (auto simp: rpc_call_ok_def call_left_def Let_def)
  moreover have "RcProceed n SendPanicked \<in> set (es @ fs)" if "returns_of n out \<noteq> 1"
  proof -
    have "CallPanicked n \<in> set out" using one that panics_of_none [of n out] by linarith
    then have "CProceed n SendPanicked \<in> set gs" using own by (simp add: client_own_def)
    with g(2) show ?thesis by (auto elim!: calls.elims)
  qed
  ultimately show ?thesis by blast
qed

theorem every_call_returns_witness:
  "\<exists>c out. run_steps rpc_client_step example_client ([RcDrop] @ RcCall (localhost 6) [7] 1
       # [RcProceed 0 Sent, RcDispatcher NoMessage, RcProceed 0 Sent, RcProceed 0 Sent]) = Inr (c, out)
     \<and> returns_of 0 out + panics_of 0 out = 1 \<and> returns_of 0 out = 1"
proof -
  obtain c out where r: "run_steps rpc_client_step example_client ([RcDrop] @ RcCall (localhost 6) [7] 1
      # [RcProceed 0 Sent, RcDispatcher NoMessage, RcProceed 0 Sent, RcProceed 0 Sent]) = Inr (c, out)"
    using rpc_client_runs by blast
  have "returns_of 0 out + panics_of 0 out = 1 \<and> (returns_of 0 out = 1
      \<or> RcProceed 0 SendPanicked \<in> set ([RcDrop] @ [RcProceed 0 Sent, RcDispatcher NoMessage, RcProceed 0 Sent, RcProceed 0 Sent]))"
    by (rule every_call_returns [OF example_spawn(2) r]) simp_all
  then have "returns_of 0 out + panics_of 0 out = 1 \<and> returns_of 0 out = 1" by simp
  with r show ?thesis by blast
qed

section \<open>A response in time is returned\<close>

text \<open>The channel of the current attempt of a call, and a body in it or about to be put into it.\<close>

fun chan_of :: "stage \<Rightarrow> nat option" where
  "chan_of (Registered ch) = Some ch"
| "chan_of (Awaiting ch) = Some ch"
| "chan_of _ = None"

definition body_coming :: "client \<Rightarrow> nat \<Rightarrow> bool" where
  "body_coming cl ch \<longleftrightarrow> cl_chans cl ! ch \<noteq> [] \<or> (\<exists>body. cl_hand cl = Some (ch, body))"

definition registered :: "client \<Rightarrow> nat \<Rightarrow> bool" where
  "registered cl n \<longleftrightarrow> (\<forall>ch. chan_of (rc_stage (cl_calls cl ! n)) = Some ch \<longrightarrow>
     map_of (cl_waiters cl) (rc_id (cl_calls cl ! n)) = Some ch \<or> body_coming cl ch)"

text \<open>Ids, and with them channels, tell calls apart as long as the counter does not wrap around.\<close>

lemma own_distinct:
  assumes "client_own own cl es os" "length (cl_calls cl) < 2 ^ 64" "n < length (cl_calls cl)" "m < length (cl_calls cl)"
  shows "rc_id (cl_calls cl ! n) = rc_id (cl_calls cl ! m) \<longleftrightarrow> n = m"
proof -
  have "rc_id (cl_calls cl ! k) = word_of_nat (Suc k)" if "k < length (cl_calls cl)" for k
    using assms(1) that by (simp add: client_own_def rpc_call_ok_def)
  then show ?thesis using id_inj [of n m] assms(2-4) by (simp del: of_nat_Suc)
qed

lemma own_chan:
  assumes "client_own own cl es os" "n < length (cl_calls cl)" "chan_of (rc_stage (cl_calls cl ! n)) = Some ch"
  shows "ch < length (cl_chans cl) \<and> own ch = rc_id (cl_calls cl ! n)"
proof -
  have "rpc_call_ok own (length (cl_chans cl)) es os n (cl_calls cl ! n)" using assms(1,2) by (simp add: client_own_def)
  with assms(3) show ?thesis by (cases "rc_stage (cl_calls cl ! n)") (auto simp: rpc_call_ok_def)
qed

text \<open>What any step but its own leaves of a call: the call, its waiter until a body is coming, a body that is coming.\<close>

definition undisturbed :: "client \<Rightarrow> client \<Rightarrow> nat \<Rightarrow> nat \<Rightarrow> bool" where
  "undisturbed cl cl' n ch \<longleftrightarrow> cl_calls cl' ! n = cl_calls cl ! n
     \<and> (body_coming cl ch \<longrightarrow> body_coming cl' ch) \<and> (cl_chans cl ! ch \<noteq> [] \<longrightarrow> cl_chans cl' ! ch \<noteq> [])
     \<and> (map_of (cl_waiters cl) (rc_id (cl_calls cl ! n)) = Some ch \<longrightarrow>
          map_of (cl_waiters cl') (rc_id (cl_calls cl ! n)) = Some ch \<or> body_coming cl' ch)"

lemma undisturbed_refl [simp]: "undisturbed cl cl n ch"
  by (simp add: undisturbed_def)

lemma call_step_undisturbed:
  assumes own: "client_own own cl es os" and len: "length (cl_calls cl) < 2 ^ 64"
    and n: "n < length (cl_calls cl)" "chan_of (rc_stage (cl_calls cl ! n)) = Some ch"
    and m: "m < length (cl_calls cl)" "m \<noteq> n" and s: "call_step cl m sent = (cl', out)"
  shows "undisturbed cl cl' n ch"
proof -
  have ids: "rc_id (cl_calls cl ! n) \<noteq> rc_id (cl_calls cl ! m)" using own_distinct [OF own len n(1) m(1)] m(2) by simp
  note ch = own_chan [OF own n]
  show ?thesis
  proof (cases "rc_stage (cl_calls cl ! m)")
    case Attempting
    with s ids ch m(2) show ?thesis
      by (auto simp: call_step_def Let_def undisturbed_def body_coming_def update_conv' nth_append)
  next
    case (Registered ch')
    with s m(2) show ?thesis by (auto simp: call_step_def Let_def undisturbed_def body_coming_def split: send_answer.splits)
  next
    case (Awaiting ch')
    then have "ch' \<noteq> ch" using own_chan [OF own m(1), of ch'] ch ids by auto
    with Awaiting s ids m(2) show ?thesis
      by (auto simp: call_step_def Let_def undisturbed_def body_coming_def delete_conv' split: list.splits if_splits)
  qed (use s in \<open>simp add: call_step_def\<close>)
qed

lemma nth_update_if: "j < length xs \<Longrightarrow> xs[i := x] ! j = (if i = j then x else xs ! j)"
  by auto

lemma dispatch_undisturbed:
  assumes "ch < length (cl_chans cl)"
  shows "cl_hand cl = None \<Longrightarrow> undisturbed cl (dispatch_take cl src frame) n ch" "undisturbed cl (dispatch_put cl) n ch"
    "body_coming cl ch \<Longrightarrow> cl_chans (dispatch_put cl) ! ch \<noteq> []"
  using assms
  by (auto simp: undisturbed_def body_coming_def dispatch_take_def dispatch_put_def delete_conv' nth_update_if split: option.splits if_splits)

fun proceeds :: "nat \<Rightarrow> client_event \<Rightarrow> bool" where
  "proceeds n (CProceed m sent) = (m = n)"
| "proceeds n _ = False"

lemma step_undisturbed:
  assumes own: "client_own own cl es os" and len: "length (cl_calls cl) < 2 ^ 64"
    and n: "n < length (cl_calls cl)" "chan_of (rc_stage (cl_calls cl ! n)) = Some ch"
    and e: "\<not> proceeds n e" and s: "client_step cl e = Inr (cl', os')"
  shows "undisturbed cl cl' n ch"
proof (cases e)
  case (CCall server payload mx)
  with s n show ?thesis by (auto simp: undisturbed_def body_coming_def call_begin_def Let_def nth_append)
next
  case (CProceed m sent)
  with s e call_step_undisturbed [OF own len n] show ?thesis by (auto split: if_splits)
next
  case (CFrame src frame)
  with s dispatch_undisturbed(1) own_chan [OF own n] show ?thesis by auto
next
  case CPut
  with s dispatch_undisturbed(2) own_chan [OF own n] show ?thesis by auto
qed

text \<open>Every call that waits is registered, or its body is coming.\<close>

lemma registered_step:
  assumes own: "client_own own cl es os" and len: "length (cl_calls cl) < 2 ^ 64" and n: "n < length (cl_calls cl)"
    and r: "registered cl n" and s: "client_step cl e = Inr (cl', os')"
  shows "registered cl' n"
proof (cases "proceeds n e")
  case True
  then obtain sent where st: "call_step cl n sent = (cl', os')" using s n by (cases e) auto
  show ?thesis
  proof (cases "rc_stage (cl_calls cl ! n)")
    case (Registered ch)
    with st r n show ?thesis by (auto simp: call_step_def Let_def registered_def body_coming_def split: send_answer.splits option.splits)
  qed (use st r n in \<open>auto simp: call_step_def Let_def registered_def update_conv' split: list.splits if_splits\<close>)
next
  case False
  have same: "cl_calls cl' ! n = cl_calls cl ! n"
    using s n False by (cases e) (auto simp: call_begin_def Let_def nth_append dispatch_take_def dispatch_put_def
        split: if_splits option.splits prod.splits elim!: call_step_calls)
  show ?thesis unfolding registered_def
  proof (intro allI impI)
    fix ch
    assume "chan_of (rc_stage (cl_calls cl' ! n)) = Some ch"
    then have ch: "chan_of (rc_stage (cl_calls cl ! n)) = Some ch" by (simp add: same)
    from step_undisturbed [OF own len n ch False s] r ch same
    show "map_of (cl_waiters cl') (rc_id (cl_calls cl' ! n)) = Some ch \<or> body_coming cl' ch"
      by (auto simp: undisturbed_def registered_def)
  qed
qed

definition client_live :: "client \<Rightarrow> client_event list \<Rightarrow> client_effect list \<Rightarrow> bool" where
  "client_live cl es os \<longleftrightarrow> client_hist cl es os
     \<and> (length (cl_calls cl) < 2 ^ 64 \<longrightarrow> (\<forall>n < length (cl_calls cl). registered cl n))"

lemma step_calls_grow:
  assumes "client_step cl e = Inr (cl', os)"
  obtains "length (cl_calls cl') = length (cl_calls cl)"
  | c where "cl_calls cl' = cl_calls cl @ [c]" "rc_stage c = Attempting"
  using assms by (cases e) (auto simp: call_begin_def Let_def dispatch_take_def dispatch_put_def
      split: if_splits option.splits prod.splits elim!: call_step_calls)

interpretation live: history client_step client_live
proof
  fix cl es os e cl' os'
  assume l: "client_live cl es os" and s: "client_step cl e = Inr (cl', os')"
  then obtain own where own: "client_own own cl es os" by (auto simp: client_live_def client_hist_def)
  have h: "client_hist cl' (es @ [e]) (os @ os')" using l client_step_hist [OF _ s] by (simp add: client_live_def)
  have "registered cl' n" if len: "length (cl_calls cl') < 2 ^ 64" and n: "n < length (cl_calls cl')" for n
  proof (cases "n < length (cl_calls cl)")
    case True
    have "length (cl_calls cl) < 2 ^ 64" using len by (cases rule: step_calls_grow [OF s]) simp_all
    moreover from this have "registered cl n" using l True by (simp add: client_live_def)
    ultimately show ?thesis using registered_step [OF own _ True _ s] by blast
  next
    case False
    show ?thesis using n False by (cases rule: step_calls_grow [OF s]) (auto simp: registered_def nth_append less_Suc_eq)
  qed
  with h show "client_live cl' (es @ [e]) (os @ os')" by (simp add: client_live_def)
qed

lemma client_live_new: "client_live client_new [] []"
  using client_hist_new by (simp add: client_live_def client_new_def)

text \<open>While a body is coming and the call takes no step, one step of the dispatcher puts it into the channel.\<close>

lemma rc_step_undisturbed:
  assumes hand: "hand_ok c" and own: "client_own own (rc_client c) es os" and len: "length (cl_calls (rc_client c)) < 2 ^ 64"
    and n: "n < length (cl_calls (rc_client c))" "chan_of (rc_stage (cl_calls (rc_client c) ! n)) = Some ch"
    and e: "\<not> is_step_of n e" and s: "rpc_client_step c e = Inr (c', os')"
  shows "undisturbed (rc_client c) (rc_client c') n ch"
    "is_dispatcher e \<Longrightarrow> body_coming (rc_client c) ch \<Longrightarrow> cl_chans (rc_client c') ! ch \<noteq> []"
proof -
  have "calls e f \<Longrightarrow> \<not> proceeds n f" for f using e by (cases e) auto
  with rpc_client_one [OF hand s] step_undisturbed [OF own len n]
  show u: "undisturbed (rc_client c) (rc_client c') n ch" by fastforce
  assume d: "is_dispatcher e" and coming: "body_coming (rc_client c) ch"
  show "cl_chans (rc_client c') ! ch \<noteq> []"
  proof (cases "rc_dispatcher c = DispSend")
    case True
    then have "rc_client c' = dispatch_put (rc_client c)" using d s by (cases e) (auto simp: dispatcher_def)
    then show ?thesis using dispatch_undisturbed(3) [OF _ coming] own_chan [OF own n] by simp
  next
    case False
    then have "cl_chans (rc_client c) ! ch \<noteq> []" using hand coming by (simp add: hand_ok_def body_coming_def)
    with u show ?thesis by (simp add: undisturbed_def)
  qed
qed

lemma coming_run:
  "run_steps rpc_client_step c fs = Inr (c', out) \<Longrightarrow> hand_ok c \<Longrightarrow> client_live (rc_client c) es os \<Longrightarrow>
     n < length (cl_calls (rc_client c)) \<Longrightarrow> chan_of (rc_stage (cl_calls (rc_client c) ! n)) = Some ch \<Longrightarrow>
     body_coming (rc_client c) ch \<Longrightarrow> filter (is_step_of n) fs = [] \<Longrightarrow> length (cl_calls (rc_client c')) < 2 ^ 64 \<Longrightarrow>
     cl_calls (rc_client c') ! n = cl_calls (rc_client c) ! n \<and> body_coming (rc_client c') ch
     \<and> (filter is_dispatcher fs \<noteq> [] \<or> cl_chans (rc_client c) ! ch \<noteq> [] \<longrightarrow> cl_chans (rc_client c') ! ch \<noteq> [])"
proof (induction fs arbitrary: c es os out)
  case (Cons e fs)
  from Cons.prems(1) obtain d os1 os2 where st: "rpc_client_step c e = Inr (d, os1)"
    and run: "run_steps rpc_client_step d fs = Inr (c', os2)" by (auto simp: bind_res_Inr_iff)
  obtain own where own: "client_own own (rc_client c) es os"
    using Cons.prems(3) by (auto simp: client_live_def client_hist_def)
  have len: "length (cl_calls (rc_client c)) < 2 ^ 64" using calls_counted [OF Cons.prems(1)] Cons.prems(8) by simp
  have e: "\<not> is_step_of n e" using Cons.prems(7) by (auto split: if_splits)
  note u = rc_step_undisturbed [OF Cons.prems(2) own len Cons.prems(4,5) e st]
  obtain gs where g: "run_steps client_step (rc_client c) gs = Inr (rc_client d, os1)"
    using rpc_client_sim [OF Cons.prems(2) st] by blast
  have n: "n < length (cl_calls (rc_client d))" using call_left_step(1) [OF Cons.prems(4) st] .
  have u1: "cl_calls (rc_client d) ! n = cl_calls (rc_client c) ! n" "body_coming (rc_client d) ch"
    "cl_chans (rc_client c) ! ch \<noteq> [] \<Longrightarrow> cl_chans (rc_client d) ! ch \<noteq> []"
    using u(1) Cons.prems(6) by (simp_all add: undisturbed_def)
  from Cons.IH [OF run rpc_client_hand [OF Cons.prems(2) st] live.run_hist [OF Cons.prems(3) g] n]
  show ?case using u1 u(2) Cons.prems(5-8) e by (auto split: if_splits)
qed simp

text \<open>What the dispatcher takes for a registered call is coming.\<close>

lemma taken_is_coming:
  assumes "registered cl n" "rc_stage (cl_calls cl ! n) = Awaiting ch" "cl_hand cl = None" "rc_id (cl_calls cl ! n) = i"
  shows "body_coming (dispatch_take cl src (encode_frame i body)) ch"
    "cl_calls (dispatch_take cl src (encode_frame i body)) = cl_calls cl"
  using assms by (auto simp: registered_def body_coming_def dispatch_take_def split: option.splits)

text \<open>A body in the channel of a call came in a frame with the call's id.\<close>

lemma body_has_arrived:
  assumes "rpc_client_new os parse_addr bind now = Inr (t, c0)" "run_steps rpc_client_step c0 es = Inr (c, out)"
    "n < length (cl_calls (rc_client c))" "rc_stage (cl_calls (rc_client c) ! n) = Awaiting ch"
    "cl_chans (rc_client c) ! ch = b # rest"
  shows "\<exists>s. RcDispatcher (Message s (encode_frame (rc_id (cl_calls (rc_client c) ! n)) b)) \<in> set es"
proof -
  let ?i = "rc_id (cl_calls (rc_client c) ! n)"
  obtain fs where f: "client_hist (rc_client c) fs out" "\<forall>f \<in> set fs. \<exists>e \<in> set es. calls e f"
    by (rule rpc_client_hist [OF assms(1,2)])
  then obtain own where own: "client_own own (rc_client c) fs out" by (auto simp: client_hist_def)
  have "ch < length (cl_chans (rc_client c)) \<and> own ch = ?i" using own_chan [OF own assms(3)] assms(4) by simp
  with own assms(5) have "arrived_frame fs ?i b" unfolding client_own_def by (metis list.set_intros(1))
  then obtain s where "CFrame s (encode_frame ?i b) \<in> set fs" by (auto simp: arrived_frame_def)
  with f(2) obtain e where e: "e \<in> set es" "calls e (CFrame s (encode_frame ?i b))" by blast
  have "e = RcDispatcher (Message s (encode_frame ?i b))" using e(2) by (cases e) auto
  with e(1) show ?thesis by blast
qed

text \<open>
  C25: A response in time is returned: while a call waits, let the dispatcher take a response with the call's id
  from the transport. If it then gets at least one step before the call's next one, however
  other calls, other frames, drops and further steps of the dispatcher interleave, that step of the call returns \<open>Ok\<close>
  with the body of a response under its id that has arrived.
\<close>

theorem response_in_time_is_returned:
  assumes "rpc_client_new os parse_addr bind now = Inr (t, c0)" "run_steps rpc_client_step c0 es = Inr (c, out)"
    "rc_dispatcher c = DispRecv" "n < length (cl_calls (rc_client c))" "rc_stage (cl_calls (rc_client c) ! n) = Awaiting ch"
    "run_steps rpc_client_step c (RcDispatcher (Message src (encode_frame (word_of_nat (Suc n)) body)) # fs @ [RcProceed n sent])
       = Inr (c', out')"
    "filter (is_step_of n) fs = []" "filter is_dispatcher fs \<noteq> []" "length (filter is_call (es @ fs)) < 2 ^ 64"
  shows "\<exists>b s. CallReturned n (word_of_nat (Suc n)) (Inr b) \<in> set out'
    \<and> RcDispatcher (Message s (encode_frame (word_of_nat (Suc n)) b))
        \<in> set (es @ RcDispatcher (Message src (encode_frame (word_of_nat (Suc n)) body)) # fs)"
proof -
  let ?i = "word_of_nat (Suc n) :: u64" and ?e = "RcDispatcher (Message src (encode_frame (word_of_nat (Suc n)) body))"
  note c0 = rpc_client_new_client [OF assms(1)]
  from rc.run_sim [OF _ assms(2)] c0 obtain gs where g: "run_steps client_step (rc_client c0) gs = Inr (rc_client c, out)" by blast
  have hand: "hand_ok c" using rc.run_inv [OF _ assms(2)] c0 by simp
  have live: "client_live (rc_client c) gs out" using live.run_hist [OF client_live_new] g c0 by fastforce
  from assms(6) obtain c1 c2 o2 o3 where r: "rpc_client_step c ?e = Inr (c1, [])" "run_steps rpc_client_step c1 fs = Inr (c2, o2)"
    "rpc_client_step c2 (RcProceed n sent) = Inr (c', o3)" "out' = o2 @ o3"
    by (auto simp: run_steps_append bind_res_Inr_iff)
  have all: "run_steps rpc_client_step c0 (es @ ?e # fs) = Inr (c2, out @ o2)"
    using assms(2) r(1,2) by (simp add: run_steps_append)
  have len: "length (cl_calls (rc_client c2)) < 2 ^ 64" "length (cl_calls (rc_client c)) < 2 ^ 64"
    using calls_counted [OF all] calls_counted [OF assms(2)] assms(9) c0 by (simp_all add: client_new_def)
  obtain own where "client_own own (rc_client c) gs out" using live by (auto simp: client_live_def client_hist_def)
  then have id: "rc_id (cl_calls (rc_client c) ! n) = ?i" using assms(4) by (simp add: client_own_def rpc_call_ok_def)
  have "registered (rc_client c) n" "cl_hand (rc_client c) = None"
    using live len(2) assms(3,4) hand by (simp_all add: client_live_def hand_ok_def)
  note t = taken_is_coming [OF this(1) assms(5) this(2) id, of src body]
  have c1: "rc_client c1 = dispatch_take (rc_client c) src (encode_frame ?i body)"
    using r(1) assms(3) by (auto simp: dispatcher_def Let_def)
  obtain gs1 where "run_steps client_step (rc_client c) gs1 = Inr (rc_client c1, [])" using rpc_client_sim [OF hand r(1)] by blast
  note live1 = live.run_hist [OF live this]
  from coming_run [OF r(2) rpc_client_hand [OF hand r(1)] live1, of n ch] len assms(4,5,7,8) t
  have c2: "cl_calls (rc_client c2) ! n = cl_calls (rc_client c) ! n" "cl_chans (rc_client c2) ! ch \<noteq> []" by (simp_all add: c1)
  then obtain b rest where b: "cl_chans (rc_client c2) ! ch = b # rest" by (cases "cl_chans (rc_client c2) ! ch") auto
  have n2: "n < length (cl_calls (rc_client c2))" using calls_counted [OF r(2)] assms(4) t by (simp add: c1)
  have ret: "CallReturned n ?i (Inr b) \<in> set out'"
    using r(3,4) n2 c2(1) assms(5) b id by (auto simp: call_step_def Let_def)
  have "rc_stage (cl_calls (rc_client c2) ! n) = Awaiting ch" "rc_id (cl_calls (rc_client c2) ! n) = ?i"
    using c2(1) assms(5) id by simp_all
  from body_has_arrived [OF assms(1) all n2 this(1) b] this(2) ret show ?thesis by auto
qed

theorem response_in_time_is_returned_witness:
  "let c = fst (projr (run_steps rpc_client_step example_client (take 4 example_client_run)))
   in \<exists>c' out' b. run_steps rpc_client_step c (RcDispatcher (Message (localhost 6) (encode_frame (word_of_nat (Suc 0)) [8]))
          # [RcDrop, RcDispatcher NoMessage] @ [RcProceed 0 Sent]) = Inr (c', out')
     \<and> CallReturned 0 (word_of_nat (Suc 0)) (Inr b) \<in> set out'"
proof -
  let ?run = "run_steps rpc_client_step example_client (take 4 example_client_run)"
  let ?c = "fst (projr ?run)"
  obtain c out where "?run = Inr (c, out)" using rpc_client_runs by blast
  then have r: "?run = Inr (?c, out)" by simp
  obtain c' out' where r': "run_steps rpc_client_step ?c (RcDispatcher (Message (localhost 6) (encode_frame (word_of_nat (Suc 0)) [8]))
      # [RcDrop, RcDispatcher NoMessage] @ [RcProceed 0 Sent]) = Inr (c', out')"
    using rpc_client_runs by blast
  have c: "rc_dispatcher ?c = DispRecv" "0 < length (cl_calls (rc_client ?c))" "rc_stage (cl_calls (rc_client ?c) ! 0) = Awaiting 0"
    by code_simp+
  have "filter (is_step_of 0) [RcDrop, RcDispatcher NoMessage] = []" "filter is_dispatcher [RcDrop, RcDispatcher NoMessage] \<noteq> []"
    "length (filter is_call (take 4 example_client_run @ [RcDrop, RcDispatcher NoMessage])) < 2 ^ 64"
    by (simp_all add: example_client_run_def)
  from response_in_time_is_returned [OF example_spawn(2) r c r' this] r' show ?thesis unfolding Let_def by blast
qed

end
