(* ===== verification/Debug.thy ===== *)
theory Debug
  imports Lifecycle Rpc
begin

text \<open>
  The snapshots for debugging: \<open>debug_dump\<close> of \<^verbatim>\<open>src/transport/sender.rs\<close> and
  \<^verbatim>\<open>src/transport/receiver.rs\<close>, and \<open>Transport::debug_state\<close>. \<open>show_addr\<close> is the standard
  library's way to print a socket address. A string is its UTF-8 bytes.
\<close>

declare decimal.simps [simp del]

definition newline :: string where
  "newline = [CHR 0x0A]"

definition show_bool :: "bool \<Rightarrow> string" where
  "show_bool b = (if b then ''true'' else ''false'')"

definition sender_line :: "(sockaddr \<Rightarrow> string) \<Rightarrow> msg_key \<Rightarrow> out_msg \<Rightarrow> string" where
  "sender_line show_addr key m =
     ''  ['' @ show_addr (fst key) @ ''#'' @ decimal (unat (snd key)) @ ''] len='' @ decimal (length (om_data m))
     @ '' sent='' @ decimal (om_next_send m) @ ''/'' @ decimal (length (om_data m))
     @ '' granted_to='' @ decimal (om_granted_to m) @ '' done='' @ show_bool (om_done_at m \<noteq> None) @ newline"

definition sender_dump :: "(sockaddr \<Rightarrow> string) \<Rightarrow> (msg_key list \<Rightarrow> msg_key list) \<Rightarrow> sender_core \<Rightarrow> string" where
  "sender_dump show_addr ord s =
     concat (map (\<lambda>key. sender_line show_addr key (the (map_of (s_out s) key))) (ord (hm_keys (s_out s))))"

definition receiver_line :: "(sockaddr \<Rightarrow> string) \<Rightarrow> msg_key list \<Rightarrow> msg_key \<Rightarrow> in_msg \<Rightarrow> string" where
  "receiver_line show_addr granting key m =
     ''  ['' @ show_addr (fst key) @ ''#'' @ decimal (unat (snd key)) @ ''] len='' @ decimal (im_total_len m)
     @ '' recv='' @ decimal (im_received_bytes m) @ ''/'' @ decimal (im_total_len m)
     @ '' granted_to='' @ decimal (im_granted_to m) @ '' granting='' @ show_bool (key \<in> set granting) @ newline"

definition receiver_dump :: "(sockaddr \<Rightarrow> string) \<Rightarrow> (msg_key list \<Rightarrow> msg_key list) \<Rightarrow> receiver_core \<Rightarrow> string" where
  "receiver_dump show_addr ord r =
     concat (map (\<lambda>key. receiver_line show_addr (r_granting r) key (the (map_of (r_incoming r) key))) (ord (hm_keys (r_incoming r))))"

text \<open>The three headings, in UTF-8: being sent, being received, to be delivered.\<close>

definition sending_label :: string where
  "sending_label = map char_of [0xE5, 0x8F, 0x91, 0xE9, 0x80, 0x81, 0xE4, 0xB8, 0xAD, 0x3A, 0x20 :: nat]"

definition receiving_label :: string where
  "receiving_label = map char_of [0x0A, 0xE5, 0x9C, 0xA8, 0xE6, 0x94, 0xB6, 0x3A, 0x20 :: nat]"

definition completed_label :: string where
  "completed_label = map char_of [0x0A, 0xE5, 0xBE, 0x85, 0xE4, 0xBA, 0xA4, 0xE4, 0xBB, 0x98, 0x3A, 0x20 :: nat]"

text \<open>\<open>None\<close> is no snapshot: the mutex is poisoned, so that \<open>unwrap\<close> panics, or it is never released.\<close>

definition debug_state ::
  "(sockaddr \<Rightarrow> string) \<Rightarrow> (msg_key list \<Rightarrow> msg_key list) \<Rightarrow> (msg_key list \<Rightarrow> msg_key list) \<Rightarrow> process \<Rightarrow> string option" where
  "debug_state show_addr ord1 ord2 p =
     (if pr_mutex p = Unlocked
      then let st = t_state (pr_transport p)
           in Some (sending_label @ sender_dump show_addr ord1 (st_sender st)
                @ receiving_label @ receiver_dump show_addr ord2 (st_receiver st)
                @ completed_label @ decimal (length (st_completed st)))
      else None)"

section \<open>One line per message\<close>

definition lines :: "string \<Rightarrow> nat" where
  "lines s = count_list s (CHR 0x0A)"

lemma lines_append [simp]: "lines (s @ t) = lines s + lines t"
  by (simp add: lines_def)

lemma lines_simps [simp]: "lines [] = 0" "lines (c # s) = (if c = CHR 0x0A then Suc (lines s) else lines s)"
  by (simp_all add: lines_def)

lemma lines_concat: "lines (concat ss) = sum_list (map lines ss)"
  by (induction ss) simp_all

lemma decimal_no_newline: "CHR 0x0A \<notin> set (decimal n)"
proof (induction n rule: decimal.induct)
  case (1 n)
  have d: "CHR 0x0A \<noteq> char_of (48 + d)" if "d < 10" for d :: nat
  proof -
    have "d \<in> {0, 1, 2, 3, 4, 5, 6, 7, 8, 9}" using that by auto
    then show ?thesis by (auto simp: char_of_nat_def char_of_def)
  qed
  show ?case
  proof (cases "n < 10")
    case True
    then have "decimal n = [char_of (48 + n)]" by (subst decimal.simps) simp
    then show ?thesis using d [OF True] by simp
  next
    case False
    then have "decimal n = decimal (n div 10) @ [char_of (48 + n mod 10)]" by (subst decimal.simps) simp
    moreover have "n mod 10 < 10" by simp
    ultimately show ?thesis using 1 [OF False] d [of "n mod 10"] by (metis Un_iff empty_iff list.set(1,2) insert_iff set_append)
  qed
qed

lemma lines_decimal [simp]: "lines (decimal n) = 0"
  using decimal_no_newline [of n] by (simp add: lines_def count_list_0_iff)

lemma lines_bool [simp]: "lines (show_bool b) = 0"
  by (simp add: show_bool_def)

lemma sender_lines: "lines (show_addr (fst key)) = 0 \<Longrightarrow> lines (sender_line show_addr key m) = 1"
  by (simp add: sender_line_def newline_def)

lemma receiver_lines: "lines (show_addr (fst key)) = 0 \<Longrightarrow> lines (receiver_line show_addr g key m) = 1"
  by (simp add: receiver_line_def newline_def)

lemma length_iter_order: "iter_order ord \<Longrightarrow> length (ord ks) = length ks"
  by (metis iter_order_def size_mset)

text \<open>
  A dump has one line per message, whatever the iteration order; so a snapshot has as many lines
  as there are messages being sent and received, and two more.
\<close>

lemma debug_state_lines:
  assumes "\<And>a. lines (show_addr a) = 0" "iter_order ord1" "iter_order ord2" "debug_state show_addr ord1 ord2 p = Some text"
  shows "lines text = length (s_out (st_sender (t_state (pr_transport p)))) + in_flight (st_receiver (t_state (pr_transport p))) + 2"
proof -
  let ?st = "t_state (pr_transport p)"
  have "lines (sender_dump show_addr ord1 (st_sender ?st)) = length (s_out (st_sender ?st))"
    using assms(1,2) by (simp add: sender_dump_def lines_concat comp_def sender_lines sum_list_triv length_iter_order)
  moreover have "lines (receiver_dump show_addr ord2 (st_receiver ?st)) = in_flight (st_receiver ?st)"
    using assms(1,3) by (simp add: receiver_dump_def lines_concat comp_def receiver_lines sum_list_triv length_iter_order in_flight_def)
  moreover have "lines sending_label = 0" "lines receiving_label = 1" "lines completed_label = 1" by code_simp+
  ultimately show ?thesis using assms(4) by (auto simp: debug_state_def Let_def split: if_splits)
qed

end
