(* ===== verification/Collector.thy ===== *)
theory Collector
  imports Delivery
begin

text \<open>
  What the receiver promises, without buffers, bitmaps, counters, windows or timers: a collector
  keeps for every message the set of its chunks that have come, and delivers the message when the set
  is full. The receiver refines it step by step.
\<close>

section \<open>The collector\<close>

text \<open>
  The chunks that have come, for every message in progress, and the keys delivered last. A chunk of
  a message delivered lately changes nothing, nor does one of a new message when \<open>mx\<close> are in progress.
  \<open>Forget\<close> drops messages that are given up.
\<close>

type_synonym collector = "(msg_key \<rightharpoonup> nat set) \<times> msg_key list"

datatype collector_event = Chunk msg_key nat | Forget "msg_key set"

definition all_chunks :: "nat \<Rightarrow> bytes \<Rightarrow> nat set" where
  "all_chunks ps D = {..< chunk_count ps (length D) 0}"

definition chunks_seen :: "collector \<Rightarrow> msg_key \<Rightarrow> nat set" where
  "chunks_seen c key = (case fst c key of None \<Rightarrow> {} | Some S \<Rightarrow> S)"

definition collect :: "nat \<Rightarrow> nat \<Rightarrow> (msg_key \<Rightarrow> bytes option) \<Rightarrow> collector \<Rightarrow> msg_key \<Rightarrow> nat \<Rightarrow> collector \<times> (msg_key \<times> bytes) list" where
  "collect ps mx log c key i =
     (if key \<in> set (snd c) \<or> fst c key = None \<and> mx \<le> card (dom (fst c)) then (c, [])
      else
        let S = insert i (chunks_seen c key); D = the (log key)
        in if D = [] \<or> S = all_chunks ps D
           then (((fst c)(key := None), cache_push (snd c) [key]), [(key, D)])
           else (((fst c)(key \<mapsto> S), snd c), []))"

fun collector_step :: "nat \<Rightarrow> nat \<Rightarrow> (msg_key \<Rightarrow> bytes option) \<Rightarrow> collector \<Rightarrow> collector_event \<Rightarrow> fault + (collector \<times> (msg_key \<times> bytes) list)" where
  "collector_step ps mx log c (Chunk key i) = Inr (collect ps mx log c key i)"
| "collector_step ps mx log c (Forget K) = Inr ((fst c |` (- K), snd c), [])"

section \<open>The receiver as a collector\<close>

definition marked_chunks :: "in_msg \<Rightarrow> nat set" where
  "marked_chunks m = {i. i < length (im_received m) \<and> im_received m ! i}"

definition collector_of :: "receiver_core \<Rightarrow> collector" where
  "collector_of r = (\<lambda>key. map_option marked_chunks (map_of (r_incoming r) key), r_completed r)"

lemma collector_new: "collector_of (receiver_new cfg) = (Map.empty, [])"
  by (simp add: collector_of_def receiver_new_def)

lemma fst_collector: "fst (collector_of r) key = map_option marked_chunks (map_of (r_incoming r) key)"
  by (simp add: collector_of_def)

lemma snd_collector [simp]: "snd (collector_of r) = r_completed r"
  by (simp add: collector_of_def)

lemma card_collector: "recv_inv r \<Longrightarrow> card (dom (fst (collector_of r))) = length (r_incoming r)"
  using hm.len_card [of "r_incoming r"] by (simp add: recv_inv_def collector_of_def dom_map_option_comp [unfolded comp_def])

text \<open>A property of the entries' bitmaps, and the keys, determine the collector.\<close>

lemma marked_stable:
  "grant_stable inc (\<lambda>k m. f k = Some (marked_chunks m))" "touch_stable (\<lambda>k m. f k = Some (marked_chunks m))"
  by (simp_all add: grant_stable_def touch_stable_def marked_chunks_def)

lemma all_marked: "all_entries (\<lambda>k m. fst (collector_of r) k = Some (marked_chunks m)) (r_incoming r)"
  by (simp add: all_entries_def fst_collector)

lemma schedule_collector:
  assumes "recv_inv r" "schedule ord r now = Inr (r', as)" "iter_order ord"
  shows "collector_of r' = collector_of r"
proof -
  note f = schedule_inv [OF assms]
  have a: "all_entries (\<lambda>k m. fst (collector_of r) k = Some (marked_chunks m)) (r_incoming r')"
    by (rule schedule_entries [OF assms(2) all_marked marked_stable(1)])
  have "fst (collector_of r') k = fst (collector_of r) k" for k
  proof (cases "map_of (r_incoming r') k")
    case None
    then have "map_of (r_incoming r) k = None" using f by (metis map_of_eq_None_iff set_map)
    with None show ?thesis by (simp add: fst_collector)
  next
    case (Some m)
    with all_entriesD [OF a Some] show ?thesis by (auto simp: fst_collector)
  qed
  then show ?thesis using f by (simp add: prod_eq_iff fun_eq_iff)
qed

lemma tick_collector:
  assumes inv: "recv_inv r" and ord: "iter_order ord'" and h: "receiver_tick ord ord' r now = Inr (r', as)"
  shows "\<exists>K. collector_of r' = (fst (collector_of r) |` (- K), r_completed r) \<and> delivers as = []"
proof -
  obtain r1 as1 where r1: "recover_all r (ord (hm_keys (r_incoming r))) now = (r1, as1)" by force
  have q: "quiet_step r r1 as1" by (rule recover_all_quiet [OF inv r1])
  from h r1 obtain as2 where s: "schedule ord' r1 now = Inr (r', as2)" "as = as1 @ as2"
    by (auto simp: receiver_tick_def bind_res_Inr_iff)
  have inv1: "recv_inv r1" using q by (simp add: quiet_step_def)
  have a: "all_entries (\<lambda>k m. fst (collector_of r) k = Some (marked_chunks m)) (r_incoming r1)"
    by (rule recover_all_entries [OF r1 all_marked marked_stable])
  let ?K = "{k. map_of (r_incoming r1) k = None}"
  have "fst (collector_of r1) k = (fst (collector_of r) |` (- ?K)) k" for k
    by (cases "map_of (r_incoming r1) k") (use all_entriesD [OF a, of k] in \<open>auto simp: fst_collector restrict_map_def\<close>)
  then have "collector_of r1 = (fst (collector_of r) |` (- ?K), r_completed r)"
    using q by (simp add: prod_eq_iff fun_eq_iff quiet_step_def)
  with schedule_collector [OF inv1 s(1) ord] schedule_inv [OF inv1 s(1) ord] q s(2) show ?thesis
    by (auto simp: quiet_step_def)
qed

text \<open>An entry that holds part of a message is complete when all chunks are marked.\<close>

lemma complete_marked:
  assumes "0 < packet_size cfg" "in_msg_ok cfg m" "holds (packet_size cfg) D m" "D \<noteq> []"
  shows "complete m \<longleftrightarrow> marked_chunks m = all_chunks (packet_size cfg) D"
proof -
  have len: "length (im_received m) = chunk_count (packet_size cfg) (length D) 0"
    using bitmap_length [OF assms(1,2)] assms(3,4) by (simp add: holds_def)
  have "complete m \<longleftrightarrow> acct (packet_size cfg) (length D) (im_received m) = length D"
    using assms(3) by (simp add: holds_def complete_def)
  also have "\<dots> \<longleftrightarrow> (\<forall>i < length (im_received m). im_received m ! i)" by (rule acct_full [OF assms(1) len])
  also have "\<dots> \<longleftrightarrow> marked_chunks m = all_chunks (packet_size cfg) D" by (auto simp: marked_chunks_def all_chunks_def len)
  finally show ?thesis .
qed

lemma entry_of_marked:
  assumes "entry_of r key n now = Inr m"
  shows "marked_chunks m = chunks_seen (collector_of r) key"
proof (cases "map_of (r_incoming r) key")
  case None
  with assms have "new_in_msg (r_cfg r) n now = Inr m" by (simp add: entry_of_def)
  then have "\<exists>k. im_received m = replicate k False" by (auto simp: new_in_msg_def bind_res_Inr_iff)
  with None show ?thesis by (auto simp: marked_chunks_def chunks_seen_def fst_collector)
next
  case (Some m')
  with assms show ?thesis by (simp add: entry_of_def chunks_seen_def fst_collector)
qed

lemma marked_chunks_set: "i < length bs \<Longrightarrow> im_received m = bs \<Longrightarrow> im_received m' = bs[i := True] \<Longrightarrow> marked_chunks m' = insert i (marked_chunks m)"
  by (auto simp: marked_chunks_def nth_list_update)

lemma collector_delete:
  "r_incoming r1 = AList.delete key (AList.update key m (r_incoming r)) \<or> r_incoming r1 = AList.delete key (r_incoming r) \<Longrightarrow>
     fst (collector_of r1) = (fst (collector_of r))(key := None)"
  by (auto simp: fun_eq_iff fst_collector delete_conv' update_conv')

lemma collector_update:
  "r_incoming r1 = AList.update key m (r_incoming r) \<Longrightarrow> fst (collector_of r1) = (fst (collector_of r))(key \<mapsto> marked_chunks m)"
  by (auto simp: fun_eq_iff fst_collector update_conv')

text \<open>A packet for which there is an entry or room, by what it brings.\<close>

lemma collect_accepted:
  assumes inv: "recv_inv r" and new: "key \<notin> set (r_completed r)"
    and room: "map_of (r_incoming r) key \<noteq> None \<or> length (r_incoming r) < max_incoming (r_cfg r)" and l: "log key = Some D"
  shows "collect ps (max_incoming (r_cfg r)) log (collector_of r) key i =
    (let S = insert i (chunks_seen (collector_of r) key)
     in if D = [] \<or> S = all_chunks ps D
        then (((fst (collector_of r))(key := None), cache_push (r_completed r) [key]), [(key, D)])
        else (((fst (collector_of r))(key \<mapsto> S), r_completed r), []))"
proof -
  have "\<not> (key \<in> set (snd (collector_of r)) \<or> fst (collector_of r) key = None \<and> max_incoming (r_cfg r) \<le> card (dom (fst (collector_of r))))"
    using new room by (auto simp: card_collector [OF inv] fst_collector not_le)
  note go = if_not_P [OF this]
  show ?thesis using l unfolding collect_def go by (simp add: Let_def)
qed

lemma empty_collector:
  assumes ok: "reasm_ok ps log r" and ord: "iter_order ord" and l: "log (src, pkt_msg_id pkt) = Some D"
    and c: "carries ps D pkt payload" and key: "key = (src, pkt_msg_id pkt)"
    and e: "key \<notin> set (r_completed r)" "unat (pkt_msg_len pkt) = 0"
      "map_of (r_incoming r) key \<noteq> None \<or> length (r_incoming r) < max_incoming (r_cfg r)" "entry_of r key 0 now = Inr m"
      "deliver (r\<lparr>r_incoming := AList.update key m (r_incoming r)\<rparr>) key src [] = (r1, as1)" "schedule ord r1 now = Inr (r', as2)"
  shows "collect ps (max_incoming (r_cfg r)) log (collector_of r) key i = (collector_of r', delivers (as1 @ as2))"
proof -
  have inv: "recv_inv r" using ok by (simp add: reasm_ok_def)
  have im: "in_msg_ok (r_cfg r) m" by (rule entry_of_ok [OF inv e(4)]) simp
  have "deliver (r\<lparr>r_incoming := AList.update key m (r_incoming r)\<rparr>) key (fst key) [] = (r1, as1)"
    using e(5) by (simp add: key)
  note f = deliver_step [OF inv im e(1,3) this]
  have inv1: "recv_inv r1" using f by simp
  have d: "D = []" using c e(2) by (simp add: carries_def)
  note s = schedule_inv [OF inv1 e(6) ord] schedule_collector [OF inv1 e(6) ord]
  show ?thesis unfolding collect_accepted [of r key log D, OF inv e(1,3) l [folded key]]
    using f s d collector_delete [of r1 key m r] by (simp add: Let_def prod_eq_iff)
qed

lemma stored_collector:
  assumes ok: "reasm_ok ps log r" and ord: "iter_order ord" and l: "log (src, pkt_msg_id pkt) = Some D"
    and c: "carries ps D pkt payload" and key: "key = (src, pkt_msg_id pkt)" and i: "i = unat (pkt_offset pkt) div ps"
    and e: "key \<notin> set (r_completed r)" "0 < unat (pkt_msg_len pkt)"
      "map_of (r_incoming r) key \<noteq> None \<or> length (r_incoming r) < max_incoming (r_cfg r)"
      "entry_of r key (unat (pkt_msg_len pkt)) now = Inr m"
      "store_chunk (unat (pkt_msg_len pkt)) m i (unat (pkt_offset pkt)) payload now = Inr m'"
      "settle r key src m' = (r1, as1)" "schedule ord r1 now = Inr (r', as2)"
  shows "collect ps (max_incoming (r_cfg r)) log (collector_of r) key i = (collector_of r', delivers (as1 @ as2))"
proof -
  have inv: "recv_inv r" and psr: "packet_size (r_cfg r) = ps" using ok by (simp_all add: reasm_ok_def)
  have ps: "0 < packet_size (r_cfg r)" by (rule recv_inv_ps [OF inv])
  have ne: "D \<noteq> []" using c e(2) by (auto simp: carries_def)
  have im: "in_msg_ok (r_cfg r) m" by (rule entry_of_ok [OF inv e(4) unat_u32_less])
  have im': "in_msg_ok (r_cfg r) m'" by (rule store_chunk_ok [OF im e(5)])
  have hm: "holds ps D m" using entry_holds [OF ok l carries_small [OF c], of now] e(4) c by (force simp: key carries_def)
  have hm': "holds ps D m'" and bm: "im_received m' = (im_received m)[i := True]"
    using store_chunk_holds [OF ps im, of D pkt payload now] hm c ne psr e(5) i by (metis Inr_inject)+
  have "i < length (im_received m)"
    using carries_index(2) [OF c ne] bitmap_length [OF ps im] hm ne ps psr i by (simp add: holds_def)
  from marked_chunks_set [OF this refl bm] have mk: "marked_chunks m' = insert i (chunks_seen (collector_of r) key)"
    using entry_of_marked [OF e(4)] by simp
  have cm: "complete m' \<longleftrightarrow> marked_chunks m' = all_chunks ps D" using complete_marked [OF ps im'] hm' ne psr by simp
  have "settle r key (fst key) m' = (r1, as1)" using e(6) by (simp add: key)
  note f = settle_step [OF inv im' e(1,3) this]
  have inv1: "recv_inv r1" using f by simp
  note s = schedule_inv [OF inv1 e(7) ord] schedule_collector [OF inv1 e(7) ord]
  show ?thesis
  proof (cases "complete m'")
    case True
    then have "im_buf m' = D" using holds_complete [OF ps im'] hm' ne psr by simp
    with f s cm mk True collector_delete [of r1 key m' r] show ?thesis
      unfolding collect_accepted [of r key log D, OF inv e(1,3) l [folded key]] by (simp add: Let_def prod_eq_iff)
  next
    case False
    have "cache_push (r_completed r) [] = r_completed r" using inv by (simp add: recv_inv_def cache_push_Nil)
    with False f s cm mk ne collector_update [of r1 key m' r] show ?thesis
      unfolding collect_accepted [of r key log D, OF inv e(1,3) l [folded key]] by (simp add: Let_def prod_eq_iff)
  qed
qed

lemma handle_data_collector:
  assumes ok: "reasm_ok ps log r" and ord: "iter_order ord" and l: "log (src, pkt_msg_id pkt) = Some D"
    and c: "carries ps D pkt payload" and h: "handle_data ord r src pkt payload now = Inr (r', as)"
  shows "collect ps (max_incoming (r_cfg r)) log (collector_of r) (src, pkt_msg_id pkt) (unat (pkt_offset pkt) div ps)
    = (collector_of r', delivers as)" (is ?goal)
proof -
  have inv: "recv_inv r" and psr: "packet_size (r_cfg r) = ps" using ok by (simp_all add: reasm_ok_def)
  from h show ?goal
  proof (cases rule: handle_data_Inr)
    case late
    then show ?goal by (simp add: collect_def)
  next
    case busy
    then show ?goal by (simp add: collect_def card_collector [OF inv] fst_collector)
  next
    case (empty m r1 as1 as2)
    from empty_collector [OF ok ord l c refl empty(1-6)] empty(7) show ?goal by simp
  next
    case (stored m m' r1 as1 as2)
    from stored_collector [OF ok ord l c refl refl stored(1-4) stored(5) [unfolded psr] stored(6,7)] stored(8) show ?goal by simp
  qed
qed


text \<open>One event of the receiver and the event of the collector that it refines.\<close>

fun collects :: "nat \<Rightarrow> receiver_event \<Rightarrow> collector_event \<Rightarrow> bool" where
  "collects ps (RData ord src pkt payload now) f \<longleftrightarrow> f = Chunk (src, pkt_msg_id pkt) (unat (pkt_offset pkt) div ps)"
| "collects ps (RTick ord ord' now) f \<longleftrightarrow> (\<exists>K. f = Forget K)"

lemma receiver_step_collector:
  assumes ok: "reasm_ok ps log r" and e: "reasm_adm ps log e" and h: "receiver_step r e = Inr (r', as)"
  shows "\<exists>f. collector_step ps (max_incoming (r_cfg r)) log (collector_of r) f = Inr (collector_of r', delivers as)
    \<and> collects ps e f \<and> r_cfg r' = r_cfg r"
proof (cases e)
  case (RData ord src pkt payload now)
  then obtain D where d: "iter_order ord" "log (src, pkt_msg_id pkt) = Some D" "carries ps D pkt payload"
    "handle_data ord r src pkt payload now = Inr (r', as)" using e h by auto
  have "r_cfg r' = r_cfg r" using handle_data_sound [OF _ d(1,4)] ok by (simp add: reasm_ok_def sound_step_def)
  with handle_data_collector [OF ok d] RData show ?thesis by auto
next
  case (RTick ord ord' now)
  have inv: "recv_inv r" using ok by (simp add: reasm_ok_def)
  have t: "iter_order ord'" "receiver_tick ord ord' r now = Inr (r', as)" using RTick e h by auto
  from tick_collector [OF inv t] obtain K where "collector_of r' = (fst (collector_of r) |` (- K), r_completed r)" "delivers as = []"
    by blast
  moreover have "r_cfg r' = r_cfg r" using receiver_tick_sound [OF inv t] by (simp add: sound_step_def)
  ultimately show ?thesis using RTick by (intro exI [of _ "Forget K"]) auto
qed

lemma run_collector:
  assumes "reasm_ok ps log r" "list_all (reasm_adm ps log) es" "run_steps receiver_step r es = Inr (r', as)"
  shows "\<exists>fs. run_steps (collector_step ps (max_incoming (r_cfg r)) log) (collector_of r) fs = Inr (collector_of r', delivers as)
    \<and> list_all2 (collects ps) es fs"
  using assms
proof (induction es arbitrary: r as)
  case (Cons e es)
  from Cons.prems(3) obtain r1 as1 as2 where s: "receiver_step r e = Inr (r1, as1)"
    "run_steps receiver_step r1 es = Inr (r', as2)" "as = as1 @ as2"
    by (auto simp: bind_res_Inr_iff)
  have e: "reasm_adm ps log e" "list_all (reasm_adm ps log) es" using Cons.prems(2) by simp_all
  from receiver_step_collector [OF Cons.prems(1) e(1) s(1)] obtain f where
    f: "collector_step ps (max_incoming (r_cfg r)) log (collector_of r) f = Inr (collector_of r1, delivers as1)"
      "collects ps e f" "r_cfg r1 = r_cfg r" by blast
  have "reasm_ok ps log r1" using reasm.step_inv [OF Cons.prems(1) e(1) s(1)] .
  from Cons.IH [OF this e(2) s(2)] obtain fs where
    "run_steps (collector_step ps (max_incoming (r_cfg r)) log) (collector_of r1) fs = Inr (collector_of r', delivers as2)"
    "list_all2 (collects ps) es fs" by (auto simp: f(3))
  with f s(3) show ?case by (intro exI [of _ "f # fs"]) simp
qed auto

section \<open>Properties\<close>

text \<open>
  C8: The receiver refines the collector: on DATA packets that carry chunks of their messages, with
  any loss, order, repetition and any ticks between them, its keys and bitmaps are exactly the sets of chunks of a
  collector that is given the same chunks in the same order and forgets something at ticks only, and it delivers exactly
  what the collector delivers, at the same point.
\<close>

theorem receiver_refines_collector:
  assumes "0 < packet_size cfg" "list_all (reasm_adm (packet_size cfg) log) es"
  shows "\<exists>r as fs. run_steps receiver_step (receiver_new cfg) es = Inr (r, as)
    \<and> list_all2 (collects (packet_size cfg)) es fs
    \<and> run_steps (collector_step (packet_size cfg) (max_incoming cfg) log) (Map.empty, []) fs
       = Inr ((\<lambda>key. map_option marked_chunks (map_of (r_incoming r) key), r_completed r), delivers as)"
proof -
  have ok: "reasm_ok (packet_size cfg) log (receiver_new cfg)" by (rule reasm_ok_new [OF assms(1)])
  obtain r as where r: "run_steps receiver_step (receiver_new cfg) es = Inr (r, as)"
    using reasm.run_total [OF ok assms(2)] by (metis surj_pair)
  have "max_incoming (r_cfg (receiver_new cfg)) = max_incoming cfg" by (simp add: receiver_new_def)
  with run_collector [OF ok assms(2) r] r show ?thesis unfolding collector_new
    by (auto simp: collector_of_def)
qed

theorem receiver_refines_collector_witness:
  "\<exists>r as fs. run_steps receiver_step (receiver_new small_config) example_run = Inr (r, as)
    \<and> list_all2 (collects 4) example_run fs \<and> ((localhost 7, 1), example_data) \<in> set (delivers as)
    \<and> run_steps (collector_step 4 2 example_log) (Map.empty, []) fs
       = Inr ((\<lambda>key. map_option marked_chunks (map_of (r_incoming r) key), r_completed r), delivers as)"
proof -
  have "0 < packet_size small_config" "list_all (reasm_adm (packet_size small_config) example_log) example_run"
    using example_adm by simp_all
  from receiver_refines_collector [OF this] obtain r as fs where
    f: "run_steps receiver_step (receiver_new small_config) example_run = Inr (r, as)" "list_all2 (collects 4) example_run fs"
      "run_steps (collector_step 4 2 example_log) (Map.empty, []) fs
       = Inr ((\<lambda>key. map_option marked_chunks (map_of (r_incoming r) key), r_completed r), delivers as)" by auto
  have "((localhost 7, 1), example_data) \<in> set (delivers (snd (projr (run_steps receiver_step (receiver_new small_config) example_run))))"
    by code_simp
  then have "((localhost 7, 1), example_data) \<in> set (delivers as)" using f(1) by simp
  with f show ?thesis by blast
qed

end
