(* ===== verification/Courier.thy ===== *)
theory Courier
  imports Alignment
begin

text \<open>
  What the sender promises, without byte positions, grants, timers, fuel or faults: a courier keeps for every
  message how many of its chunks have been sent, and each event sends some by their numbers. The
  sender refines it step by step, as long as a RESEND ends at a chunk boundary and asks for nothing beyond the
  sender's position. The receiver's counterpart is the collector of theory \<open>Collector\<close>.
\<close>

section \<open>Numbers of chunks\<close>

text \<open>How many chunks begin before \<open>x\<close>.\<close>

abbreviation chunks_before :: "nat \<Rightarrow> nat \<Rightarrow> nat" where
  "chunks_before ps x \<equiv> chunk_count ps x 0"

lemma before_iff: "0 < ps \<Longrightarrow> i < chunks_before ps x \<longleftrightarrow> i * ps < x"
  using chunk_count_le_iff [of ps i x 0] by simp

lemma eq_by_less: "(\<And>i. i < a \<longleftrightarrow> i < (b :: nat)) \<Longrightarrow> a = b"
  by (metis less_irrefl linorder_neqE_nat)

lemma before_max: "0 < ps \<Longrightarrow> chunks_before ps (max x y) = max (chunks_before ps x) (chunks_before ps y)"
  by (rule eq_by_less) (auto simp: before_iff less_max_iff_disj)

lemma before_mono: "0 < ps \<Longrightarrow> x \<le> y \<Longrightarrow> chunks_before ps x \<le> chunks_before ps y"
  using before_max [of ps x y] by (simp add: max_def split: if_splits)

lemma before_mult: "0 < ps \<Longrightarrow> chunks_before ps (q * ps) = q"
  by (rule eq_by_less) (simp add: before_iff)

lemma at_chunk_mult: "at_chunk ps len ns \<Longrightarrow> ns < len \<Longrightarrow> \<exists>q. ns = q * ps"
  by (auto simp: at_chunk_def dvd_def mult.commute)

lemma before_at_end:
  assumes "0 < ps" "at_chunk ps len ns" "ns \<le> len"
  shows "chunks_before ps ns = chunks_before ps len \<longleftrightarrow> ns = len" "chunks_before ps ns < chunks_before ps len \<longleftrightarrow> ns < len"
proof -
  have lt: "chunks_before ps ns < chunks_before ps len" if less: "ns < len"
  proof -
    obtain q where q: "ns = q * ps" using at_chunk_mult [OF assms(2) less] by blast
    then have "q < chunks_before ps len" using assms(1) less by (simp add: before_iff)
    with q assms(1) show ?thesis by (simp add: before_mult)
  qed
  then show "chunks_before ps ns = chunks_before ps len \<longleftrightarrow> ns = len" "chunks_before ps ns < chunks_before ps len \<longleftrightarrow> ns < len"
    using assms(3) by (cases "ns < len"; force)+
qed

lemma pump_numbers:
  assumes "0 < ps" "at_chunk ps len ns" "ns \<le> len" "limit \<le> len"
  shows "chunks_before ps (pump_end ps len limit ns) = max (chunks_before ps ns) (chunks_before ps limit)"
    "map (\<lambda>i. ns div ps + i) [0..<chunk_count ps limit ns] = [chunks_before ps ns ..< chunks_before ps limit]"
proof -
  have "chunks_before ps (pump_end ps len limit ns) = max (chunks_before ps ns) (chunks_before ps limit)
      \<and> map (\<lambda>i. ns div ps + i) [0..<chunk_count ps limit ns] = [chunks_before ps ns ..< chunks_before ps limit]"
  proof (cases "ns < limit")
    case True
    then obtain q where q: "ns = q * ps" using at_chunk_mult [OF assms(2)] assms(4) by (meson less_le_trans)
    let ?c = "chunk_count ps limit ns"
    have lim: "chunks_before ps limit = ?c + q"
    proof (rule eq_by_less)
      fix i
      show "i < chunks_before ps limit \<longleftrightarrow> i < ?c + q"
      proof (cases "i < q")
        case True
        then have "i * ps \<le> ns" unfolding q by (intro mult_le_mono1) simp
        then have "i * ps < limit" using \<open>ns < limit\<close> by simp
        with True assms(1) show ?thesis by (simp add: before_iff)
      next
        case False
        then obtain j where i: "i = q + j" by (metis le_iff_add not_less)
        have "i < ?c + q \<longleftrightarrow> j < ?c" using i by simp
        also have "\<dots> \<longleftrightarrow> ns + j * ps < limit" by (rule chunk_count_le_iff [OF assms(1)])
        finally show ?thesis using assms(1) i q by (simp add: before_iff add_mult_distrib)
      qed
    qed
    have "limit \<le> ns + ?c * ps" using chunk_count_le_iff [OF assms(1), of ?c limit ns] by simp
    then have "chunks_before ps (pump_end ps len limit ns) = ?c + q"
      using True q assms lim before_mult [OF assms(1), of "q + ?c"] before_mono [OF assms(1), of limit len]
        before_mono [OF assms(1), of len "(q + ?c) * ps"]
      by (auto simp: pump_end_def min_def add_mult_distrib)
    moreover have "map (\<lambda>i. ns div ps + i) [0..<?c] = [q ..< ?c + q]"
      using map_add_upt [of q ?c] q assms(1) by (simp add: add.commute)
    ultimately show ?thesis using lim q assms(1) by (simp add: before_mult)
  next
    case False
    then have "chunks_before ps limit \<le> chunks_before ps ns" using before_mono [OF assms(1)] by simp
    with False assms(1) show ?thesis by (simp add: pump_end_def)
  qed
  then show "chunks_before ps (pump_end ps len limit ns) = max (chunks_before ps ns) (chunks_before ps limit)"
    "map (\<lambda>i. ns div ps + i) [0..<chunk_count ps limit ns] = [chunks_before ps ns ..< chunks_before ps limit]"
    by blast+
qed

lemma resend_numbers: "0 < ps \<Longrightarrow> 0 < en \<Longrightarrow> Suc ((en - 1) div ps) = chunks_before ps en"
  by (rule eq_by_less) (auto simp: before_iff less_Suc_eq_le less_eq_div_iff_mult_less_eq)

lemma probe_number: "0 < ps \<Longrightarrow> (ns - 1) div ps = chunks_before ps ns - 1"
  using resend_numbers [of ps ns] by (cases "ns = 0") auto

section \<open>The courier\<close>

text \<open>
  For every message its data and how many chunks have been sent. \<open>Post\<close> opens a message with a
  credit of \<open>c\<close> bytes, \<open>Credit\<close> raises it to \<open>c\<close> bytes, \<open>Again\<close> asks for the chunks that meet a range of bytes.
  \<open>Timer\<close> forgets some of the messages that are sent completely and sends the last chunk again of some that are not.
\<close>

type_synonym courier = "msg_key \<rightharpoonup> bytes \<times> nat"

datatype courier_event =
    Post msg_key bytes nat
  | Credit msg_key nat
  | Again msg_key nat nat
  | Timer "msg_key set" "msg_key list"
  | Cancel msg_key

definition parcels :: "msg_key \<Rightarrow> bytes \<Rightarrow> nat list \<Rightarrow> (msg_key \<times> bytes \<times> nat) list" where
  "parcels key D is = map (\<lambda>i. (key, D, i)) is"

definition all_sent :: "nat \<Rightarrow> bytes \<times> nat \<Rightarrow> bool" where
  "all_sent ps x \<longleftrightarrow> snd x = chunks_before ps (length (fst x))"

definition forget_sent :: "nat \<Rightarrow> msg_key set \<Rightarrow> courier \<Rightarrow> courier" where
  "forget_sent ps K f = (\<lambda>key. case f key of None \<Rightarrow> None | Some x \<Rightarrow> if key \<in> K \<and> all_sent ps x then None else Some x)"

definition last_parcels :: "nat \<Rightarrow> courier \<Rightarrow> msg_key list \<Rightarrow> (msg_key \<times> bytes \<times> nat) list" where
  "last_parcels ps f keys = concat (map (\<lambda>key. case f key of None \<Rightarrow> []
     | Some (D, k) \<Rightarrow> if all_sent ps (D, k) then [] else parcels key D [k - 1]) keys)"

fun courier_step :: "nat \<Rightarrow> courier \<Rightarrow> courier_event \<Rightarrow> fault + (courier \<times> (msg_key \<times> bytes \<times> nat) list)" where
  "courier_step ps f (Post key D c) =
     (let k = chunks_before ps (min c (length D)) in Inr (f(key \<mapsto> (D, k)), parcels key D [0..<k]))"
| "courier_step ps f (Credit key c) =
     (case f key of
        None \<Rightarrow> Inr (f, [])
      | Some (D, k) \<Rightarrow>
          let k' = max k (chunks_before ps (min c (length D))) in Inr (f(key \<mapsto> (D, k')), parcels key D [k..<k']))"
| "courier_step ps f (Again key off len) =
     (case f key of
        None \<Rightarrow> Inr (f, [])
      | Some (D, k) \<Rightarrow>
          let st = min off (length D); en = min (st + len) (length D)
          in Inr (f(key \<mapsto> (D, max k (chunks_before ps en))),
                  parcels key D (if st < en then [st div ps ..< chunks_before ps en] else [])))"
| "courier_step ps f (Timer K keys) = (let g = forget_sent ps K f in Inr (g, last_parcels ps g keys))"
| "courier_step ps f (Cancel key) = Inr (f(key := None), [])"

section \<open>The sender as a courier\<close>

definition courier_of :: "sender_core \<Rightarrow> courier" where
  "courier_of s = (\<lambda>key. map_option (\<lambda>m. (om_data m, chunks_before (packet_size (s_cfg s)) (om_next_send m))) (map_of (s_out s) key))"

definition parcel_act :: "nat \<Rightarrow> msg_key \<times> bytes \<times> nat \<Rightarrow> action" where
  "parcel_act ps x = (case x of (key, D, i) \<Rightarrow> Send (fst key) (chunk_frag ps D (snd key) i))"

fun couriers :: "transport_config \<Rightarrow> sender_event \<Rightarrow> courier_event \<Rightarrow> bool" where
  "couriers cfg (SStart dest mid data now) f \<longleftrightarrow> f = Post (dest, mid) data (unscheduled_bytes cfg)"
| "couriers cfg (SGrant src pkt now) f \<longleftrightarrow> f = Credit (src, pkt_msg_id pkt) (unat (pkt_offset pkt))"
| "couriers cfg (SResend src pkt now) f \<longleftrightarrow> f = Again (src, pkt_msg_id pkt) (unat (pkt_offset pkt)) (unat (pkt_length pkt))"
| "couriers cfg (SBusy src pkt now) f \<longleftrightarrow> f = Timer {} []"
| "couriers cfg (STick ord now) f \<longleftrightarrow> (\<exists>K keys. f = Timer K keys \<and> distinct keys)"
| "couriers cfg (SFinish dest mid) f \<longleftrightarrow> f = Cancel (dest, mid)"

text \<open>A RESEND that ends at the end of a chunk and begins within what has been sent.\<close>

definition orderly_range :: "nat \<Rightarrow> out_msg \<Rightarrow> packet \<Rightarrow> bool" where
  "orderly_range ps m pkt \<longleftrightarrow>
     (let len = length (om_data m); st = min (unat (pkt_offset pkt)) len
      in at_chunk ps len (min (st + unat (pkt_length pkt)) len) \<and> st \<le> om_next_send m)"

fun orderly :: "sender_core \<Rightarrow> sender_event \<Rightarrow> bool" where
  "orderly s (SResend src pkt now) \<longleftrightarrow> (case map_of (s_out s) (src, pkt_msg_id pkt) of
     None \<Rightarrow> True | Some m \<Rightarrow> orderly_range (packet_size (s_cfg s)) m pkt)"
| "orderly s _ \<longleftrightarrow> True"

fun orderly_run :: "sender_core \<Rightarrow> sender_event list \<Rightarrow> bool" where
  "orderly_run s [] \<longleftrightarrow> True"
| "orderly_run s (e # es) \<longleftrightarrow> orderly s e \<and> (case sender_step s e of Inl f \<Rightarrow> True | Inr (s', as) \<Rightarrow> orderly_run s' es)"

definition courier_ok :: "transport_config \<Rightarrow> sender_core \<Rightarrow> bool" where
  "courier_ok cfg s \<longleftrightarrow> sender_inv s \<and> s_cfg s = cfg
     \<and> all_entries (\<lambda>k m. at_chunk (packet_size cfg) (length (om_data m)) (om_next_send m)) (s_out s)"

definition couriered :: "transport_config \<Rightarrow> sender_core \<Rightarrow> sender_event \<Rightarrow> fault + (sender_core \<times> action list) \<Rightarrow> bool" where
  "couriered cfg s e r \<longleftrightarrow> (\<exists>s' as f out. r = Inr (s', as) \<and> courier_ok cfg s' \<and> couriers cfg e f
     \<and> courier_step (packet_size cfg) (courier_of s) f = Inr (courier_of s', out) \<and> as = map (parcel_act (packet_size cfg)) out)"

lemma courieredI:
  "courier_ok cfg s' \<Longrightarrow> couriers cfg e f \<Longrightarrow> courier_step (packet_size cfg) (courier_of s) f = Inr (courier_of s', out) \<Longrightarrow>
     as = map (parcel_act (packet_size cfg)) out \<Longrightarrow> couriered cfg s e (Inr (s', as))"
  unfolding couriered_def by blast

lemma courier_ok_entry:
  assumes "courier_ok cfg s" "map_of (s_out s) key = Some m"
  shows "0 < packet_size cfg" "om_ok (packet_size cfg) m" "at_chunk (packet_size cfg) (length (om_data m)) (om_next_send m)"
    "om_next_send m \<le> length (om_data m)"
  using assms sender_inv_ps [of s] sender_inv_om [of s key m] by (auto simp: courier_ok_def om_ok_def dest: all_entriesD)

lemma courier_ok_put:
  "courier_ok cfg s \<Longrightarrow> om_ok (packet_size cfg) m \<Longrightarrow> at_chunk (packet_size cfg) (length (om_data m)) (om_next_send m) \<Longrightarrow>
     courier_ok cfg (s\<lparr>s_out := AList.update key m (s_out s)\<rparr>)"
  by (auto simp: courier_ok_def all_entries_update intro!: sender_inv_update)

lemma courier_of_put:
  "courier_of (s\<lparr>s_out := AList.update key m (s_out s)\<rparr>) =
     (courier_of s)(key \<mapsto> (om_data m, chunks_before (packet_size (s_cfg s)) (om_next_send m)))"
  by (auto simp: courier_of_def update_conv')

lemma courier_entry:
  "courier_ok cfg s \<Longrightarrow> courier_of s key = map_option (\<lambda>m. (om_data m, chunks_before (packet_size cfg) (om_next_send m))) (map_of (s_out s) key)"
  by (simp add: courier_of_def courier_ok_def)

lemma acts_of_chunks: "map (\<lambda>i. Send (fst key) (chunk_frag ps D (snd key) i)) is = map (parcel_act ps) (parcels key D is)"
  by (simp add: parcels_def parcel_act_def)

lemma pump_parcels:
  assumes "0 < ps" "limit \<le> length D" "ns \<le> length D" "at_chunk ps (length D) ns"
  shows "pump_frags ps (fst key) (snd key) D limit ns
    = map (parcel_act ps) (parcels key D [chunks_before ps ns ..< chunks_before ps limit])"
  using pump_chunks(1) [OF assms, of "fst key" "snd key"] pump_numbers(2) [OF assms(1,4,3,2)]
  by (simp add: sends_chunks_def acts_of_chunks)

section \<open>The steps\<close>

lemma start_courier:
  assumes ok: "courier_ok cfg s"
  shows "couriered cfg s (SStart dest mid data now) (start s dest mid data now)"
proof -
  let ?ps = "packet_size cfg" and ?u = "min (unscheduled_bytes cfg) (length data)" and ?m = "om_started cfg data now"
  have c: "s_cfg s = cfg" "0 < ?ps" using ok sender_inv_ps [of s] by (auto simp: courier_ok_def)
  have at: "at_chunk ?ps (length data) 0" by (simp add: at_chunk_def)
  have ns: "om_next_send ?m = pump_end ?ps (length data) ?u 0" by (simp add: om_started_def Let_def)
  have n: "chunks_before ?ps (om_next_send ?m) = chunks_before ?ps ?u"
    using pump_numbers(1) [OF c(2) at, of ?u] c(2) by (simp add: ns)
  have "courier_ok cfg (s\<lparr>s_out := AList.update (dest, mid) ?m (s_out s)\<rparr>)"
    using pump_chunks(2) [OF c(2), of ?u data 0] at om_started_ok [OF c(2)] by (intro courier_ok_put [OF ok]) (simp_all add: ns)
  moreover have "pump_frags ?ps dest mid data ?u 0 = map (parcel_act ?ps) (parcels (dest, mid) data [0..<chunks_before ?ps ?u])"
    using pump_parcels [OF c(2), of ?u data 0 "(dest, mid)"] at c(2) by simp
  ultimately show ?thesis using c
    by (auto simp: start_eq c n courier_of_put Let_def intro!: courieredI)
qed

lemma grant_courier:
  assumes ok: "courier_ok cfg s"
  shows "couriered cfg s (SGrant src pkt now) (handle_grant s src pkt now)"
proof (cases "map_of (s_out s) (src, pkt_msg_id pkt)")
  case None
  then show ?thesis using ok by (auto simp: handle_grant_def courier_entry [OF ok] intro!: courieredI)
next
  case (Some m)
  note e = courier_ok_entry [OF ok Some]
  let ?ps = "packet_size cfg" and ?key = "(src, pkt_msg_id pkt)" and ?g = "min (unat (pkt_offset pkt)) (length (om_data m))"
  let ?k = "chunks_before ?ps (om_next_send m)"
  have c: "s_cfg s = cfg" using ok by (simp add: courier_ok_def)
  show ?thesis
  proof (cases "?g \<le> om_granted_to m \<or> om_done_at m \<noteq> None")
    case True
    then have "handle_grant s src pkt now = Inr (s, [])"
      using Some pump_done [OF Some, of ?g now] by (auto simp: handle_grant_def Let_def)
    moreover have "?g \<le> om_next_send m" using True e(2) by (auto simp: om_ok_def)
    then have "max ?k (chunks_before ?ps ?g) = ?k" using before_mono [OF e(1)] by (simp add: max_absorb1)
    ultimately show ?thesis using ok Some
      by (auto simp: courier_entry [OF ok] Let_def parcels_def fun_upd_idem intro!: courieredI)
  next
    case False
    then have nd: "om_done_at m = None" and h: "handle_grant s src pkt now = pump s ?key ?g now"
      using Some by (simp_all add: handle_grant_def)
    let ?m = "om_pumped ?ps ?g now m"
    have ns: "om_next_send ?m = pump_end ?ps (length (om_data m)) ?g (om_next_send m)" by (simp add: om_pumped_def Let_def)
    have "handle_grant s src pkt now = Inr (s\<lparr>s_out := AList.update ?key ?m (s_out s)\<rparr>,
        map (parcel_act ?ps) (parcels ?key (om_data m) [?k ..< chunks_before ?ps ?g]))"
      using pump_eq [OF _ Some nd, of ?g now] e(1) pump_parcels [OF e(1) _ e(4,3), of ?g ?key] by (simp add: c h)
    moreover have "courier_ok cfg (s\<lparr>s_out := AList.update ?key ?m (s_out s)\<rparr>)"
      using pump_chunks(2) [OF e(1) _ e(4,3), of ?g] om_pumped_ok [OF e(1,2) nd] by (intro courier_ok_put [OF ok]) (simp_all add: ns)
    moreover have "chunks_before ?ps (om_next_send ?m) = max ?k (chunks_before ?ps ?g)"
      using pump_numbers(1) [OF e(1,3,4), of ?g] by (simp add: ns)
    moreover have "[?k ..< max ?k n] = [?k ..< n]" for n by (simp add: max_def)
    ultimately show ?thesis using Some
      by (auto simp: courier_entry [OF ok] courier_of_put c Let_def intro!: courieredI)
  qed
qed

lemma resend_parcels:
  assumes "0 < ps"
  shows "resend_frags ps (fst key) (snd key) D st en
    = map (parcel_act ps) (parcels key D (if st < en then [st div ps ..< chunks_before ps en] else []))"
proof (cases "st < en")
  case True
  with resend_numbers [OF assms, of en] show ?thesis
    by (simp add: resend_frags_def parcels_def parcel_act_def chunk_frag_def del: upt_Suc)
qed (simp add: resend_frags_def parcels_def)

lemma resend_courier:
  assumes ok: "courier_ok cfg s" and o: "orderly s (SResend src pkt now)"
  shows "couriered cfg s (SResend src pkt now) (handle_resend s src pkt now)"
proof (cases "map_of (s_out s) (src, pkt_msg_id pkt)")
  case None
  then show ?thesis using ok by (auto simp: handle_resend_def courier_entry [OF ok] intro!: courieredI)
next
  case (Some m)
  note e = courier_ok_entry [OF ok Some]
  let ?ps = "packet_size cfg" and ?key = "(src, pkt_msg_id pkt)" and ?len = "length (om_data m)"
  let ?st = "min (unat (pkt_offset pkt)) ?len"
  let ?en = "min (?st + unat (pkt_length pkt)) ?len"
  let ?m = "om_resent ?en now m"
  have c: "s_cfg s = cfg" using ok by (simp add: courier_ok_def)
  have at: "at_chunk ?ps ?len ?en" using o Some by (simp add: orderly_range_def Let_def c)
  have ns: "om_next_send ?m = max (om_next_send m) ?en" by (simp add: om_resent_def)
  from resend_parcels [OF e(1), of ?key "om_data m" ?st ?en]
  have "handle_resend s src pkt now = Inr (s\<lparr>s_out := AList.update ?key ?m (s_out s)\<rparr>,
      map (parcel_act ?ps) (parcels ?key (om_data m) (if ?st < ?en then [?st div ?ps ..< chunks_before ?ps ?en] else [])))"
    using handle_resend_eq [OF _ Some refl refl, of now] e(1) by (simp only: c fst_conv snd_conv)
  moreover have "courier_ok cfg (s\<lparr>s_out := AList.update ?key ?m (s_out s)\<rparr>)"
    using at e(3) om_resent_ok [OF e(2), of ?en now] by (intro courier_ok_put [OF ok]) (auto simp: ns max_def)
  moreover have "chunks_before ?ps (om_next_send ?m) = max (chunks_before ?ps (om_next_send m)) (chunks_before ?ps ?en)"
    using before_max [OF e(1)] by (simp add: ns)
  ultimately show ?thesis using Some
    by (auto simp: courier_entry [OF ok] courier_of_put c Let_def intro!: courieredI)
qed

lemma forget_none: "forget_sent ps {} f = f"
  by (auto simp: forget_sent_def fun_eq_iff split: option.splits)

lemma busy_courier:
  assumes ok: "courier_ok cfg s"
  shows "couriered cfg s (SBusy src pkt now) (Inr (handle_busy s src pkt now, []))"
proof (cases "map_of (s_out s) (src, pkt_msg_id pkt)")
  case None
  then show ?thesis using ok by (auto simp: handle_busy_def forget_none last_parcels_def intro!: courieredI)
next
  case (Some m)
  let ?s = "s\<lparr>s_out := AList.update (src, pkt_msg_id pkt) (m\<lparr>om_last_progress := now\<rparr>) (s_out s)\<rparr>"
  note e = courier_ok_entry [OF ok Some]
  have "courier_ok cfg ?s" using e by (intro courier_ok_put [OF ok]) (simp_all add: om_ok_def)
  moreover have "courier_of ?s = courier_of s" unfolding courier_of_put using Some by (simp add: courier_of_def fun_upd_idem)
  ultimately show ?thesis using Some
    by (auto simp: handle_busy_def forget_none last_parcels_def intro!: courieredI)
qed

text \<open>A message is done when all its chunks have been sent, and one that stalls has a last chunk to send again.\<close>

lemma done_all_sent:
  assumes "courier_ok cfg s" "map_of (s_out s) key = Some m"
  shows "all_sent (packet_size cfg) (om_data m, chunks_before (packet_size cfg) (om_next_send m)) \<longleftrightarrow> om_done_at m \<noteq> None"
  using courier_ok_entry [OF assms] before_at_end(1) [of "packet_size cfg" "length (om_data m)" "om_next_send m"]
  by (simp add: all_sent_def om_ok_def)

lemma expire_courier:
  assumes ok: "courier_ok cfg s"
  shows "courier_ok cfg (expire s now)" "\<exists>K. courier_of (expire s now) = forget_sent (packet_size cfg) K (courier_of s)"
proof -
  have hm: "hm_ok (s_out s)" using ok by (simp add: courier_ok_def sender_inv_def)
  note x = expire_map_of [OF hm, of now]
  show ok': "courier_ok cfg (expire s now)"
    using ok by (auto simp: courier_ok_def sender_inv_def expire_def all_entries_filter hm_ok_filter)
  let ?K = "{key. map_of (s_out (expire s now)) key = None}"
  have "courier_of (expire s now) key = forget_sent (packet_size cfg) ?K (courier_of s) key" for key
  proof (cases "map_of (s_out s) key")
    case None
    then show ?thesis using x [of key] by (simp add: courier_entry [OF ok] courier_entry [OF ok'] forget_sent_def)
  next
    case (Some m)
    with x [of key] done_all_sent [OF ok Some] show ?thesis
      by (auto simp: courier_entry [OF ok] courier_entry [OF ok'] forget_sent_def split: option.splits if_splits)
  qed
  then show "\<exists>K. courier_of (expire s now) = forget_sent (packet_size cfg) K (courier_of s)" by blast
qed

lemma poke_parcels:
  assumes ok: "courier_ok cfg s"
  shows "map (\<lambda>k. probe (packet_size cfg) k (the (map_of (s_out s) k)))
      (filter (\<lambda>k. \<exists>m. map_of (s_out s) k = Some m \<and> stalled s now m) keys)
    = map (parcel_act (packet_size cfg)) (last_parcels (packet_size cfg) (courier_of s)
        (filter (\<lambda>k. \<exists>m. map_of (s_out s) k = Some m \<and> stalled s now m) keys))"
proof (induction keys)
  case (Cons key keys)
  show ?case
  proof (cases "\<exists>m. map_of (s_out s) key = Some m \<and> stalled s now m")
    case True
    then obtain m where m: "map_of (s_out s) key = Some m" "stalled s now m" by blast
    have "\<not> all_sent (packet_size cfg) (om_data m, chunks_before (packet_size cfg) (om_next_send m))"
      using done_all_sent [OF ok m(1)] m(2) by (simp add: stalled_def)
    with Cons m probe_number [OF courier_ok_entry(1) [OF ok m(1)], of "om_next_send m"] show ?thesis
      by (simp add: last_parcels_def courier_entry [OF ok] parcels_def parcel_act_def probe_def probe_at_def chunk_frag_def)
  qed (use Cons in auto)
qed (simp add: last_parcels_def)

lemma poke_loop_cfg: "poke_loop s keys now = Inr (s', as) \<Longrightarrow> s_cfg s' = s_cfg s"
  by (induction keys arbitrary: s as) (auto simp: bind_res_Inr_iff split: option.splits if_splits)

lemma sender_tick_total:
  assumes "sender_inv s"
  obtains s' as where "sender_tick ord s now = Inr (s', as)" "sender_inv s'" "s_cfg s' = s_cfg s"
proof -
  have "sender_ok (packet_size (s_cfg s)) (\<lambda>k x. True) s" using assms by (simp add: sender_ok_def all_entries_def)
  from sender_tick_sound [OF this, of ord now] obtain s' as where
    "sender_tick ord s now = Inr (s', as)" "sender_inv s'" by (auto simp: sound_result_def sender_ok_def)
  moreover from this have "s_cfg s' = s_cfg s" by (auto simp: sender_tick_def Let_def expire_def dest: poke_loop_cfg)
  ultimately show thesis by (rule that)
qed

lemma tick_courier:
  assumes ok: "courier_ok cfg s" and ord: "iter_order ord"
  shows "couriered cfg s (STick ord now) (sender_tick ord s now)"
proof -
  let ?ps = "packet_size cfg" and ?s = "expire s now"
  let ?keys = "filter (\<lambda>k. \<exists>m. map_of (s_out ?s) k = Some m \<and> stalled ?s now m) (ord (hm_keys (s_out ?s)))"
  note ok1 = expire_courier(1) [OF ok, of now]
  have inv: "sender_inv ?s" "s_cfg ?s = cfg" using ok1 by (simp_all add: courier_ok_def)
  obtain s' as where t: "sender_tick ord s now = Inr (s', as)" and ok2: "sender_inv s'" "s_cfg s' = s_cfg s"
    using sender_tick_total [of s ord now] ok unfolding courier_ok_def by blast
  then have p: "poke_loop ?s (ord (hm_keys (s_out ?s))) now = Inr (s', as)" by (simp add: sender_tick_def Let_def)
  have d: "distinct (ord (hm_keys (s_out ?s)))" using inv(1) ord by (simp add: iter_order_distinct sender_inv_def)
  note q = poke_loop_eq [OF inv(1) d p]
  have cs: "s_cfg s' = cfg" using ok2 ok by (simp add: courier_ok_def)
  have "all_entries (\<lambda>k m. at_chunk ?ps (length (om_data m)) (om_next_send m)) (s_out s')"
    using ok1 conjunct2 [OF q] by (auto simp: all_entries_def courier_ok_def split: option.splits if_splits)
  then have "courier_ok cfg s'" using ok2 cs by (simp add: courier_ok_def)
  moreover have "courier_of s' = courier_of ?s"
    using conjunct2 [OF q] by (auto simp: courier_of_def cs inv(2) fun_eq_iff split: option.splits)
  moreover have "as = map (parcel_act ?ps) (last_parcels ?ps (courier_of ?s) ?keys)"
    using conjunct1 [OF q] poke_parcels [OF ok1, of now] by (simp add: inv(2))
  moreover obtain K where "courier_of ?s = forget_sent ?ps K (courier_of s)" using expire_courier(2) [OF ok] by blast
  moreover have "distinct ?keys" using d by simp
  ultimately show ?thesis unfolding t by (intro courieredI [where f = "Timer K ?keys"]) (auto simp: Let_def)
qed

lemma finish_courier:
  assumes ok: "courier_ok cfg s"
  shows "couriered cfg s (SFinish dest mid) (Inr (finish s dest mid, []))"
proof (rule courieredI)
  show "courier_ok cfg (finish s dest mid)"
    using ok by (auto simp: courier_ok_def sender_inv_def finish_def all_entries_delete distinct_delete)
qed (auto simp: courier_of_def finish_def delete_conv' fun_eq_iff)

lemma step_courier:
  "courier_ok cfg s \<Longrightarrow> orderly s e \<Longrightarrow> sender_adm msg e \<Longrightarrow> couriered cfg s e (sender_step s e)"
  by (cases e) (simp_all add: start_courier grant_courier resend_courier busy_courier tick_courier finish_courier del: orderly.simps(1))

section \<open>Runs\<close>

text \<open>For every message, all chunks before its position have been sent.\<close>

definition prefix_sent :: "courier \<Rightarrow> (msg_key \<times> bytes \<times> nat) list \<Rightarrow> bool" where
  "prefix_sent f out \<longleftrightarrow> (\<forall>key D k. f key = Some (D, k) \<longrightarrow> (\<forall>i < k. (key, D, i) \<in> set out))"

fun asks_sent :: "nat \<Rightarrow> courier \<Rightarrow> courier_event \<Rightarrow> bool" where
  "asks_sent ps f (Again key off len) \<longleftrightarrow>
     (\<forall>D k. f key = Some (D, k) \<longrightarrow> chunks_before ps (min off (length D)) \<le> k)"
| "asks_sent ps f _ \<longleftrightarrow> True"

lemma orderly_asks_sent:
  assumes ok: "courier_ok cfg s" and o: "orderly s e" and c: "couriers cfg e f"
  shows "asks_sent (packet_size cfg) (courier_of s) f"
proof (cases e)
  case (SResend src pkt now)
  have "chunks_before (packet_size cfg) (min (unat (pkt_offset pkt)) (length (om_data m))) \<le> chunks_before (packet_size cfg) (om_next_send m)"
    if "map_of (s_out s) (src, pkt_msg_id pkt) = Some m" for m
    using that o SResend courier_ok_entry(1) [OF ok that] by (intro before_mono) (simp_all add: orderly_range_def Let_def)
  with c SResend show ?thesis by (auto simp: courier_entry [OF ok])
qed (use c in auto)

lemma in_parcels [simp]: "x \<in> set (parcels key D is) \<longleftrightarrow> (\<exists>i \<in> set is. x = (key, D, i))"
  by (auto simp: parcels_def)

text \<open>A request that begins within what has been sent leaves no gap before its end.\<close>

lemma asked_numbers:
  assumes ps: "0 < ps" and a: "chunks_before ps st \<le> k" and i: "i < max k (chunks_before ps en)"
  shows "i < k \<or> i \<in> set (if st < en then [st div ps ..< chunks_before ps en] else [])"
proof (cases "st < en")
  case True
  have "st div ps \<le> k"
  proof (rule ccontr)
    assume "\<not> st div ps \<le> k"
    then have "Suc k \<le> st div ps" by simp
    then have "Suc k * ps \<le> st" using ps by (simp only: less_eq_div_iff_mult_less_eq)
    then have "k * ps < st" using ps by simp
    then have "k < chunks_before ps st" using before_iff [OF ps] by blast
    with a show False by simp
  qed
  with i show ?thesis unfolding if_P [OF True] set_upt atLeastLessThan_iff less_max_iff_disj by linarith
next
  case False
  then have "chunks_before ps en \<le> k" by (intro le_trans [OF before_mono [OF ps] a]) simp
  with i show ?thesis unfolding less_max_iff_disj by linarith
qed

lemma prefix_sent_put:
  assumes "prefix_sent f out" "\<And>i. i < k \<Longrightarrow> (\<exists>k0. f key = Some (D, k0) \<and> i < k0) \<or> (key, D, i) \<in> set out'"
  shows "prefix_sent (f(key \<mapsto> (D, k))) (out @ out')"
  unfolding prefix_sent_def
proof (intro allI impI)
  fix key' D' k' i
  assume h: "(f(key \<mapsto> (D, k))) key' = Some (D', k')" "i < k'"
  show "(key', D', i) \<in> set (out @ out')"
  proof (cases "key' = key")
    case True
    then show ?thesis using h assms(1) assms(2) [of i] by (auto simp: prefix_sent_def)
  next
    case False
    then show ?thesis using h assms(1) by (auto simp: prefix_sent_def)
  qed
qed

lemma prefix_sent_step:
  assumes ps: "0 < ps" and p: "prefix_sent f out" and a: "asks_sent ps f e" and s: "courier_step ps f e = Inr (f', out')"
  shows "prefix_sent f' (out @ out')"
proof (cases e)
  case (Post key D c)
  let ?k = "chunks_before ps (min c (length D))"
  have "prefix_sent (f(key \<mapsto> (D, ?k))) (out @ parcels key D [0..<?k])" by (rule prefix_sent_put [OF p]) simp
  with s Post show ?thesis by (auto simp: Let_def)
next
  case (Credit key c)
  show ?thesis
  proof (cases "f key")
    case (Some x)
    obtain D k where x: "x = (D, k)" by (cases x)
    let ?k = "max k (chunks_before ps (min c (length D)))"
    have "prefix_sent (f(key \<mapsto> (D, ?k))) (out @ parcels key D [k ..< ?k])"
      by (rule prefix_sent_put [OF p]) (auto simp: Some x)
    then show ?thesis using s Credit Some x by (simp add: Let_def)
  qed (use p s Credit in \<open>simp add: prefix_sent_def\<close>)
next
  case (Again key off len)
  show ?thesis
  proof (cases "f key")
    case (Some x)
    obtain D k where x: "x = (D, k)" by (cases x)
    let ?st = "min off (length D)"
    let ?en = "min (?st + len) (length D)"
    have a: "chunks_before ps ?st \<le> k" using a Again Some x by simp
    note i = asked_numbers [OF ps a, of _ ?en]
    have "prefix_sent (f(key \<mapsto> (D, max k (chunks_before ps ?en))))
        (out @ parcels key D (if ?st < ?en then [?st div ps ..< chunks_before ps ?en] else []))"
    proof (rule prefix_sent_put [OF p])
      fix j
      assume "j < max k (chunks_before ps ?en)"
      from i [OF this] show "(\<exists>k0. f key = Some (D, k0) \<and> j < k0)
          \<or> (key, D, j) \<in> set (parcels key D (if ?st < ?en then [?st div ps ..< chunks_before ps ?en] else []))"
        unfolding in_parcels Some x by (elim disjE) simp_all
    qed
    then show ?thesis using s Again Some x by (simp add: Let_def)
  qed (use p s Again in \<open>simp add: prefix_sent_def\<close>)
next
  case (Timer K keys)
  with p s show ?thesis by (auto simp: prefix_sent_def Let_def forget_sent_def split: option.splits if_splits)
next
  case (Cancel key)
  with p s show ?thesis by (auto simp: prefix_sent_def split: if_splits)
qed

lemma run_courier:
  "courier_ok cfg s \<Longrightarrow> orderly_run s es \<Longrightarrow> list_all (sender_adm msg) es \<Longrightarrow> prefix_sent (courier_of s) out0 \<Longrightarrow>
     \<exists>s' as fs out. run_steps sender_step s es = Inr (s', as) \<and> courier_ok cfg s' \<and> list_all2 (couriers cfg) es fs
       \<and> run_steps (courier_step (packet_size cfg)) (courier_of s) fs = Inr (courier_of s', out)
       \<and> as = map (parcel_act (packet_size cfg)) out \<and> prefix_sent (courier_of s') (out0 @ out)"
proof (induction es arbitrary: s out0)
  case (Cons e es)
  have ps: "0 < packet_size cfg" using Cons.prems(1) sender_inv_ps [of s] by (auto simp: courier_ok_def)
  have o: "orderly s e" using Cons.prems(2) by simp
  from step_courier [OF Cons.prems(1) o, of msg] Cons.prems(3) obtain s1 as1 f out1 where
    s1: "sender_step s e = Inr (s1, as1)" "courier_ok cfg s1" "couriers cfg e f"
      "courier_step (packet_size cfg) (courier_of s) f = Inr (courier_of s1, out1)" "as1 = map (parcel_act (packet_size cfg)) out1"
    unfolding couriered_def by auto
  have "prefix_sent (courier_of s1) (out0 @ out1)"
    by (rule prefix_sent_step [OF ps Cons.prems(4) orderly_asks_sent [OF Cons.prems(1) o s1(3)] s1(4)])
  moreover have "orderly_run s1 es" using Cons.prems(2) s1(1) by simp
  ultimately obtain s2 as2 fs out2 where
    s2: "run_steps sender_step s1 es = Inr (s2, as2)" "courier_ok cfg s2" "list_all2 (couriers cfg) es fs"
      "run_steps (courier_step (packet_size cfg)) (courier_of s1) fs = Inr (courier_of s2, out2)"
      "as2 = map (parcel_act (packet_size cfg)) out2" "prefix_sent (courier_of s2) ((out0 @ out1) @ out2)"
    using Cons.IH [OF s1(2)] Cons.prems(3) by fastforce
  have "run_steps sender_step s (e # es) = Inr (s2, as1 @ as2)" using s1 s2 by simp
  moreover have "run_steps (courier_step (packet_size cfg)) (courier_of s) (f # fs) = Inr (courier_of s2, out1 @ out2)"
    using s1 s2 by simp
  ultimately show ?case using s1 s2
    by (intro exI [of _ s2] exI [of _ "as1 @ as2"] exI [of _ "f # fs"] exI [of _ "out1 @ out2"]) simp
qed simp

section \<open>Properties\<close>

lemma courier_new: "0 < packet_size cfg \<Longrightarrow> courier_ok cfg (sender_new cfg)" "courier_of (sender_new cfg) = Map.empty"
  using sender_inv_new [of cfg] by (auto simp: courier_ok_def sender_new_def courier_of_def)

text \<open>
  C7: The sender refines the courier: over any calls, packets and timers with orderly RESENDs it neither panics
  nor hangs, and what it sends are, in order, the chunks that the courier sends by number; the courier's
  state is the sender's with each position counted in chunks. Grants, deadlines, done marks and byte positions
  are details of how it gets there.
\<close>

theorem sender_refines_courier:
  assumes "0 < packet_size cfg" "list_all (sender_adm (\<lambda>key x. True)) es" "orderly_run (sender_new cfg) es"
  shows "\<exists>s as fs out. run_steps sender_step (sender_new cfg) es = Inr (s, as) \<and> list_all2 (couriers cfg) es fs
    \<and> run_steps (courier_step (packet_size cfg)) Map.empty fs
        = Inr (\<lambda>key. map_option (\<lambda>m. (om_data m, chunk_count (packet_size cfg) (om_next_send m) 0)) (map_of (s_out s) key), out)
    \<and> as = map (\<lambda>(key, D, i). Send (fst key) (chunk_frag (packet_size cfg) D (snd key) i)) out"
proof -
  from run_courier [OF courier_new(1) [OF assms(1)] assms(3,2), of "[]"] obtain s as fs out where
    r: "run_steps sender_step (sender_new cfg) es = Inr (s, as)" "courier_ok cfg s" "list_all2 (couriers cfg) es fs"
      "run_steps (courier_step (packet_size cfg)) Map.empty fs = Inr (courier_of s, out)" "as = map (parcel_act (packet_size cfg)) out"
    by (auto simp: courier_new prefix_sent_def)
  have "courier_of s = (\<lambda>key. map_option (\<lambda>m. (om_data m, chunk_count (packet_size cfg) (om_next_send m) 0)) (map_of (s_out s) key))"
    using courier_entry [OF r(2)] by (intro ext)
  moreover have "parcel_act (packet_size cfg) = (\<lambda>(key, D, i). Send (fst key) (chunk_frag (packet_size cfg) D (snd key) i))"
    by (rule ext) (simp add: parcel_act_def)
  ultimately show ?thesis using r(1,3,4,5) by (intro exI [of _ s] exI [of _ as] exI [of _ fs] exI [of _ out]) simp
qed

text \<open>A message of three chunks: two at once, a GRANT, a RESEND of the first, the timer.\<close>

definition example_sender_run :: "sender_event list" where
  "example_sender_run = [SStart (localhost 9) 1 [1, 2, 3, 4, 5, 6, 7, 8, 9] 0, STick rev 999999999,
     SResend (localhost 9) (packet_new Resend 0 1 9 0 4) 5, SGrant (localhost 9) (packet_new Grant 0 1 9 9 9) 6]"

lemma example_sender_orderly: "orderly_run (sender_new small_config) example_sender_run"
  by code_simp

lemma example_sender_adm: "list_all (sender_adm (\<lambda>key x. True)) example_sender_run"
  by (simp add: example_sender_run_def)

theorem sender_refines_courier_witness:
  "\<exists>s as fs out. run_steps sender_step (sender_new small_config) example_sender_run = Inr (s, as)
    \<and> Send (localhost 9) (chunk_frag 4 [1, 2, 3, 4, 5, 6, 7, 8, 9] 1 2) \<in> set as
    \<and> list_all2 (couriers small_config) example_sender_run fs
    \<and> run_steps (courier_step 4) Map.empty fs
        = Inr (\<lambda>key. map_option (\<lambda>m. (om_data m, chunk_count 4 (om_next_send m) 0)) (map_of (s_out s) key), out)
    \<and> as = map (\<lambda>(key, D, i). Send (fst key) (chunk_frag 4 D (snd key) i)) out"
proof -
  have "0 < packet_size small_config" by simp
  from sender_refines_courier [OF this example_sender_adm example_sender_orderly] obtain s as fs out where
    r: "run_steps sender_step (sender_new small_config) example_sender_run = Inr (s, as)"
      "list_all2 (couriers small_config) example_sender_run fs"
      "run_steps (courier_step 4) Map.empty fs
        = Inr (\<lambda>key. map_option (\<lambda>m. (om_data m, chunk_count 4 (om_next_send m) 0)) (map_of (s_out s) key), out)"
      "as = map (\<lambda>(key, D, i). Send (fst key) (chunk_frag 4 D (snd key) i)) out"
    by auto
  have "Send (localhost 9) (chunk_frag 4 [1, 2, 3, 4, 5, 6, 7, 8, 9] 1 2)
      \<in> set (snd (projr (run_steps sender_step (sender_new small_config) example_sender_run)))"
    by code_simp
  then have "Send (localhost 9) (chunk_frag 4 [1, 2, 3, 4, 5, 6, 7, 8, 9] 1 2) \<in> set as" using r(1) by simp
  with r show ?thesis by blast
qed

text \<open>
  C9: Done means sent: when the sender counts a message as done, every chunk of it has been sent, over any calls,
  packets and timers with orderly RESENDs.
\<close>

theorem done_means_sent:
  assumes "0 < packet_size cfg" "list_all (sender_adm (\<lambda>key x. True)) es" "orderly_run (sender_new cfg) es"
    "run_steps sender_step (sender_new cfg) es = Inr (s, as)" "map_of (s_out s) key = Some m" "om_done_at m \<noteq> None"
    "i * packet_size cfg < length (om_data m)"
  shows "Send (fst key) (chunk_frag (packet_size cfg) (om_data m) (snd key) i) \<in> set as"
proof -
  from run_courier [OF courier_new(1) [OF assms(1)] assms(3,2), of "[]"] assms(4) obtain out where
    r: "courier_ok cfg s" "as = map (parcel_act (packet_size cfg)) out" "prefix_sent (courier_of s) out"
    by (auto simp: courier_new prefix_sent_def)
  have "chunks_before (packet_size cfg) (om_next_send m) = chunks_before (packet_size cfg) (length (om_data m))"
    using done_all_sent [OF r(1) assms(5)] assms(6) by (simp add: all_sent_def)
  then have "i < chunks_before (packet_size cfg) (om_next_send m)" using assms(1,7) by (simp add: before_iff)
  then have "(key, om_data m, i) \<in> set out"
    using r(3) courier_entry [OF r(1), of key] assms(5) by (simp add: prefix_sent_def)
  then have "parcel_act (packet_size cfg) (key, om_data m, i) \<in> set as" unfolding r(2) by (simp only: set_map imageI)
  then show ?thesis by (simp add: parcel_act_def)
qed

theorem done_means_sent_witness:
  "let r = projr (run_steps sender_step (sender_new small_config) example_sender_run)
   in \<forall>i \<in> {0, 1, 2}. Send (localhost 9) (chunk_frag 4 [1, 2, 3, 4, 5, 6, 7, 8, 9] 1 i) \<in> set (snd r)"
proof -
  let ?run = "run_steps sender_step (sender_new small_config) example_sender_run"
  let ?m = "the (map_of (s_out (fst (projr ?run))) (localhost 9, 1))"
  have e: "map_of (s_out (fst (projr ?run))) (localhost 9, 1) \<noteq> None" "om_done_at ?m \<noteq> None" "om_data ?m = [1, 2, 3, 4, 5, 6, 7, 8, 9]"
    by code_simp+
  have ps: "0 < packet_size small_config" by simp
  obtain s as where run: "?run = Inr (s, as)" using sender_runs [OF ps example_sender_adm] by blast
  then have s: "map_of (s_out s) (localhost 9, 1) = Some ?m" using e(1) by auto
  have "Send (localhost 9) (chunk_frag 4 [1, 2, 3, 4, 5, 6, 7, 8, 9] 1 i) \<in> set as" if "i < 3" for i
    using done_means_sent [OF ps example_sender_adm example_sender_orderly run s e(2), of i] that by (simp add: e(3))
  then show ?thesis by (simp add: run)
qed

text \<open>
  The condition is needed: a RESEND for the empty range at the end of a message makes the sender count it as done,
  and \<open>send_to\<close> return success, with its last chunk never sent. The sender does not check what it is asked for.
\<close>

lemma stray_resend_skips_chunks:
  "let run = run_steps sender_step (sender_new small_config) [SStart (localhost 9) 1 [1, 2, 3, 4, 5, 6, 7, 8, 9] 0,
       SResend (localhost 9) (packet_new Resend 0 1 9 9 0) 5]
   in \<exists>s as. run = Inr (s, as) \<and> is_done s (localhost 9) 1
     \<and> as = map (\<lambda>i. Send (localhost 9) (chunk_frag 4 [1, 2, 3, 4, 5, 6, 7, 8, 9] 1 i)) [0, 1]"
proof -
  let ?run = "run_steps sender_step (sender_new small_config) [SStart (localhost 9) 1 [1, 2, 3, 4, 5, 6, 7, 8, 9] 0,
    SResend (localhost 9) (packet_new Resend 0 1 9 9 0) 5]"
  have "is_done (fst (projr ?run)) (localhost 9) 1
      \<and> snd (projr ?run) = map (\<lambda>i. Send (localhost 9) (chunk_frag 4 [1, 2, 3, 4, 5, 6, 7, 8, 9] 1 i)) [0, 1]"
    by code_simp
  moreover obtain s as where "?run = Inr (s, as)"
    using sender_runs [of small_config "\<lambda>k x. True" "[SStart (localhost 9) 1 [1, 2, 3, 4, 5, 6, 7, 8, 9] 0,
      SResend (localhost 9) (packet_new Resend 0 1 9 9 0) 5]"] by force
  ultimately show ?thesis unfolding Let_def by (metis fst_conv snd_conv sum.sel(2))
qed

end
