(* ===== verification/WellFormed.thy ===== *)
theory WellFormed
  imports Lifecycle
begin

text \<open>
  Every reachable state of a transport is well formed, whatever datagrams arrive: an invariant of
  types that the Rust types alone do not give.
\<close>

section \<open>The invariant\<close>

fun send_id :: "send_call \<Rightarrow> u64" where
  "send_id (Called i dest data t0) = i"
| "send_id (Dispatching i dest deadline as) = i"
| "send_id (Waiting i dest deadline) = i"
| "send_id (Returned i) = i"

abbreviation any_data :: "msg_key \<Rightarrow> bytes \<Rightarrow> bool" where
  "any_data \<equiv> \<lambda>k x. True"

definition state_wf :: "transport_config \<Rightarrow> state \<Rightarrow> bool" where
  "state_wf cfg st \<longleftrightarrow> sender_ok (packet_size cfg) any_data (st_sender st)
     \<and> recv_inv (st_receiver st) \<and> r_cfg (st_receiver st) = cfg \<and> txq_ok (st_tx st)"

definition well_formed :: "transport_config \<Rightarrow> transport \<Rightarrow> bool" where
  "well_formed cfg t \<longleftrightarrow> state_wf cfg (t_state t)
     \<and> t_counter t = word_of_nat (Suc (length (t_calls t)))
     \<and> (\<forall>n < length (t_calls t). send_id (t_calls t ! n) = word_of_nat (Suc n))"

fun transport_orders :: "transport_event \<Rightarrow> bool" where
  "transport_orders (TIo ord ords res now1 now2) = (iter_order ord \<and> iter_orders ords)"
| "transport_orders _ = True"

fun process_orders :: "process_event \<Rightarrow> bool" where
  "process_orders (PIo ord ords res now) = (iter_order ord \<and> iter_orders ords)"
| "process_orders _ = True"

section \<open>Every step keeps it\<close>

lemma state_wf_new: "0 < packet_size cfg \<Longrightarrow> state_wf cfg (state_new cfg)"
  using sender_new_ok [of cfg any_data] recv_inv_new [of cfg] txq_ok_new
  by (simp add: state_wf_def state_new_def receiver_new_def)

lemma drain_wf: "state_wf cfg st \<Longrightarrow> drain st as = (st', out) \<Longrightarrow> state_wf cfg st'"
  using pop_batch_ok [OF enqueue_ok [of "st_tx st" "sends as"], of FLUSH_BUDGET]
  by (auto simp: drain_eq state_wf_def)

lemma state_wf_sender: "state_wf cfg st \<Longrightarrow> sender_ok (packet_size cfg) any_data s \<Longrightarrow> state_wf cfg (st\<lparr>st_sender := s\<rparr>)"
  by (simp add: state_wf_def)

lemma sound_ok: "sound_result ps msg r \<Longrightarrow> r = Inr (s, as) \<Longrightarrow> sender_ok ps msg s"
  by (auto simp: sound_result_def)

lemma io_packet_wf:
  assumes st: "state_wf cfg st" and ord: "iter_order ord" and h: "io_packet ord st src pkt payload now = Inr (st', out)"
  shows "state_wf cfg st'"
proof -
  have s: "sender_ok (packet_size cfg) any_data (st_sender st)" and r: "recv_inv (st_receiver st)"
    using st by (simp_all add: state_wf_def)
  show ?thesis
  proof (cases "pkt_typ pkt")
    case Data
    with h obtain r' as where d: "handle_data ord (st_receiver st) src pkt payload now = Inr (r', as)"
      "drain (st\<lparr>st_receiver := r'\<rparr>) as = (st', out)" by (auto simp: io_packet_def bind_res_Inr_iff)
    have "state_wf cfg (st\<lparr>st_receiver := r'\<rparr>)"
      using handle_data_sound [OF r ord d(1)] st by (simp add: sound_step_def state_wf_def)
    then show ?thesis using d(2) by (rule drain_wf)
  next
    case Grant
    with h obtain s' as where d: "handle_grant (st_sender st) src pkt now = Inr (s', as)"
      "(let (st', out) = drain (st\<lparr>st_sender := s'\<rparr>) as
        in Inr (st', (if is_done s' src (pkt_msg_id pkt) then [Wake] else []) @ out)) = (Inr (st', out) :: fault + _)"
      by (auto simp: io_packet_def bind_res_Inr_iff)
    obtain st2 out' where d2: "drain (st\<lparr>st_sender := s'\<rparr>) as = (st2, out')" by force
    then have "st2 = st'" using d(2) by simp
    note d2 = d2 [unfolded this]
    show ?thesis by (rule drain_wf [OF state_wf_sender [OF st sound_ok [OF handle_grant_sound [OF s] d(1)]] d2])
  next
    case Resend
    with h obtain s' as where d: "handle_resend (st_sender st) src pkt now = Inr (s', as)"
      "drain (st\<lparr>st_sender := s'\<rparr>) as = (st', out)" by (auto simp: io_packet_def bind_res_Inr_iff)
    show ?thesis by (rule drain_wf [OF state_wf_sender [OF st sound_ok [OF handle_resend_sound [OF s] d(1)]] d(2)])
  next
    case Busy
    then have "drain (st\<lparr>st_sender := handle_busy (st_sender st) src pkt now\<rparr>) [] = (st', out)"
      using h by (simp add: io_packet_def)
    then show ?thesis by (rule drain_wf [OF state_wf_sender [OF st handle_busy_sound [OF s]]])
  qed
qed

lemma io_tick_wf:
  assumes st: "state_wf cfg st" and ords: "iter_orders ords" and h: "io_tick ords st now = Inr (st', out)"
  shows "state_wf cfg st'"
proof -
  obtain o1 o2 o3 where o: "ords = (o1, o2, o3)" by (cases ords)
  with h obtain s as1 r as2 where d: "sender_tick o1 (st_sender st) now = Inr (s, as1)"
    "receiver_tick o2 o3 (st_receiver st) now = Inr (r, as2)"
    "drain (st\<lparr>st_sender := s, st_receiver := r\<rparr>) (as1 @ as2) = (st', out)"
    by (auto simp: io_tick_def bind_res_Inr_iff)
  have "sound_result (packet_size cfg) any_data (sender_tick o1 (st_sender st) now)"
    using st by (intro sender_tick_sound) (simp add: state_wf_def)
  then have "sender_ok (packet_size cfg) any_data s" using d(1) by (rule sound_ok)
  moreover have "sound_step (st_receiver st) r as2"
    by (rule receiver_tick_sound [OF _ _ d(2)]) (use st ords o in \<open>simp_all add: state_wf_def iter_orders_def\<close>)
  ultimately have "state_wf cfg (st\<lparr>st_sender := s, st_receiver := r\<rparr>)" using st by (simp add: state_wf_def sound_step_def)
  then show ?thesis using d(3) by (rule drain_wf)
qed

lemma tick_if_due_wf:
  "state_wf cfg st \<Longrightarrow> iter_orders ords \<Longrightarrow> tick_if_due ords (st, l) now = Inr ((st', l'), out) \<Longrightarrow> state_wf cfg st'"
  by (auto simp: tick_if_due_def bind_res_Inr_iff split: if_splits dest: io_tick_wf)

lemma io_iter_wf:
  assumes st: "state_wf cfg st" and o: "iter_order ord" "iter_orders ords"
    and h: "io_iter ord ords (st, l) res now1 now2 = Inr ((st', l'), out)"
  shows "state_wf cfg st'"
proof (cases res)
  case (Received buf src)
  show ?thesis
  proof (cases "decode buf")
    case (Inl e)
    then show ?thesis using h st by (simp add: io_iter_def Received)
  next
    case (Inr x)
    obtain pkt payload where "x = (pkt, payload)" by (cases x)
    with h Inr obtain st1 o1 o2 where d: "io_packet ord st src pkt payload now1 = Inr (st1, o1)"
      "tick_if_due ords (st1, l) now2 = Inr ((st', l'), o2)" by (auto simp: io_iter_def Received bind_res_Inr_iff)
    show ?thesis by (rule tick_if_due_wf [OF io_packet_wf [OF st o(1) d(1)] o(2) d(2)])
  qed
qed (use h tick_if_due_wf [OF st o(2)] in \<open>simp_all add: io_iter_def\<close>)

lemma send_call_wf:
  assumes st: "state_wf cfg st" and h: "send_call_step timeout st c now = Inr ((st', c'), out)"
  shows "state_wf cfg st' \<and> send_id c' = send_id c"
proof (cases c)
  case (Called i dest data t0)
  have "sound_result (packet_size cfg) any_data (start (st_sender st) dest i data t0)"
    using st by (intro start_sound) (simp_all add: state_wf_def)
  with h Called st show ?thesis
    by (auto simp: send_call_step_def bind_res_Inr_iff state_wf_def dest: sound_ok)
next
  case (Dispatching i dest deadline as)
  with h drain_wf [OF st] show ?thesis by (auto simp: send_call_step_def split: prod.splits)
next
  case (Waiting i dest deadline)
  with h st show ?thesis by (auto simp: send_call_step_def state_wf_def finish_sound split: if_splits)
qed (use h st in \<open>auto simp: send_call_step_def\<close>)

lemma transport_step_wf:
  assumes t: "well_formed cfg t" and e: "transport_orders e" and h: "transport_step t e = Inr (t', out)"
  shows "well_formed cfg t'"
proof (cases e)
  case (TIo ord ords res now1 now2)
  with h t e show ?thesis by (auto simp: bind_res_Inr_iff well_formed_def dest: io_iter_wf)
next
  case (TSend dest data now)
  with h t show ?thesis by (auto simp: well_formed_def nth_append less_Suc_eq)
next
  case (TCall n now)
  show ?thesis
  proof (cases "n < length (t_calls t)")
    case True
    with h TCall obtain st c where "send_call_step (t_timeout t) (t_state t) (t_calls t ! n) now = Inr ((st, c), out)"
      "t' = t\<lparr>t_state := st, t_calls := (t_calls t)[n := c]\<rparr>" by (auto simp: bind_res_Inr_iff)
    with t True send_call_wf [of cfg "t_state t"] show ?thesis
      by (auto simp: well_formed_def nth_list_update)
  qed (use h TCall t in simp)
next
  case (TRecv deadline now)
  with h t show ?thesis
    by (auto simp: well_formed_def state_wf_def recv_poll_def split: list.splits if_splits)
qed

interpretation wf: machine transport_step "well_formed cfg" transport_orders "\<lambda>x. True" for cfg
  by unfold_locales (auto intro: transport_step_wf simp: list_all_iff)

lemma well_formed_new: "0 < packet_size cfg \<Longrightarrow> well_formed cfg (transport_new cfg now)"
  by (simp add: well_formed_def transport_new_def state_wf_new)

lemma process_run_wf:
  assumes "0 < packet_size cfg" "list_all process_orders es" "run_steps process_step (process_new cfg now) es = Inr (p, out)"
  shows "well_formed cfg (pr_transport p)"
proof -
  obtain fs where f: "run_steps transport_step (transport_new cfg now) fs = Inr (pr_transport p, did out)"
      "\<forall>f \<in> set fs. \<exists>e \<in> set es. lifts e f"
    using proc.run_sim [OF _ assms(3)] by (auto simp: process_new_def)
  have "lifts e f \<Longrightarrow> process_orders e \<Longrightarrow> transport_orders f" for e f by (cases e) auto
  then have "list_all transport_orders fs" using f(2) assms(2) unfolding list_all_iff by blast
  from wf.run_inv_good [OF well_formed_new [OF assms(1)] this f(1)] show ?thesis by simp
qed

section \<open>Properties\<close>

text \<open>
  C16: Every reachable state of a bound transport is well formed, for any datagrams, any calls and any
  interleaving, panics and shutdown included: both maps have distinct keys; a message being sent has
  sent what is granted, not more than it has, and is done exactly when all is sent; an entry being received has
  a buffer of its length, one bit per chunk and a grant within it, and is not in the cache of completed keys; there are eight queues, and
  each holds DATA datagrams of its own level only; the ids of the calls count up from 1.
\<close>

theorem reachable_well_formed:
  assumes "transport_bind os parse_addr addr cfg now = Inr p0" "0 < packet_size cfg" "list_all process_orders es"
    "run_steps process_step p0 es = Inr (p, out)"
  shows "let t = pr_transport p; st = t_state t
    in distinct (hm_keys (s_out (st_sender st))) \<and> distinct (hm_keys (r_incoming (st_receiver st)))
    \<and> (\<forall>key m. map_of (s_out (st_sender st)) key = Some m \<longrightarrow>
         om_granted_to m \<le> om_next_send m \<and> om_next_send m \<le> length (om_data m)
         \<and> (om_done_at m \<noteq> None \<longleftrightarrow> om_next_send m = length (om_data m)))
    \<and> (\<forall>key m. map_of (r_incoming (st_receiver st)) key = Some m \<longrightarrow>
         length (im_buf m) = im_total_len m
         \<and> length (im_received m) = max ((im_total_len m + packet_size cfg - 1) div packet_size cfg) 1
         \<and> im_granted_to m \<le> im_total_len m \<and> key \<notin> set (r_completed (st_receiver st)))
    \<and> length (queues (st_tx st)) = 8
    \<and> (\<forall>i < 8. \<forall>(d, b) \<in> set (queues (st_tx st) ! i). 2 \<le> length b \<and> b ! 0 = type_code Data \<and> prio_index b = i)
    \<and> t_counter t = word_of_nat (Suc (length (t_calls t)))
    \<and> (\<forall>n < length (t_calls t). send_id (t_calls t ! n) = word_of_nat (Suc n))"
proof -
  have p0: "p0 = process_new cfg now" using assms(1) by (auto simp: transport_bind_def split: option.splits)
  have w: "well_formed cfg (pr_transport p)"
    using process_run_wf [OF assms(2,3)] assms(4) by (simp add: p0)
  let ?st = "t_state (pr_transport p)"
  have s: "sender_inv (st_sender ?st)" and r: "recv_inv (st_receiver ?st)" "r_cfg (st_receiver ?st) = cfg" and q: "txq_ok (st_tx ?st)"
    using w by (simp_all add: well_formed_def state_wf_def sender_ok_def)
  have "\<forall>key m. map_of (s_out (st_sender ?st)) key = Some m \<longrightarrow>
       om_granted_to m \<le> om_next_send m \<and> om_next_send m \<le> length (om_data m)
       \<and> (om_done_at m \<noteq> None \<longleftrightarrow> om_next_send m = length (om_data m))"
    using sender_inv_om [OF s] by (simp add: om_ok_def)
  moreover have "\<forall>key m. map_of (r_incoming (st_receiver ?st)) key = Some m \<longrightarrow>
       length (im_buf m) = im_total_len m
       \<and> length (im_received m) = max ((im_total_len m + packet_size cfg - 1) div packet_size cfg) 1
       \<and> im_granted_to m \<le> im_total_len m \<and> key \<notin> set (r_completed (st_receiver ?st))"
    using recv_inv_entry [OF r(1)] r(2) by (auto simp: in_msg_ok_def chunk_count_def)
  moreover have "distinct (hm_keys (s_out (st_sender ?st)))" "distinct (hm_keys (r_incoming (st_receiver ?st)))"
    using s r by (simp_all add: sender_inv_def recv_inv_def)
  ultimately show ?thesis using q w unfolding Let_def txq_ok_def well_formed_def
    by (elim conjE) (intro conjI; assumption)
qed

theorem reachable_well_formed_witness:
  "\<exists>p out. run_steps process_step (process_new small_config 0) example_process = Inr (p, out)
    \<and> length (queues (st_tx (t_state (pr_transport p)))) = 8
    \<and> t_counter (pr_transport p) = word_of_nat (Suc (length (t_calls (pr_transport p))))"
proof -
  obtain p out where r: "run_steps process_step (process_new small_config 0) example_process = Inr (p, out)"
    using process_runs by blast
  have "0 < packet_size small_config" "list_all process_orders example_process"
    by (simp_all add: example_process_def iter_orders_def Let_def)
  from reachable_well_formed [OF example_bind this r] r show ?thesis unfolding Let_def by blast
qed

end
