(* ===== verification/SendOutcome.thy ===== *)
theory SendOutcome
  imports WellFormed Network
begin

text \<open>
  The contract of \<open>Transport::send_to\<close>: what a call returns, and when. The history of a transport
  from \<open>bind\<close> on says which calls there were and which messages the sender has come to the end of.
\<close>

section \<open>The history of calls\<close>

text \<open>The calls so far, in order, and a message whose position was at its end at some time.\<close>

fun sent_calls :: "process_event list \<Rightarrow> (sockaddr \<times> bytes \<times> instant) list" where
  "sent_calls [] = []"
| "sent_calls (PSend dest data now # es) = (dest, data, now) # sent_calls es"
| "sent_calls (_ # es) = sent_calls es"

lemma sent_calls_append [simp]: "sent_calls (es @ fs) = sent_calls es @ sent_calls fs"
  by (induction es rule: sent_calls.induct) auto

abbreviation sender_of :: "process \<Rightarrow> sender_core" where
  "sender_of p \<equiv> st_sender (t_state (pr_transport p))"

abbreviation calls_of :: "process \<Rightarrow> send_call list" where
  "calls_of p \<equiv> t_calls (pr_transport p)"

definition was_sent :: "transport_config \<Rightarrow> instant \<Rightarrow> process_event list \<Rightarrow> msg_key \<Rightarrow> bytes \<Rightarrow> bool" where
  "was_sent cfg boot es key data \<longleftrightarrow> (\<exists>fs gs p os m. es = fs @ gs \<and> run_steps process_step (process_new cfg boot) fs = Inr (p, os)
     \<and> map_of (s_out (sender_of p)) key = Some m \<and> om_data m = data \<and> om_next_send m = length data)"

lemma was_sent_more: "was_sent cfg boot es key data \<Longrightarrow> was_sent cfg boot (es @ fs) key data"
  unfolding was_sent_def by (metis append.assoc)

lemma was_sent_now:
  "run_steps process_step (process_new cfg boot) es = Inr (p, os) \<Longrightarrow> map_of (s_out (sender_of p)) key = Some m \<Longrightarrow>
     om_next_send m = length (om_data m) \<Longrightarrow> was_sent cfg boot es key (om_data m)"
  unfolding was_sent_def by (metis append_Nil2)

definition in_progress :: "transport_config \<Rightarrow> instant \<Rightarrow> process \<Rightarrow> process_event list \<Rightarrow> msg_key \<Rightarrow> bytes \<Rightarrow> bool" where
  "in_progress cfg boot p es key data \<longleftrightarrow>
     (\<exists>m. map_of (s_out (sender_of p)) key = Some m \<and> om_data m = data) \<or> was_sent cfg boot es key data"

fun call_fact :: "transport_config \<Rightarrow> instant \<Rightarrow> process \<Rightarrow> process_event list \<Rightarrow> sockaddr \<times> bytes \<times> instant \<Rightarrow> send_call \<Rightarrow> bool" where
  "call_fact cfg boot p es (dest, data, t0) (Called i d x t) \<longleftrightarrow> d = dest \<and> x = data \<and> t = t0"
| "call_fact cfg boot p es (dest, data, t0) (Dispatching i d deadline as) \<longleftrightarrow>
     d = dest \<and> deadline = t0 + send_timeout cfg \<and> in_progress cfg boot p es (dest, i) data"
| "call_fact cfg boot p es (dest, data, t0) (Waiting i d deadline) \<longleftrightarrow>
     d = dest \<and> deadline = t0 + send_timeout cfg \<and> in_progress cfg boot p es (dest, i) data"
| "call_fact cfg boot p es sc (Returned i) \<longleftrightarrow> True"

fun outcome :: "transport_config \<Rightarrow> instant \<Rightarrow> process_event list \<Rightarrow> nat \<Rightarrow> sockaddr \<times> bytes \<times> instant \<Rightarrow> u64 \<Rightarrow> io_error + u64 \<Rightarrow> bool" where
  "outcome cfg boot es k (dest, data, t0) i (Inr j) \<longleftrightarrow> j = i \<and> was_sent cfg boot es (dest, i) data"
| "outcome cfg boot es k (dest, data, t0) i (Inl e) \<longleftrightarrow> e = IoError TimedOut ''homa send_to timeout''
     \<and> (\<exists>now. PCall k now \<in> set es \<and> t0 + send_timeout cfg \<le> now)"

definition send_returns :: "u64 \<Rightarrow> process_effect list \<Rightarrow> nat" where
  "send_returns i os = length (filter (\<lambda>x. \<exists>r. x = Did (SendReturned i r)) os)"

lemma send_returns_append [simp]: "send_returns i (os @ os') = send_returns i os + send_returns i os'"
  by (simp add: send_returns_def)

lemma send_returns_none: "(\<And>r. Did (SendReturned i r) \<notin> set os) \<Longrightarrow> send_returns i os = 0"
  by (auto simp: send_returns_def filter_empty_conv)

definition send_facts :: "transport_config \<Rightarrow> instant \<Rightarrow> process \<Rightarrow> process_event list \<Rightarrow> process_effect list \<Rightarrow> bool" where
  "send_facts cfg boot p es os \<longleftrightarrow> length (calls_of p) = length (sent_calls es) \<and> t_timeout (pr_transport p) = send_timeout cfg
     \<and> (\<forall>k < length (calls_of p). call_fact cfg boot p es (sent_calls es ! k) (calls_of p ! k))
     \<and> (\<forall>i r. Did (SendReturned i r) \<in> set os \<longrightarrow>
          (\<exists>k < length (sent_calls es). i = word_of_nat (Suc k) \<and> calls_of p ! k = Returned i \<and> outcome cfg boot es k (sent_calls es ! k) i r))
     \<and> (\<forall>i. send_returns i os \<le> 1)"

section \<open>Steps that return from no call\<close>

text \<open>A message stays in the map, with its data, unless it is complete.\<close>

definition keeps :: "sender_core \<Rightarrow> sender_core \<Rightarrow> bool" where
  "keeps s s' \<longleftrightarrow> (\<forall>key m. map_of (s_out s) key = Some m \<longrightarrow>
     (\<exists>m'. map_of (s_out s') key = Some m' \<and> om_data m' = om_data m) \<or> om_next_send m = length (om_data m))"

lemma keeps_refl [simp]: "keeps s s"
  by (simp add: keeps_def)

lemma keeps_update: "map_of (s_out s) key = Some m \<Longrightarrow> om_data m' = om_data m \<Longrightarrow> keeps s (s\<lparr>s_out := AList.update key m' (s_out s)\<rparr>)"
  by (auto simp: keeps_def update_conv')

lemma pump_keeps: "pump s key limit now = Inr (s', as) \<Longrightarrow> keeps s s'"
  by (auto simp: pump_def Let_def bind_res_Inr_iff intro: keeps_update split: option.splits if_splits)

lemma handle_grant_keeps: "handle_grant s src pkt now = Inr (s', as) \<Longrightarrow> keeps s s'"
  by (auto simp: handle_grant_def Let_def intro: pump_keeps split: option.splits if_splits)

lemma handle_resend_keeps: "handle_resend s src pkt now = Inr (s', as) \<Longrightarrow> keeps s s'"
  by (auto simp: handle_resend_def Let_def bind_res_Inr_iff intro: keeps_update split: option.splits if_splits)

lemma handle_busy_keeps: "keeps s (handle_busy s src pkt now)"
  by (auto simp: handle_busy_def Let_def intro: keeps_update split: option.splits)

lemma sender_tick_keeps:
  assumes inv: "sender_inv s" and ord: "iter_order ord" and h: "sender_tick ord s now = Inr (s', as)"
  shows "keeps s s'"
proof -
  have e: "sender_inv (expire s now)" using inv by (auto simp: sender_inv_def expire_def all_entries_def distinct_map_filter)
  have d: "distinct (ord (hm_keys (s_out (expire s now))))" using e ord by (simp add: iter_order_distinct sender_inv_def)
  have p: "poke_loop (expire s now) (ord (hm_keys (s_out (expire s now)))) now = Inr (s', as)"
    using h by (simp add: sender_tick_def Let_def)
  note q = conjunct2 [OF poke_loop_eq [OF e d p]]
  have "hm_ok (s_out s)" using inv by (simp add: sender_inv_def)
  note x = expire_map_of [OF this, of now]
  have "(\<exists>m'. map_of (s_out s') key = Some m' \<and> om_data m' = om_data m) \<or> om_next_send m = length (om_data m)"
    if m: "map_of (s_out s) key = Some m" for key m
  proof (cases "map_of (s_out (expire s now)) key")
    case None
    then have "om_done_at m \<noteq> None" using x [of key] m by (auto split: option.splits)
    with sender_inv_om [OF inv m] show ?thesis by (simp add: om_ok_def)
  next
    case (Some m1)
    then have "m1 = m" using x [of key] m by (auto split: option.splits if_splits)
    with q Some show ?thesis by (auto split: if_splits)
  qed
  then show ?thesis by (simp add: keeps_def)
qed

lemma drain_sender: "drain st as = (st', out) \<Longrightarrow> st_sender st' = st_sender st \<and> (\<forall>i r. SendReturned i r \<notin> set out)"
  by (auto simp: drain_eq split: if_splits)

lemma io_packet_keeps:
  assumes "io_packet ord st src pkt payload now = Inr (st', out)"
  shows "keeps (st_sender st) (st_sender st') \<and> (\<forall>i r. SendReturned i r \<notin> set out)"
proof (cases "pkt_typ pkt")
  case Data
  with assms show ?thesis by (auto simp: io_packet_def bind_res_Inr_iff dest: drain_sender)
next
  case Grant
  with assms obtain s as where g: "handle_grant (st_sender st) src pkt now = Inr (s, as)"
    "(let (st', out) = drain (st\<lparr>st_sender := s\<rparr>) as
      in Inr (st', (if is_done s src (pkt_msg_id pkt) then [Wake] else []) @ out)) = (Inr (st', out) :: fault + _)"
    by (auto simp: io_packet_def bind_res_Inr_iff)
  obtain st2 out2 where d: "drain (st\<lparr>st_sender := s\<rparr>) as = (st2, out2)" by force
  then have "st' = st2" "set out \<subseteq> {Wake} \<union> set out2" using g(2) by (auto split: if_splits)
  with handle_grant_keeps [OF g(1)] drain_sender [OF d] show ?thesis by auto
next
  case Resend
  with assms show ?thesis
    by (auto simp: io_packet_def bind_res_Inr_iff dest!: drain_sender handle_resend_keeps)
next
  case Busy
  with assms show ?thesis
    using handle_busy_keeps by (auto simp: io_packet_def dest!: drain_sender)
qed

lemma io_tick_keeps:
  assumes "sender_inv (st_sender st)" "iter_orders ords" "io_tick ords st now = Inr (st', out)"
  shows "keeps (st_sender st) (st_sender st') \<and> (\<forall>i r. SendReturned i r \<notin> set out)"
proof -
  obtain o1 o2 o3 where o: "ords = (o1, o2, o3)" by (cases ords)
  with assms(3) obtain s as1 r as2 where d: "sender_tick o1 (st_sender st) now = Inr (s, as1)"
    "drain (st\<lparr>st_sender := s, st_receiver := r\<rparr>) (as1 @ as2) = (st', out)"
    by (auto simp: io_tick_def bind_res_Inr_iff)
  have "keeps (st_sender st) s" by (rule sender_tick_keeps [OF assms(1) _ d(1)]) (use assms(2) o in \<open>simp add: iter_orders_def\<close>)
  with drain_sender [OF d(2)] show ?thesis by simp
qed

section \<open>Steps of the process\<close>

definition quiet :: "process \<Rightarrow> process \<Rightarrow> process_effect list \<Rightarrow> bool" where
  "quiet p p' os \<longleftrightarrow> calls_of p' = calls_of p \<and> t_timeout (pr_transport p') = t_timeout (pr_transport p)
     \<and> keeps (sender_of p) (sender_of p') \<and> (\<forall>i r. Did (SendReturned i r) \<notin> set os)"

lemma quiet_refl: "pr_transport p' = pr_transport p \<Longrightarrow> (\<And>i r. Did (SendReturned i r) \<notin> set os) \<Longrightarrow> quiet p p' os"
  by (simp add: quiet_def)

lemma with_lock_quiet:
  assumes "\<And>p' out. r = Inr (p', out) \<Longrightarrow> quiet p p' (map Did out)"
    and "\<And>q. pr_transport q = pr_transport p \<Longrightarrow> quiet p (fst (panic q)) (snd (panic q))"
  shows "quiet p (fst (with_lock p r panic)) (snd (with_lock p r panic))"
  by (rule with_lock_cases [where p = p and r = r and panic = panic]) (simp_all add: assms quiet_refl)

lemma io_thread_quiet:
  assumes inv: "sender_inv (sender_of p)" and ord: "iter_orders ords"
  shows "quiet p (fst (io_thread p ord ords res now)) (snd (io_thread p ord ords res now))"
proof -
  have dead: "quiet p (fst (io_dies q)) (snd (io_dies q))" if "pr_transport q = pr_transport p" for q
    using that by (simp add: io_dies_def quiet_refl)
  show ?thesis
  proof (cases "pr_io p")
    case IoRecv
    have "quiet p (fst (with_lock p r io_dies)) (snd (with_lock p r io_dies))"
      if "r = bind_res (io_packet ord (t_state (pr_transport p)) src pkt payload now) (\<lambda>(st, out).
        Inr ((set_state st p)\<lparr>pr_io := IoTimer\<rparr>, out))" for r src pkt payload
      by (rule with_lock_quiet [OF _ dead]) (auto simp: that bind_res_Inr_iff quiet_def dest!: io_packet_keeps)
    then show ?thesis by (auto simp: io_thread_def Let_def IoRecv quiet_refl split: recv_result.splits sum.splits)
  next
    case IoTimer
    have "quiet p (fst (with_lock p r io_dies)) (snd (with_lock p r io_dies))"
      if "r = bind_res (io_tick ords (t_state (pr_transport p)) now) (\<lambda>(st, out).
        Inr (p\<lparr>pr_transport := (pr_transport p)\<lparr>t_state := st, t_last_tick := now\<rparr>, pr_io := IoHead\<rparr>, out))" for r
      by (rule with_lock_quiet [OF _ dead]) (auto simp: that bind_res_Inr_iff quiet_def dest!: io_tick_keeps [OF inv ord])
    then show ?thesis by (simp add: io_thread_def Let_def IoTimer quiet_refl)
  qed (simp_all add: io_thread_def Let_def quiet_refl)
qed

text \<open>A step of a call does nothing, or is the step of \<open>send_call_step\<close>.\<close>

lemma proceed_send_cases:
  assumes "proceed_send p n now = (p', os)"
  obtains (quiet) "quiet p p' os"
  | (runs) st c out where "n < length (calls_of p)" "\<And>i. calls_of p ! n \<noteq> Returned i"
      "send_call_step (t_timeout (pr_transport p)) (t_state (pr_transport p)) (calls_of p ! n) now = Inr ((st, c), out)"
      "p' = p\<lparr>pr_transport := (pr_transport p)\<lparr>t_state := st, t_calls := (calls_of p)[n := c]\<rparr>\<rparr>" "os = map Did out"
proof (cases "n < length (calls_of p) \<and> n \<notin> set (pr_panicked p) \<and> (\<forall>i. calls_of p ! n \<noteq> Returned i)")
  case False
  with assms have "pr_transport p' = pr_transport p \<and> os = []"
    by (auto simp: proceed_send_def Let_def split: if_splits)
  then show thesis by (intro quiet quiet_refl) simp_all
next
  case True
  let ?t = "pr_transport p"
  let ?r = "bind_res (send_call_step (t_timeout ?t) (t_state ?t) (t_calls ?t ! n) now) (\<lambda>((st, c), out).
    Inr (p\<lparr>pr_transport := ?t\<lparr>t_state := st, t_calls := (t_calls ?t)[n := c]\<rparr>\<rparr>, out))"
  let ?panic = "\<lambda>p. (p\<lparr>pr_panicked := n # pr_panicked p\<rparr>, [SendPanics n])"
  have e: "with_lock p ?r ?panic = (p', os)"
    using assms True by (cases "t_calls ?t ! n") (simp_all add: proceed_send_def Let_def)
  show thesis
  proof (rule with_lock_cases [where p = p and r = ?r and panic = ?panic])
    fix p2 out
    assume "pr_mutex p = Unlocked" and r: "?r = Inr (p2, out)" and w: "with_lock p ?r ?panic = (p2, map Did out)"
    from r obtain st c where "send_call_step (t_timeout ?t) (t_state ?t) (t_calls ?t ! n) now = Inr ((st, c), out)"
      "p2 = p\<lparr>pr_transport := ?t\<lparr>t_state := st, t_calls := (t_calls ?t)[n := c]\<rparr>\<rparr>" by (auto simp: bind_res_Inr_iff)
    with w e True show thesis by (intro runs) auto
  qed (use e in \<open>auto intro!: quiet quiet_refl\<close>)
qed

section \<open>The history is kept\<close>

lemma in_progress_keeps:
  assumes run: "run_steps process_step (process_new cfg boot) es = Inr (p, os)"
    and k: "keeps (sender_of p) (sender_of p')" and h: "in_progress cfg boot p es key data"
  shows "in_progress cfg boot p' (es @ fs) key data"
  using h was_sent_more [of cfg boot es key] was_sent_now [OF run, of key] k
  unfolding in_progress_def keeps_def by metis

lemma call_fact_keeps:
  assumes "run_steps process_step (process_new cfg boot) es = Inr (p, os)" "keeps (sender_of p) (sender_of p')"
    "call_fact cfg boot p es sc c"
  shows "call_fact cfg boot p' (es @ fs) sc c"
  using assms(3) in_progress_keeps [OF assms(1,2)] by (cases sc; cases c) auto

lemma outcome_more: "outcome cfg boot es k sc i r \<Longrightarrow> outcome cfg boot (es @ fs) k sc i r"
  by (cases sc; cases r) (auto intro: was_sent_more)

lemma send_facts_returned:
  assumes "send_facts cfg boot p es os" "Did (SendReturned i r) \<in> set os"
  obtains k where "k < length (calls_of p)" "k < length (sent_calls es)" "i = word_of_nat (Suc k)" "calls_of p ! k = Returned i"
    "outcome cfg boot es k (sent_calls es ! k) i r"
  using assms unfolding send_facts_def by metis

lemma quiet_facts:
  assumes run: "run_steps process_step (process_new cfg boot) es = Inr (p, os)" and h: "send_facts cfg boot p es os"
    and q: "quiet p p' os'" and e: "sent_calls [e] = []"
  shows "send_facts cfg boot p' (es @ [e]) (os @ os')"
proof -
  have eq: "calls_of p' = calls_of p" "t_timeout (pr_transport p') = t_timeout (pr_transport p)"
    "keeps (sender_of p) (sender_of p')" "\<And>i r. Did (SendReturned i r) \<notin> set os'" using q by (simp_all add: quiet_def)
  have "send_returns i os' = 0" for i by (intro send_returns_none eq(4))
  moreover have "call_fact cfg boot p' (es @ [e]) (sent_calls es ! k) (calls_of p ! k)" if "k < length (calls_of p)" for k
    using call_fact_keeps [OF run eq(3)] h that by (simp add: send_facts_def)
  moreover have "\<exists>k < length (sent_calls es). i = word_of_nat (Suc k) \<and> calls_of p ! k = Returned i
      \<and> outcome cfg boot (es @ [e]) k (sent_calls es ! k) i r" if "Did (SendReturned i r) \<in> set os" for i r
    using send_facts_returned [OF h that] outcome_more by metis
  ultimately show ?thesis using h eq e by (simp add: send_facts_def)
qed

lemma send_step_facts:
  assumes run: "run_steps process_step (process_new cfg boot) es = Inr (p, os)" and h: "send_facts cfg boot p es os"
    and p': "process_step p (PSend dest data now) = Inr (p', os')"
  shows "send_facts cfg boot p' (es @ [PSend dest data now]) (os @ os')"
proof -
  have eq: "calls_of p' = calls_of p @ [Called (t_counter (pr_transport p)) dest data now]" "os' = []"
    "t_timeout (pr_transport p') = t_timeout (pr_transport p)" "sender_of p' = sender_of p"
    using p' by (auto simp: Let_def)
  have k: "keeps (sender_of p) (sender_of p')" by (simp add: eq)
  have "call_fact cfg boot p' (es @ [PSend dest data now]) ((sent_calls es @ [(dest, data, now)]) ! k) (calls_of p' ! k)"
    if "k < length (calls_of p')" for k
    using that h call_fact_keeps [OF run k] unfolding send_facts_def by (auto simp: eq nth_append less_Suc_eq)
  moreover have "\<exists>k < length (sent_calls es @ [(dest, data, now)]). i = word_of_nat (Suc k) \<and> calls_of p' ! k = Returned i
      \<and> outcome cfg boot (es @ [PSend dest data now]) k ((sent_calls es @ [(dest, data, now)]) ! k) i r"
    if "Did (SendReturned i r) \<in> set os" for i r
  proof -
    from send_facts_returned [OF h that] show ?thesis
      by cases (auto simp: eq nth_append intro!: exI outcome_more)
  qed
  ultimately show ?thesis using h by (simp add: send_facts_def eq)
qed

lemma call_fact_others:
  assumes f: "call_fact cfg boot p es sc c"
    and m: "\<And>d. map_of (s_out (sender_of p')) (d, send_id c) = map_of (s_out (sender_of p)) (d, send_id c)"
  shows "call_fact cfg boot p' (es @ fs) sc c"
proof -
  have "in_progress cfg boot p' (es @ fs) (d, send_id c) x" if "in_progress cfg boot p es (d, send_id c) x" for d x
    using that m was_sent_more [of cfg boot es] unfolding in_progress_def by metis
  with f show ?thesis by (cases sc; cases c) auto
qed

text \<open>The step of call \<open>n\<close>: what it must show for the history to be kept.\<close>

lemma call_facts:
  assumes run: "run_steps process_step (process_new cfg boot) es = Inr (p, os)" and h: "send_facts cfg boot p es os"
    and n: "n < length (calls_of p)" and ids: "\<And>k. k < length (calls_of p) \<Longrightarrow> send_id (calls_of p ! k) = word_of_nat (Suc k)"
    and len: "length (calls_of p) < 2 ^ 64" and live: "\<And>i. calls_of p ! n \<noteq> Returned i"
    and eq: "calls_of p' = (calls_of p)[n := c]" "t_timeout (pr_transport p') = t_timeout (pr_transport p)"
    and others: "\<And>key. snd key \<noteq> word_of_nat (Suc n) \<Longrightarrow> map_of (s_out (sender_of p')) key = map_of (s_out (sender_of p)) key"
    and c: "call_fact cfg boot p' (es @ [PCall n now]) (sent_calls es ! n) c"
    and os': "os' = [] \<or> (\<forall>i r. Did (SendReturned i r) \<notin> set os')
      \<or> (\<exists>r. os' = [Did (SendReturned (word_of_nat (Suc n)) r)] \<and> c = Returned (word_of_nat (Suc n))
            \<and> outcome cfg boot (es @ [PCall n now]) n (sent_calls es ! n) (word_of_nat (Suc n)) r)"
  shows "send_facts cfg boot p' (es @ [PCall n now]) (os @ os')"
proof -
  let ?es = "es @ [PCall n now]" and ?i = "word_of_nat (Suc n) :: u64"
  have ls: "length (calls_of p) = length (sent_calls es)" using h by (simp add: send_facts_def)
  have id: "word_of_nat (Suc k) = ?i \<longleftrightarrow> k = n" if "k < length (calls_of p)" for k
    using id_inj [of k n] that n len by simp
  have "call_fact cfg boot p' ?es (sent_calls es ! k) (calls_of p' ! k)" if k: "k < length (calls_of p)" for k
  proof (cases "k = n")
    case False
    have "call_fact cfg boot p es (sent_calls es ! k) (calls_of p ! k)" using h k by (simp add: send_facts_def)
    moreover have "snd (d, send_id (calls_of p ! k)) \<noteq> ?i" for d :: sockaddr using ids [OF k] id [OF k] False by simp
    ultimately show ?thesis using False call_fact_others others by (simp add: eq)
  qed (use c n in \<open>simp add: eq\<close>)
  moreover have none: "send_returns ?i os = 0"
  proof (rule send_returns_none)
    show "Did (SendReturned ?i r) \<notin> set os" for r
    proof
      assume "Did (SendReturned ?i r) \<in> set os"
      then obtain k where k: "k < length (calls_of p)" "?i = word_of_nat (Suc k)" "calls_of p ! k = Returned ?i"
        by (rule send_facts_returned [OF h])
      then have "k = n" using id by metis
      with k(3) live show False by blast
    qed
  qed
  have "\<exists>k < length (sent_calls es). i = word_of_nat (Suc k) \<and> calls_of p' ! k = Returned i \<and> outcome cfg boot ?es k (sent_calls es ! k) i r"
    if "Did (SendReturned i r) \<in> set (os @ os')" for i r
  proof (cases "Did (SendReturned i r) \<in> set os")
    case True
    then obtain k where k: "k < length (sent_calls es)" "i = word_of_nat (Suc k)" "calls_of p ! k = Returned i"
      "outcome cfg boot es k (sent_calls es ! k) i r" by (rule send_facts_returned [OF h])
    then have "k \<noteq> n" using live by auto
    with k show ?thesis by (intro exI [of _ k]) (auto simp: eq intro: outcome_more)
  next
    case False
    with that os' n show ?thesis by (intro exI [of _ n]) (auto simp: eq ls)
  qed
  moreover have "send_returns i (os @ os') \<le> 1" for i
  proof (cases "\<exists>r. Did (SendReturned i r) \<in> set os'")
    case True
    then have "i = ?i" "send_returns i os' \<le> 1" using os' by (auto simp: send_returns_def)
    with none show ?thesis by simp
  next
    case False
    then have "send_returns i os' = 0" by (intro send_returns_none) blast
    with h show ?thesis by (simp add: send_facts_def)
  qed
  ultimately show ?thesis using h by (simp add: send_facts_def eq)
qed

text \<open>\<open>start\<close> puts the message in the map and changes no other entry.\<close>

lemma pump_entry:
  "pump s key limit now = Inr (s', as) \<Longrightarrow> map_of (s_out s) key = Some m \<Longrightarrow>
     \<exists>m'. s_out s' = AList.update key m' (s_out s) \<and> om_data m' = om_data m \<or> s' = s"
  by (auto simp: pump_def Let_def bind_res_Inr_iff split: if_splits)

lemma start_entry:
  assumes "start s dest i data now = Inr (s', as)"
  shows "\<exists>m. map_of (s_out s') = (map_of (s_out s))((dest, i) \<mapsto> m) \<and> om_data m = data"
proof -
  let ?m = "\<lparr>om_data = data, om_granted_to = min (unscheduled_bytes (s_cfg s)) (length data), om_next_send = 0,
    om_done_at = None, om_last_progress = now\<rparr>"
  let ?s = "s\<lparr>s_out := AList.update (dest, i) ?m (s_out s)\<rparr>"
  have "pump ?s (dest, i) (om_granted_to ?m) now = Inr (s', as)" using assms by (simp add: start_def Let_def)
  then obtain m' where "s_out s' = AList.update (dest, i) m' (s_out ?s) \<and> om_data m' = data \<or> s' = ?s"
    using pump_entry [of ?s "(dest, i)" _ now s' as ?m] by (auto simp: update_conv')
  then show ?thesis by (auto simp: update_conv')
qed

text \<open>The sender has come to the end of a message that is done.\<close>

lemma done_was_sent:
  assumes run: "run_steps process_step (process_new cfg boot) es = Inr (p, os)" and inv: "sender_inv (sender_of p)"
    and pr: "in_progress cfg boot p es (dest, i) data" and d: "is_done (sender_of p) dest i"
  shows "was_sent cfg boot es (dest, i) data"
proof (rule disjE [OF pr [unfolded in_progress_def]])
  assume "\<exists>m. map_of (s_out (sender_of p)) (dest, i) = Some m \<and> om_data m = data"
  then obtain m where m: "map_of (s_out (sender_of p)) (dest, i) = Some m" "om_data m = data" by blast
  then have "om_next_send m = length (om_data m)"
    using d sender_inv_om [OF inv m(1)] by (simp add: is_done_def om_ok_def)
  from was_sent_now [OF run m(1) this] m(2) show ?thesis by simp
qed

text \<open>The step of a call, by where it stands.\<close>

lemma call_runs_facts:
  assumes run: "run_steps process_step (process_new cfg boot) es = Inr (p, os)" and h: "send_facts cfg boot p es os"
    and inv: "sender_inv (sender_of p)"
    and n: "n < length (calls_of p)" and ids: "\<And>k. k < length (calls_of p) \<Longrightarrow> send_id (calls_of p ! k) = word_of_nat (Suc k)"
    and len: "length (calls_of p) < 2 ^ 64" and live: "\<And>i. calls_of p ! n \<noteq> Returned i"
    and step: "send_call_step (t_timeout (pr_transport p)) (t_state (pr_transport p)) (calls_of p ! n) now = Inr ((st, c), out)"
    and p': "p' = p\<lparr>pr_transport := (pr_transport p)\<lparr>t_state := st, t_calls := (calls_of p)[n := c]\<rparr>\<rparr>"
  shows "send_facts cfg boot p' (es @ [PCall n now]) (os @ map Did out)"
proof -
  let ?es = "es @ [PCall n now]" and ?i = "word_of_nat (Suc n) :: u64"
  obtain dest data t0 where sc: "sent_calls es ! n = (dest, data, t0)" by (cases "sent_calls es ! n")
  have cf: "call_fact cfg boot p es (dest, data, t0) (calls_of p ! n)" and tm: "t_timeout (pr_transport p) = send_timeout cfg"
    using h n sc by (auto simp: send_facts_def)
  have id: "send_id (calls_of p ! n) = ?i" using ids [OF n] .
  note facts = call_facts [OF run h n ids len live, of p' c now "map Did out", unfolded sc]
  have eq: "calls_of p' = (calls_of p)[n := c]" "t_timeout (pr_transport p') = t_timeout (pr_transport p)" "sender_of p' = st_sender st"
    by (simp_all add: p')
  show ?thesis
  proof (cases "calls_of p ! n")
    case (Called i d x t)
    then have i: "i = ?i" "d = dest" "x = data" "t = t0" using cf id by simp_all
    from step Called tm obtain s as where s: "start (sender_of p) dest ?i data t0 = Inr (s, as)" "st_sender st = s"
      "c = Dispatching ?i dest (t0 + send_timeout cfg) as" "out = []"
      by (auto simp: send_call_step_def bind_res_Inr_iff i simp del: of_nat_Suc)
    from start_entry [OF s(1)] obtain m where m: "map_of (s_out s) = (map_of (s_out (sender_of p)))((dest, ?i) \<mapsto> m)" "om_data m = data" by blast
    show ?thesis by (rule facts) (use m in \<open>auto simp: eq s in_progress_def simp del: of_nat_Suc\<close>)
  next
    case (Dispatching i d deadline as)
    then have i: "i = ?i" "d = dest" using cf id by simp_all
    from step Dispatching have d: "drain (t_state (pr_transport p)) as = (st, out)" and c: "c = Waiting i d deadline"
      by (auto simp: send_call_step_def split: prod.splits)
    note ds = drain_sender [OF d]
    have k: "keeps (sender_of p) (sender_of p')" by (simp add: eq ds)
    show ?thesis
      by (rule facts) (use call_fact_keeps [OF run k cf] ds in \<open>auto simp: eq c Dispatching simp del: of_nat_Suc\<close>)
  next
    case (Waiting i d deadline)
    then have i: "i = ?i" "d = dest" "deadline = t0 + send_timeout cfg" and pr: "in_progress cfg boot p es (dest, ?i) data"
      using cf id by simp_all
    consider (over) "is_done (sender_of p) dest ?i" "st = t_state (pr_transport p)" "c = Returned ?i" "out = [SendReturned ?i (Inr ?i)]"
      | (late) "\<not> is_done (sender_of p) dest ?i" "deadline \<le> now" "st_sender st = finish (sender_of p) dest ?i" "c = Returned ?i"
          "out = [SendReturned ?i (Inl (IoError TimedOut ''homa send_to timeout''))]"
      | (waits) "st = t_state (pr_transport p)" "c = Waiting i d deadline" "out = []"
      using step Waiting i by (auto simp: send_call_step_def simp del: of_nat_Suc split: if_splits)
    then show ?thesis
    proof cases
      case over
      have "was_sent cfg boot es (dest, ?i) data" by (rule done_was_sent [OF run inv pr over(1)])
      then have w: "was_sent cfg boot ?es (dest, ?i) data" by (rule was_sent_more)
      show ?thesis by (rule facts) (use w in \<open>auto simp: eq over simp del: of_nat_Suc\<close>)
    next
      case late
      show ?thesis
        by (rule facts) (use late(2) i(3) in \<open>auto simp: eq late finish_def delete_conv' simp del: of_nat_Suc\<close>)
    next
      case waits
      have k: "keeps (sender_of p) (sender_of p')" by (simp add: eq waits)
      show ?thesis by (rule facts) (use call_fact_keeps [OF run k cf] in \<open>auto simp: eq waits Waiting simp del: of_nat_Suc\<close>)
    qed
  qed (use live in blast)
qed

section \<open>Runs\<close>

text \<open>The facts hold while the orders of hash map iteration are permutations and the ids of the calls do not wrap around.\<close>

definition send_hist :: "transport_config \<Rightarrow> instant \<Rightarrow> process \<Rightarrow> process_event list \<Rightarrow> process_effect list \<Rightarrow> bool" where
  "send_hist cfg boot p es os \<longleftrightarrow> run_steps process_step (process_new cfg boot) es = Inr (p, os)
     \<and> (0 < packet_size cfg \<and> list_all process_orders es \<and> length (sent_calls es) < 2 ^ 64 \<longrightarrow> send_facts cfg boot p es os)"

lemma step_facts:
  assumes run: "run_steps process_step (process_new cfg boot) es = Inr (p, os)" and h: "send_facts cfg boot p es os"
    and ps: "0 < packet_size cfg" and ord: "list_all process_orders (es @ [e])" and len: "length (sent_calls es) < 2 ^ 64"
    and s: "process_step p e = Inr (p', os')"
  shows "send_facts cfg boot p' (es @ [e]) (os @ os')"
proof -
  have w: "well_formed cfg (pr_transport p)" using process_run_wf [OF ps _ run] ord by simp
  then have inv: "sender_inv (sender_of p)" by (simp add: well_formed_def state_wf_def sender_ok_def)
  show ?thesis
  proof (cases e)
    case (PIo ord' ords res now)
    then have "quiet p p' os'" using io_thread_quiet [OF inv, of ords ord' res now] ord s by simp
    then show ?thesis by (rule quiet_facts [OF run h]) (simp add: PIo)
  next
    case (PSend dest data now)
    show ?thesis using send_step_facts [OF run h s [unfolded PSend]] by (simp add: PSend)
  next
    case (PCall n now)
    then have "proceed_send p n now = (p', os')" using s by simp
    then show ?thesis
    proof (cases rule: proceed_send_cases)
      case quiet
      then show ?thesis by (rule quiet_facts [OF run h]) (simp add: PCall)
    next
      case (runs st c out)
      have "length (calls_of p) < 2 ^ 64" using h len by (simp add: send_facts_def)
      moreover have "send_id (calls_of p ! k) = word_of_nat (Suc k)" if "k < length (calls_of p)" for k
        using w that unfolding well_formed_def by blast
      ultimately show ?thesis using call_runs_facts [OF run h inv runs(1) _ _ runs(2,3,4)] by (simp add: PCall runs(5))
    qed
  next
    case (PPoll deadline now)
    obtain st out where r: "recv_poll (t_state (pr_transport p)) deadline now = (st, out)" by force
    then have st: "st_sender st = sender_of p" "\<And>i r. SendReturned i r \<notin> set out"
      by (auto simp: recv_poll_def split: list.splits if_splits)
    have "quiet p (fst (with_lock p (Inr (set_state st p, out)) (\<lambda>p. (p, [RecvPanics]))))
        (snd (with_lock p (Inr (set_state st p, out)) (\<lambda>p. (p, [RecvPanics]))))"
      by (rule with_lock_quiet) (auto simp: quiet_def st)
    then have "quiet p p' os'" using s r by (simp add: PPoll)
    then show ?thesis by (rule quiet_facts [OF run h]) (simp add: PPoll)
  next
    case PShutdown
    then have "quiet p p' os'" using s by (auto intro: quiet_refl)
    then show ?thesis by (rule quiet_facts [OF run h]) (simp add: PShutdown)
  qed
qed

interpretation so: history process_step "send_hist cfg boot" for cfg boot
proof
  fix p es os e p' os'
  assume h: "send_hist cfg boot p es os" and s: "process_step p e = Inr (p', os')"
  then have run: "run_steps process_step (process_new cfg boot) es = Inr (p, os)" by (simp add: send_hist_def)
  have "run_steps process_step (process_new cfg boot) (es @ [e]) = Inr (p', os @ os')"
    using run s by (simp add: run_steps_append)
  moreover have "send_facts cfg boot p' (es @ [e]) (os @ os')"
    if "0 < packet_size cfg" "list_all process_orders (es @ [e])" "length (sent_calls (es @ [e])) < 2 ^ 64"
    using that h by (intro step_facts [OF run _ that(1,2) _ s]) (simp_all add: send_hist_def)
  ultimately show "send_hist cfg boot p' (es @ [e]) (os @ os')" by (simp add: send_hist_def)
qed

lemma send_hist_new: "send_hist cfg boot (process_new cfg boot) [] []"
  by (simp add: send_hist_def send_facts_def process_new_def transport_new_def send_returns_def)

section \<open>Properties\<close>

text \<open>
  C3: What \<open>send_to\<close> returns, in any interleaving with the IO thread, other callers, panics and
  shutdown, for any datagrams: no call returns twice, and a call that returns does so under the id it
  was given. \<open>Ok\<close> means that the sender has held its message, for the destination and with the data of this
  call, with its position at the end (by \<open>done_means_sent\<close>, all its chunks are then sent, if no RESEND asks for
  what has not been sent); otherwise the result is \<open>TimedOut\<close>, never earlier
  than \<open>send_timeout\<close> after the call was made.
\<close>

theorem send_to_outcome:
  assumes "transport_bind os parse_addr addr cfg boot = Inr p0" "0 < packet_size cfg" "list_all process_orders es"
    "length (sent_calls es) < 2 ^ 64" "run_steps process_step p0 es = Inr (p, out)"
  shows "(\<forall>i. send_returns i out \<le> 1)
    \<and> (\<forall>i r. Did (SendReturned i r) \<in> set out \<longrightarrow>
        (\<exists>k dest data t0. k < length (sent_calls es) \<and> sent_calls es ! k = (dest, data, t0) \<and> i = word_of_nat (Suc k)
           \<and> (r = Inr i \<and> was_sent cfg boot es (dest, i) data
              \<or> r = Inl (IoError TimedOut ''homa send_to timeout'')
                  \<and> (\<exists>now. PCall k now \<in> set es \<and> t0 + send_timeout cfg \<le> now))))"
proof -
  have "p0 = process_new cfg boot" using assms(1) by (auto simp: transport_bind_def split: option.splits)
  with so.run_hist [OF send_hist_new] assms have f: "send_facts cfg boot p es out" by (fastforce simp: send_hist_def)
  have "\<exists>k dest data t0. k < length (sent_calls es) \<and> sent_calls es ! k = (dest, data, t0) \<and> i = word_of_nat (Suc k)
      \<and> (r = Inr i \<and> was_sent cfg boot es (dest, i) data
         \<or> r = Inl (IoError TimedOut ''homa send_to timeout'') \<and> (\<exists>now. PCall k now \<in> set es \<and> t0 + send_timeout cfg \<le> now))"
    if "Did (SendReturned i r) \<in> set out" for i r
  proof -
    from send_facts_returned [OF f that] obtain k where k: "k < length (sent_calls es)" "i = word_of_nat (Suc k)"
      "outcome cfg boot es k (sent_calls es ! k) i r" by blast
    obtain dest data t0 where sc: "sent_calls es ! k = (dest, data, t0)" by (cases "sent_calls es ! k")
    show ?thesis
      by (rule exI [of _ k], rule exI [of _ dest], rule exI [of _ data], rule exI [of _ t0]) (use k sc in \<open>cases r; simp del: of_nat_Suc\<close>)
  qed
  with f show ?thesis by (simp add: send_facts_def)
qed

text \<open>Two calls: the first message fits in the unscheduled bytes, the second waits for a GRANT that never comes.\<close>

definition example_sends :: "process_event list" where
  "example_sends = [PSend (localhost 9) [1, 2, 3] 0, PSend (localhost 9) [1, 2, 3, 4, 5, 6, 7, 8, 9] 2,
     PCall 0 0, PCall 1 3, PCall 1 3, PCall 0 4, PCall 0 5, PCall 1 5, PCall 1 (send_timeout small_config + 2)]"

theorem send_to_outcome_witness:
  "\<exists>p out. run_steps process_step (process_new small_config 0) example_sends = Inr (p, out)
    \<and> Did (SendReturned 1 (Inr 1)) \<in> set out \<and> was_sent small_config 0 example_sends (localhost 9, 1) [1, 2, 3]
    \<and> Did (SendReturned 2 (Inl (IoError TimedOut ''homa send_to timeout''))) \<in> set out \<and> send_returns 2 out \<le> 1"
proof -
  let ?run = "run_steps process_step (process_new small_config 0) example_sends"
  obtain p out where r: "?run = Inr (p, out)" using process_runs by blast
  have "Did (SendReturned 1 (Inr 1)) \<in> set (snd (projr ?run))
      \<and> Did (SendReturned 2 (Inl (IoError TimedOut ''homa send_to timeout''))) \<in> set (snd (projr ?run))" by code_simp
  then have out: "Did (SendReturned 1 (Inr 1)) \<in> set out" "Did (SendReturned 2 (Inl (IoError TimedOut ''homa send_to timeout''))) \<in> set out"
    by (simp_all add: r)
  have calls: "sent_calls example_sends = [(localhost 9, [1, 2, 3], 0), (localhost 9, [1, 2, 3, 4, 5, 6, 7, 8, 9], 2)]"
    by (simp add: example_sends_def)
  have "0 < packet_size small_config" "list_all process_orders example_sends" "length (sent_calls example_sends) < 2 ^ 64"
    by (simp_all add: example_sends_def calls)
  note t = send_to_outcome [OF example_bind this r]
  from conjunct2 [OF t, rule_format, OF out(1)] obtain k dest data t0 where
    k: "k < length (sent_calls example_sends)" "sent_calls example_sends ! k = (dest, data, t0)" "(1 :: u64) = word_of_nat (Suc k)"
      "was_sent small_config 0 example_sends (dest, 1) data"
    by auto
  from k(1,3) have "k = 0" by (cases k) (auto simp: calls less_Suc_eq)
  with k calls have "was_sent small_config 0 example_sends (localhost 9, 1) [1, 2, 3]" by simp
  with r out t show ?thesis by blast
qed

end
