(* ===== verification/Deployment.thy ===== *)
theory Deployment
  imports Lifecycle Network
begin

text \<open>
  The network of \<open>Network\<close> with the threads of \<open>Lifecycle\<close> on its hosts: any number of bound
  transports, each with its mutex, its shutdown flag and its IO thread, whose critical sections
  interleave on and across hosts in any way. The end-to-end contract of the transport holds of them too.
\<close>

section \<open>The system\<close>

record deployment =
  dp_hosts :: "sockaddr \<Rightarrow> process"
  dp_wire :: "(sockaddr \<times> datagram) list"
  dp_sent :: "(sockaddr \<times> sockaddr \<times> bytes) list"
  dp_got :: "(sockaddr \<times> sockaddr \<times> bytes) list"

definition deployment_new :: "transport_config \<Rightarrow> (sockaddr \<Rightarrow> instant) \<Rightarrow> deployment" where
  "deployment_new cfg boot = \<lparr>dp_hosts = (\<lambda>h. process_new cfg (boot h)), dp_wire = [], dp_sent = [], dp_got = []\<rparr>"

definition dp_after :: "deployment \<Rightarrow> sockaddr \<Rightarrow> process_event \<Rightarrow> process \<Rightarrow> process_effect list \<Rightarrow> deployment" where
  "dp_after d h e p out = d\<lparr>
     dp_hosts := (dp_hosts d)(h := p),
     dp_wire := dp_wire d @ map (Pair h) (puts (did out)),
     dp_sent := dp_sent d @ (case e of PSend dest data now \<Rightarrow> [(h, dest, data)] | _ \<Rightarrow> []),
     dp_got := dp_got d @ map (Pair h) (received (did out))\<rparr>"

text \<open>What may happen on host \<open>h\<close>, as in \<open>allowed\<close>; a host may be shut down at any time.\<close>

fun dp_allowed :: "(bytes \<Rightarrow> bool) \<Rightarrow> deployment \<Rightarrow> sockaddr \<Rightarrow> process_event \<Rightarrow> bool" where
  "dp_allowed ok d h (PIo ord ords res now) =
     (iter_order ord \<and> iter_orders ords
      \<and> (case res of Received buf src \<Rightarrow> (src, h, buf) \<in> set (dp_wire d) | _ \<Rightarrow> True))"
| "dp_allowed ok d h (PSend dest data now) = (ok data \<and> length (t_calls (pr_transport (dp_hosts d h))) < 2 ^ 64 - 1)"
| "dp_allowed ok d h (PCall k now) = True"
| "dp_allowed ok d h (PPoll deadline now) = True"
| "dp_allowed ok d h PShutdown = True"

inductive dp_reach :: "transport_config \<Rightarrow> (bytes \<Rightarrow> bool) \<Rightarrow> deployment \<Rightarrow> bool" for cfg ok where
  init: "dp_reach cfg ok (deployment_new cfg boot)"
| step: "dp_reach cfg ok d \<Longrightarrow> dp_allowed ok d h e \<Longrightarrow> process_step (dp_hosts d h) e = Inr (p, out) \<Longrightarrow>
     dp_reach cfg ok (dp_after d h e p out)"

section \<open>The network it stands for\<close>

definition network_of :: "deployment \<Rightarrow> network" where
  "network_of d = \<lparr>nw_hosts = (\<lambda>h. pr_transport (dp_hosts d h)), nw_wire = dp_wire d, nw_sent = dp_sent d, nw_got = dp_got d\<rparr>"

lemma network_of_simps [simp]:
  "nw_hosts (network_of d) h = pr_transport (dp_hosts d h)" "nw_wire (network_of d) = dp_wire d"
  "nw_sent (network_of d) = dp_sent d" "nw_got (network_of d) = dp_got d"
  by (simp_all add: network_of_def)

lemma lifts_allowed: "lifts e f \<Longrightarrow> dp_allowed ok d h e \<Longrightarrow> allowed ok (network_of d) h f"
  by (cases e) (auto split: recv_result.splits)

lemma lifts_after:
  "lifts e f \<Longrightarrow> network_of (dp_after d h e p out) = after (network_of d) h f (pr_transport p) (did out)"
  by (cases e) (auto simp: network_of_def dp_after_def after_def fun_upd_def)

lemma idle_after:
  assumes "process_step (dp_hosts d h) e = Inr (p, out)" "pr_transport p = pr_transport (dp_hosts d h)" "did out = []"
  shows "network_of (dp_after d h e p out) = network_of d"
proof (cases e)
  case (PSend dest data now)
  with assms(1) have "length (t_calls (pr_transport p)) = Suc (length (t_calls (pr_transport (dp_hosts d h))))"
    by (auto simp: Let_def)
  then show ?thesis using assms(2) by simp
qed (use assms in \<open>auto simp: network_of_def dp_after_def fun_eq_iff\<close>)

lemma deployment_sim:
  assumes "dp_allowed ok d h e" "process_step (dp_hosts d h) e = Inr (p, out)"
  shows "network_of (dp_after d h e p out) = network_of d \<or> net_step ok (network_of d) (network_of (dp_after d h e p out))"
  using process_step_simulated [OF assms(2)] unfolding simulated_def
proof (elim disjE exE conjE)
  fix f
  assume t: "transport_step (pr_transport (dp_hosts d h)) f = Inr (pr_transport (fst (p, out)), did (snd (p, out)))" and l: "lifts e f"
  have "net_step ok (network_of d) (after (network_of d) h f (pr_transport p) (did out))"
    by (rule net_step.host [OF lifts_allowed [OF l assms(1)]]) (use t in simp)
  then show ?thesis unfolding lifts_after [OF l] by blast
qed (use idle_after [OF assms(2)] in simp)

lemma deployment_reachable: "dp_reach cfg ok d \<Longrightarrow> reachable cfg ok (network_of d)"
proof (induction rule: dp_reach.induct)
  case (init boot)
  have "network_of (deployment_new cfg boot) = network_new cfg boot"
    by (simp add: network_of_def deployment_new_def network_new_def process_new_def)
  then show ?case by (metis reachable.init)
next
  case (step d h e p out)
  from deployment_sim [OF step.hyps(2,3)] step.IH show ?case by (metis reachable.step)
qed

section \<open>Where the transport does not fault, no thread panics\<close>

lemma bind_res_faultless: "(\<exists>r. bind_res x f = Inr r) \<Longrightarrow> \<exists>y. x = Inr y"
  by (cases x) auto

lemma io_thread_faultless:
  assumes p: "healthy p" and ok: "\<And>f. lifts (PIo ord ords res now) f \<Longrightarrow> \<exists>r. transport_step (pr_transport p) f = Inr r"
  shows "healthy (fst (io_thread p ord ords res now)) \<and> list_all calm (snd (io_thread p ord ords res now))"
proof (cases "pr_io p")
  case IoRecv
  show ?thesis
  proof (cases "\<exists>buf src pkt payload. res = Received buf src \<and> decode buf = Inr (pkt, payload)")
    case True
    then obtain buf src pkt payload where r: "res = Received buf src" "decode buf = Inr (pkt, payload)" by blast
    have "\<exists>r. transport_step (pr_transport p) (TIo ord ords res now now) = Inr r" by (rule ok) auto
    then obtain x where "io_packet ord (t_state (pr_transport p)) src pkt payload now = Inr x"
      by (auto simp: r io_iter_def dest!: bind_res_faultless)
    then show ?thesis using p by (auto simp: io_thread_def IoRecv r Let_def healthy_lock split: prod.splits)
        (auto simp: healthy_def)
  next
    case False
    with p show ?thesis by (auto simp: io_thread_def IoRecv Let_def healthy_def split: recv_result.splits sum.splits)
  qed
next
  case IoTimer
  let ?t = "pr_transport p"
  show ?thesis
  proof (cases "TICK_INTERVAL \<le> now - t_last_tick ?t")
    case True
    have "\<exists>r. transport_step ?t (TIo ord ords RecvTimeout now now) = Inr r" by (rule ok) auto
    then obtain x where "io_tick ords (t_state ?t) now = Inr x"
      using True by (auto simp: io_iter_def tick_if_due_def dest!: bind_res_faultless)
    then show ?thesis using p True by (auto simp: io_thread_def IoTimer Let_def healthy_lock split: prod.splits)
        (auto simp: healthy_def)
  qed (use p in \<open>simp add: io_thread_def IoTimer Let_def healthy_def\<close>)
qed (use p in \<open>simp_all add: io_thread_def Let_def healthy_def\<close>)

lemma proceed_send_faultless:
  assumes p: "healthy p" and ok: "\<exists>r. transport_step (pr_transport p) (TCall n now) = Inr r"
  shows "healthy (fst (proceed_send p n now)) \<and> list_all calm (snd (proceed_send p n now))"
proof (cases "length (t_calls (pr_transport p)) \<le> n \<or> (\<exists>i. t_calls (pr_transport p) ! n = Returned i)")
  case True
  with p show ?thesis by (auto simp: proceed_send_def Let_def)
next
  case False
  let ?t = "pr_transport p"
  obtain x where "send_call_step (t_timeout ?t) (t_state ?t) (t_calls ?t ! n) now = Inr x"
    using ok False by (auto dest!: bind_res_faultless)
  then show ?thesis using p False
    by (cases "t_calls ?t ! n") (auto simp: proceed_send_def Let_def healthy_lock split: prod.splits, auto simp: healthy_def)
qed

lemma process_step_faultless:
  assumes p: "healthy p" and ok: "\<And>f. lifts e f \<Longrightarrow> \<exists>r. transport_step (pr_transport p) f = Inr r"
    and s: "process_step p e = Inr (p', out)"
  shows "healthy p' \<and> list_all calm out"
proof (cases e)
  case (PIo ord ords res now)
  have "healthy (fst (io_thread p ord ords res now)) \<and> list_all calm (snd (io_thread p ord ords res now))"
    by (rule io_thread_faultless [OF p ok]) (simp add: PIo)
  with PIo s show ?thesis by simp
next
  case (PCall n now)
  have "healthy (fst (proceed_send p n now)) \<and> list_all calm (snd (proceed_send p n now))"
    by (rule proceed_send_faultless [OF p ok]) (simp add: PCall)
  with PCall s show ?thesis by simp
next
  case (PPoll deadline now)
  obtain st o1 where "recv_poll (t_state (pr_transport p)) deadline now = (st, o1)" by force
  then have "p' = set_state st p" "out = map Did o1" using s p PPoll by (simp_all add: healthy_lock)
  with p show ?thesis by (simp add: healthy_def)
qed (use p s in \<open>auto simp: healthy_def Let_def\<close>)

lemma deployment_healthy:
  assumes "dp_reach cfg ok d" "0 < packet_size cfg" "\<And>D. ok D \<Longrightarrow> safe_msg cfg D"
  shows "healthy (dp_hosts d h)"
  using assms(1)
proof (induction arbitrary: h rule: dp_reach.induct)
  case (init boot)
  show ?case by (simp add: deployment_new_def process_new_def healthy_def)
next
  case (step d k e p out)
  obtain L S where n: "net_al cfg L S (network_of d)"
    using reachable_al [OF deployment_reachable [OF step.hyps(1)] assms(2,3)] by blast
  have "\<exists>r. transport_step (pr_transport (dp_hosts d k)) f = Inr r" if "lifts e f" for f
    using host_step_al [OF n assms(3) lifts_allowed [OF that step.hyps(2)]] by (metis network_of_simps(1))
  from process_step_faultless [OF step.IH this step.hyps(3)] step.IH show ?case
    by (simp add: dp_after_def)
qed

section \<open>Playing a run\<close>

text \<open>The \<open>k\<close>-th datagram ever sent arrives, or a host does something else, without a datagram.\<close>

datatype dp_move = Arrives nat instant | Does sockaddr process_event

definition dp_act :: "(bytes \<Rightarrow> bool) \<Rightarrow> deployment \<Rightarrow> sockaddr \<Rightarrow> process_event \<Rightarrow> deployment option" where
  "dp_act ok d h e = (case process_step (dp_hosts d h) e of Inl f \<Rightarrow> None | Inr (p, out) \<Rightarrow> Some (dp_after d h e p out))"

abbreviation io_step :: "recv_result \<Rightarrow> instant \<Rightarrow> process_event" where
  "io_step res now \<equiv> PIo (\<lambda>ks. ks) (\<lambda>ks. ks, \<lambda>ks. ks, \<lambda>ks. ks) res now"

fun dp_play :: "(bytes \<Rightarrow> bool) \<Rightarrow> deployment \<Rightarrow> dp_move \<Rightarrow> deployment option" where
  "dp_play ok d (Arrives k now) =
     (if k < length (dp_wire d)
      then case dp_wire d ! k of (a, h, buf) \<Rightarrow> dp_act ok d h (io_step (Received buf a) now)
      else None)"
| "dp_play ok d (Does h (PIo ord ords res now)) = dp_act ok d h (io_step RecvTimeout now)"
| "dp_play ok d (Does h (PSend dest data now)) =
     (if ok data \<and> length (t_calls (pr_transport (dp_hosts d h))) < 2 ^ 64 - 1 then dp_act ok d h (PSend dest data now) else None)"
| "dp_play ok d (Does h (PCall k now)) = dp_act ok d h (PCall k now)"
| "dp_play ok d (Does h (PPoll deadline now)) = dp_act ok d h (PPoll deadline now)"
| "dp_play ok d (Does h PShutdown) = dp_act ok d h PShutdown"

fun dp_plays :: "(bytes \<Rightarrow> bool) \<Rightarrow> deployment \<Rightarrow> dp_move list \<Rightarrow> deployment option" where
  "dp_plays ok d [] = Some d"
| "dp_plays ok d (m # ms) = (case dp_play ok d m of None \<Rightarrow> None | Some d' \<Rightarrow> dp_plays ok d' ms)"

lemma dp_act_reach: "dp_act ok d h e = Some d' \<Longrightarrow> dp_allowed ok d h e \<Longrightarrow> dp_reach cfg ok d \<Longrightarrow> dp_reach cfg ok d'"
  by (auto simp: dp_act_def intro: dp_reach.step split: sum.splits)

lemma dp_play_reach: "dp_play ok d m = Some d' \<Longrightarrow> dp_reach cfg ok d \<Longrightarrow> dp_reach cfg ok d'"
proof (induction ok d m rule: dp_play.induct)
  case (1 ok d k now)
  obtain a h buf where w: "dp_wire d ! k = (a, h, buf)" by (cases "dp_wire d ! k") auto
  with 1 have k: "k < length (dp_wire d)" and act: "dp_act ok d h (io_step (Received buf a) now) = Some d'"
    by (auto split: if_splits)
  have "(a, h, buf) \<in> set (dp_wire d)" using k w by (metis nth_mem)
  then show ?case using 1 by (intro dp_act_reach [OF act]) (simp_all add: iter_orders_def)
qed (auto simp: iter_orders_def split: if_splits intro: dp_act_reach)

lemma dp_plays_reach: "dp_plays ok d ms = Some d' \<Longrightarrow> dp_reach cfg ok d \<Longrightarrow> dp_reach cfg ok d'"
proof (induction ms arbitrary: d)
  case (Cons m ms)
  then obtain d1 where "dp_play ok d m = Some d1" "dp_plays ok d1 ms = Some d'" by (auto split: option.splits)
  with Cons dp_play_reach show ?case by blast
qed simp

text \<open>
  An example: two chunks arrive in the wrong order and one of them twice, between steps of a
  waiting \<open>recv\<close>; the sending host is shut down before the message is received.
\<close>

definition example_deployed :: "dp_move list" where
  "example_deployed =
     (let a = localhost 1; b = localhost 2; i = Does b (io_step RecvTimeout 1)
      in [Does b (PPoll 9 0), Does a (PSend b [1, 2, 3, 4, 5, 6, 7] 0), i, Does a (PCall 0 0), Does a (PCall 0 0),
          Arrives 1 1, i, i, Does b (PPoll 9 1), Arrives 1 1, i, i, Does a PShutdown, Arrives 0 1,
          Does a (PCall 0 1), Does b (PPoll 9 2)])"

lemma example_deployed_run:
  "map_option (\<lambda>d. (dp_got d, pr_shutdown (dp_hosts d (localhost 1))))
     (dp_plays (safe_msg aligned_config) (deployment_new aligned_config (\<lambda>h. 0)) example_deployed)
     = Some ([(localhost 2, localhost 1, [1, 2, 3, 4, 5, 6, 7])], True)"
  by code_simp

section \<open>Properties\<close>

text \<open>
  C1: End to end, with threads: let all hosts be bound with the same configuration, of a positive packet size, and
  let every message handed to \<open>send_to\<close> be shorter than 4 GiB and either fit the unscheduled window or
  meet windows that are multiples of the packet size. Then in any interleaving of the
  critical sections of the IO threads and of all calls of \<open>send_to\<close> and \<open>recv\<close>, with hosts shut down at any
  time, over a network that loses, repeats, delays and reorders but does not forge, whatever \<open>recv\<close> returns is a
  message that was handed to \<open>send_to\<close> on its source for that
  host; no thread ever panics, and no mutex is ever poisoned or kept. (Hosts of different configurations
  do not agree on where chunks begin, and for them this is not so.)
\<close>

theorem threads_end_to_end:
  assumes "dp_reach cfg ok d" "0 < packet_size cfg" "\<And>D. ok D \<Longrightarrow> safe_msg cfg D"
  shows "(\<forall>(h, src, data) \<in> set (dp_got d). (src, h, data) \<in> set (dp_sent d))
    \<and> (\<forall>h. pr_mutex (dp_hosts d h) = Unlocked \<and> pr_io (dp_hosts d h) \<noteq> IoPanicked \<and> pr_panicked (dp_hosts d h) = [])"
proof -
  obtain L S where "net_al cfg L S (network_of d)"
    using reachable_al [OF deployment_reachable [OF assms(1)] assms(2,3)] by blast
  then show ?thesis using deployment_healthy [OF assms] by (simp add: net_al_def healthy_def)
qed

theorem threads_end_to_end_witness:
  "\<exists>d. dp_reach aligned_config (safe_msg aligned_config) d \<and> dp_got d = [(localhost 2, localhost 1, [1, 2, 3, 4, 5, 6, 7])]
    \<and> (\<forall>(h, src, data) \<in> set (dp_got d). (src, h, data) \<in> set (dp_sent d))
    \<and> pr_mutex (dp_hosts d (localhost 1)) = Unlocked"
proof -
  let ?cfg = aligned_config and ?ok = "safe_msg aligned_config"
  obtain d where d: "dp_plays ?ok (deployment_new ?cfg (\<lambda>h. 0)) example_deployed = Some d"
    "dp_got d = [(localhost 2, localhost 1, [1, 2, 3, 4, 5, 6, 7])]"
    using example_deployed_run by auto
  have r: "dp_reach ?cfg ?ok d" by (rule dp_plays_reach [OF d(1) dp_reach.init])
  have ps: "0 < packet_size ?cfg" by (simp add: aligned_config_def)
  have safe: "\<And>D. ?ok D \<Longrightarrow> safe_msg ?cfg D" .
  from threads_end_to_end [OF r ps safe] r d(2) show ?thesis by blast
qed

end
