(* ===== verification/CallDeployment.thy ===== *)
theory CallDeployment
  imports Deployment RpcThreads RemoteCalls
begin

text \<open>
  Remote calls with all their threads: an \<open>RpcServer\<close> with its loop and workers, and any number of
  \<open>RpcClient\<close>s with their dispatchers and calls, each dropped at any time, over what bound transports with their
  threads deliver. The exactness of remote calls holds of them too.
\<close>

section \<open>What the transports deliver\<close>

definition deployment_gives :: "transport_config \<Rightarrow> message set \<Rightarrow> message \<Rightarrow> bool" where
  "deployment_gives cfg W m \<longleftrightarrow>
     (\<exists>d. dp_reach cfg (\<lambda>D. D \<in> (\<lambda>(a, d, x). x) ` W) d \<and> set (dp_sent d) \<subseteq> W \<and> m \<in> set (dp_got d))"

lemma deployment_gives_transport: "deployment_gives cfg W m \<Longrightarrow> transport_gives cfg W m"
  unfolding deployment_gives_def transport_gives_def
  by (metis deployment_reachable network_of_simps(3,4))

interpretation dm: messaging "deployment_gives default_config" rpc_fits
  by unfold_locales (rule tm.given_sent [OF _ deployment_gives_transport])

section \<open>The system\<close>

record call_system =
  cs_server :: rpc_server
  cs_client :: "sockaddr \<Rightarrow> rpc_client"
  cs_sent :: "message list"
  cs_served :: "server_effect list"
  cs_events :: "sockaddr \<Rightarrow> rpc_client_event list"
  cs_out :: "sockaddr \<Rightarrow> client_effect list"

text \<open>The threads as \<open>spawn\<close> and \<open>new\<close> start them.\<close>

definition call_system_new :: call_system where
  "call_system_new = \<lparr>cs_server = \<lparr>rs_server = server_new, rs_shutdown = False, rs_loop = LoopHead\<rparr>,
     cs_client = (\<lambda>c. \<lparr>rc_client = client_new, rc_shutdown = False, rc_transport_shutdown = False, rc_dispatcher = DispHead\<rparr>),
     cs_sent = [], cs_served = [], cs_events = (\<lambda>c. []), cs_out = (\<lambda>c. [])\<rparr>"

definition after_server :: "sockaddr \<Rightarrow> call_system \<Rightarrow> rpc_server \<Rightarrow> server_effect list \<Rightarrow> call_system" where
  "after_server s y sv os = y\<lparr>cs_server := sv, cs_sent := cs_sent y @ map (Pair s) (server_sends os), cs_served := cs_served y @ os\<rparr>"

definition after_client :: "sockaddr \<Rightarrow> call_system \<Rightarrow> rpc_client_event \<Rightarrow> rpc_client \<Rightarrow> client_effect list \<Rightarrow> call_system" where
  "after_client c y e cl os = y\<lparr>cs_client := (cs_client y)(c := cl), cs_sent := cs_sent y @ map (Pair c) (client_sends os),
     cs_events := (cs_events y)(c := cs_events y c @ [e]), cs_out := (cs_out y)(c := cs_out y c @ os)\<rparr>"

text \<open>
  A loop gets a message only if the transports give it; the handler computes or panics; the clients call
  this server, each fewer than \<open>2 ^ 64\<close> times.
\<close>

fun from_transport :: "(message \<Rightarrow> bool) \<Rightarrow> sockaddr \<Rightarrow> rpc_recv \<Rightarrow> bool" where
  "from_transport given h (Message src frame) = given (h, src, frame)"
| "from_transport given h NoMessage = True"
| "from_transport given h RecvPanicked = True"

fun server_thread_may :: "(message set \<Rightarrow> message \<Rightarrow> bool) \<Rightarrow> (bytes \<Rightarrow> bytes) \<Rightarrow> sockaddr \<Rightarrow> call_system \<Rightarrow> rpc_server_event \<Rightarrow> bool" where
  "server_thread_may give handler s y (RsLoop r) = from_transport (give (set (cs_sent y))) s r"
| "server_thread_may give handler s y (RsWorker k r) =
     (k < length (sv_workers (rs_server (cs_server y))) \<longrightarrow> runs_handler handler (sv_workers (rs_server (cs_server y)) ! k) r)"
| "server_thread_may give handler s y RsDrop = True"

fun client_thread_may :: "(message set \<Rightarrow> message \<Rightarrow> bool) \<Rightarrow> sockaddr \<Rightarrow> call_system \<Rightarrow> sockaddr \<Rightarrow> rpc_client_event \<Rightarrow> bool" where
  "client_thread_may give s y c (RcDispatcher r) = from_transport (give (set (cs_sent y))) c r"
| "client_thread_may give s y c (RcCall server payload mx) = (server = s \<and> length (cl_calls (rc_client (cs_client y c))) < 2 ^ 64 - 1)"
| "client_thread_may give s y c (RcProceed k sent) = True"
| "client_thread_may give s y c RcDrop = True"

inductive cs_reach :: "(message set \<Rightarrow> message \<Rightarrow> bool) \<Rightarrow> (bytes \<Rightarrow> bytes) \<Rightarrow> sockaddr \<Rightarrow> call_system \<Rightarrow> bool"
  for give handler s where
  init: "cs_reach give handler s call_system_new"
| server: "cs_reach give handler s y \<Longrightarrow> server_thread_may give handler s y e \<Longrightarrow>
     rpc_server_step (cs_server y) e = Inr (sv, os) \<Longrightarrow> cs_reach give handler s (after_server s y sv os)"
| client: "cs_reach give handler s y \<Longrightarrow> c \<noteq> s \<Longrightarrow> client_thread_may give s y c e \<Longrightarrow>
     rpc_client_step (cs_client y c) e = Inr (cl, os) \<Longrightarrow> cs_reach give handler s (after_client c y e cl os)"

section \<open>The remote calls it stands for\<close>

definition represents :: "call_system \<Rightarrow> rpc_net \<Rightarrow> bool" where
  "represents y n \<longleftrightarrow> rn_server n = rs_server (cs_server y) \<and> (\<forall>c. rn_client n c = rc_client (cs_client y c))
     \<and> rn_sent n = cs_sent y \<and> rn_served n = cs_served y \<and> rn_out n = cs_out y
     \<and> (\<forall>c server payload mx. CCall server payload mx \<in> set (rn_events n c) \<longrightarrow> RcCall server payload mx \<in> set (cs_events y c))
     \<and> (\<forall>c. hand_ok (cs_client y c))"

lemma represents_new: "represents call_system_new rpc_net_new"
  by (simp add: represents_def call_system_new_def rpc_net_new_def hand_ok_def) (simp add: client_new_def)

lemma represents_server:
  assumes r: "represents y n" and may: "server_thread_may give handler s y e" and st: "rpc_server_step (cs_server y) e = Inr (sv, os)"
  shows "\<exists>n'. represents (after_server s y sv os) n' \<and> (n' = n \<or> rpc_step give handler s n n')"
  using rpc_server_one [OF st]
proof (elim disjE exE conjE)
  assume "rs_server sv = rs_server (cs_server y)" "os = []"
  with r show ?thesis by (intro exI [of _ n]) (simp add: represents_def after_server_def)
next
  fix f
  assume f: "server_step (rs_server (cs_server y)) f = Inr (rs_server sv, os)" "serves e f"
    "\<forall>k r. f = SWorker k r \<longrightarrow> k < length (sv_workers (rs_server (cs_server y)))"
  have "server_may give handler s n f" using may f(2,3) r by (cases e; cases f) (auto simp: represents_def)
  moreover have "server_step (rn_server n) f = Inr (rs_server sv, os)" using f(1) r by (simp add: represents_def)
  ultimately have "rpc_step give handler s n (server_after s n f (rs_server sv) os)" by (rule rpc_step.server)
  moreover have "represents (after_server s y sv os) (server_after s n f (rs_server sv) os)"
    using r by (simp add: represents_def after_server_def server_after_def)
  ultimately show ?thesis by blast
qed

lemma represents_client:
  assumes r: "represents y n" and c: "c \<noteq> s" and may: "client_thread_may give s y c e"
    and st: "rpc_client_step (cs_client y c) e = Inr (cl, os)"
  shows "\<exists>n'. represents (after_client c y e cl os) n' \<and> (n' = n \<or> rpc_step give handler s n n')"
proof -
  have h: "hand_ok (cs_client y c)" using r by (simp add: represents_def)
  note h' = rpc_client_hand [OF h st]
  show ?thesis using rpc_client_one [OF h st]
  proof (elim disjE exE conjE)
    assume "rc_client cl = rc_client (cs_client y c)" "os = []"
    with r h' show ?thesis by (intro exI [of _ n]) (auto simp: represents_def after_client_def)
  next
    fix f
    assume f: "client_step (rc_client (cs_client y c)) f = Inr (rc_client cl, os)" "calls e f"
    have "client_may give s n c f" using may f(2) r by (cases e; cases f) (auto simp: represents_def)
    moreover have "client_step (rn_client n c) f = Inr (rc_client cl, os)" using f(1) r by (simp add: represents_def)
    ultimately have "rpc_step give handler s n (client_after c n f (rc_client cl) os)" by (rule rpc_step.client [OF c])
    moreover have "f = CCall server payload mx \<longrightarrow> e = RcCall server payload mx" for server payload mx
      using f(2) by (cases e) auto
    then have "represents (after_client c y e cl os) (client_after c n f (rc_client cl) os)"
      using r h' by (auto simp: represents_def after_client_def client_after_def)
    ultimately show ?thesis by blast
  qed
qed

lemma call_system_represented: "cs_reach give handler s y \<Longrightarrow> \<exists>n. rpc_reach give handler s n \<and> represents y n"
proof (induction rule: cs_reach.induct)
  case init
  show ?case using represents_new rpc_reach.init by blast
next
  case (server y e sv os)
  then show ?case using represents_server [OF _ server.hyps(2,3)] by (metis rpc_reach.step)
next
  case (client y c e cl os)
  then show ?case using represents_client [OF _ client.hyps(2,3,4)] by (metis rpc_reach.step)
qed

section \<open>Playing a run\<close>

datatype cs_move = ServerDoes rpc_server_event | ClientDoes sockaddr rpc_client_event

fun cs_play :: "(message set \<Rightarrow> message \<Rightarrow> bool) \<Rightarrow> (bytes \<Rightarrow> bytes) \<Rightarrow> sockaddr \<Rightarrow> call_system \<Rightarrow> cs_move \<Rightarrow> call_system option" where
  "cs_play give handler s y (ServerDoes e) =
     (if server_thread_may give handler s y e
      then case rpc_server_step (cs_server y) e of Inl f \<Rightarrow> None | Inr (sv, os) \<Rightarrow> Some (after_server s y sv os) else None)"
| "cs_play give handler s y (ClientDoes c e) =
     (if c \<noteq> s \<and> client_thread_may give s y c e
      then case rpc_client_step (cs_client y c) e of Inl f \<Rightarrow> None | Inr (cl, os) \<Rightarrow> Some (after_client c y e cl os) else None)"

fun cs_plays :: "(message set \<Rightarrow> message \<Rightarrow> bool) \<Rightarrow> (bytes \<Rightarrow> bytes) \<Rightarrow> sockaddr \<Rightarrow> call_system \<Rightarrow> cs_move list \<Rightarrow> call_system option" where
  "cs_plays give handler s y [] = Some y"
| "cs_plays give handler s y (m # ms) =
     (case cs_play give handler s y m of None \<Rightarrow> None | Some y' \<Rightarrow> cs_plays give handler s y' ms)"

lemma cs_plays_reach: "cs_plays give handler s y ms = Some y' \<Longrightarrow> cs_reach give handler s y \<Longrightarrow> cs_reach give handler s y'"
proof (induction ms arbitrary: y)
  case (Cons m ms)
  then obtain y1 where y1: "cs_play give handler s y m = Some y1" "cs_plays give handler s y1 ms = Some y'"
    by (auto split: option.splits)
  then have "cs_reach give handler s y1" using Cons.prems(2)
    by (cases m) (auto intro: cs_reach.intros split: if_splits sum.splits)
  with y1(2) show ?case by (rule Cons.IH)
qed simp

text \<open>A network that delivers more allows more.\<close>

lemma from_transport_mono: "from_transport given h r \<Longrightarrow> (\<And>m. given m \<Longrightarrow> given' m) \<Longrightarrow> from_transport given' h r"
  by (cases r) auto

lemma cs_reach_mono:
  assumes "\<And>W m. give W m \<Longrightarrow> give' W m"
  shows "cs_reach give handler s y \<Longrightarrow> cs_reach give' handler s y"
proof (induction rule: cs_reach.induct)
  case (server y e sv os)
  have "server_thread_may give' handler s y e" using server.hyps(2) assms
    by (cases e) (auto intro: from_transport_mono)
  with server show ?case by (blast intro: cs_reach.server)
next
  case (client y c e cl os)
  have "client_thread_may give' s y c e" using client.hyps(3) assms
    by (cases e) (auto intro: from_transport_mono)
  with client show ?case by (blast intro: cs_reach.client)
qed (rule cs_reach.init)

lemma dp_reach_mono: "dp_reach cfg ok d \<Longrightarrow> (\<And>D. ok D \<Longrightarrow> ok' D) \<Longrightarrow> dp_reach cfg ok' d"
proof (induction rule: dp_reach.induct)
  case (step d h e p out)
  have "dp_allowed ok' d h e" using step.hyps(2) step.prems by (cases e) auto
  with step show ?case by (blast intro: dp_reach.step)
qed (rule dp_reach.init)

section \<open>An example\<close>

text \<open>The transports carry a request of 9 bytes, and the response of 10.\<close>

abbreviation one_deployed :: "sockaddr \<Rightarrow> sockaddr \<Rightarrow> bytes \<Rightarrow> dp_move list" where
  "one_deployed a h x \<equiv> [Does a (PSend h x 0), Does a (PCall 0 0), Does a (PCall 0 0), Does h (io_step RecvTimeout 0),
     Arrives 0 1, Does h (PPoll 9 2)]"

lemma one_deployed_given:
  assumes "map_option (\<lambda>d. (dp_sent d, dp_got d)) (dp_plays (\<lambda>D. D = x) (deployment_new default_config (\<lambda>h. 0)) (one_deployed a h x))
    = Some ([(a, h, x)], [(h, a, x)])" "(a, h, x) \<in> W"
  shows "deployment_gives default_config W (h, a, x)"
proof -
  obtain d where d: "dp_plays (\<lambda>D. D = x) (deployment_new default_config (\<lambda>h. 0)) (one_deployed a h x) = Some d"
    "dp_sent d = [(a, h, x)]" "dp_got d = [(h, a, x)]" using assms(1) by auto
  have "dp_reach default_config (\<lambda>D. D = x) d" by (rule dp_plays_reach [OF d(1) dp_reach.init])
  then have "dp_reach default_config (\<lambda>D. D \<in> (\<lambda>(a, d, x). x) ` W) d"
    by (rule dp_reach_mono) (use assms(2) in force)
  with d assms(2) show ?thesis by (auto simp: deployment_gives_def)
qed

lemma one_deployed_runs:
  "map_option (\<lambda>d. (dp_sent d, dp_got d)) (dp_plays (\<lambda>D. D = encode_frame 1 [7]) (deployment_new default_config (\<lambda>h. 0))
     (one_deployed (localhost 5) (localhost 1) (encode_frame 1 [7])))
   = Some ([(localhost 5, localhost 1, encode_frame 1 [7])], [(localhost 1, localhost 5, encode_frame 1 [7])])"
  "map_option (\<lambda>d. (dp_sent d, dp_got d)) (dp_plays (\<lambda>D. D = encode_frame 1 [7, 7]) (deployment_new default_config (\<lambda>h. 0))
     (one_deployed (localhost 1) (localhost 5) (encode_frame 1 [7, 7])))
   = Some ([(localhost 1, localhost 5, encode_frame 1 [7, 7])], [(localhost 5, localhost 1, encode_frame 1 [7, 7])])"
  by code_simp+

lemma example_gives_deployed: "example_gives W m \<Longrightarrow> deployment_gives default_config W m"
  using one_deployed_given [OF one_deployed_runs(1)] one_deployed_given [OF one_deployed_runs(2)]
  by (auto simp: example_gives_def example_request_def example_response_def)

text \<open>The request arrives twice and the response once; then both ends are dropped.\<close>

definition example_threads :: "cs_move list" where
  "example_threads =
     (let c = localhost 5; s = localhost 1; request = ServerDoes (RsLoop (Message c (encode_frame 1 [7])));
          head = ServerDoes (RsLoop NoMessage); d = (\<lambda>r. ClientDoes c (RcDispatcher r)); worker = (\<lambda>r. ServerDoes (RsWorker 0 (Some r)))
      in [head, d NoMessage, ClientDoes c (RcCall s [7] 2), ClientDoes c (RcProceed 0 Sent), ClientDoes c (RcProceed 0 Sent),
          request, worker [7, 7], head, request, worker [], ServerDoes RsDrop, worker [],
          d (Message s (encode_frame 1 [7, 7])), d NoMessage, ClientDoes c (RcProceed 0 Sent), ClientDoes c RcDrop, d NoMessage])"

lemma example_threads_run:
  "map_option (\<lambda>y. (map (\<lambda>(a, d, x). length x) (cs_sent y), cs_out y (localhost 5)))
     (cs_plays example_gives (\<lambda>x. x @ x) (localhost 1) call_system_new example_threads)
   = Some ([9, 10], [CallSend 0 (localhost 1) (encode_frame 1 [7]), CallReturned 0 1 (Inr [7, 7])])"
  by code_simp

section \<open>Properties\<close>

text \<open>
  C2: Remote calls with all their threads: over transports that are all bound with the default configuration, with
  their IO threads, mutexes and
  shutdowns, in every interleaving of the server's loop and workers, the clients' dispatchers and calls,
  and drops of either, whatever the network loses, repeats, delays or reorders: provided that no frame ever sent, of a
  request or of a response, is longer than the unscheduled window of 10240 bytes (longer ones
  can be corrupted, as the default windows are not multiples of the packet size), a body that the \<open>k\<close>-th call of a
  client returns is what \<open>handler\<close> computed for the payload of that call, and the handler runs at most once per
  client and id.
\<close>

theorem threads_call_exact:
  assumes "cs_reach (deployment_gives default_config) handler s y"
    "\<forall>(a, d, x) \<in> set (cs_sent y). length x \<le> 10240"
    "c \<noteq> s" "CallReturned k i (Inr body) \<in> set (cs_out y c)"
  shows "(\<exists>payload mx. RcCall s payload mx \<in> set (cs_events y c)
      \<and> rc_frame (cl_calls (rc_client (cs_client y c)) ! k) = encode_frame i payload
      \<and> body = handler payload \<and> Invoked c i payload body \<in> set (cs_served y))
    \<and> i = word_of_nat (Suc k) \<and> distinct (invoked (cs_served y))"
proof -
  obtain n where n: "rpc_reach (deployment_gives default_config) handler s n" "represents y n"
    using call_system_represented [OF assms(1)] by blast
  note eqs = n(2) [unfolded represents_def]
  have "\<forall>(a, d, x) \<in> set (rn_sent n). rpc_fits x" using assms(2) eqs by (simp add: rpc_fits_def)
  note ok = dm.rpc_invariant [OF n(1) this]
  have "CallReturned k i (Inr body) \<in> set (rn_out n c)" using assms(4) eqs by simp
  from response_computed [OF ok assms(3) this] obtain payload where
    "i = word_of_nat (Suc k)" "CCall s payload (rc_max (cl_calls (rn_client n c) ! k)) \<in> set (rn_events n c)"
    "rc_frame (cl_calls (rn_client n c) ! k) = encode_frame i payload"
    "body = handler payload" "Invoked c i payload body \<in> set (rn_served n)" "distinct (invoked (rn_served n))" by metis
  with eqs show ?thesis by metis
qed

theorem threads_call_exact_witness:
  "let c = localhost 5; s = localhost 1
   in \<exists>y. cs_reach (deployment_gives default_config) (\<lambda>x. x @ x) s y \<and> CallReturned 0 1 (Inr [7, 7]) \<in> set (cs_out y c)
     \<and> (\<exists>payload mx. RcCall s payload mx \<in> set (cs_events y c) \<and> [7, 7] = payload @ payload
         \<and> Invoked c 1 payload [7, 7] \<in> set (cs_served y))"
proof -
  let ?c = "localhost 5" and ?s = "localhost 1"
  obtain y where p: "cs_plays example_gives (\<lambda>x. x @ x) ?s call_system_new example_threads = Some y"
    and l: "map (\<lambda>(a, d, x). length x) (cs_sent y) = [9, 10]" and r: "CallReturned 0 1 (Inr [7, 7]) \<in> set (cs_out y ?c)"
    using example_threads_run by auto
  have g: "cs_reach (deployment_gives default_config) (\<lambda>x. x @ x) ?s y"
    by (rule cs_reach_mono [OF example_gives_deployed cs_plays_reach [OF p cs_reach.init]])
  have "length x \<in> set [9, 10]" if "(a, d, x) \<in> set (cs_sent y)" for a d x
    using that unfolding l [symmetric] by force
  then have fit: "\<forall>(a, d, x) \<in> set (cs_sent y). length x \<le> 10240" by fastforce
  have "?c \<noteq> ?s" by (simp add: localhost_def)
  from threads_call_exact [OF g fit this r] g r show ?thesis unfolding Let_def by blast
qed

end
