(* ===== verification/Completion.thy ===== *)
theory Completion
  imports Workload Threads
begin

text \<open>
  The load of the benchmark comes to its end: its threads leave their loops after a bounded number of steps, in
  any interleaving, and when no call fails all operations are done and measured by then.
\<close>

section \<open>How much is left\<close>

text \<open>
  An operation takes three steps, and every thread one more to see that there is none left.
\<close>

fun steps_left :: "bench_worker \<Rightarrow> nat" where
  "steps_left Fetching = 1"
| "steps_left (Calling n) = 3"
| "steps_left (Recording n el) = 2"
| "steps_left Stopped = 0"
| "steps_left Panicked = 0"

definition thread_done :: "bench \<Rightarrow> nat \<Rightarrow> bool" where
  "thread_done b w \<longleftrightarrow> steps_left (bn_workers b ! w) = 0"

definition bench_left :: "bench \<Rightarrow> nat" where
  "bench_left b = 3 * (550 - unat (bn_counter b)) + total steps_left b"

definition thread_left :: "nat \<Rightarrow> bench \<Rightarrow> nat" where
  "thread_left w b = (if thread_done b w then 0 else bench_left b)"

definition bench_reached :: "bench \<Rightarrow> bool" where
  "bench_reached b \<longleftrightarrow> (\<exists>es os. bench_hist b es os)"

lemma bench_reached_workers: "bench_reached b \<Longrightarrow> length (bn_workers b) = 8"
  by (auto simp: bench_reached_def bench_hist_def)

lemma bench_reached_counter: "bench_reached b \<Longrightarrow> unat (bn_counter b + 1) = Suc (unat (bn_counter b))"
proof -
  assume "bench_reached b"
  then have "unat (bn_counter b) \<le> 550 + total stops b" "length (bn_workers b) = 8"
    by (auto simp: bench_reached_def bench_hist_def)
  then have "unat (bn_counter b) \<le> 558" using stops_bound [of "bn_workers b"] by simp
  then show ?thesis by (simp add: unat_word_ariths)
qed

lemma bench_left_pos: "w < length (bn_workers b) \<Longrightarrow> \<not> thread_done b w \<Longrightarrow> 0 < bench_left b"
proof -
  assume "w < length (bn_workers b)" "\<not> thread_done b w"
  then have "steps_left (bn_workers b ! w) \<in> set (map steps_left (bn_workers b))" "steps_left (bn_workers b ! w) \<noteq> 0"
    by (auto simp: thread_done_def)
  then have "total steps_left b \<noteq> 0" by (metis sum_list_eq_0_iff)
  then show ?thesis unfolding bench_left_def by linarith
qed

text \<open>A step of a thread that is in its loop leaves less to do; one of a finished thread changes nothing.\<close>

lemma bench_work_left:
  assumes r: "bench_reached b" and w: "w < length (bn_workers b)" and s: "bench_work b w res = (b', os)"
  shows "thread_done b w \<Longrightarrow> b' = b" "\<not> thread_done b w \<Longrightarrow> bench_left b' < bench_left b"
    "v \<noteq> w \<Longrightarrow> bn_workers b' ! v = bn_workers b ! v"
proof -
  note sum = sum_list_upd [OF w, of steps_left]
  have c: "unat (bn_counter b + 1) = Suc (unat (bn_counter b))" by (rule bench_reached_counter [OF r])
  have le: "TOTAL_OPS \<le> bn_counter b \<longleftrightarrow> 550 \<le> unat (bn_counter b)" by (simp add: TOTAL_OPS_def word_le_nat_alt)
  show "thread_done b w \<Longrightarrow> b' = b" "v \<noteq> w \<Longrightarrow> bn_workers b' ! v = bn_workers b ! v"
    using s by (auto simp: bench_work_def thread_done_def Let_def split: bench_worker.splits)
  assume "\<not> thread_done b w"
  then show "bench_left b' < bench_left b"
  proof (cases "bn_workers b ! w")
    case Fetching
    with s c le sum [of Stopped] sum [of "Calling (bn_counter b)"] show ?thesis
      by (auto simp: bench_work_def bench_left_def Let_def simp del: sum_list_eq_0_iff)
  next
    case (Calling n)
    with s sum [of Panicked] sum [of "Recording n (the res)"] show ?thesis
      by (auto simp: bench_work_def bench_left_def simp del: sum_list_eq_0_iff split: option.splits)
  next
    case (Recording n el)
    with s sum [of Fetching] show ?thesis
      by (auto simp: bench_work_def bench_left_def Let_def simp del: sum_list_eq_0_iff split: if_splits)
  qed (simp_all add: thread_done_def)
qed

lemma bench_reached_step: "bench_reached b \<Longrightarrow> bench_step b e = Inr (b', os) \<Longrightarrow> bench_reached b'"
  unfolding bench_reached_def using bench_step_hist by blast

lemma thread_left_step:
  assumes r: "bench_reached b" and v: "v < 8" and s: "bench_step b e = Inr (b', os)"
  shows "thread_left v b' \<le> (if fst e = v then thread_left v b - 1 else thread_left v b)"
proof -
  obtain w res where e: "e = (w, res)" by (cases e)
  show ?thesis
  proof (cases "w < 8")
    case False
    then show ?thesis using s v bench_reached_workers [OF r] by (auto simp: e)
  next
    case True
    then have w: "w < length (bn_workers b)" "bench_work b w res = (b', os)"
      using s bench_reached_workers [OF r] by (auto simp: e)
    note l = bench_work_left [OF r w]
    show ?thesis
    proof (cases "thread_done b w")
      case fin: True
      then show ?thesis using l(1) by (auto simp: e thread_left_def)
    next
      case False
      have "v \<noteq> w \<Longrightarrow> thread_done b' v = thread_done b v" using l(3) by (simp add: thread_done_def)
      with l(2) False show ?thesis by (auto simp: e thread_left_def)
    qed
  qed
qed

lemma thread_left_steps:
  "bench_reached b \<and> v < 8 \<Longrightarrow> fst e = v \<Longrightarrow> bench_step b e = Inr (b', os) \<Longrightarrow> thread_left v b' \<le> thread_left v b - 1"
  "bench_reached b \<and> v < 8 \<Longrightarrow> fst e \<noteq> v \<Longrightarrow> bench_step b e = Inr (b', os) \<Longrightarrow> thread_left v b' \<le> thread_left v b"
  using thread_left_step [of b v e b' os] by simp_all

interpretation bn_loop: flagged_loop bench_step "\<lambda>e. fst e = v" "\<lambda>b. bench_reached b \<and> v < 8" "\<lambda>b. False" "thread_left v" for v
  by unfold_locales (erule thread_left_steps, assumption+ | use bench_reached_step in blast)+

section \<open>Calls that do not fail\<close>

definition unharmed :: "bench \<Rightarrow> bool" where
  "unharmed b \<longleftrightarrow> Panicked \<notin> set (bn_workers b)"

lemma unharmed_step: "unharmed b \<Longrightarrow> snd e \<noteq> None \<Longrightarrow> bench_step b e = Inr (b', os) \<Longrightarrow> unharmed b'"
  by (cases e) (auto simp: unharmed_def bench_work_def Let_def dest!: set_update_subset_insert [THEN subsetD]
      split: if_splits bench_worker.splits)

interpretation bn_calls: machine bench_step unharmed "\<lambda>e. snd e \<noteq> None" "\<lambda>x. True"
  by unfold_locales (auto intro: unharmed_step simp: list_all_iff)

section \<open>Properties\<close>

text \<open>
  C40: The load completes: however the eight threads interleave, after 1658 steps of each all of them
  have left the loop or died with a failed call; and when no call fails, by then the
  operations 0 to 549 were each called exactly once, every eleventh of them with the long payload, and 500 short
  and 50 long times were recorded.
\<close>

theorem workload_completes:
  assumes "run_steps bench_step bench_new es = Inr (b, os)" "\<forall>w < 8. 1658 \<le> length (filter (\<lambda>e. fst e = w) es)"
  shows "set (bn_workers b) \<subseteq> {Stopped, Panicked}
    \<and> ((\<forall>e \<in> set es. snd e \<noteq> None) \<longrightarrow>
         mset (ops os) = mset [0..<550] \<and> length (bn_short b) = 500 \<and> length (bn_long b) = 50
         \<and> (\<forall>n p. BenchCall n p \<in> set os \<longrightarrow>
               p = (if unat n mod 11 = 10 then replicate (2 ^ 20) 0xcd else replicate 100 0xab)))"
proof -
  have h: "bench_hist b es os" using bn.run_hist [OF bench_hist_new assms(1)] by simp
  have start: "bench_reached bench_new" unfolding bench_reached_def using bench_hist_new by blast
  have "bench_left bench_new = 1658" by (simp add: bench_left_def bench_new_simps numeral_nat)
  then have left: "thread_left w bench_new \<le> 1658" for w by (simp add: thread_left_def)
  have reached: "bench_reached b" unfolding bench_reached_def using h by blast
  have "bn_workers b ! w \<in> {Stopped, Panicked}" if w: "w < 8" for w
  proof -
    have "thread_left w b = 0"
      using bn_loop.run_ends [of bench_new w es b os] start w assms left [of w] by (meson le_trans)
    then have "thread_done b w"
      using bench_left_pos [of w b] w bench_reached_workers [OF reached] by (auto simp: thread_left_def split: if_splits)
    then show ?thesis by (cases "bn_workers b ! w") (simp_all add: thread_done_def)
  qed
  then have all: "set (bn_workers b) \<subseteq> {Stopped, Panicked}"
    using bench_reached_workers [OF reached] by (metis in_set_conv_nth subsetI)
  have "mset (ops os) = mset [0..<550] \<and> length (bn_short b) = 500 \<and> length (bn_long b) = 50
      \<and> (\<forall>n p. BenchCall n p \<in> set os \<longrightarrow>
            p = (if unat n mod 11 = 10 then replicate (2 ^ 20) 0xcd else replicate 100 0xab))"
    if ok: "\<forall>e \<in> set es. snd e \<noteq> None"
  proof -
    have "unharmed bench_new" by (simp add: unharmed_def bench_new_simps)
    then have "unharmed b" using bn_calls.run_inv_good [OF _ _ assms(1)] ok by (simp add: list_all_iff)
    with all have "set (bn_workers b) \<subseteq> {Stopped}" by (auto simp: unharmed_def)
    from all_stopped [OF h this] show ?thesis .
  qed
  with all show ?thesis by blast
qed

text \<open>The threads in turn, 1658 times, with calls that take no time.\<close>

definition in_turn :: "nat \<Rightarrow> (nat \<times> duration option) list" where
  "in_turn k = concat (replicate k (map (\<lambda>w. (w, Some 0)) [0..<8]))"

lemma in_turn_steps: "w < 8 \<Longrightarrow> length (filter (\<lambda>e. fst e = w) (in_turn k)) = k"
proof (induction k)
  case (Suc k)
  have "length (filter (\<lambda>e. fst e = w) (map (\<lambda>w. (w, Some 0 :: duration option)) [0..<8])) = 1"
    using Suc.prems by (auto simp: upt_rec less_Suc_eq numeral_eq_Suc)
  with Suc show ?case by (simp add: in_turn_def)
qed (simp add: in_turn_def)

theorem workload_completes_witness:
  "\<exists>b os. run_steps bench_step bench_new (in_turn 1658) = Inr (b, os) \<and> set (bn_workers b) \<subseteq> {Stopped, Panicked}
     \<and> mset (ops os) = mset [0..<550] \<and> length (bn_short b) = 500 \<and> length (bn_long b) = 50"
proof -
  obtain b os where r: "run_steps bench_step bench_new (in_turn 1658) = Inr (b, os)"
    using steps_run [of bench_step] by force
  have s: "\<forall>w < 8. 1658 \<le> length (filter (\<lambda>e. fst e = w) (in_turn 1658))" by (simp add: in_turn_steps)
  have "\<forall>e \<in> set (in_turn 1658). snd e \<noteq> None" by (auto simp: in_turn_def)
  with workload_completes [OF r s] r show ?thesis by blast
qed

end
