(* ===== verification/Corruption.thy ===== *)
theory Corruption
  imports Alignment
begin

text \<open>
  Why the windows must be multiples of the packet size: what becomes of a message after a RESEND whose range
  ends inside a chunk, for any such RESEND, any message, and any order, loss and repetition of what the sender sends.
\<close>

section \<open>What the sender sends afterwards\<close>

lemma decode_frag:
  assumes "s < e" "e \<le> length D" "length D < 2 ^ 32"
  shows "decode (frag D mid s e) = Inr (packet_new Data (priority_for_len (length D)) mid (as_u32 (length D)) (as_u32 s) (as_u32 (e - s)),
     take (e - s) (drop s D))"
proof -
  have "unat (as_u32 s) = s" "unat (as_u32 (e - s)) = e - s" "unat (as_u32 (length D)) = length D"
    using assms by (simp_all only: unat_as_u32)
  then have "wire_ok (packet_new Data (priority_for_len (length D)) mid (as_u32 (length D)) (as_u32 s) (as_u32 (e - s)))
      (take (e - s) (drop s D))"
    using assms by (simp add: wire_ok_def)
  then show ?thesis by (simp add: frag_def decode_encode_id)
qed

text \<open>The fragment of at most a packet size that begins at \<open>x\<close>.\<close>

definition cut_at :: "nat \<Rightarrow> bytes \<Rightarrow> u64 \<Rightarrow> nat \<Rightarrow> bytes" where
  "cut_at ps D mid x = frag D mid x (chunk_end ps (length D) x)"

text \<open>
  Chunks that begin before \<open>x\<close>, the fragment at \<open>x\<close>, and anything that begins a packet size after it. So goes on a
  sender whose position is \<open>x\<close>, if nobody asks for the next chunk.
\<close>

definition shifted :: "nat \<Rightarrow> bytes \<Rightarrow> u64 \<Rightarrow> nat \<Rightarrow> bytes \<Rightarrow> bool" where
  "shifted ps D mid x b \<longleftrightarrow>
     (\<exists>y < length D. b = cut_at ps D mid y \<and> (y mod ps = 0 \<and> y < x \<or> y = x \<or> x + ps \<le> y))"

definition on_from :: "nat \<Rightarrow> bytes \<Rightarrow> nat \<Rightarrow> out_msg \<Rightarrow> bool" where
  "on_from ps D x m \<longleftrightarrow> om_data m = D \<and> (om_next_send m = x \<or> x + ps \<le> om_next_send m \<or> om_next_send m = length D)"

text \<open>The events that keep it so: no probes, and no RESEND for the next chunk or that moves the position inside this one.\<close>

fun onward :: "nat \<Rightarrow> nat \<Rightarrow> msg_key \<Rightarrow> sender_event \<Rightarrow> bool" where
  "onward ps x key (SResend src pkt t) =
     ((src, pkt_msg_id pkt) = key \<longrightarrow> unat (pkt_offset pkt) + unat (pkt_length pkt) \<le> x
        \<or> Suc (Suc (x div ps)) * ps \<le> unat (pkt_offset pkt))"
| "onward ps x key e = forward key e"

definition all_shifted :: "nat \<Rightarrow> bytes \<Rightarrow> sockaddr \<Rightarrow> u64 \<Rightarrow> nat \<Rightarrow> action list \<Rightarrow> bool" where
  "all_shifted ps D dest mid x as \<longleftrightarrow>
     (\<forall>a \<in> set as. belongs (dest, mid) a \<longrightarrow> (\<exists>b. a = Send dest b \<and> shifted ps D mid x b))"

lemma all_shifted_append [simp]:
  "all_shifted ps D dest mid x (as @ bs) \<longleftrightarrow> all_shifted ps D dest mid x as \<and> all_shifted ps D dest mid x bs"
  by (auto simp: all_shifted_def)

lemma all_shifted_other: "\<forall>a \<in> set as. \<not> belongs (dest, mid) a \<Longrightarrow> all_shifted ps D dest mid x as"
  by (simp add: all_shifted_def)

lemma pump_frags_other: "d \<noteq> dest \<or> i \<noteq> mid \<Longrightarrow> all_shifted ps D dest mid x (pump_frags ps' d i data limit ns)"
  by (rule all_shifted_other) (auto simp: pump_frags_def)

lemma resend_frags_shifted_other:
  "d \<noteq> dest \<or> i \<noteq> mid \<Longrightarrow> all_shifted ps D dest mid x (resend_frags ps' d i data st en)"
  by (rule all_shifted_other) (auto simp: resend_frags_def simp del: upt_Suc)

lemma pump_shifted:
  assumes inv: "sender_inv s" and ps: "packet_size (s_cfg s) = ps" and m: "map_of (s_out s) (dest, mid) = Some m"
    and on: "on_from ps D x m" and p: "pump s key' limit now = Inr (s', as)"
  shows "(\<exists>m'. map_of (s_out s') (dest, mid) = Some m' \<and> on_from ps D x m') \<and> all_shifted ps D dest mid x as"
proof (cases "\<exists>n. map_of (s_out s) key' = Some n \<and> om_done_at n = None")
  case True
  then obtain n where n: "map_of (s_out s) key' = Some n" "om_done_at n = None" by blast
  have pos: "0 < ps" using sender_inv_ps [OF inv] ps by simp
  note eq = pump_eq [OF sender_inv_ps [OF inv] n, of limit now, unfolded ps]
  have s': "s' = s\<lparr>s_out := AList.update key' (om_pumped ps limit now n) (s_out s)\<rparr>"
    and as: "as = pump_frags ps (fst key') (snd key') (om_data n) (min limit (length (om_data n))) (om_next_send n)"
    using p eq by simp_all
  show ?thesis
  proof (cases "key' = (dest, mid)")
    case False
    with m s' on show ?thesis by (cases key') (auto simp: as update_conv' pump_frags_other)
  next
    case True
    with m n have nm: "n = m" by simp
    let ?lim = "min limit (length D)" and ?ns = "om_next_send m"
    have D: "om_data m = D" using on by (simp add: on_from_def)
    show ?thesis
    proof (cases "?ns < ?lim")
      case False
      then have not_less: "?lim \<le> ?ns" by linarith
      with False have "pump_end ps (length D) ?lim ?ns = ?ns" "chunk_count ps ?lim ?ns = 0"
        using pos not_less by (simp_all only: pump_end_def if_False chunk_count_0)
      then have "as = []" "om_next_send (om_pumped ps limit now m) = ?ns"
        by (simp_all add: as nm D True pump_frags_def om_pumped_def Let_def)
      with on s' True nm show ?thesis by (auto simp: update_conv' on_from_def all_shifted_def)
    next
      case lt: True
      then have ns: "?ns = x \<or> x + ps \<le> ?ns" using on by (auto simp: on_from_def)
      have f: "shifted ps D mid x (frag D mid (?ns + i * ps) (chunk_end ps (length D) (?ns + i * ps)))"
        if "i < chunk_count ps ?lim ?ns" for i
      proof -
        have "?ns + i * ps < ?lim" using that chunk_count_le_iff [OF pos, of i ?lim ?ns] by linarith
        moreover have "?ns + i * ps = x \<or> x + ps \<le> ?ns + i * ps" using ns by (cases i) auto
        ultimately show ?thesis unfolding shifted_def cut_at_def by (intro exI [of _ "?ns + i * ps"]) simp
      qed
      then have "all_shifted ps D dest mid x as"
        by (auto simp: as nm D True all_shifted_def pump_frags_def)
      moreover have "0 < chunk_count ps ?lim ?ns" using chunk_count_step [OF pos lt] by simp
      then have "x + ps \<le> ?ns + chunk_count ps ?lim ?ns * ps" using ns by (cases "chunk_count ps ?lim ?ns") auto
      then have "on_from ps D x (om_pumped ps limit now m)"
        using lt D by (auto simp: on_from_def om_pumped_def Let_def pump_end_def min_def)
      ultimately show ?thesis using s' True nm by (simp add: update_conv')
    qed
  qed
next
  case False
  then have "s' = s \<and> as = []" using p by (auto simp: pump_def split: option.splits)
  with m on show ?thesis by (simp add: all_shifted_def)
qed

lemma resend_keeps:
  assumes ps: "0 < ps" and x: "x \<le> length D" and on: "on_from ps D x m"
    and r: "en \<le> x \<or> Suc (Suc (x div ps)) * ps \<le> st \<or> st = length D" and en: "en \<le> length D" "st \<le> en"
  shows "all_shifted ps D dest mid x (resend_frags ps dest mid D st en) \<and> on_from ps D x (om_resent en t m)"
proof
  have two: "x + ps \<le> Suc (Suc (x div ps)) * ps" using dividend_less_div_times [OF ps, of x] by (simp add: mult.commute)
  have "shifted ps D mid x (frag D mid (i * ps) (chunk_end ps (length D) (i * ps)))"
    if i: "st < en" "st div ps \<le> i" "i \<le> (en - 1) div ps" for i
  proof -
    have "i * ps \<le> (en - 1) div ps * ps" using i(3) by (rule mult_le_mono1)
    also have "\<dots> \<le> en - 1" by simp
    finally have y: "i * ps < en" using i(1) by simp
    have "i * ps < x \<or> x + ps \<le> i * ps"
      using r
    proof (elim disjE)
      assume "Suc (Suc (x div ps)) * ps \<le> st"
      then have "Suc (Suc (x div ps)) \<le> st div ps" using ps by (simp add: less_eq_div_iff_mult_less_eq)
      then have "Suc (Suc (x div ps)) * ps \<le> i * ps" using i(2) by (intro mult_le_mono1) simp
      with two show ?thesis by simp
    qed (use y en i(1) in simp_all)
    with y en show ?thesis unfolding shifted_def cut_at_def by (intro exI [of _ "i * ps"]) auto
  qed
  then show "all_shifted ps D dest mid x (resend_frags ps dest mid D st en)"
    by (auto simp: all_shifted_def resend_frags_def simp del: upt_Suc)
  show "on_from ps D x (om_resent en t m)"
    using on r en x two by (auto simp: on_from_def om_resent_def max_def)
qed

lemma step_shifted:
  assumes inv: "sender_inv s" and ps: "packet_size (s_cfg s) = ps" and m: "map_of (s_out s) (dest, mid) = Some m"
    and on: "on_from ps D x m" and x: "x \<le> length D" and e: "onward ps x (dest, mid) e" and st: "sender_step s e = Inr (s', as)"
  shows "(\<exists>m'. map_of (s_out s') (dest, mid) = Some m' \<and> on_from ps D x m') \<and> all_shifted ps D dest mid x as"
proof (cases e)
  case (SStart d i data t)
  then have ne: "(d, i) \<noteq> (dest, mid)" using e by simp
  then have "all_shifted ps D dest mid x as"
    using st SStart by (auto simp: start_eq [OF sender_inv_ps [OF inv]] pump_frags_other)
  with SStart st ne m on show ?thesis
    by (auto simp: start_eq [OF sender_inv_ps [OF inv]] update_conv')
next
  case (SGrant src pkt t)
  with st pump_shifted [OF inv ps m on] m on show ?thesis
    by (auto simp: handle_grant_def Let_def all_shifted_def split: option.splits if_splits)
next
  case (SResend src pkt t)
  show ?thesis
  proof (cases "map_of (s_out s) (src, pkt_msg_id pkt)")
    case None
    with st SResend m on show ?thesis by (auto simp: handle_resend_def all_shifted_def)
  next
    case (Some n)
    let ?st = "min (unat (pkt_offset pkt)) (length (om_data n))"
    let ?en = "min (?st + unat (pkt_length pkt)) (length (om_data n))"
    have h: "s' = s\<lparr>s_out := AList.update (src, pkt_msg_id pkt) (om_resent ?en t n) (s_out s)\<rparr>"
      "as = resend_frags ps src (pkt_msg_id pkt) (om_data n) ?st ?en"
      using handle_resend_eq [OF sender_inv_ps [OF inv] Some refl refl, of t] st SResend ps by simp_all
    show ?thesis
    proof (cases "(src, pkt_msg_id pkt) = (dest, mid)")
      case False
      with h m on show ?thesis by (auto simp: update_conv' resend_frags_shifted_other)
    next
      case True
      with Some m have n: "n = m" by simp
      have D: "om_data m = D" using on by (simp add: on_from_def)
      have pos: "0 < ps" using sender_inv_ps [OF inv] ps by simp
      have r: "?en \<le> x \<or> Suc (Suc (x div ps)) * ps \<le> ?st \<or> ?st = length D"
        using e SResend True by (auto simp: n D)
      then have "all_shifted ps D dest mid x as \<and> on_from ps D x (om_resent ?en t m)"
        using resend_keeps [OF pos x on, where st = ?st and en = ?en and dest = src and mid = "pkt_msg_id pkt" and t = t] True D n h(2) by simp
      with h True n show ?thesis by (simp add: update_conv')
    qed
  qed
next
  case (SBusy src pkt t)
  with st m on show ?thesis
    by (auto simp: handle_busy_def Let_def update_conv' on_from_def all_shifted_def split: option.splits)
qed (use st e m on in \<open>auto simp: finish_def delete_conv' all_shifted_def\<close>)

lemma run_shifted:
  "sender_ok ps (\<lambda>k x. True) s \<Longrightarrow> map_of (s_out s) (dest, mid) = Some m \<Longrightarrow> on_from ps D x m \<Longrightarrow> x \<le> length D \<Longrightarrow>
     list_all (onward ps x (dest, mid)) es \<Longrightarrow> run_steps sender_step s es = Inr (s', as) \<Longrightarrow> all_shifted ps D dest mid x as"
proof (induction es arbitrary: s m as)
  case (Cons e es)
  from Cons.prems(6) obtain s1 as1 as2 where s: "sender_step s e = Inr (s1, as1)"
    "run_steps sender_step s1 es = Inr (s', as2)" "as = as1 @ as2"
    by (auto simp: bind_res_Inr_iff)
  have inv: "sender_inv s" "packet_size (s_cfg s) = ps" using Cons.prems(1) by (simp_all add: sender_ok_def)
  from step_shifted [OF inv Cons.prems(2-4) _ s(1)] Cons.prems(5) obtain m1 where
    m1: "map_of (s_out s1) (dest, mid) = Some m1" "on_from ps D x m1" "all_shifted ps D dest mid x as1" by auto
  have "sender_adm (\<lambda>k x. True) e" using Cons.prems(5) by (cases e) simp_all
  then have "sender_ok ps (\<lambda>k x. True) s1"
    using sender_step_sound [OF Cons.prems(1), of e] s(1) by (simp add: sound_result_def)
  from Cons.IH [OF this m1(1,2) Cons.prems(4) _ s(2)] Cons.prems(5) m1(3) s(3) show ?case by simp
qed (simp add: all_shifted_def)

text \<open>The RESEND itself sends chunks that begin before its end, and moves the position there.\<close>

lemma resend_shifted:
  assumes s: "sender_ok ps (\<lambda>k x. True) s" and m: "map_of (s_out s) (dest, pkt_msg_id pkt) = Some m"
    and x: "x = min (min (unat (pkt_offset pkt)) (length (om_data m)) + unat (pkt_length pkt)) (length (om_data m))"
    and le: "om_next_send m \<le> x"
    and run: "run_steps sender_step s (SResend dest pkt t # es) = Inr (s', as)"
    and fw: "list_all (onward ps x (dest, pkt_msg_id pkt)) es"
  shows "all_shifted ps (om_data m) dest (pkt_msg_id pkt) x as"
proof -
  let ?D = "om_data m" and ?mid = "pkt_msg_id pkt" and ?st = "min (unat (pkt_offset pkt)) (length (om_data m))"
  have inv: "sender_inv s" "packet_size (s_cfg s) = ps" using s by (simp_all add: sender_ok_def)
  have ps: "0 < ps" using sender_inv_ps [OF inv(1)] inv(2) by simp
  let ?s1 = "s\<lparr>s_out := AList.update (dest, ?mid) (om_resent x t m) (s_out s)\<rparr>"
  have h: "sender_step s (SResend dest pkt t) = Inr (?s1, resend_frags ps dest ?mid ?D ?st x)"
    using handle_resend_eq [OF sender_inv_ps [OF inv(1)] m refl refl, of t] by (simp add: x inv(2))
  then obtain as2 where r: "run_steps sender_step ?s1 es = Inr (s', as2)" "as = resend_frags ps dest ?mid ?D ?st x @ as2"
    using run by (auto simp: bind_res_Inr_iff)
  have "sender_ok ps (\<lambda>k x. True) ?s1" using sender_step_sound [OF s, of "SResend dest pkt t"] h by (simp add: sound_result_def)
  moreover have "on_from ps ?D x (om_resent x t m)"
    using le by (auto simp: on_from_def om_resent_def max_def)
  ultimately have "all_shifted ps ?D dest ?mid x as2"
    by (intro run_shifted [OF _ _ _ _ fw r(1)]) (simp_all add: update_conv' x)
  moreover have "all_shifted ps ?D dest ?mid x (resend_frags ps dest ?mid ?D ?st x)"
  proof (cases "?st < x")
    case True
    have "i * ps < x" if "i \<le> (x - 1) div ps" for i
    proof -
      have "i * ps \<le> (x - 1) div ps * ps" using that by (rule mult_le_mono1)
      also have "\<dots> \<le> x - 1" by simp
      finally show ?thesis using True by simp
    qed
    moreover have "x \<le> length ?D" by (simp add: x)
    ultimately have "shifted ps ?D ?mid x (frag ?D ?mid (i * ps) (chunk_end ps (length ?D) (i * ps)))" if "i \<le> (x - 1) div ps" for i
      using that unfolding shifted_def cut_at_def by (intro exI [of _ "i * ps"]) (auto dest: less_le_trans)
    then show ?thesis by (auto simp: all_shifted_def resend_frags_def simp del: upt_Suc)
  qed (simp add: resend_frags_def all_shifted_def)
  ultimately show ?thesis by (simp add: r(2))
qed

section \<open>What the receiver makes of it\<close>

text \<open>
  With \<open>x\<close> inside chunk \<open>k = x div ps\<close>, two datagrams have this index: the chunk, which ends where the next one
  begins, and the fragment at \<open>x\<close>, which covers the rest of the chunk and the first bytes of the next. The bytes of the
  first that are not in the second, and the other way round:
\<close>

definition zeros :: "bytes \<Rightarrow> nat \<Rightarrow> nat \<Rightarrow> bool" where
  "zeros buf s e \<longleftrightarrow> (\<forall>j. s \<le> j \<and> j < e \<longrightarrow> buf ! j = 0)"

definition hole :: "nat \<Rightarrow> nat \<Rightarrow> bytes \<Rightarrow> bool" where
  "hole ps x buf \<longleftrightarrow> zeros buf (x div ps * ps) x \<or> zeros buf (Suc (x div ps) * ps) (min (x + ps) (length buf))"

text \<open>The two ranges are not both written, and none before the bit of the chunk is set.\<close>

definition holed :: "nat \<Rightarrow> nat \<Rightarrow> nat \<Rightarrow> in_msg \<Rightarrow> bool" where
  "holed ps x n m \<longleftrightarrow> im_total_len m = n \<and> hole ps x (im_buf m)
     \<and> (im_received m ! (x div ps) \<or>
         zeros (im_buf m) (x div ps * ps) x \<and> zeros (im_buf m) (Suc (x div ps) * ps) (min (x + ps) (length (im_buf m))))"

text \<open>Where the payload of a packet goes: away from both ranges, or to one of them with the index of the chunk.\<close>

definition lands :: "nat \<Rightarrow> nat \<Rightarrow> nat \<Rightarrow> nat \<Rightarrow> bool" where
  "lands ps x off len \<longleftrightarrow>
     (if off div ps = x div ps then off + len \<le> Suc (x div ps) * ps \<or> x \<le> off
      else off + len \<le> x div ps * ps \<or> x + ps \<le> off)"

lemma zeros_copy:
  "copy_at buf off payload = Inr buf' \<Longrightarrow> e \<le> length buf \<Longrightarrow> off + length payload \<le> s \<or> e \<le> off \<Longrightarrow>
     zeros buf' s e = zeros buf s e"
  unfolding zeros_def by (intro all_cong) (auto simp: copy_at_nth)

lemma store_holed:
  assumes h: "holed ps x n m" and x: "x < n" and ok: "length (im_buf m) = n"
    and l: "lands ps x off (length payload)" and st: "store_chunk n m (off div ps) off payload now = Inr m'"
  shows "holed ps x n m'"
proof (cases "off div ps < length (im_received m) \<and> \<not> im_received m ! (off div ps) \<and> off + length payload \<le> n")
  case False
  with h st show ?thesis by (auto simp: store_chunk_def)
next
  case True
  let ?k = "x div ps" and ?e = "min (x + ps) n"
  obtain buf where buf: "copy_at (im_buf m) off payload = Inr buf" "im_buf m' = buf" "im_total_len m' = im_total_len m"
    "im_received m' = (im_received m)[off div ps := True]"
    using st True by (auto simp: store_chunk_def bind_res_Inr_iff)
  have len: "length buf = n" using copy_at_length [OF buf(1)] ok by simp
  note z = zeros_copy [OF buf(1), unfolded ok]
  show ?thesis
  proof (cases "off div ps = ?k")
    case False
    then have "off + length payload \<le> ?k * ps \<or> x + ps \<le> off" using l by (simp add: lands_def)
    moreover have "?k * ps \<le> Suc ?k * ps" by simp
    ultimately have "zeros buf (?k * ps) x = zeros (im_buf m) (?k * ps) x"
      "zeros buf (Suc ?k * ps) ?e = zeros (im_buf m) (Suc ?k * ps) ?e"
      using x by (intro z; linarith)+
    with h buf False show ?thesis by (simp add: holed_def hole_def len ok)
  next
    case k: True
    then have bit: "im_received m' ! ?k" and off: "off + length payload \<le> Suc ?k * ps \<or> x \<le> off"
      using l True buf(4) by (simp_all add: lands_def)
    have old: "zeros (im_buf m) (?k * ps) x" "zeros (im_buf m) (Suc ?k * ps) ?e" using h True k by (simp_all add: holed_def ok)
    have "zeros buf (?k * ps) x \<or> zeros buf (Suc ?k * ps) ?e"
      using off
    proof
      assume "off + length payload \<le> Suc ?k * ps"
      then have "zeros buf (Suc ?k * ps) ?e = zeros (im_buf m) (Suc ?k * ps) ?e" by (intro z) simp_all
      with old show ?thesis by simp
    next
      assume "x \<le> off"
      then have "zeros buf (?k * ps) x = zeros (im_buf m) (?k * ps) x" using x by (intro z) simp_all
      with old show ?thesis by simp
    qed
    with h buf bit show ?thesis by (simp add: holed_def hole_def len)
  qed
qed

lemma shifted_lands:
  assumes b: "shifted ps D mid x b" and ps: "0 < ps" and x: "x < length D" "length D < 2 ^ 32"
    and d: "decode b = Inr (pkt, payload)"
  shows "unat (pkt_msg_len pkt) = length D \<and> lands ps x (unat (pkt_offset pkt)) (length payload)"
proof -
  have cut: "unat (pkt_msg_len pkt) = length D \<and> unat (pkt_offset pkt) = y \<and> y + length payload \<le> y + ps"
    if y: "y < length D" "b = cut_at ps D mid y" for y
  proof -
    have e: "y < chunk_end ps (length D) y" "chunk_end ps (length D) y \<le> length D" using y(1) ps by (simp_all add: chunk_end_def)
    have "unat (as_u32 y) = y" "unat (as_u32 (length D)) = length D" using y(1) x(2) by (simp_all only: unat_as_u32)
    with decode_frag [OF e x(2), of mid] d y(2) show ?thesis by (auto simp: cut_at_def chunk_end_def)
  qed
  from b obtain y where y: "y < length D" "b = cut_at ps D mid y" "y mod ps = 0 \<and> y < x \<or> y = x \<or> x + ps \<le> y"
    unfolding shifted_def by (elim exE conjE) (rule that)
  note c = cut [OF y(1,2)]
  have "lands ps x y (length payload)"
    using y(3)
  proof (elim disjE)
    assume a: "y mod ps = 0 \<and> y < x"
    then have yi: "y = y div ps * ps" using div_mult_mod_eq [of y ps] by simp
    have le: "y div ps \<le> x div ps" using a by (intro div_le_mono) simp
    have "y + length payload \<le> Suc (y div ps) * ps" using c yi by simp
    moreover have "Suc (y div ps) * ps \<le> x div ps * ps" if "y div ps \<noteq> x div ps" using that le by (intro mult_le_mono1) simp
    ultimately show ?thesis by (auto simp: lands_def)
  next
    assume "x + ps \<le> y"
    moreover from this have "x div ps < y div ps" using ps div_le_mono [of "x + ps" y ps] div_add_self2 [of ps x] by linarith
    ultimately show ?thesis by (simp add: lands_def)
  qed (simp add: lands_def)
  with c show ?thesis by simp
qed

section \<open>Runs of the receiver\<close>

definition hole_inv :: "nat \<Rightarrow> nat \<Rightarrow> nat \<Rightarrow> msg_key \<Rightarrow> receiver_core \<Rightarrow> bool" where
  "hole_inv ps x n key r \<longleftrightarrow> recv_inv r \<and> packet_size (r_cfg r) = ps
     \<and> all_entries (\<lambda>k m. k = key \<longrightarrow> holed ps x n m) (r_incoming r)"

definition delivers_hole :: "nat \<Rightarrow> nat \<Rightarrow> nat \<Rightarrow> msg_key \<Rightarrow> action list \<Rightarrow> bool" where
  "delivers_hole ps x n key as \<longleftrightarrow> (\<forall>data. (key, data) \<in> set (delivers as) \<longrightarrow> length data = n \<and> hole ps x data)"

lemma holed_stable:
  "grant_stable inc (\<lambda>k m. k = key \<longrightarrow> holed ps x n m)" "touch_stable (\<lambda>k m. k = key \<longrightarrow> holed ps x n m)"
  by (simp_all add: grant_stable_def touch_stable_def holed_def)

lemma hole_schedule:
  "hole_inv ps x n key r \<Longrightarrow> schedule ord r now = Inr (r', as) \<Longrightarrow> iter_order ord \<Longrightarrow> hole_inv ps x n key r' \<and> delivers as = []"
  using schedule_inv schedule_entries [OF _ _ holed_stable(1)] by (fastforce simp: hole_inv_def)

lemma hole_tick:
  assumes "hole_inv ps x n key r" "iter_order ord" "iter_order ord'" "receiver_tick ord ord' r now = Inr (r', as)"
  shows "hole_inv ps x n key r' \<and> delivers as = []"
proof -
  obtain r1 as1 where r1: "recover_all r (ord (hm_keys (r_incoming r))) now = (r1, as1)" by force
  from assms(4) r1 obtain as2 where s: "schedule ord' r1 now = Inr (r', as2)" "as = as1 @ as2"
    by (auto simp: receiver_tick_def bind_res_Inr_iff)
  have "quiet_step r r1 as1" using assms(1) by (intro recover_all_quiet [OF _ r1]) (simp add: hole_inv_def)
  moreover have "all_entries (\<lambda>k m. k = key \<longrightarrow> holed ps x n m) (r_incoming r1)"
    using assms(1) by (intro recover_all_entries [OF r1 _ holed_stable]) (simp add: hole_inv_def)
  ultimately have "hole_inv ps x n key r1" "delivers as1 = []" using assms(1) by (simp_all add: hole_inv_def quiet_step_def)
  with hole_schedule [OF _ s(1) assms(3)] show ?thesis by (simp add: s(2))
qed

lemma entry_holed:
  assumes inv: "hole_inv ps x n key r" and n: "x < n" and e: "entry_of r key n now = Inr m"
  shows "holed ps x n m"
proof (cases "map_of (r_incoming r) key")
  case None
  then have "im_buf m = replicate n 0" "im_total_len m = n" using e by (auto simp: entry_of_def new_in_msg_def bind_res_Inr_iff)
  moreover from this n have "zeros (im_buf m) s (min e n)" "zeros (im_buf m) s x" for s e by (auto simp: zeros_def)
  ultimately show ?thesis by (simp add: holed_def hole_def)
next
  case (Some m')
  with e inv show ?thesis by (auto simp: entry_of_def hole_inv_def dest: all_entriesD)
qed

lemma hole_data:
  assumes inv: "hole_inv ps x n key r" and n: "x < n" and ord: "iter_order ord"
    and h: "handle_data ord r src pkt payload now = Inr (r', as)"
    and pk: "key = (src, pkt_msg_id pkt) \<Longrightarrow> unat (pkt_msg_len pkt) = n \<and> lands ps x (unat (pkt_offset pkt)) (length payload)"
  shows "hole_inv ps x n key r' \<and> delivers_hole ps x n key as"
proof -
  let ?k = "(src, pkt_msg_id pkt)"
  have ri: "recv_inv r" and ps: "packet_size (r_cfg r) = ps"
    and all: "all_entries (\<lambda>k m. k = key \<longrightarrow> holed ps x n m) (r_incoming r)" using inv by (simp_all add: hole_inv_def)
  from h show ?thesis
  proof (cases rule: handle_data_Inr)
    case (empty m r1 as1 as2)
    have ok: "in_msg_ok (r_cfg r) m" by (rule entry_of_ok [OF ri empty(4)]) simp
    have d: "deliver (r\<lparr>r_incoming := AList.update ?k m (r_incoming r)\<rparr>) ?k (fst ?k) [] = (r1, as1)" using empty(5) by simp
    note f = deliver_step [OF ri ok empty(1,3) d]
    have "key \<noteq> ?k" using pk empty(2) n by auto
    moreover have "hole_inv ps x n key r1" using f all ps by (simp add: hole_inv_def all_entries_delete)
    ultimately show ?thesis using hole_schedule [OF _ empty(6) ord] f by (auto simp: empty(7) delivers_hole_def)
  next
    case (stored m m' r1 as1 as2)
    have "in_msg_ok (r_cfg r) m" by (rule entry_of_ok [OF ri stored(4) unat_u32_less])
    then have ok: "in_msg_ok (r_cfg r) m" "in_msg_ok (r_cfg r) m'" by (simp_all add: store_chunk_ok [OF _ stored(5)])
    have d: "settle r ?k (fst ?k) m' = (r1, as1)" using stored(6) by simp
    note f = settle_step [OF ri ok(2) stored(1,3) d]
    have m': "holed ps x n m' \<and> length (im_buf m') = n" if k: "key = ?k"
    proof -
      note pk = pk [OF k]
      have e: "entry_of r key n now = Inr m" using stored(4) pk k by simp
      have hm: "holed ps x n m" by (rule entry_holed [OF inv n e])
      moreover have "length (im_buf m) = n" using ok(1) hm by (simp add: in_msg_ok_def holed_def)
      ultimately have hm': "holed ps x n m'" using pk stored(5) ps by (intro store_holed [OF hm n]) simp_all
      moreover have "length (im_buf m') = im_total_len m'" using ok(2) by (simp add: in_msg_ok_def)
      moreover have "im_total_len m' = n" using hm' by (simp add: holed_def)
      ultimately show ?thesis by simp
    qed
    have "hole_inv ps x n key r1" using f all ps m' by (auto simp: hole_inv_def intro: all_entries_delete all_entries_update)
    moreover have "delivers_hole ps x n key as1" using f m' by (auto simp: delivers_hole_def holed_def)
    ultimately show ?thesis using hole_schedule [OF _ stored(7) ord] by (auto simp: stored(8) delivers_hole_def)
  qed (use inv in \<open>simp_all add: delivers_hole_def\<close>)
qed

text \<open>The event is not a packet of the message, or one of a datagram that the sender has sent, or of a chunk before \<open>x\<close>.\<close>

fun sent_packet :: "nat \<Rightarrow> bytes \<Rightarrow> sockaddr \<Rightarrow> msg_key \<Rightarrow> nat \<Rightarrow> action list \<Rightarrow> receiver_event \<Rightarrow> bool" where
  "sent_packet ps D dest key x as (RData ord src pkt payload now) =
     ((src, pkt_msg_id pkt) = key \<longrightarrow> (\<exists>b. decode b = Inr (pkt, payload)
        \<and> ((dest, b) \<in> set (sends as) \<or> (\<exists>i. i * ps < x \<and> b = chunk_frag ps D (snd key) i))))"
| "sent_packet ps D dest key x as (RTick ord ord' now) = True"

lemma sent_lands:
  assumes sh: "all_shifted ps D dest mid x as" and ps: "0 < ps" and D: "x < length D" "length D < 2 ^ 32"
    and e: "sent_packet ps D dest (src, mid) x as (RData ord src pkt payload now)" "pkt_msg_id pkt = mid"
  shows "unat (pkt_msg_len pkt) = length D \<and> lands ps x (unat (pkt_offset pkt)) (length payload)"
proof -
  obtain b where b: "decode b = Inr (pkt, payload)" "(dest, b) \<in> set (sends as) \<or> (\<exists>i. i * ps < x \<and> b = chunk_frag ps D mid i)"
    using e by auto
  have "shifted ps D mid x b"
    using b(2)
  proof
    assume "(dest, b) \<in> set (sends as)"
    then have a: "Send dest b \<in> set as" by (simp add: in_sends_iff)
    have "belongs (dest, mid) (Send dest b)" using b(1) e(2) by (simp add: belongs_def decode_Inr)
    with sh a show ?thesis by (auto simp: all_shifted_def)
  next
    assume "\<exists>i. i * ps < x \<and> b = chunk_frag ps D mid i"
    then obtain i where "i * ps < x" "b = cut_at ps D mid (i * ps)" by (auto simp: cut_at_def chunk_frag_def)
    with D(1) show ?thesis unfolding shifted_def by (intro exI [of _ "i * ps"]) simp
  qed
  from shifted_lands [OF this ps D b(1)] show ?thesis .
qed

lemma hole_run:
  "hole_inv ps x (length D) (src, mid) r \<Longrightarrow> all_shifted ps D dest mid x as \<Longrightarrow> 0 < ps \<Longrightarrow> x < length D \<Longrightarrow> length D < 2 ^ 32 \<Longrightarrow>
     list_all orders_ok es \<Longrightarrow> list_all (sent_packet ps D dest (src, mid) x as) es \<Longrightarrow>
     run_steps receiver_step r es = Inr (r', out) \<Longrightarrow> delivers_hole ps x (length D) (src, mid) out"
proof (induction es arbitrary: r out)
  case (Cons e es)
  from Cons.prems(8) obtain r1 o1 o2 where s: "receiver_step r e = Inr (r1, o1)"
    "run_steps receiver_step r1 es = Inr (r', o2)" "out = o1 @ o2"
    by (auto simp: bind_res_Inr_iff)
  have "hole_inv ps x (length D) (src, mid) r1 \<and> delivers_hole ps x (length D) (src, mid) o1"
  proof (cases e)
    case (RData ord a pkt payload now)
    have "unat (pkt_msg_len pkt) = length D \<and> lands ps x (unat (pkt_offset pkt)) (length payload)" if "(src, mid) = (a, pkt_msg_id pkt)"
      by (rule sent_lands [OF Cons.prems(2-5)]) (use that Cons.prems(7) RData in auto)
    with RData Cons.prems(6) s(1) show ?thesis by (intro hole_data [OF Cons.prems(1,4)]) auto
  next
    case (RTick ord ord' now)
    with hole_tick [OF Cons.prems(1), of ord ord' now r1 o1] Cons.prems(6) s(1) show ?thesis by (simp add: delivers_hole_def)
  qed
  with Cons.IH [OF _ Cons.prems(2-5) _ _ s(2)] Cons.prems(6,7) show ?case by (auto simp: s(3) delivers_hole_def)
qed (simp add: delivers_hole_def)


text \<open>
  A message of 31 bytes, of which the first GRANT, up to byte 19, has been lost: the RESEND that follows, a GRANT
  for the rest, and a RESEND for the last chunk, whose bit is not set; everything arrives. Bytes 20 to 22 are never written.
\<close>

definition example_cut :: bytes where
  "example_cut = map (\<lambda>i. word_of_nat (i + 1)) [0..<31]"

definition cut_sender :: sender_core where
  "cut_sender = fst (projr (start (sender_new small_config) (localhost 2) 1 example_cut 0))"

definition cut_rest :: "sender_event list" where
  "cut_rest = [SGrant (localhost 2) (packet_new Grant 0 1 0 31 11) 1, SResend (localhost 2) (packet_new Resend 0 1 0 28 3) 2]"

definition cut_sent :: "action list" where
  "cut_sent = snd (projr (run_steps sender_step cut_sender (SResend (localhost 2) (packet_new Resend 0 1 0 8 11) 0 # cut_rest)))"

definition cut_data :: "bytes \<Rightarrow> receiver_event" where
  "cut_data b = (let (pkt, payload) = projr (decode b) in RData rev (localhost 1) pkt payload 0)"

definition cut_run :: "receiver_event list" where
  "cut_run = map cut_data (map (chunk_frag 4 example_cut 1) [0, 1] @ map snd (sends cut_sent))"

definition cut_result :: "fault + (receiver_core \<times> action list)" where
  "cut_result = run_steps receiver_step (receiver_new small_config) cut_run"

lemma cut_run_sent: "list_all (sent_packet 4 example_cut (localhost 2) (localhost 1, 1) 19 cut_sent) cut_run"
proof -
  have d: "\<forall>b \<in> set (map (chunk_frag 4 example_cut 1) [0, 1] @ map snd (sends cut_sent)). decode b = Inr (projr (decode b))"
    "\<forall>x \<in> set (sends cut_sent). fst x = localhost 2"
    by code_simp+
  have "sent_packet 4 example_cut (localhost 2) (localhost 1, 1) 19 cut_sent (cut_data b)"
    if b: "b \<in> set (map (chunk_frag 4 example_cut 1) [0, 1] @ map snd (sends cut_sent))" for b
  proof -
    have "decode b = Inr (projr (decode b))" using d(1) b by blast
    moreover have "(localhost 2, b) \<in> set (sends cut_sent) \<or> (\<exists>i. i * 4 < 19 \<and> b = chunk_frag 4 example_cut 1 i)"
      using b d(2) by force
    ultimately show ?thesis by (cases "projr (decode b)") (auto simp: cut_data_def)
  qed
  then show ?thesis by (auto simp: cut_run_def list_all_iff)
qed

text \<open>What the theorem asks of the sender holds: it has the message, with its position at byte 8.\<close>

lemma cut_sender_ok: "sender_ok (packet_size small_config) (\<lambda>k x. True) cut_sender"
proof -
  have "start (sender_new small_config) (localhost 2) 1 example_cut 0 = Inr (projr (start (sender_new small_config) (localhost 2) 1 example_cut 0))"
    by code_simp
  moreover have "sound_result 4 (\<lambda>k x. True) (start (sender_new small_config) (localhost 2) 1 example_cut 0)"
    using start_sound [OF sender_new_ok [of small_config "\<lambda>k x. True"]] by simp
  ultimately show ?thesis by (auto simp: sound_result_def cut_sender_def)
qed


end
