(* ===== verification/Conformance.thy ===== *)
theory Conformance
  imports Courier Corruption Transport
begin

text \<open>
  The program's own tests of its state machines, run on the model: the unit tests of the modules and the
  tests of \<^verbatim>\<open>tests/\<close> that use no sockets. A test is a predicate, true when none of its assertions fails and nothing
  faults; the iteration order of the receiver's map is a parameter of those that depend on it.
\<close>

section \<open>Packets and priorities\<close>

definition ascii :: "string \<Rightarrow> bytes" where
  "ascii s = map (\<lambda>c. word_of_nat (of_char c)) s"

definition test_round_trip :: bool where
  "test_round_trip \<longleftrightarrow>
     (let pkt = packet_new Data 3 0xdeadbeef 5000 2400 11
      in decode (encode pkt (ascii ''hello world'')) = Inr (pkt, ascii ''hello world''))"

definition is_err :: "'a + 'b \<Rightarrow> bool" where
  "is_err r \<longleftrightarrow> (case r of Inl e \<Rightarrow> True | Inr x \<Rightarrow> False)"

definition test_bad_packets :: bool where
  "test_bad_packets \<longleftrightarrow> is_err (decode (replicate 5 0)) \<and> is_err (decode (replicate HEADER_LEN 99 @ ascii ''x''))"

definition test_short_is_urgent :: bool where
  "test_short_is_urgent \<longleftrightarrow> priority_for_len 64 = 0 \<and> priority_for_len 1024 = 2 \<and> priority_for_len (2 ^ 20) = 5
     \<and> priority_for_len (2 ^ 30) > priority_for_len 64"

lemma packet_tests_pass: "test_round_trip" "test_bad_packets" "test_short_is_urgent"
  by code_simp+

section \<open>Queues\<close>

definition data_pkt :: "u8 \<Rightarrow> u64 \<Rightarrow> bytes" where
  "data_pkt prio mid = encode (packet_new Data prio mid 100 0 4) (ascii ''data'')"

definition msg_ids :: "datagram list \<Rightarrow> u64 option list" where
  "msg_ids batch = map (\<lambda>(d, b). case decode b of Inl e \<Rightarrow> None | Inr (pkt, payload) \<Rightarrow> Some (pkt_msg_id pkt)) batch"

fun classify_all :: "tx_queues \<Rightarrow> datagram list \<Rightarrow> tx_queues \<times> datagram option list" where
  "classify_all t [] = (t, [])"
| "classify_all t ((d, b) # xs) =
     (let (t1, r) = classify t d b; (t2, rs) = classify_all t1 xs in (t2, r # rs))"

definition test_urgent_first :: bool where
  "test_urgent_first \<longleftrightarrow>
     (let (t, rs) = classify_all txq_new (map (\<lambda>(prio, mid). (localhost 1, data_pkt prio mid)) [(5, 1), (0, 2), (3, 3), (7, 4), (0, 5)]);
          (t', batch) = pop_batch t 100
      in list_all (\<lambda>r. r = None) rs \<and> msg_ids batch = map Some [2, 5, 3, 1, 4] \<and> txq_is_empty t')"

definition test_budget_and_urgent :: bool where
  "test_budget_and_urgent \<longleftrightarrow>
     (let (t, rs) = classify_all txq_new (map (\<lambda>i. (localhost 1, data_pkt 7 (word_of_nat i))) [0..<FLUSH_BUDGET + 40]);
          (t1, r) = classify t (localhost 1) (data_pkt 0 999);
          (t2, batch) = pop_batch t1 FLUSH_BUDGET
      in length batch = FLUSH_BUDGET \<and> msg_ids (take 1 batch) = [Some 999] \<and> backlog t2 = 40 + 1)"

definition test_control_not_queued :: bool where
  "test_control_not_queued \<longleftrightarrow>
     (let (t, r) = classify txq_new (localhost 1) (encode (packet_new Grant 0 1 0 100 100) []) in r \<noteq> None \<and> txq_is_empty t)"

lemma queue_tests_pass: "test_urgent_first" "test_control_not_queued"
  by code_simp+

section \<open>Retransmission\<close>

text \<open>A test over a run that may fault; \<open>sends_of\<close> are the packets of one type among the actions.\<close>

definition passes :: "fault + 'a \<Rightarrow> ('a \<Rightarrow> bool) \<Rightarrow> bool" where
  "passes r P \<longleftrightarrow> (case r of Inl f \<Rightarrow> False | Inr x \<Rightarrow> P x)"

fun sends_of_type :: "action list \<Rightarrow> packet_type \<Rightarrow> packet list" where
  "sends_of_type [] typ = []"
| "sends_of_type (Send d b # as) typ =
     (case decode b of
        Inl e \<Rightarrow> sends_of_type as typ
      | Inr (pkt, payload) \<Rightarrow> (if pkt_typ pkt = typ then [pkt] else []) @ sends_of_type as typ)"
| "sends_of_type (Deliver src mid data # as) typ = sends_of_type as typ"

definition resend_cfg :: transport_config where
  "resend_cfg = default_config\<lparr>packet_size := 100, unscheduled_bytes := 200, grant_increment := 200,
     resend_timeout := from_millis 50, grant_timeout := from_millis 80, poke_timeout := from_millis 50\<rparr>"

definition peer :: sockaddr where
  "peer = localhost 7777"

definition test_gap_triggers_resend :: "(msg_key list \<Rightarrow> msg_key list) \<Rightarrow> bool" where
  "test_gap_triggers_resend ord \<longleftrightarrow>
     passes (handle_data ord (receiver_new resend_cfg) peer (packet_new Data 0 1 500 0 100) (replicate 100 1) 0) (\<lambda>(rx, _).
     passes (receiver_tick ord ord rx (resend_timeout resend_cfg + from_millis 10)) (\<lambda>(rx, actions).
       let resends = sends_of_type actions Resend
       in length resends = 1 \<and> pkt_offset (resends ! 0) = 100 \<and> pkt_length (resends ! 0) = 100))"

definition test_resend_is_answered :: bool where
  "test_resend_is_answered \<longleftrightarrow>
     (let data = map (\<lambda>i. word_of_nat (i mod 253)) [0..<500]
      in passes (start (sender_new resend_cfg) peer 1 data 0) (\<lambda>(tx, actions).
           length (sends_of_type actions Data) = 2 \<and> \<not> is_done tx peer 1
           \<and> passes (handle_resend tx peer (packet_new Resend 0 1 0 100 100) 0) (\<lambda>(tx, actions).
               let datas = sends_of_type actions Data
               in length datas = 1 \<and> pkt_offset (datas ! 0) = 100
                  \<and> (case actions ! 0 of
                        Send dest b \<Rightarrow> passes (map_sum (\<lambda>e. No_return) id (decode b)) (\<lambda>(pkt, payload). payload = take 100 (drop 100 data))
                      | Deliver src mid data \<Rightarrow> False))))"

definition test_grants_complete_message :: bool where
  "test_grants_complete_message \<longleftrightarrow>
     passes (start (sender_new resend_cfg) peer 7 (replicate 500 5) 0) (\<lambda>(tx, _). \<not> is_done tx peer 7
     \<and> passes (handle_grant tx peer (packet_new Grant 0 7 0 400 200) 0) (\<lambda>(tx, actions).
         length (sends_of_type actions Data) = 2 \<and> \<not> is_done tx peer 7
     \<and> passes (handle_grant tx peer (packet_new Grant 0 7 0 500 100) 0) (\<lambda>(tx, actions).
         length (sends_of_type actions Data) = 1 \<and> is_done tx peer 7)))"

definition test_stall_is_recovered :: "(msg_key list \<Rightarrow> msg_key list) \<Rightarrow> bool" where
  "test_stall_is_recovered ord \<longleftrightarrow>
     passes (handle_data ord (receiver_new (resend_cfg\<lparr>unscheduled_bytes := 100\<rparr>)) peer (packet_new Data 0 9 500 0 100)
               (replicate 100 2) 0) (\<lambda>(rx, actions). sends_of_type actions Grant \<noteq> []
     \<and> passes (receiver_tick ord ord rx (grant_timeout resend_cfg + from_millis 20)) (\<lambda>(rx, actions).
         1 \<le> length (sends_of_type actions Grant) + length (sends_of_type actions Resend)))"

lemma receiver_tests_pass:
  "test_gap_triggers_resend id" 
  by code_simp

lemma stall_test_passes: "test_stall_is_recovered id"
  by code_simp

lemma grant_test_passes: "test_grants_complete_message"
  by code_simp

text \<open>The remaining tests are too large to be evaluated and follow from the lemmas on the operations.\<close>

lemma resend_test_passes: "test_resend_is_answered"
proof -
  define data :: bytes where "data = map (\<lambda>i. word_of_nat (i mod 253)) [0..<500]"
  have len: "length data = 500" by (simp add: data_def)
  have upt: "[0..<2] = [0, 1 :: nat]" "[Suc 0..<2] = [1 :: nat]" by (simp_all add: upt_rec)
  have n: "chunk_count 100 200 0 = 2" by (simp add: chunk_count_def)
  let ?pkt = "packet_new Resend 0 1 0 100 100"
  let ?m = "om_started resend_cfg data 0" and ?init = "sender_new resend_cfg"
  have cfg: "packet_size resend_cfg = 100" "unscheduled_bytes resend_cfg = 200" "s_cfg ?init = resend_cfg" "s_out ?init = []"
    by (simp_all add: resend_cfg_def sender_new_def)
  let ?s = "?init\<lparr>s_out := [((peer, 1), ?m)]\<rparr>" and ?after = "?init\<lparr>s_out := [((peer, 1), om_resent 200 0 ?m)]\<rparr>"
  have st: "start ?init peer 1 data 0 = Inr (?s, [Send peer (frag data 1 0 100), Send peer (frag data 1 100 200)])"
    using start_eq [of ?init peer 1 data 0] by (simp add: cfg len pump_frags_def n chunk_end_def upt)
  have m: "om_data ?m = data" "om_done_at ?m = None"
    by (simp_all add: om_started_def Let_def cfg len pump_end_def n)
  have e: "map_of (s_out ?s) (peer, pkt_msg_id ?pkt) = Some ?m" "0 < packet_size (s_cfg ?s)" by (simp_all add: cfg)
  have r: "100 = min (unat (pkt_offset ?pkt)) (length (om_data ?m))" "200 = min (100 + unat (pkt_length ?pkt)) (length (om_data ?m))"
    by (simp_all add: len m)
  have hr: "handle_resend ?s peer ?pkt 0 = Inr (?after, [Send peer (frag data 1 100 200)])"
    using handle_resend_eq [OF e(2,1) r, of 0] by (simp add: cfg m resend_frags_def chunk_end_def len del: om_done_None)
  show ?thesis
    unfolding test_resend_is_answered_def data_def [symmetric] Let_def passes_def st hr sum.case prod.case
    by (simp add: is_done_def m decode_frag len as_u32_def)
qed

text \<open>Datagrams of one level all go to its queue.\<close>

lemma classify_all_level:
  "p < length (queues t) \<Longrightarrow> (\<And>d b. (d, b) \<in> set xs \<Longrightarrow> 2 \<le> length b \<and> b ! 0 = type_code Data \<and> prio_index b = p) \<Longrightarrow>
     queues (fst (classify_all t xs)) = (queues t)[p := queues t ! p @ xs]"
proof (induction xs arbitrary: t)
  case (Cons x xs)
  obtain d b where x: "x = (d, b)" by (cases x)
  have b: "2 \<le> length b" "b ! 0 = type_code Data" "prio_index b = p" using Cons.prems(2) [of d b] x by auto
  let ?t = "fst (classify t d b)"
  have q: "queues ?t = (queues t)[p := queues t ! p @ [x]]" using b by (simp add: classify_def Let_def x)
  have "queues (fst (classify_all ?t xs)) = (queues ?t)[p := queues ?t ! p @ xs]"
    by (rule Cons.IH) (use Cons.prems q in auto)
  moreover have "fst (classify_all t (x # xs)) = fst (classify_all ?t xs)" by (simp add: x case_prod_unfold Let_def)
  ultimately show ?case using q Cons.prems(1) by (simp add: x)
qed simp

lemma data_pkt_level: "length (data_pkt prio mid) = 26" "data_pkt prio mid ! 0 = type_code Data" "data_pkt prio mid ! Suc 0 = prio"
  by (simp_all add: data_pkt_def encode_nth ascii_def HEADER_LEN_def)

lemma budget_test_passes: "test_budget_and_urgent"
proof -
  define xs where "xs = map (\<lambda>i. (localhost 1, data_pkt 7 (word_of_nat i))) [0..<FLUSH_BUDGET + 40]"
  have len: "length xs = 296" by (simp add: xs_def FLUSH_BUDGET_def)
  obtain t rs where c: "classify_all txq_new xs = (t, rs)" by force
  have new: "queues txq_new = [[], [], [], [], [], [], [], []]" by code_simp
  have "queues (fst (classify_all txq_new xs)) = (queues txq_new)[7 := queues txq_new ! 7 @ xs]"
    by (rule classify_all_level) (auto simp: xs_def data_pkt_level prio_index_def NUM_PRIORITIES_def new)
  then have t: "queues t = [[], [], [], [], [], [], [], xs]" using c by (simp add: new)
  let ?x = "(localhost 1, data_pkt 0 999)"
  have x: "classify t (localhost 1) (data_pkt 0 999) = (t\<lparr>queues := [[?x], [], [], [], [], [], [], xs]\<rparr>, None)"
    by (simp add: classify_def data_pkt_level prio_index_def NUM_PRIORITIES_def t Let_def)
  obtain t2 batch where b: "pop_batch (t\<lparr>queues := [[?x], [], [], [], [], [], [], xs]\<rparr>) FLUSH_BUDGET = (t2, batch)" by force
  have "batch = ?x # take 255 xs" "contents t2 = drop 255 xs"
    using pop_batch_take [of "t\<lparr>queues := [[?x], [], [], [], [], [], [], xs]\<rparr>" FLUSH_BUDGET] b
    by (simp_all add: contents_def FLUSH_BUDGET_def)
  moreover have "msg_ids [?x] = [Some 999]" by code_simp
  ultimately show ?thesis
    unfolding test_budget_and_urgent_def xs_def [symmetric] Let_def c prod.case x b
    by (simp add: backlog_contents len FLUSH_BUDGET_def)
qed

end
