(* ===== verification/GivingUp.thy ===== *)
theory GivingUp
  imports Delivery
begin

text \<open>
  The end of a message that never completes: how often the timer asks for a gap that nobody fills, over any
  run of the receiver with packets of other messages, grants to this one, and ticks at any times.
\<close>

section \<open>Requests in the output\<close>

text \<open>The offsets of the RESENDs for a message.\<close>

fun resends_for :: "msg_key \<Rightarrow> action list \<Rightarrow> u32 list" where
  "resends_for key [] = []"
| "resends_for key (Send d b # as) =
     (case decode b of
        Inl e \<Rightarrow> []
      | Inr (pkt, payload) \<Rightarrow> if pkt_typ pkt = Resend \<and> (d, pkt_msg_id pkt) = key then [pkt_offset pkt] else []) @ resends_for key as"
| "resends_for key (Deliver src mid data # as) = resends_for key as"

lemma resends_for_append [simp]: "resends_for key (as @ bs) = resends_for key as @ resends_for key bs"
  by (induction key as rule: resends_for.induct) auto

lemma decode_control: "pkt_typ p \<noteq> Data \<Longrightarrow> decode (encode p []) = Inr (p, [])"
  by (rule decode_encode_id) (simp add: wire_ok_def)

lemma resends_for_resend: "resends_for key [resend_packet cfg k m off] = (if k = key then [as_u32 off] else [])"
  by (auto simp: resend_packet_def decode_control)

lemma resends_for_grant: "resends_for key [grant_packet k m t] = []"
  by (simp add: grant_packet_def decode_control)

lemma resends_for_issue: "issue_grant r k now force = (r', as) \<Longrightarrow> resends_for key as = []"
  by (erule issue_grant_cases) (simp_all add: resends_for_grant)

lemma resends_for_grant_all: "grant_all r ks now = (r', as) \<Longrightarrow> resends_for key as = []"
proof (induction ks arbitrary: r r' as)
  case (Cons k ks)
  obtain r1 as1 r2 as2 where s: "issue_grant r k now False = (r1, as1)" "grant_all r1 ks now = (r2, as2)"
    by (metis surj_pair)
  with Cons.IH [OF s(2)] Cons.prems resends_for_issue [OF s(1), of key] show ?case by auto
qed simp

lemma resends_for_schedule: "schedule ord r now = Inr (r', as) \<Longrightarrow> resends_for key as = []"
  using resends_for_grant_all [where key = key] by (auto simp: schedule_def Let_def bind_res_Inr_iff)

lemma resends_for_handle_data:
  assumes "handle_data ord r src pkt payload now = Inr (r', as)"
  shows "resends_for key as = []"
  using assms
proof (cases rule: handle_data_Inr)
  case (empty m r1 as1 as2)
  then show ?thesis by (auto simp: deliver_def Let_def resends_for_schedule)
next
  case (stored m m' r1 as1 as2)
  then show ?thesis by (auto simp: settle_def deliver_def Let_def resends_for_schedule split: if_splits)
qed (simp_all add: decode_control)

lemma resends_for_recover_other:
  assumes "recover r k now = (r', as)" "k \<noteq> key"
  shows "resends_for key as = []"
  using assms(1)
proof (cases rule: recover_cases)
  case (regrant m)
  then show ?thesis by (auto dest: resends_for_issue split: if_splits)
qed (use assms(2) in \<open>auto simp: resends_for_resend\<close>)

lemma resends_for_recover_all_other:
  "recover_all r ks now = (r', as) \<Longrightarrow> key \<notin> set ks \<Longrightarrow> resends_for key as = []"
proof (induction ks arbitrary: r r' as)
  case (Cons k ks)
  obtain r1 as1 r2 as2 where s: "recover r k now = (r1, as1)" "recover_all r1 ks now = (r2, as2)"
    by (metis surj_pair)
  with Cons.IH [OF s(2)] Cons.prems resends_for_recover_other [OF s(1), of key] show ?case by auto
qed simp

section \<open>The timer at an unfilled gap\<close>

text \<open>
  An entry that has received nothing since it was \<open>m\<close>: what the timer and the scheduler may have
  changed of it. Its resend counter is \<open>u\<close>, and \<open>t\<close> is when it was last asked for, or when the last chunk came.
\<close>

definition unfilled :: "in_msg \<Rightarrow> instant \<Rightarrow> nat \<Rightarrow> in_msg \<Rightarrow> bool" where
  "unfilled m t u x \<longleftrightarrow> im_total_len x = im_total_len m \<and> im_received x = im_received m
     \<and> im_granted_to m \<le> im_granted_to x \<and> im_last_progress x = t \<and> im_unanswered_resends x = u"

lemma unfilled_gap: "unfilled m t u x \<Longrightarrow> gap_at ps m off \<Longrightarrow> gap_at ps x off"
  by (auto simp: unfilled_def gap_at_def first_missing_offset_def)

lemma unfilled_stable: "grant_stable inc (\<lambda>k x. k = key \<longrightarrow> unfilled m t u x)"
  by (auto simp: grant_stable_def unfilled_def grant_target_def)

lemma recover_all_gap:
  "recover_all r ks now = (r', as) \<Longrightarrow> distinct ks \<Longrightarrow> map_of (r_incoming r) key = Some x \<Longrightarrow>
     gap_at (packet_size (r_cfg r)) x off \<Longrightarrow> r_cfg r = cfg \<Longrightarrow>
     resends_for key as = (if key \<in> set ks \<and> resend_timeout cfg \<le> now - im_last_progress x then [as_u32 off] else [])
     \<and> map_of (r_incoming r') key =
         (if key \<in> set ks \<and> resend_timeout cfg \<le> now - im_last_progress x
          then if im_unanswered_resends x < MAX_UNANSWERED_RESENDS
               then Some (x\<lparr>im_last_progress := now, im_unanswered_resends := im_unanswered_resends x + 1\<rparr>) else None
          else Some x)"
proof (induction ks arbitrary: r r' as)
  case (Cons k ks)
  obtain r1 as1 r2 as2 where s: "recover r k now = (r1, as1)" "recover_all r1 ks now = (r2, as2)"
    by (metis surj_pair)
  have as: "as = as1 @ as2" "r' = r2" using Cons.prems(1) s by simp_all
  show ?case
  proof (cases "k = key")
    case True
    have rest: "map_of (r_incoming r2) key = map_of (r_incoming r1) key" "resends_for key as2 = []"
      using recover_all_other [OF s(2)] resends_for_recover_all_other [OF s(2)] Cons.prems(2) True by simp_all
    show ?thesis
    proof (cases "resend_timeout cfg \<le> now - im_last_progress x")
      case due: True
      with recover_gap [OF Cons.prems(3,4)] s(1) True Cons.prems(5) rest show ?thesis
        by (auto simp: as resends_for_resend update_conv' delete_conv')
    next
      case False
      with s(1) True Cons.prems(3,5) have "r1 = r" "as1 = []" by (auto simp: recover_def not_le)
      with False rest Cons.prems(3) show ?thesis by (simp add: as)
    qed
  next
    case False
    have o: "map_of (r_incoming r1) key = Some x" "r_cfg r1 = r_cfg r"
      using recover_other [OF s(1), of key] False Cons.prems(3) by auto
    from Cons.IH [OF s(2) _ o(1)] Cons.prems o(2) resends_for_recover_other [OF s(1) False] False show ?thesis
      by (auto simp: as)
  qed
qed simp

text \<open>A message is given up, or still lacks what it lacked.\<close>

definition chased :: "msg_key \<Rightarrow> in_msg \<Rightarrow> instant \<Rightarrow> nat \<Rightarrow> receiver_core \<Rightarrow> bool" where
  "chased key m t u r \<longleftrightarrow> (if MAX_UNANSWERED_RESENDS < u then map_of (r_incoming r) key = None
     else \<exists>x. map_of (r_incoming r) key = Some x \<and> unfilled m t u x)"

lemma chased_schedule:
  assumes "recv_inv r" "iter_order ord" "schedule ord r now = Inr (r', as)" "chased key m t u r"
  shows "chased key m t u r'"
proof (cases "MAX_UNANSWERED_RESENDS < u")
  case True
  with assms(4) schedule_keeps_absent [OF assms(1,3,2)] show ?thesis by (simp add: chased_def)
next
  case False
  with assms(4) obtain x where x: "map_of (r_incoming r) key = Some x" "unfilled m t u x" by (auto simp: chased_def)
  show ?thesis
    by (rule schedule_keeps_entry [OF assms(1,3,2) x(1), of "unfilled m t u"]) (use x(2) unfilled_stable False in \<open>auto simp: chased_def\<close>)
qed

lemma chased_data:
  assumes "recv_inv r" "iter_order ord" "handle_data ord r src pkt payload now = Inr (r', as)" "key \<noteq> (src, pkt_msg_id pkt)"
    "chased key m t u r"
  shows "chased key m t u r'"
  using assms(1-4)
proof (cases rule: handle_data_other)
  case (2 r1 as2)
  have "chased key m t u r1" using assms(5) 2(3) by (simp add: chased_def)
  then show ?thesis by (rule chased_schedule [OF 2(1) assms(2) 2(5)])
qed (use assms(5) in simp)

lemma chased_tick:
  assumes inv: "recv_inv r" and ord: "iter_order ord" "iter_order ord'" and tk: "receiver_tick ord ord' r now = Inr (r', as)"
    and c: "chased key m t u r" and gap: "gap_at (packet_size (r_cfg r)) m off"
  defines "due \<equiv> resend_timeout (r_cfg r) \<le> now - t"
  shows "chased key m (if due then now else t) (if due then Suc u else u) r'
    \<and> resends_for key as = (if due \<and> u \<le> MAX_UNANSWERED_RESENDS then [as_u32 off] else [])"
proof -
  let ?ks = "ord (hm_keys (r_incoming r))"
  obtain r1 as1 where r1: "recover_all r ?ks now = (r1, as1)" by force
  from tk r1 obtain as2 where s: "schedule ord' r1 now = Inr (r', as2)" "as = as1 @ as2"
    by (auto simp: receiver_tick_def bind_res_Inr_iff)
  have inv1: "recv_inv r1" using recover_all_quiet [OF inv r1] by (simp add: quiet_step_def)
  have d: "distinct ?ks" using inv ord(1) by (simp add: iter_order_distinct recv_inv_def)
  have "chased key m (if due then now else t) (if due then Suc u else u) r1
    \<and> resends_for key as1 = (if due \<and> u \<le> MAX_UNANSWERED_RESENDS then [as_u32 off] else [])"
  proof (cases "MAX_UNANSWERED_RESENDS < u")
    case True
    then have "map_of (r_incoming r) key = None" using c by (simp add: chased_def)
    then have "key \<notin> set ?ks" using ord(1) by (simp add: iter_order_set map_of_eq_None_iff)
    with recover_all_other [OF r1] resends_for_recover_all_other [OF r1] True \<open>map_of (r_incoming r) key = None\<close>
    show ?thesis by (simp add: chased_def)
  next
    case False
    then obtain x where x: "map_of (r_incoming r) key = Some x" "unfilled m t u x" using c by (auto simp: chased_def)
    have "key \<in> set ?ks"
      using x(1) ord(1) by (auto simp: iter_order_set dest: map_of_SomeD intro: rev_image_eqI)
    with recover_all_gap [OF r1 d x(1) unfilled_gap [OF x(2) gap] refl] x(2) False show ?thesis
      by (auto simp: chased_def unfilled_def due_def)
  qed
  with chased_schedule [OF inv1 ord(2) s(1)] resends_for_schedule [OF s(1)] show ?thesis by (simp add: s(2))
qed

section \<open>Runs\<close>

text \<open>
  How many of the ticks find the timeout \<open>d\<close> passed, when it starts anew at each of these; \<open>t\<close> is where it starts.
\<close>

fun timeouts :: "duration \<Rightarrow> instant \<Rightarrow> receiver_event list \<Rightarrow> nat" where
  "timeouts d t [] = 0"
| "timeouts d t (RTick ord ord' now # es) = (if d \<le> now - t then Suc (timeouts d now es) else timeouts d t es)"
| "timeouts d t (RData ord src pkt payload now # es) = timeouts d t es"

fun packet_for :: "msg_key \<Rightarrow> receiver_event \<Rightarrow> bool" where
  "packet_for key (RData ord src pkt payload now) = (key = (src, pkt_msg_id pkt))"
| "packet_for key (RTick ord ord' now) = False"

lemma chased_run:
  "recv_inv r \<Longrightarrow> list_all orders_ok es \<Longrightarrow> run_steps receiver_step r es = Inr (r', as) \<Longrightarrow>
     list_all (\<lambda>e. \<not> packet_for key e) es \<Longrightarrow> gap_at (packet_size (r_cfg r)) m off \<Longrightarrow> chased key m t u r \<Longrightarrow>
     (\<exists>t'. chased key m t' (u + timeouts (resend_timeout (r_cfg r)) t es) r')
     \<and> resends_for key as =
        replicate (min (timeouts (resend_timeout (r_cfg r)) t es) (Suc MAX_UNANSWERED_RESENDS - u)) (as_u32 off)"
proof (induction es arbitrary: r as t u)
  case (Cons e es)
  from Cons.prems(3) obtain r1 as1 as2 where s: "receiver_step r e = Inr (r1, as1)"
    "run_steps receiver_step r1 es = Inr (r', as2)" "as = as1 @ as2"
    by (auto simp: bind_res_Inr_iff)
  have r1: "recv_inv r1" "r_cfg r1 = r_cfg r"
    using receiver_step_sound [OF Cons.prems(1) _ s(1)] Cons.prems(2) by (simp_all add: sound_step_def)
  note ih = Cons.IH [OF r1(1) _ s(2), unfolded r1(2), OF _ _ Cons.prems(5)]
  show ?case
  proof (cases e)
    case (RData ord src pkt payload now)
    with s(1) Cons.prems have "chased key m t u r1" "resends_for key as1 = []"
      by (auto intro: chased_data simp: resends_for_handle_data)
    with ih [of t u] Cons.prems(2,4) RData s(3) show ?thesis by simp
  next
    case (RTick ord ord' now)
    let ?due = "resend_timeout (r_cfg r) \<le> now - t"
    have "chased key m (if ?due then now else t) (if ?due then Suc u else u) r1
      \<and> resends_for key as1 = (if ?due \<and> u \<le> MAX_UNANSWERED_RESENDS then [as_u32 off] else [])"
      by (rule chased_tick [OF Cons.prems(1) _ _ _ Cons.prems(6,5)]) (use s(1) Cons.prems(2) RTick in simp_all)
    with ih [of "if ?due then now else t" "if ?due then Suc u else u"] Cons.prems(2,4) RTick s(3) show ?thesis
      by (cases "u \<le> MAX_UNANSWERED_RESENDS") (auto simp: Suc_diff_le simp flip: replicate_Suc)
  qed
qed auto

text \<open>
  C29: Retries are bounded: over any run in which no packet of a message arrives, with packets of other
  messages, grants and ticks at any times, its first gap within the window is asked for at every tick that finds
  the resend timeout passed, by a RESEND with the same offset, until the 41st unanswered request, with
  which the message is given up and its state freed, for good; and not before.
\<close>

theorem unanswered_resends_give_up:
  assumes "recv_inv r" "list_all orders_ok es" "run_steps receiver_step r es = Inr (r', as)"
    "map_of (r_incoming r) key = Some m" "gap_at (packet_size (r_cfg r)) m off" "list_all (\<lambda>e. \<not> packet_for key e) es"
  defines "n \<equiv> timeouts (resend_timeout (r_cfg r)) (im_last_progress m) es"
  shows "resends_for key as = replicate (min n (Suc MAX_UNANSWERED_RESENDS - im_unanswered_resends m)) (as_u32 off)
    \<and> (map_of (r_incoming r') key = None \<longleftrightarrow> MAX_UNANSWERED_RESENDS < im_unanswered_resends m + n)"
proof -
  have "im_unanswered_resends m \<le> MAX_UNANSWERED_RESENDS" using recv_inv_entry [OF assms(1,4)] by (simp add: in_msg_ok_def)
  then have "chased key m (im_last_progress m) (im_unanswered_resends m) r"
    using assms(4) by (simp add: chased_def unfilled_def)
  from chased_run [OF assms(1-3,6,5) this] show ?thesis by (auto simp: chased_def n_def split: if_splits)
qed

text \<open>A message asked for 38 times before, and another one; ticks too early and in time, a packet of a third one.\<close>

definition example_dying :: receiver_core where
  "example_dying = example_receiver\<lparr>r_incoming := [((localhost 8, 1), example_entry 30 1\<lparr>im_unanswered_resends := 38\<rparr>),
     ((localhost 7, 2), example_entry 20 0)]\<rparr>"

definition example_death :: "receiver_event list" where
  "example_death = map (RTick rev (\<lambda>ks. ks)) [20000000, 20000001, 40000000]
     @ RData rev (localhost 9) (example_packet 0) (example_payload 0) 50000000 # map (RTick rev (\<lambda>ks. ks)) [60000000, 80000000]"

theorem unanswered_resends_give_up_witness:
  "let key = (localhost 8, 1)
   in \<exists>r' as. run_steps receiver_step example_dying example_death = Inr (r', as)
     \<and> resends_for key as = replicate 3 4 \<and> map_of (r_incoming r') key = None"
proof -
  let ?key = "(localhost 8, 1)" and ?m = "example_entry 30 1\<lparr>im_unanswered_resends := 38\<rparr>"
  have "run_steps receiver_step example_dying example_death
      = Inr (projr (run_steps receiver_step example_dying example_death))"
    by code_simp
  then obtain r' as where run: "run_steps receiver_step example_dying example_death = Inr (r', as)" by (metis surj_pair)
  have "in_msg_ok (small_config\<lparr>max_incoming := 5, starve_threshold := 100\<rparr>) ?m"
    using example_entry_ok [of 30 1] example_chunks by (simp add: in_msg_ok_def MAX_UNANSWERED_RESENDS_def)
  then have inv: "recv_inv example_dying"
    by (auto simp: recv_inv_def example_dying_def example_receiver_def example_entry_ok all_entries_def split: if_splits)
  have ord: "list_all orders_ok example_death" by (simp add: example_death_def iter_order_rev)
  have m: "map_of (r_incoming example_dying) ?key = Some ?m" by (simp add: example_dying_def)
  have c: "gap_at (packet_size (r_cfg example_dying)) ?m 4" "list_all (\<lambda>e. \<not> packet_for ?key e) example_death"
    "timeouts (resend_timeout (r_cfg example_dying)) (im_last_progress ?m) example_death = 4"
    "Suc MAX_UNANSWERED_RESENDS - im_unanswered_resends ?m = 3" "MAX_UNANSWERED_RESENDS < im_unanswered_resends ?m + 4"
    by code_simp+
  from unanswered_resends_give_up [OF inv ord run m c(1,2), unfolded c(3,4)] c(5) run show ?thesis
    unfolding Let_def by (simp add: as_u32_def numeral_eq_Suc)
qed

end
